(* ===== verification/Prelude.thy ===== *)
theory Prelude
  imports
    Main
    "HOL-Library.Word"
    "HOL-Library.AList"
    "HOL-Library.Multiset"
    "HOL-Library.List_Lexorder"
    "HOL-Library.Char_ord"
    "HOL-Library.Product_Lexorder"
begin

text \<open>
  What every component of the development shares: fallible results as sums, computations that may
  also fail to return, association lists for the hash maps of the code, big-endian integers as byte
  lists, saturating and checked machine arithmetic, and sorting by a comparison function.
\<close>

named_theorems result_simps \<open>unfolding fallible results\<close>
named_theorems codec_simps \<open>fixed-width encoders and decoders\<close>

section \<open>Fallible results\<close>

text \<open>\<^verbatim>\<open>Result<T, E>\<close> of the code: \<open>Inl\<close> is \<^verbatim>\<open>Err\<close>, \<open>Inr\<close> is \<^verbatim>\<open>Ok\<close>; \<open>rbind\<close> is the \<^verbatim>\<open>?\<close> operator.\<close>

type_synonym ('e, 'a) result = "'e + 'a"

definition rbind :: "'e + 'a \<Rightarrow> ('a \<Rightarrow> 'e + 'b) \<Rightarrow> 'e + 'b" where
  "rbind m f = (case m of Inl e \<Rightarrow> Inl e | Inr x \<Rightarrow> f x)"

definition rmap :: "('a \<Rightarrow> 'b) \<Rightarrow> 'e + 'a \<Rightarrow> 'e + 'b" where
  "rmap f m = (case m of Inl e \<Rightarrow> Inl e | Inr x \<Rightarrow> Inr (f x))"

definition rmap_err :: "('e \<Rightarrow> 'f) \<Rightarrow> 'e + 'a \<Rightarrow> 'f + 'a" where
  "rmap_err f m = (case m of Inl e \<Rightarrow> Inl (f e) | Inr x \<Rightarrow> Inr x)"

definition is_ok :: "'e + 'a \<Rightarrow> bool" where
  "is_ok m = (case m of Inl _ \<Rightarrow> False | Inr _ \<Rightarrow> True)"

lemma rbind_simps [simp, result_simps]:
  "rbind (Inl e) f = Inl e"
  "rbind (Inr x) f = f x"
  by (simp_all add: rbind_def)

lemma rmap_simps [simp, result_simps]:
  "rmap g (Inl e) = Inl e"
  "rmap g (Inr x) = Inr (g x)"
  by (simp_all add: rmap_def)

lemma rmap_err_simps [simp, result_simps]:
  "rmap_err g (Inl e) = Inl (g e)"
  "rmap_err g (Inr x) = Inr x"
  by (simp_all add: rmap_err_def)

lemma is_ok_simps [simp, result_simps]:
  "\<not> is_ok (Inl e)"
  "is_ok (Inr x)"
  by (simp_all add: is_ok_def)

lemma is_ok_iff: "is_ok m \<longleftrightarrow> (\<exists>x. m = Inr x)"
  by (cases m) auto

lemma rbind_Inr_iff [simp]: "rbind m f = Inr y \<longleftrightarrow> (\<exists>x. m = Inr x \<and> f x = Inr y)"
  by (cases m) auto

lemma rbind_Inl_iff: "rbind m f = Inl e \<longleftrightarrow> m = Inl e \<or> (\<exists>x. m = Inr x \<and> f x = Inl e)"
  by (cases m) auto

lemma rmap_Inr_iff [simp]: "rmap g m = Inr y \<longleftrightarrow> (\<exists>x. m = Inr x \<and> g x = y)"
  by (cases m) auto

lemma rmap_err_Inr_iff [simp]: "rmap_err g m = Inr y \<longleftrightarrow> m = Inr y"
  by (cases m) auto

lemma rbind_cong [fundef_cong]:
  "m = m' \<Longrightarrow> (\<And>x. m' = Inr x \<Longrightarrow> f x = f' x) \<Longrightarrow> rbind m f = rbind m' f'"
  by (cases m') auto

lemma rbind_split: "P (rbind m f) \<longleftrightarrow> (\<forall>e. m = Inl e \<longrightarrow> P (Inl e)) \<and> (\<forall>x. m = Inr x \<longrightarrow> P (f x))"
  by (cases m) auto

text \<open>Collecting a stream of results: the first error ends it (\<^verbatim>\<open>try_collect\<close>, \<^verbatim>\<open>try_fold\<close>).\<close>

fun rmapM :: "('a \<Rightarrow> 'e + 'b) \<Rightarrow> 'a list \<Rightarrow> 'e + 'b list" where
  "rmapM f [] = Inr []"
| "rmapM f (x # xs) = rbind (f x) (\<lambda>y. rmap ((#) y) (rmapM f xs))"

fun rfoldM :: "('s \<Rightarrow> 'a \<Rightarrow> 'e + 's) \<Rightarrow> 's \<Rightarrow> 'a list \<Rightarrow> 'e + 's" where
  "rfoldM f s [] = Inr s"
| "rfoldM f s (x # xs) = rbind (f s x) (\<lambda>s'. rfoldM f s' xs)"

lemma rmapM_Inr_iff: "rmapM f xs = Inr ys \<longleftrightarrow> list_all2 (\<lambda>x y. f x = Inr y) xs ys"
  by (induction xs arbitrary: ys) (auto simp: list_all2_Cons1)

lemma rmapM_total: "(\<And>x. x \<in> set xs \<Longrightarrow> f x = Inr (g x)) \<Longrightarrow> rmapM f xs = Inr (map g xs)"
  by (induction xs) auto

lemma rmapM_Inl_E: "rmapM f xs = Inl e \<Longrightarrow> \<exists>x \<in> set xs. f x = Inl e"
  by (induction xs) (auto simp: rbind_def rmap_def split: sum.splits)

lemma rfoldM_append: "rfoldM f s (xs @ ys) = rbind (rfoldM f s xs) (\<lambda>s'. rfoldM f s' ys)"
proof (induction xs arbitrary: s)
  case (Cons x xs)
  then show ?case by (cases "f s x") auto
qed simp

text \<open>An invariant of the accumulator, kept by every step that does not fail.\<close>

lemma rfoldM_invariant:
  assumes "rfoldM f s xs = Inr t" and "I s"
    and "\<And>s x s'. I s \<Longrightarrow> x \<in> set xs \<Longrightarrow> f s x = Inr s' \<Longrightarrow> I s'"
  shows "I t"
  using assms
proof (induction xs arbitrary: s)
  case (Cons x xs)
  from Cons.prems(1) obtain s' where s': "f s x = Inr s'" "rfoldM f s' xs = Inr t" by auto
  have "I s'" by (rule Cons.prems(3) [OF Cons.prems(2) _ s'(1)]) simp
  then show ?case by (rule Cons.IH [OF s'(2)]) (rule Cons.prems(3), simp_all)
qed simp

text \<open>
  A computation that may not return: \<open>None\<close> is divergence, \<open>Some (Inl e)\<close> an error and
  \<open>Some (Inr v)\<close> a value.
\<close>

type_synonym ('e, 'a) comp = "('e + 'a) option"

definition cbind :: "('e, 'a) comp \<Rightarrow> ('a \<Rightarrow> ('e, 'b) comp) \<Rightarrow> ('e, 'b) comp" where
  "cbind m f = (case m of None \<Rightarrow> None | Some (Inl e) \<Rightarrow> Some (Inl e) | Some (Inr x) \<Rightarrow> f x)"

lemma cbind_simps [simp, result_simps]:
  "cbind None f = None"
  "cbind (Some (Inl e)) f = Some (Inl e)"
  "cbind (Some (Inr x)) f = f x"
  by (simp_all add: cbind_def)

lemma cbind_Some_Inr_iff [simp]:
  "cbind m f = Some (Inr y) \<longleftrightarrow> (\<exists>x. m = Some (Inr x) \<and> f x = Some (Inr y))"
  by (auto simp: cbind_def split: option.splits sum.splits)

lemma cbind_not_None: "m \<noteq> None \<Longrightarrow> (\<And>x. m = Some (Inr x) \<Longrightarrow> f x \<noteq> None) \<Longrightarrow> cbind m f \<noteq> None"
  by (auto simp: cbind_def split: option.splits sum.splits)

fun cmapM :: "('a \<Rightarrow> ('e, 'b) comp) \<Rightarrow> 'a list \<Rightarrow> ('e, 'b list) comp" where
  "cmapM f [] = Some (Inr [])"
| "cmapM f (x # xs) = cbind (f x) (\<lambda>y. cbind (cmapM f xs) (\<lambda>ys. Some (Inr (y # ys))))"

fun cfoldM :: "('s \<Rightarrow> 'a \<Rightarrow> ('e, 's) comp) \<Rightarrow> 's \<Rightarrow> 'a list \<Rightarrow> ('e, 's) comp" where
  "cfoldM f s [] = Some (Inr s)"
| "cfoldM f s (x # xs) = cbind (f s x) (\<lambda>s'. cfoldM f s' xs)"

lemma cmapM_Inr_iff: "cmapM f xs = Some (Inr ys) \<longleftrightarrow> list_all2 (\<lambda>x y. f x = Some (Inr y)) xs ys"
  by (induction xs arbitrary: ys) (auto simp: list_all2_Cons1)

lemma cmapM_not_None: "(\<And>x. x \<in> set xs \<Longrightarrow> f x \<noteq> None) \<Longrightarrow> cmapM f xs \<noteq> None"
proof (induction xs)
  case (Cons x xs)
  then have "f x \<noteq> None" and "cmapM f xs \<noteq> None" by (simp_all del: not_None_eq)
  then show ?case by (auto simp: cbind_def split: option.splits sum.splits)
qed simp

lemma cfoldM_invariant:
  assumes "cfoldM f s xs = Some (Inr t)" and "I s"
    and "\<And>s x s'. I s \<Longrightarrow> x \<in> set xs \<Longrightarrow> f s x = Some (Inr s') \<Longrightarrow> I s'"
  shows "I t"
  using assms
proof (induction xs arbitrary: s)
  case (Cons x xs)
  from Cons.prems(1) obtain s' where s': "f s x = Some (Inr s')" "cfoldM f s' xs = Some (Inr t)"
    by auto
  have "I s'" by (rule Cons.prems(3) [OF Cons.prems(2) _ s'(1)]) simp
  then show ?case by (rule Cons.IH [OF s'(2)]) (rule Cons.prems(3), simp_all)
qed simp

lemma cfoldM_not_None:
  assumes "I s"
    and "\<And>s x. I s \<Longrightarrow> x \<in> set xs \<Longrightarrow> f s x \<noteq> None"
    and "\<And>s x s'. I s \<Longrightarrow> x \<in> set xs \<Longrightarrow> f s x = Some (Inr s') \<Longrightarrow> I s'"
  shows "cfoldM f s xs \<noteq> None"
  using assms
proof (induction xs arbitrary: s)
  case (Cons x xs)
  have "f s x \<noteq> None" by (rule Cons.prems(2) [OF Cons.prems(1)]) simp
  moreover have "cfoldM f s' xs \<noteq> None" if eq: "f s x = Some (Inr s')" for s'
  proof (rule Cons.IH)
    show "I s'" by (rule Cons.prems(3) [OF Cons.prems(1) _ eq]) simp
  next
    fix t y assume "I t" "y \<in> set xs"
    then show "f t y \<noteq> None" by (intro Cons.prems(2)) simp_all
  next
    fix t y t' assume "I t" "y \<in> set xs" "f t y = Some (Inr t')"
    then show "I t'" by (intro Cons.prems(3) [of t y t']) simp_all
  qed
  ultimately show ?case by (simp add: cbind_not_None del: not_None_eq)
qed simp

section \<open>Machine arithmetic\<close>

text \<open>\<^verbatim>\<open>usize\<close> is 64 bits wide on every target the repository builds for.\<close>

definition usize_max :: nat where
  "usize_max = 2 ^ 64 - 1"

definition sat_add :: "nat \<Rightarrow> nat \<Rightarrow> nat" where
  "sat_add a b = min (a + b) usize_max"

text \<open>\<^verbatim>\<open>checked!(a + b)\<close> and \<^verbatim>\<open>checked!(a * b)\<close> over \<^verbatim>\<open>usize\<close>.\<close>

definition checked_add :: "nat \<Rightarrow> nat \<Rightarrow> nat option" where
  "checked_add a b = (if a + b \<le> usize_max then Some (a + b) else None)"

definition checked_mul :: "nat \<Rightarrow> nat \<Rightarrow> nat option" where
  "checked_mul a b = (if a * b \<le> usize_max then Some (a * b) else None)"

text \<open>\<^verbatim>\<open>validated!(a + b)\<close> in a release build: the plain, wrapping operator.\<close>

definition validated_add :: "nat \<Rightarrow> nat \<Rightarrow> nat" where
  "validated_add a b = (a + b) mod 2 ^ 64"

text \<open>Small sums are computed without the bounds.\<close>

lemma sat_add_code [code]: "sat_add a b = (if a + b < 256 then a + b else min (a + b) usize_max)"
  by (simp add: sat_add_def usize_max_def)

lemma validated_add_code [code]: "validated_add a b = (if a + b < 256 then a + b else (a + b) mod 2 ^ 64)"
  by (simp add: validated_add_def)

lemma sat_add_exact: "a + b \<le> usize_max \<Longrightarrow> sat_add a b = a + b"
  by (simp add: sat_add_def)

lemma validated_add_exact: "a + b \<le> usize_max \<Longrightarrow> validated_add a b = a + b"
  by (simp add: validated_add_def usize_max_def)

lemma checked_add_Some [simp]: "checked_add a b = Some c \<longleftrightarrow> a + b \<le> usize_max \<and> c = a + b"
  by (auto simp: checked_add_def)

lemma checked_mul_Some [simp]: "checked_mul a b = Some c \<longleftrightarrow> a * b \<le> usize_max \<and> c = a * b"
  by (auto simp: checked_mul_def)

section \<open>Association lists for the hash maps of the code\<close>

text \<open>
  \<open>upsert k d f m\<close> is \<^verbatim>\<open>f(m.entry(k).or_insert(d))\<close>: a map with one entry per key, in insertion order.
\<close>

fun upsert :: "'k \<Rightarrow> 'v \<Rightarrow> ('v \<Rightarrow> 'v) \<Rightarrow> ('k \<times> 'v) list \<Rightarrow> ('k \<times> 'v) list" where
  "upsert k d f [] = [(k, f d)]"
| "upsert k d f ((k', v) # m) = (if k = k' then (k, f v) # m else (k', v) # upsert k d f m)"

definition keys :: "('k \<times> 'v) list \<Rightarrow> 'k list" where
  "keys m = map fst m"

definition contains_key :: "('k \<times> 'v) list \<Rightarrow> 'k \<Rightarrow> bool" where
  "contains_key m k = (map_of m k \<noteq> None)"

lemma map_of_upsert:
  "map_of (upsert k d f m) = (map_of m)(k \<mapsto> f (case map_of m k of None \<Rightarrow> d | Some v \<Rightarrow> v))"
  by (induction k d f m rule: upsert.induct) (auto simp: fun_eq_iff)

lemma set_keys_upsert [simp]: "set (keys (upsert k d f m)) = insert k (set (keys m))"
  by (induction k d f m rule: upsert.induct) (auto simp: keys_def)

lemma keys_simps [simp]: "keys [] = []" "keys (p # m) = fst p # keys m"
  by (simp_all add: keys_def)

lemma keys_upsert: "keys (upsert k d f m) = (if k \<in> set (keys m) then keys m else keys m @ [k])"
  by (induction k d f m rule: upsert.induct) auto

lemma distinct_keys_upsert: "distinct (keys m) \<Longrightarrow> distinct (keys (upsert k d f m))"
  by (simp add: keys_upsert)

lemma contains_key_iff [simp]: "contains_key m k \<longleftrightarrow> k \<in> set (keys m)"
  by (simp add: contains_key_def keys_def map_of_eq_None_iff [symmetric] del: not_None_eq)
    (metis map_of_eq_None_iff list.set_map)

lemma map_of_Some_keys: "map_of m k = Some v \<Longrightarrow> k \<in> set (keys m)"
  by (metis contains_key_def contains_key_iff option.distinct(1))

lemma keys_map_of_Some: "k \<in> set (keys m) \<Longrightarrow> \<exists>v. map_of m k = Some v"
  by (metis contains_key_def contains_key_iff option.exhaust)

lemma map_of_eq_Some_distinct: "distinct (keys m) \<Longrightarrow> map_of m k = Some v \<longleftrightarrow> (k, v) \<in> set m"
  by (simp add: keys_def map_of_eq_Some_iff)

text \<open>\<^verbatim>\<open>map.insert(k, v)\<close>: one entry per key, the new value replaces the old.\<close>

definition map_insert :: "'k \<Rightarrow> 'v \<Rightarrow> ('k \<times> 'v) list \<Rightarrow> ('k \<times> 'v) list" where
  "map_insert k v = upsert k v (\<lambda>_. v)"

lemma map_of_map_insert [simp]: "map_of (map_insert k v m) = (map_of m)(k \<mapsto> v)"
  by (simp add: map_insert_def map_of_upsert)

lemma keys_map_insert [simp]: "set (keys (map_insert k v m)) = insert k (set (keys m))"
  by (simp add: map_insert_def)

lemma distinct_keys_map_insert: "distinct (keys m) \<Longrightarrow> distinct (keys (map_insert k v m))"
  by (simp add: map_insert_def distinct_keys_upsert)

end
