(* ===== verification/Codec.thy ===== *)
theory Codec
  imports Prelude
begin

text \<open>
  Big-endian integers as byte lists, the interface of a fixed-width codec, and the byte-slice reads
  of the code: \<^verbatim>\<open>to_be_bytes\<close>, \<^verbatim>\<open>from_be_bytes\<close>, indexing and range indexing, whose panic is the value
  \<open>None\<close>. The integer helpers of \<^verbatim>\<open>src/core/utils/bytes.rs\<close> are here.
\<close>

type_synonym byte = "8 word"
type_synonym u32 = "32 word"
type_synonym u64 = "64 word"

text \<open>An \<^verbatim>\<open>i64\<close> is its 64 bits, read through \<open>sint\<close>: \<^verbatim>\<open>as u64\<close> and \<^verbatim>\<open>as i64\<close> are the identity on them.\<close>

type_synonym i64 = "64 word"

section \<open>Big-endian numbers\<close>

fun be_bytes :: "nat \<Rightarrow> nat \<Rightarrow> byte list" where
  "be_bytes 0 v = []"
| "be_bytes (Suc n) v = be_bytes n (v div 256) @ [word_of_nat v]"

definition be_value :: "byte list \<Rightarrow> nat" where
  "be_value bs = foldl (\<lambda>acc b. acc * 256 + unat b) 0 bs"

lemma length_be_bytes [simp, codec_simps]: "length (be_bytes n v) = n"
  by (induction n arbitrary: v) auto

lemma be_value_snoc [simp]: "be_value (bs @ [b]) = be_value bs * 256 + unat b"
  by (simp add: be_value_def)

lemma be_value_Nil [simp]: "be_value [] = 0"
  by (simp add: be_value_def)

lemma unat_less_2p: "unat (w :: 'a::len word) < 2 ^ LENGTH('a)"
  by (rule unsigned_less)

lemma unat_byte_less: "unat (b :: byte) < 256"
  using unat_less_2p [of b] by simp

lemma unat_byte_of_nat: "unat (word_of_nat n :: byte) = n mod 256"
  by (simp add: unat_of_nat)

lemma be_value_less: "be_value bs < 256 ^ length bs"
proof (induction bs rule: rev_induct)
  case (snoc b bs)
  have "be_value bs * 256 + unat b < be_value bs * 256 + 256"
    using unat_byte_less [of b] by simp
  also have "\<dots> = (be_value bs + 1) * 256" by simp
  also have "\<dots> \<le> 256 ^ length bs * 256" using snoc by (intro mult_right_mono) auto
  finally show ?case by (simp add: mult.commute)
qed simp

lemma be_value_be_bytes [codec_simps]: "be_value (be_bytes n v) = v mod 256 ^ n"
proof (induction n arbitrary: v)
  case (Suc n)
  show ?case by (simp add: Suc unat_byte_of_nat mod_mult2_eq [of v 256 "256 ^ n"] mult.commute)
qed simp

lemma be_bytes_be_value [codec_simps]: "be_bytes (length bs) (be_value bs) = bs"
proof (induction bs rule: rev_induct)
  case (snoc b bs)
  have "(be_value bs * 256 + unat b) div 256 = be_value bs"
    using unat_byte_less [of b] by simp
  moreover have "(word_of_nat (be_value bs * 256 + unat b) :: byte) = b"
    by (rule word_unat_eq_iff [THEN iffD2], simp only: unat_byte_of_nat)
      (simp add: unat_byte_less)
  ultimately show ?case by (simp add: snoc)
qed simp

section \<open>The interface of a fixed-width codec\<close>

locale fixed_codec =
  fixes enc :: "'a \<Rightarrow> byte list" and dec :: "byte list \<Rightarrow> 'a" and width :: nat
  assumes enc_length: "length (enc x) = width"
    and dec_enc: "dec (enc x) = x"
    and enc_dec: "length bs = width \<Longrightarrow> enc (dec bs) = bs"
begin

lemma enc_inject: "enc x = enc y \<longleftrightarrow> x = y"
  by (metis dec_enc)

lemma take_enc: "take width (enc x @ r) = enc x"
  by (simp add: enc_length)

lemma drop_enc: "drop width (enc x @ r) = r"
  by (simp add: enc_length)

lemma enc_append_inject: "enc x @ r = enc y @ s \<longleftrightarrow> x = y \<and> r = s"
  by (metis enc_inject take_enc drop_enc)

lemma enc_surj: "length bs = width \<Longrightarrow> \<exists>x. bs = enc x"
  by (metis enc_dec)

lemma split_enc: "width \<le> length bs \<Longrightarrow> bs = enc (dec (take width bs)) @ drop width bs"
  by (simp add: enc_dec min_absorb2)

end

text \<open>Two codecs one after the other are a codec of pairs.\<close>

locale codec_pair =
  fst: fixed_codec enc1 dec1 w1 + snd: fixed_codec enc2 dec2 w2
  for enc1 :: "'a \<Rightarrow> byte list" and dec1 w1 and enc2 :: "'b \<Rightarrow> byte list" and dec2 w2

sublocale codec_pair \<subseteq> pair: fixed_codec
  "\<lambda>p. enc1 (fst p) @ enc2 (snd p)" "\<lambda>bs. (dec1 (take w1 bs), dec2 (drop w1 bs))" "w1 + w2"
  by unfold_locales
    (auto simp: fst.enc_length snd.enc_length fst.dec_enc snd.dec_enc fst.enc_dec snd.enc_dec)

text \<open>\<^verbatim>\<open>u64::to_be_bytes\<close>, \<^verbatim>\<open>u64::from_be_bytes\<close> and their 32-bit versions.\<close>

definition u64_to_be :: "u64 \<Rightarrow> byte list" where
  "u64_to_be w = be_bytes 8 (unat w)"

definition u64_of_be :: "byte list \<Rightarrow> u64" where
  "u64_of_be bs = word_of_nat (be_value bs)"

definition u32_to_be :: "u32 \<Rightarrow> byte list" where
  "u32_to_be w = be_bytes 4 (unat w)"

definition u32_of_be :: "byte list \<Rightarrow> u32" where
  "u32_of_be bs = word_of_nat (be_value bs)"

interpretation be64: fixed_codec u64_to_be u64_of_be 8
proof
  fix x :: u64 and bs :: "byte list"
  show "length (u64_to_be x) = 8" by (simp add: u64_to_be_def)
  have "unat x < 256 ^ 8" using unat_less_2p [of x] by simp
  then show "u64_of_be (u64_to_be x) = x"
    by (simp add: u64_of_be_def u64_to_be_def be_value_be_bytes)
  assume len: "length bs = 8"
  then have "unat (word_of_nat (be_value bs) :: u64) = be_value bs"
    using be_value_less [of bs] by (simp add: unat_of_nat)
  then show "u64_to_be (u64_of_be bs) = bs"
    using be_bytes_be_value [of bs] len by (simp add: u64_of_be_def u64_to_be_def)
qed

interpretation be32: fixed_codec u32_to_be u32_of_be 4
proof
  fix x :: u32 and bs :: "byte list"
  show "length (u32_to_be x) = 4" by (simp add: u32_to_be_def)
  have "unat x < 256 ^ 4" using unat_less_2p [of x] by simp
  then show "u32_of_be (u32_to_be x) = x"
    by (simp add: u32_of_be_def u32_to_be_def be_value_be_bytes)
  assume len: "length bs = 4"
  then have "unat (word_of_nat (be_value bs) :: u32) = be_value bs"
    using be_value_less [of bs] by (simp add: unat_of_nat)
  then show "u32_to_be (u32_of_be bs) = bs"
    using be_bytes_be_value [of bs] len by (simp add: u32_of_be_def u32_to_be_def)
qed

interpretation be64_pair: codec_pair u64_to_be u64_of_be 8 u64_to_be u64_of_be 8
  by unfold_locales

lemmas be_length [simp] = be64.enc_length be32.enc_length

section \<open>Byte order is number order\<close>

text \<open>
  Comparing two big-endian encodings byte by byte compares the numbers: the order in which the
  database iterates its keys.
\<close>

lemma be_bytes_Suc_Cons:
  "be_bytes (Suc n) v = word_of_nat (v div 256 ^ n) # be_bytes n v"
proof (induction n arbitrary: v)
  case (Suc n)
  have "be_bytes (Suc (Suc n)) v = be_bytes (Suc n) (v div 256) @ [word_of_nat v]" by simp
  also have "\<dots> = word_of_nat (v div 256 div 256 ^ n) # be_bytes n (v div 256) @ [word_of_nat v]"
    using Suc [of "v div 256"] by simp
  finally show ?case by (simp add: div_mult2_eq)
qed simp

lemma be_bytes_mod: "be_bytes n (v mod 256 ^ n) = be_bytes n v"
  using be_bytes_be_value [of "be_bytes n v"] by (simp add: be_value_be_bytes)

lemma be_bytes_less:
  "v < 256 ^ n \<Longrightarrow> w < 256 ^ n \<Longrightarrow> be_bytes n v < be_bytes n w \<longleftrightarrow> v < w"
proof (induction n arbitrary: v w)
  case (Suc n)
  let ?b = "256 ^ n :: nat"
  have vw: "v div ?b < 256" "w div ?b < 256"
    using Suc.prems by (simp_all add: less_mult_imp_div_less mult.commute)
  have less: "(word_of_nat (v div ?b) :: byte) < word_of_nat (w div ?b) \<longleftrightarrow> v div ?b < w div ?b"
    using vw by (simp add: word_less_nat_alt unat_of_nat)
  have eq: "(word_of_nat (v div ?b) :: byte) = word_of_nat (w div ?b) \<longleftrightarrow> v div ?b = w div ?b"
    using vw by (auto simp: word_unat_eq_iff unat_of_nat)
  have IH: "be_bytes n v < be_bytes n w \<longleftrightarrow> v mod ?b < w mod ?b"
    using Suc.IH [of "v mod ?b" "w mod ?b"] by (simp add: be_bytes_mod)
  have "v < w \<longleftrightarrow> v div ?b < w div ?b \<or> v div ?b = w div ?b \<and> v mod ?b < w mod ?b"
  proof (cases "v div ?b" "w div ?b" rule: linorder_cases)
    case less
    then have "v < w" using div_le_mono [of w v ?b] by linarith
    with less show ?thesis by simp
  next
    case equal
    then have "v < w \<longleftrightarrow> v mod ?b < w mod ?b"
      by (metis div_mult_mod_eq nat_add_left_cancel_less)
    with equal show ?thesis by simp
  next
    case greater
    then have "\<not> v < w" using div_le_mono [of v w ?b] by linarith
    with greater show ?thesis by simp
  qed
  then show ?case
    by (simp add: be_bytes_Suc_Cons less eq IH del: be_bytes.simps)
qed simp

lemma u64_to_be_less: "u64_to_be v < u64_to_be w \<longleftrightarrow> v < w"
  using be_bytes_less [of "unat v" 8 "unat w"] unat_less_2p [of v] unat_less_2p [of w]
  by (simp add: u64_to_be_def word_less_nat_alt)

section \<open>Reading bytes\<close>

text \<open>\<^verbatim>\<open>bytes[i]\<close> and \<^verbatim>\<open>bytes[a..b]\<close>: out of range is a panic, here \<open>None\<close>. \<^verbatim>\<open>.get(a..b)\<close> returns the same option.\<close>

definition idx :: "'a list \<Rightarrow> nat \<Rightarrow> 'a option" where
  "idx bs i = (if i < length bs then Some (bs ! i) else None)"

definition range_get :: "'a list \<Rightarrow> nat \<Rightarrow> nat \<Rightarrow> 'a list option" where
  "range_get bs a b = (if a \<le> b \<and> b \<le> length bs then Some (take (b - a) (drop a bs)) else None)"

text \<open>\<^verbatim>\<open>starts_with\<close> of slices\<close>

definition starts_with :: "'a list \<Rightarrow> 'a list \<Rightarrow> bool" where
  "starts_with s p \<longleftrightarrow> take (length p) s = p"

lemma starts_with_iff: "starts_with s p \<longleftrightarrow> (\<exists>rest. s = p @ rest)"
  by (metis append_eq_conv_conj append_take_drop_id starts_with_def)

lemma those_map_Some: "\<forall>x \<in> set xs. f x = Some (g x) \<Longrightarrow> those (map f xs) = Some (map g xs)"
  by (induction xs) auto

text \<open>Where a list is sorted and a property holds of a block that starts at its head, taking while it holds is filtering.\<close>

lemma takeWhile_block:
  assumes "sorted_wrt R xs" and "\<And>x y. x \<in> set xs \<Longrightarrow> y \<in> set xs \<Longrightarrow> R x y \<Longrightarrow> P y \<Longrightarrow> P x"
  shows "takeWhile P xs = filter P xs"
  using assms
proof (induction xs)
  case (Cons x xs)
  show ?case
  proof (cases "P x")
    case True
    then show ?thesis using Cons by auto
  next
    case False
    then have "\<forall>y \<in> set xs. \<not> P y" using Cons.prems by auto
    then show ?thesis using False by (simp add: filter_empty_conv)
  qed
qed simp

text \<open>In the lexicographic order the lists that extend a list are an interval that starts at it.\<close>

lemma starts_with_le: "starts_with s p \<Longrightarrow> p \<le> (s :: 'a::linorder list)"
proof -
  have "p \<le> p @ r" for r :: "'a list" by (induction p) auto
  then show "starts_with s p \<Longrightarrow> p \<le> s" by (auto simp: starts_with_iff)
qed

lemma starts_with_between:
  assumes "starts_with s p" "p \<le> x" "x \<le> (s :: 'a::linorder list)"
  shows "starts_with x p"
proof -
  have "\<exists>t. x = p @ t" if "p \<le> x" "x \<le> p @ r" for r
    using that
  proof (induction p arbitrary: x)
    case (Cons a p)
    then obtain b y where x: "x = b # y" by (cases x) auto
    then have "b = a" "p \<le> y" "y \<le> p @ r" using Cons.prems by auto
    then show ?case using Cons.IH [of y] x by simp
  qed simp
  then show ?thesis using assms by (auto simp: starts_with_iff)
qed

lemma idx_Some_iff: "idx bs i = Some b \<longleftrightarrow> i < length bs \<and> b = bs ! i"
  by (auto simp: idx_def)

lemma idx_in [simp]: "i < length bs \<Longrightarrow> idx bs i = Some (bs ! i)"
  by (simp add: idx_def)

lemma range_get_in [simp]: "a \<le> b \<Longrightarrow> b \<le> length bs \<Longrightarrow> range_get bs a b = Some (take (b - a) (drop a bs))"
  by (simp add: range_get_def)

lemma range_get_Some_length: "range_get bs a b = Some r \<Longrightarrow> length r = b - a"
  by (auto simp: range_get_def split: if_splits)

lemma range_get_append:
  "length xs = a \<Longrightarrow> length ys = b - a \<Longrightarrow> a \<le> b \<Longrightarrow> range_get (xs @ ys @ zs) a b = Some ys"
  by (simp add: range_get_def)

text \<open>\<^verbatim>\<open>u64_from_bytes\<close>, \<^verbatim>\<open>u64_from_u8\<close> and \<^verbatim>\<open>increment\<close> of \<^verbatim>\<open>src/core/utils/bytes.rs\<close>: eight bytes exactly.\<close>

definition u64_from_bytes :: "byte list \<Rightarrow> u64 option" where
  "u64_from_bytes bs = (if length bs = 8 then Some (u64_of_be bs) else None)"

definition increment :: "byte list option \<Rightarrow> byte list" where
  "increment old =
     u64_to_be ((case old of None \<Rightarrow> 0 | Some bs \<Rightarrow> (case u64_from_bytes bs of None \<Rightarrow> 0 | Some n \<Rightarrow> n)) + 1)"

lemma u64_from_bytes_to_be [simp]: "u64_from_bytes (u64_to_be w) = Some w"
  by (simp add: u64_from_bytes_def be64.dec_enc)

lemma u64_from_bytes_Some: "u64_from_bytes bs = Some w \<longleftrightarrow> bs = u64_to_be w"
  by (auto simp: u64_from_bytes_def be64.dec_enc be64.enc_dec split: if_splits)

lemma increment_be: "increment (Some (u64_to_be w)) = u64_to_be (w + 1)"
  by (simp add: increment_def)

end
