(* ===== verification/Errors.thy ===== *)
theory Errors
  imports Prelude
begin

text \<open>
  The crate-wide error type (\<^verbatim>\<open>src/core/error/mod.rs\<close>) and its protocol mapping
  (\<^verbatim>\<open>src/core/error/response.rs\<close>). The authorization code decides on errors by their
  variant (\<^verbatim>\<open>Err\<close>, \<^verbatim>\<open>Request(InvalidParam, ..)\<close>) and by \<^verbatim>\<open>is_not_found\<close>, which goes through the
  HTTP status a variant maps to; both are modelled here. Variants that only reach the fallback arms of
  \<^verbatim>\<open>kind\<close> and \<^verbatim>\<open>status_code\<close> are collected in \<open>Other\<close>, which keeps the variant's name. Placeholders
  such as \<^verbatim>\<open>{event_id}\<close> stay uninterpolated in message texts: no code branches on a text.
\<close>

section \<open>Matrix error kinds and HTTP status\<close>

type_synonym status = nat

datatype error_kind =
    NotYetUploaded | ConnectionTimeout | BadStatus | ConnectionFailed | LimitExceeded | TooLarge
  | CannotOverwriteMedia | NotFound | NotImplemented | FeatureDisabledKind | Unrecognized
  | GuestAccessForbidden | ThreepidAuthFailed | UserDeactivated | UserSuspended | ThreepidDenied
  | InviteBlocked | WrongRoomKeysVersion | Forbidden | UnknownToken | MissingToken | Unauthorized
  | UserLocked | InvalidParam | NotJson | BadJson | Unknown | OtherKind string

datatype io_error_kind =
    IoInvalidInput | IoPermissionDenied | IoNotFound | IoTimedOut | IoFileTooLarge | IoStorageFull
  | IoInterrupted | IoOther string

text \<open>\<^verbatim>\<open>ruma::api::error::Error\<close>: its status, and the kind of a standard body.\<close>

record ruma_error =
  ruma_status :: status
  ruma_error_kind :: "error_kind option"

datatype error =
    Err string
  | Request error_kind string status
  | AuthCheck error
  | Arithmetic string
  | Database string
  | Mxid string
  | CapacityError
  | FeatureDisabled string
  | CanonicalJson string
  | Json string
  | JsParseInt
  | JsTryFromInt
  | BadRequest error_kind string
  | Federation string ruma_error
  | Ruma ruma_error
  | Conflict string
  | Io io_error_kind
  | HttpJson status
  | Reqwest "status option"
  | Other string

definition BAD_REQUEST :: status where "BAD_REQUEST = 400"
definition NOT_FOUND :: status where "NOT_FOUND = 404"
definition INTERNAL_SERVER_ERROR :: status where "INTERNAL_SERVER_ERROR = 500"

text \<open>\<^verbatim>\<open>err!(Request(Kind("..")))\<close> always starts from \<^verbatim>\<open>BAD_REQUEST\<close>.\<close>

abbreviation request :: "error_kind \<Rightarrow> string \<Rightarrow> error" where
  "request k msg \<equiv> Request k msg BAD_REQUEST"

definition bad_request_code :: "error_kind \<Rightarrow> status" where
  "bad_request_code k =
     (if k \<in> {NotYetUploaded, ConnectionTimeout} then 504
      else if k \<in> {BadStatus, ConnectionFailed} then 502
      else if k = LimitExceeded then 429
      else if k = TooLarge then 413
      else if k = CannotOverwriteMedia then 409
      else if k \<in> {NotFound, NotImplemented, FeatureDisabledKind, Unrecognized} then NOT_FOUND
      else if k \<in> {GuestAccessForbidden, ThreepidAuthFailed, UserDeactivated, UserSuspended,
                   ThreepidDenied, InviteBlocked, WrongRoomKeysVersion, Forbidden} then 403
      else if k \<in> {UnknownToken, MissingToken, Unauthorized, UserLocked} then 401
      else BAD_REQUEST)"

definition response_status_code :: "error_kind \<Rightarrow> status \<Rightarrow> status" where
  "response_status_code k hint = (if hint = BAD_REQUEST then bad_request_code k else hint)"

fun io_error_code :: "io_error_kind \<Rightarrow> status" where
  "io_error_code IoInvalidInput = BAD_REQUEST"
| "io_error_code IoPermissionDenied = 403"
| "io_error_code IoNotFound = NOT_FOUND"
| "io_error_code IoTimedOut = 504"
| "io_error_code IoFileTooLarge = 413"
| "io_error_code IoStorageFull = 507"
| "io_error_code IoInterrupted = 503"
| "io_error_code (IoOther _) = INTERNAL_SERVER_ERROR"

definition ruma_kind :: "ruma_error \<Rightarrow> error_kind" where
  "ruma_kind e = (case ruma_error_kind e of Some k \<Rightarrow> k | None \<Rightarrow> Unknown)"

definition kind_of :: "error \<Rightarrow> error_kind" where
  "kind_of e = (case e of
     FeatureDisabled _ \<Rightarrow> FeatureDisabledKind
   | CanonicalJson _ \<Rightarrow> NotJson
   | Json _ \<Rightarrow> NotJson
   | AuthCheck _ \<Rightarrow> Forbidden
   | BadRequest k _ \<Rightarrow> k
   | Request k _ _ \<Rightarrow> k
   | Federation _ err \<Rightarrow> ruma_kind err
   | Ruma err \<Rightarrow> ruma_kind err
   | _ \<Rightarrow> Unknown)"

definition status_code :: "error \<Rightarrow> status" where
  "status_code e = (case e of
     AuthCheck _ \<Rightarrow> 403
   | Conflict _ \<Rightarrow> 409
   | Federation _ err \<Rightarrow> ruma_status err
   | Ruma err \<Rightarrow> ruma_status err
   | FeatureDisabled _ \<Rightarrow> bad_request_code (kind_of e)
   | CanonicalJson _ \<Rightarrow> bad_request_code (kind_of e)
   | Json _ \<Rightarrow> bad_request_code (kind_of e)
   | JsParseInt \<Rightarrow> bad_request_code (kind_of e)
   | JsTryFromInt \<Rightarrow> bad_request_code (kind_of e)
   | BadRequest k _ \<Rightarrow> bad_request_code k
   | Request k _ code \<Rightarrow> response_status_code k code
   | Io k \<Rightarrow> io_error_code k
   | HttpJson code \<Rightarrow> code
   | Reqwest code \<Rightarrow> (case code of Some c \<Rightarrow> c | None \<Rightarrow> INTERNAL_SERVER_ERROR)
   | _ \<Rightarrow> INTERNAL_SERVER_ERROR)"

definition is_not_found :: "error \<Rightarrow> bool" where
  "is_not_found e \<longleftrightarrow> status_code e = NOT_FOUND"

section \<open>Which errors read as absence\<close>

lemmas status_defs = status_code_def kind_of_def response_status_code_def bad_request_code_def
  BAD_REQUEST_def NOT_FOUND_def INTERNAL_SERVER_ERROR_def

lemma is_not_found_simps [simp]:
  "\<not> is_not_found (Err msg)" "\<not> is_not_found (AuthCheck e)" "\<not> is_not_found (Database msg)"
  "\<not> is_not_found (Arithmetic msg)" "\<not> is_not_found (Mxid msg)" "\<not> is_not_found CapacityError"
  "is_not_found (request NotFound msg)" "\<not> is_not_found (request InvalidParam msg)"
  "\<not> is_not_found (request Forbidden msg)"
  by (simp_all add: is_not_found_def status_defs)

text \<open>The \<^verbatim>\<open>M_NOT_FOUND\<close> kind is not the only one: a request error is absent exactly for the four kinds
  that share its status, or when a 404 was given explicitly.\<close>

lemma is_not_found_Request_iff:
  "is_not_found (Request k msg code) \<longleftrightarrow>
     code = NOT_FOUND \<or>
     code = BAD_REQUEST \<and> k \<in> {NotFound, NotImplemented, FeatureDisabledKind, Unrecognized}"
  by (cases k) (auto simp: is_not_found_def status_defs)

section \<open>Results of fallible code\<close>

type_synonym 'a res = "error + 'a"

definition ok_or :: "error \<Rightarrow> 'a option \<Rightarrow> 'a res" where
  "ok_or e x = (case x of None \<Rightarrow> Inl e | Some a \<Rightarrow> Inr a)"

lemma ok_or_simps [simp]:
  "ok_or e None = Inl e" "ok_or e (Some a) = Inr a"
  "ok_or e x = Inr a \<longleftrightarrow> x = Some a" "ok_or e x = Inl e' \<longleftrightarrow> x = None \<and> e' = e"
  by (auto simp: ok_or_def split: option.splits)

text \<open>\<^verbatim>\<open>if bad \<lbrace> return Err(..) \<rbrace>\<close> followed by the rest of the function.\<close>

definition guard_err :: "bool \<Rightarrow> error \<Rightarrow> 'a res \<Rightarrow> 'a res" where
  "guard_err bad e k = (if bad then Inl e else k)"

lemma guard_err_Inr [simp]: "guard_err bad e k = Inr x \<longleftrightarrow> \<not> bad \<and> k = Inr x"
  by (simp add: guard_err_def)

lemma guard_err_simps [simp]: "guard_err True e k = Inl e" "guard_err False e k = k"
  by (simp_all add: guard_err_def)

text \<open>Inversion of a successful \<^verbatim>\<open>match\<close> on an option, for use under binders where a split leaves implications.\<close>

lemma case_option_Inr_iff:
  "(case x of None \<Rightarrow> a | Some v \<Rightarrow> f v) = Inr r \<longleftrightarrow>
     x = None \<and> a = Inr r \<or> (\<exists>v. x = Some v \<and> f v = Inr r)"
  by (cases x) auto

lemma if_Inl_Inr_iff [simp]: "(if b then x else Inl e) = Inr y \<longleftrightarrow> b \<and> x = Inr y"
  by simp

lemma guard_err_cong [fundef_cong]:
  "bad = bad' \<Longrightarrow> e = e' \<Longrightarrow> (\<not> bad' \<Longrightarrow> k = k') \<Longrightarrow> guard_err bad e k = guard_err bad' e' k'"
  by (simp add: guard_err_def)

end
