(* ===== verification/Ordered.thy ===== *)
theory Ordered
  imports Prelude
begin

text \<open>
  The ordering routines of the standard library that the components call: \<^verbatim>\<open>Ordering::then\<close>, the
  stable \<^verbatim>\<open>sort_by\<close>, \<^verbatim>\<open>binary_search_by\<close>, and \<^verbatim>\<open>BinaryHeap<Reverse<T>>\<close>, with the contracts the callers
  rely on as locales.
\<close>

datatype ordering = Less | Equal | Greater

definition cmp_of :: "'a::linorder \<Rightarrow> 'a \<Rightarrow> ordering" where
  "cmp_of a b = (if a < b then Less else if a = b then Equal else Greater)"

definition then_cmp :: "ordering \<Rightarrow> ordering \<Rightarrow> ordering" where
  "then_cmp o1 o2 = (if o1 = Equal then o2 else o1)"

lemma cmp_of_simps [simp]:
  "cmp_of a b = Equal \<longleftrightarrow> a = b"
  "cmp_of a b = Less \<longleftrightarrow> a < b"
  "cmp_of a b = Greater \<longleftrightarrow> b < a"
  by (auto simp: cmp_of_def)

lemma then_cmp_simps [simp]:
  "then_cmp o1 o2 = Equal \<longleftrightarrow> o1 = Equal \<and> o2 = Equal"
  "then_cmp o1 o2 = Less \<longleftrightarrow> o1 = Less \<or> o1 = Equal \<and> o2 = Less"
  "then_cmp o1 o2 = Greater \<longleftrightarrow> o1 = Greater \<or> o1 = Equal \<and> o2 = Greater"
  by (auto simp: then_cmp_def)

section \<open>Stable sorting by a comparison\<close>

fun insert_by :: "('a \<Rightarrow> 'a \<Rightarrow> bool) \<Rightarrow> 'a \<Rightarrow> 'a list \<Rightarrow> 'a list" where
  "insert_by le x [] = [x]"
| "insert_by le x (y # ys) = (if le x y then x # y # ys else y # insert_by le x ys)"

text \<open>An element goes in front of the elements it is not greater than: equal ones keep their order.\<close>

definition sort_by :: "('a \<Rightarrow> 'a \<Rightarrow> bool) \<Rightarrow> 'a list \<Rightarrow> 'a list" where
  "sort_by le xs = foldr (insert_by le) xs []"

lemma sort_by_simps [simp]: "sort_by le [] = []" "sort_by le (x # xs) = insert_by le x (sort_by le xs)"
  by (simp_all add: sort_by_def)

lemma mset_insert_by [simp]: "mset (insert_by le x xs) = {#x#} + mset xs"
  by (induction xs) auto

lemma mset_sort_by [simp]: "mset (sort_by le xs) = mset xs"
  by (induction xs) auto

lemma set_sort_by [simp]: "set (sort_by le xs) = set xs"
  by (metis mset_sort_by set_mset_mset)

lemma set_insert_by [simp]: "set (insert_by le x xs) = insert x (set xs)"
  by (induction xs) auto

lemma length_sort_by [simp]: "length (sort_by le xs) = length xs"
  by (metis mset_sort_by size_mset)

lemma distinct_sort_by [simp]: "distinct (sort_by le xs) = distinct xs"
  by (metis mset_sort_by distinct_count_atmost_1 set_mset_mset)

locale total_preorder =
  fixes le :: "'a \<Rightarrow> 'a \<Rightarrow> bool"
  assumes total: "le x y \<or> le y x"
    and trans: "le x y \<Longrightarrow> le y z \<Longrightarrow> le x z"
begin

lemma refl: "le x x"
  using total by blast

lemma sorted_insert_by: "sorted_wrt le ys \<Longrightarrow> sorted_wrt le (insert_by le x ys)"
proof (induction ys)
  case (Cons y ys)
  show ?case
  proof (cases "le x y")
    case True
    with Cons.prems show ?thesis by (auto intro: trans)
  next
    case False
    then have "le y x" using total by blast
    with False Cons show ?thesis by simp
  qed
qed simp

lemma sorted_sort_by: "sorted_wrt le (sort_by le xs)"
  by (induction xs) (simp_all add: sorted_insert_by)

text \<open>Stability: the elements of one equivalence class keep their order.\<close>

lemma filter_insert_by:
  assumes "\<And>a b. P a \<Longrightarrow> P b \<Longrightarrow> le a b" and "sorted_wrt le ys"
  shows "filter P (insert_by le x ys) = (if P x then x # filter P ys else filter P ys)"
  using assms(2)
proof (induction ys)
  case (Cons y ys)
  show ?case
  proof (cases "le x y")
    case False
    then have "\<not> (P x \<and> P y)" using assms(1) by blast
    with False Cons show ?thesis by auto
  qed auto
qed simp

lemma filter_sort_by:
  "(\<And>a b. P a \<Longrightarrow> P b \<Longrightarrow> le a b) \<Longrightarrow> filter P (sort_by le xs) = filter P xs"
  by (induction xs) (auto simp: filter_insert_by sorted_sort_by)

end

text \<open>With antisymmetry the sorted list is determined by the multiset: sorting is canonical.\<close>

locale total_order = total_preorder +
  assumes antisym: "le x y \<Longrightarrow> le y x \<Longrightarrow> x = y"
begin

lemma sorted_unique:
  assumes "sorted_wrt le xs" and "sorted_wrt le ys" and "mset xs = mset ys"
  shows "xs = ys"
  using assms
proof (induction xs arbitrary: ys)
  case (Cons x xs)
  then obtain y ys' where ys: "ys = y # ys'" by (cases ys) auto
  have sets: "insert x (set xs) = insert y (set ys')"
    using mset_eq_setD [OF Cons.prems(3)] by (simp add: ys)
  have "le x y"
  proof -
    have "y \<in> insert x (set xs)" using sets by blast
    then show ?thesis using Cons.prems(1) refl by auto
  qed
  moreover have "le y x"
  proof -
    have "x \<in> insert y (set ys')" using sets by blast
    then show ?thesis using Cons.prems(2) refl by (auto simp: ys)
  qed
  ultimately have "x = y" by (rule antisym)
  with Cons show ?case by (simp add: ys)
qed simp

lemma sort_by_canonical: "mset xs = mset ys \<Longrightarrow> sort_by le xs = sort_by le ys"
  by (rule sorted_unique) (simp_all add: sorted_sort_by)

end

text \<open>\<^verbatim>\<open>sort_unstable\<close> and \<^verbatim>\<open>sorted_unstable\<close> on a type with \<^verbatim>\<open>Ord\<close> sort by its order.\<close>

interpretation ord: total_order "(\<le>) :: 'a::linorder \<Rightarrow> 'a \<Rightarrow> bool"
  by unfold_locales auto

section \<open>Removing consecutive duplicates\<close>

text \<open>\<^verbatim>\<open>dedup_by\<close> keeps the first element of each run of equal ones.\<close>

fun dedup_by :: "('a \<Rightarrow> 'a \<Rightarrow> bool) \<Rightarrow> 'a list \<Rightarrow> 'a list" where
  "dedup_by same [] = []"
| "dedup_by same [x] = [x]"
| "dedup_by same (x # y # ys) =
     (if same x y then dedup_by same (x # ys) else x # dedup_by same (y # ys))"

lemma set_dedup_by: "set (dedup_by same xs) \<subseteq> set xs"
  by (induction same xs rule: dedup_by.induct) auto

lemma dedup_by_hd: "\<exists>r. dedup_by same (x # xs) = x # r"
proof (induction xs arbitrary: x)
  case (Cons y ys)
  show ?case using Cons by simp
qed simp

lemma set_dedup_by_eq: "set (dedup_by (=) xs) = set xs"
proof (induction "(=) :: 'a \<Rightarrow> 'a \<Rightarrow> bool" xs rule: dedup_by.induct)
  case (3 x y ys)
  then show ?case by (cases "x = y") auto
qed simp_all

lemma distinct_dedup_by_sorted: "sorted xs \<Longrightarrow> distinct (dedup_by (=) (xs :: 'a::linorder list))"
proof (induction "(=) :: 'a \<Rightarrow> 'a \<Rightarrow> bool" xs rule: dedup_by.induct)
  case (3 x y ys)
  then show ?case by (cases "x = y") (auto simp: set_dedup_by_eq)
qed simp_all

section \<open>Binary search\<close>

text \<open>
  \<^verbatim>\<open>slice::binary_search_by\<close>: \<open>f\<close> compares an element with the target. The loop halves the candidate
  range \<open>[base, base + len)\<close> and then looks at the one element left.
\<close>

function bs_loop :: "('a \<Rightarrow> ordering) \<Rightarrow> 'a list \<Rightarrow> nat \<Rightarrow> nat \<Rightarrow> nat" where
  "bs_loop f xs base len =
     (if len \<le> 1 then base
      else (let half = len div 2; mid = base + half
            in bs_loop f xs (if f (xs ! mid) = Greater then base else mid) (len - half)))"
  by pat_completeness auto
termination
  by (relation "measure (\<lambda>(f, xs, base, len). len)") auto

declare bs_loop.simps [simp del]

definition binary_search_by :: "('a \<Rightarrow> ordering) \<Rightarrow> 'a list \<Rightarrow> nat + nat" where
  "binary_search_by f xs =
     (if xs = [] then Inl 0
      else (let base = bs_loop f xs 0 (length xs)
            in case f (xs ! base) of
                 Equal \<Rightarrow> Inr base
               | Less \<Rightarrow> Inl (base + 1)
               | Greater \<Rightarrow> Inl base))"

definition binary_search :: "'a::linorder list \<Rightarrow> 'a \<Rightarrow> nat + nat" where
  "binary_search xs x = binary_search_by (\<lambda>y. cmp_of y x) xs"

text \<open>What the caller promises: smaller elements come first, greater ones last.\<close>

definition partitioned_by :: "('a \<Rightarrow> ordering) \<Rightarrow> 'a list \<Rightarrow> bool" where
  "partitioned_by f xs \<longleftrightarrow>
     sorted_wrt (\<lambda>x y. (f x = Greater \<longrightarrow> f y = Greater) \<and> (f y = Less \<longrightarrow> f x = Less)) xs"

lemma partitioned_nth:
  assumes "partitioned_by f xs" and "i \<le> j" and "j < length xs"
  shows "f (xs ! i) = Greater \<Longrightarrow> f (xs ! j) = Greater" and "f (xs ! j) = Less \<Longrightarrow> f (xs ! i) = Less"
proof -
  have "i = j \<or> i < j" using assms(2) by auto
  then show "f (xs ! i) = Greater \<Longrightarrow> f (xs ! j) = Greater" and "f (xs ! j) = Less \<Longrightarrow> f (xs ! i) = Less"
    using assms(1,3) sorted_wrt_nth_less [of _ xs i j] unfolding partitioned_by_def by blast+
qed

lemma bs_loop_invariant:
  assumes "partitioned_by f xs" and "1 \<le> len" and "base + len \<le> length xs"
    and "base = 0 \<or> f (xs ! base) \<noteq> Greater"
    and "\<forall>j. base + len \<le> j \<and> j < length xs \<longrightarrow> f (xs ! j) = Greater"
  defines "r \<equiv> bs_loop f xs base len"
  shows "r < length xs \<and> (r = 0 \<or> f (xs ! r) \<noteq> Greater) \<and>
    (\<forall>j. r < j \<and> j < length xs \<longrightarrow> f (xs ! j) = Greater)"
  using assms(1-5) unfolding r_def
proof (induction f xs base len rule: bs_loop.induct)
  case (1 f xs base len)
  show ?case
  proof (cases "len \<le> 1")
    case True
    then have "bs_loop f xs base len = base" by (simp add: bs_loop.simps)
    with True "1.prems" show ?thesis by (simp add: Suc_le_eq)
  next
    case False
    define half where "half = len div 2"
    define base' where "base' = (if f (xs ! (base + half)) = Greater then base else base + half)"
    have half: "0 < half" "half < len" using False by (auto simp: half_def)
    have step: "bs_loop f xs base len = bs_loop f xs base' (len - half)"
      using False by (simp add: bs_loop.simps [of f xs base len] half_def base'_def Let_def)
    have up: "f (xs ! j) = Greater" if "base' + (len - half) \<le> j" "j < length xs" for j
    proof (cases "f (xs ! (base + half)) = Greater")
      case True
      have "base + half \<le> j" using that True half by (simp add: base'_def half_def)
      then show ?thesis by (rule partitioned_nth(1) [OF "1.prems"(1) _ that(2) True])
    next
      case False
      then show ?thesis using that half "1.prems"(5) by (auto simp: base'_def)
    qed
    have low: "base' = 0 \<or> f (xs ! base') \<noteq> Greater"
      using "1.prems"(4) by (simp add: base'_def)
    have len: "1 \<le> len - half" "base' + (len - half) \<le> length xs"
      using half "1.prems"(3) by (auto simp: base'_def)
    show ?thesis unfolding step
      using "1.IH" [OF False half_def refl, folded base'_def] "1.prems"(1) len low up
      by blast
  qed
qed

lemma bs_loop_full:
  assumes "partitioned_by f xs" and "xs \<noteq> []"
  defines "r \<equiv> bs_loop f xs 0 (length xs)"
  shows "r < length xs" and "r = 0 \<or> f (xs ! r) \<noteq> Greater"
    and "r < j \<Longrightarrow> j < length xs \<Longrightarrow> f (xs ! j) = Greater"
proof -
  have "r < length xs \<and> (r = 0 \<or> f (xs ! r) \<noteq> Greater) \<and>
      (\<forall>j. r < j \<and> j < length xs \<longrightarrow> f (xs ! j) = Greater)"
    unfolding r_def using assms(2) by (intro bs_loop_invariant assms(1)) (auto simp: Suc_le_eq)
  then show "r < length xs" and "r = 0 \<or> f (xs ! r) \<noteq> Greater"
    and "r < j \<Longrightarrow> j < length xs \<Longrightarrow> f (xs ! j) = Greater" by blast+
qed

lemma binary_search_by_found:
  assumes "partitioned_by f xs" and "binary_search_by f xs = Inr i"
  shows "i < length xs \<and> f (xs ! i) = Equal"
proof -
  have "xs \<noteq> []" using assms(2) by (auto simp: binary_search_by_def)
  with bs_loop_full(1) [OF assms(1) this] assms(2) show ?thesis
    by (auto simp: binary_search_by_def Let_def split: ordering.splits)
qed

lemma binary_search_by_complete:
  assumes "partitioned_by f xs" and "x \<in> set xs" and "f x = Equal"
  shows "\<exists>i. binary_search_by f xs = Inr i"
proof -
  define r where "r = bs_loop f xs 0 (length xs)"
  have "xs \<noteq> []" using assms(2) by auto
  note r = bs_loop_full [OF assms(1) this, folded r_def]
  obtain k where k: "k < length xs" "xs ! k = x" using assms(2) by (auto simp: in_set_conv_nth)
  have "k \<le> r"
  proof (rule ccontr)
    assume "\<not> k \<le> r"
    then have "f (xs ! k) = Greater" using r(3) [of k] k(1) by simp
    with k(2) assms(3) show False by simp
  qed
  have "f (xs ! r) \<noteq> Less"
    using partitioned_nth(2) [OF assms(1) \<open>k \<le> r\<close> r(1)] k(2) assms(3) by auto
  moreover have "f (xs ! r) \<noteq> Greater"
    using r(2) \<open>k \<le> r\<close> k(2) assms(3) by auto
  ultimately have "f (xs ! r) = Equal" by (cases "f (xs ! r)") auto
  with \<open>xs \<noteq> []\<close> show ?thesis by (simp add: binary_search_by_def r_def Let_def)
qed

lemma partitioned_by_sorted: "sorted xs \<Longrightarrow> partitioned_by (\<lambda>y. cmp_of y (x :: 'a::linorder)) xs"
  by (auto simp: partitioned_by_def elim!: sorted_wrt_mono_rel [rotated])

lemma binary_search_Inr_iff:
  assumes "sorted xs" and "distinct xs"
  shows "binary_search xs x = Inr i \<longleftrightarrow> i < length xs \<and> xs ! i = (x :: 'a::linorder)"
proof
  assume "binary_search xs x = Inr i"
  then show "i < length xs \<and> xs ! i = x"
    using binary_search_by_found [OF partitioned_by_sorted [OF assms(1)]]
    by (fastforce simp: binary_search_def)
next
  assume i: "i < length xs \<and> xs ! i = x"
  then obtain j where j: "binary_search xs x = Inr j"
    using binary_search_by_complete [OF partitioned_by_sorted [OF assms(1)], of x x]
    by (auto simp: binary_search_def)
  then have "j < length xs \<and> xs ! j = x"
    using binary_search_by_found [OF partitioned_by_sorted [OF assms(1)]]
    by (fastforce simp: binary_search_def)
  with i assms(2) have "j = i" using nth_eq_iff_index_eq [of xs j i] by auto
  with j show "binary_search xs x = Inr i" by simp
qed

lemma binary_search_mem: "sorted xs \<Longrightarrow> is_ok (binary_search xs x) \<longleftrightarrow> (x :: 'a::linorder) \<in> set xs"
  using binary_search_by_found [OF partitioned_by_sorted [of xs x]]
    binary_search_by_complete [OF partitioned_by_sorted [of xs x], of x]
  by (cases "binary_search xs x") (auto simp: binary_search_def dest: nth_mem)

section \<open>A comparison function\<close>

text \<open>What an implementation of Rust's \<^verbatim>\<open>Ord\<close> promises: \<^verbatim>\<open>cmp\<close> is the comparison of a total order.\<close>

definition lawful_cmp :: "('a \<Rightarrow> 'a \<Rightarrow> ordering) \<Rightarrow> bool" where
  "lawful_cmp c \<longleftrightarrow>
     (\<forall>x y. c x y = Equal \<longleftrightarrow> x = y) \<and> (\<forall>x y. c x y = Less \<longleftrightarrow> c y x = Greater) \<and>
     (\<forall>x y z. c x y = Less \<longrightarrow> c y z = Less \<longrightarrow> c x z = Less)"

definition pair_cmp :: "('a \<Rightarrow> 'a \<Rightarrow> ordering) \<Rightarrow> ('b \<Rightarrow> 'b \<Rightarrow> ordering) \<Rightarrow> 'a \<times> 'b \<Rightarrow> 'a \<times> 'b \<Rightarrow> ordering" where
  "pair_cmp c d x y = then_cmp (c (fst x) (fst y)) (d (snd x) (snd y))"

lemma lawful_cmp_of: "lawful_cmp (cmp_of :: 'a::linorder \<Rightarrow> 'a \<Rightarrow> ordering)"
  by (auto simp: lawful_cmp_def)

lemma lawful_rules:
  assumes "lawful_cmp c"
  shows "c x y = Equal \<longleftrightarrow> x = y" and "c x y = Greater \<longleftrightarrow> c y x = Less"
    and "c x y = Less \<Longrightarrow> c y z = Less \<Longrightarrow> c x z = Less"
    and "c x y \<noteq> Less \<Longrightarrow> c y x = Less \<or> x = y"
    and "c x y = Less \<Longrightarrow> c y x \<noteq> Less"
  using assms unfolding lawful_cmp_def by (blast, metis, blast, metis ordering.exhaust, metis ordering.distinct(3))

lemma lawful_pair_cmp:
  assumes "lawful_cmp c" and "lawful_cmp d"
  shows "lawful_cmp (pair_cmp c d)"
  unfolding lawful_cmp_def
proof (intro conjI allI impI)
  note c = lawful_rules [OF assms(1)] and d = lawful_rules [OF assms(2)]
  show "pair_cmp c d x y = Equal \<longleftrightarrow> x = y" for x y by (simp add: pair_cmp_def c(1) d(1) prod_eq_iff)
  show "pair_cmp c d x y = Less \<longleftrightarrow> pair_cmp c d y x = Greater" for x y
    by (auto simp: pair_cmp_def c(1,2) d(1,2))
  show "pair_cmp c d x z = Less" if "pair_cmp c d x y = Less" "pair_cmp c d y z = Less" for x y z
    using that c(3) [of "fst x" "fst y" "fst z"] d(3) [of "snd x" "snd y" "snd z"]
    by (auto simp: pair_cmp_def c(1) d(1))
qed

lemma lawful_total_preorder:
  assumes "lawful_cmp c"
  shows "total_preorder (\<lambda>a b. c (f a) (f b) \<noteq> Greater)"
proof
  note c = lawful_rules [OF assms]
  show "c (f x) (f y) \<noteq> Greater \<or> c (f y) (f x) \<noteq> Greater" for x y
    using c(5) unfolding c(2) by blast
  show "c (f x) (f z) \<noteq> Greater" if "c (f x) (f y) \<noteq> Greater" "c (f y) (f z) \<noteq> Greater" for x y z
    using that c(3,4,5) unfolding c(2) by metis
qed

section \<open>A lookup table\<close>

text \<open>
  A vector of key and value pairs sorted by key, reversed, with all but the first pair of each key
  removed, and searched by bisection in the reversed order: the last pair pushed for a key is the one found.
\<close>

definition build_table :: "('k \<Rightarrow> 'k \<Rightarrow> ordering) \<Rightarrow> ('k \<times> 'v) list \<Rightarrow> ('k \<times> 'v) list" where
  "build_table c xs =
     dedup_by (\<lambda>a b. fst a = fst b) (rev (sort_by (\<lambda>a b. c (fst a) (fst b) \<noteq> Greater) xs))"

definition search_table :: "('k \<Rightarrow> 'k \<Rightarrow> ordering) \<Rightarrow> ('k \<times> 'v) list \<Rightarrow> 'k \<Rightarrow> 'v option" where
  "search_table c t k = (case binary_search_by (\<lambda>a. c k (fst a)) t of
     Inr i \<Rightarrow> Some (snd (t ! i)) | Inl _ \<Rightarrow> None)"

lemma map_of_filter_key: "map_of (filter (\<lambda>x. fst x = k) xs) k = map_of xs k"
  by (induction xs) auto

lemma map_of_dedup: "map_of (dedup_by (\<lambda>a b. fst a = fst b) xs) k = map_of xs k"
  by (induction "\<lambda>(a :: 'b \<times> 'a) (b :: 'b \<times> 'a). fst a = fst b" xs rule: dedup_by.induct) auto

lemma sorted_wrt_dedup_by: "sorted_wrt P xs \<Longrightarrow> sorted_wrt P (dedup_by same xs)"
proof (induction same xs rule: dedup_by.induct)
  case (3 same x y ys)
  then show ?case using set_dedup_by [of same "y # ys"] by auto
qed simp_all

lemma distinct_keys_dedup:
  assumes "lawful_cmp c"
  shows "sorted_wrt (\<lambda>a b. c (fst b) (fst a) \<noteq> Greater) xs \<Longrightarrow> distinct (map fst (dedup_by (\<lambda>a b. fst a = fst b) xs))"
proof (induction "\<lambda>(a :: 'a \<times> 'b) (b :: 'a \<times> 'b). fst a = fst b" xs rule: dedup_by.induct)
  case (3 x y ys)
  let ?d = "dedup_by (\<lambda>(a :: 'a \<times> 'b) (b :: 'a \<times> 'b). fst a = fst b)"
  show ?case
  proof (cases "fst x = fst y")
    case False
    have "fst x \<noteq> fst z" if "z \<in> set (?d (y # ys))" for z
    proof
      assume "fst x = fst z"
      have "z = y \<or> z \<in> set ys" using that set_dedup_by by fastforce
      with \<open>fst x = fst z\<close> False have "c (fst x) (fst y) \<noteq> Greater" "c (fst y) (fst x) \<noteq> Greater"
        using "3.prems" by auto
      with False lawful_rules(2,4) [OF assms] show False by metis
    qed
    with False 3 show ?thesis by fastforce
  qed (use 3 in simp)
qed simp_all

lemma build_table_sorted:
  assumes "lawful_cmp c"
  shows "sorted_wrt (\<lambda>a b. c (fst b) (fst a) \<noteq> Greater) (build_table c xs)" (is ?sorted)
    and "distinct (map fst (build_table c xs))"
proof -
  have "sorted_wrt (\<lambda>a b. c (fst b) (fst a) \<noteq> Greater) (rev (sort_by (\<lambda>a b. c (fst a) (fst b) \<noteq> Greater) xs))"
    unfolding sorted_wrt_rev by (rule total_preorder.sorted_sort_by [OF lawful_total_preorder [OF assms]])
  then show ?sorted and "distinct (map fst (build_table c xs))"
    unfolding build_table_def by (rule sorted_wrt_dedup_by distinct_keys_dedup [OF assms])+
qed

lemma map_of_build_table:
  assumes "lawful_cmp c"
  shows "map_of (build_table c xs) k = map_of (rev xs) k"
proof -
  let ?s = "sort_by (\<lambda>a b. c (fst a) (fst b) \<noteq> Greater) xs"
  have "filter (\<lambda>x. fst x = k) ?s = filter (\<lambda>x. fst x = k) xs"
    by (rule total_preorder.filter_sort_by [OF lawful_total_preorder [OF assms]])
      (use lawful_rules(1) [OF assms, of k k] in simp)
  then have "map_of (rev ?s) k = map_of (rev xs) k"
    by (metis map_of_filter_key rev_filter)
  then show ?thesis by (simp add: build_table_def map_of_dedup)
qed

lemma search_build_table:
  assumes "lawful_cmp c"
  shows "search_table c (build_table c xs) k = map_of (rev xs) k"
proof -
  let ?t = "build_table c xs" and ?f = "\<lambda>a. c k (fst a)"
  note eq = assms [unfolded lawful_cmp_def, THEN conjunct1, rule_format]
  have part: "partitioned_by ?f ?t"
    unfolding partitioned_by_def using build_table_sorted(1) [OF assms]
  proof (rule sorted_wrt_mono_rel [rotated])
    show "(?f x = Greater \<longrightarrow> ?f y = Greater) \<and> (?f y = Less \<longrightarrow> ?f x = Less)"
      if "c (fst y) (fst x) \<noteq> Greater" for x y
    proof -
      have "c (fst y) (fst x) = Less \<or> fst y = fst x"
        using that lawful_rules(2,4) [OF assms] by blast
      then show ?thesis using lawful_rules(2,3) [OF assms] by metis
    qed
  qed
  show ?thesis
  proof (cases "binary_search_by ?f ?t")
    case (Inr i)
    then have "i < length ?t" "fst (?t ! i) = k" using binary_search_by_found [OF part] eq by fastforce+
    then have "map_of ?t k = Some (snd (?t ! i))"
      by (metis build_table_sorted(2) [OF assms] map_of_eq_Some_iff nth_mem prod.collapse)
    with Inr show ?thesis by (simp add: search_table_def map_of_build_table [OF assms])
  next
    case (Inl i)
    then have "k \<notin> fst ` set ?t" using binary_search_by_complete [OF part] eq by fastforce
    then have "map_of ?t k = None" by (simp add: map_of_eq_None_iff)
    with Inl show ?thesis by (simp add: search_table_def map_of_build_table [OF assms])
  qed
qed

section \<open>A priority queue\<close>

text \<open>What a user of \<^verbatim>\<open>BinaryHeap<Reverse<T>>\<close> relies on: \<^verbatim>\<open>pop\<close> takes out a least element.\<close>

locale min_queue =
  fixes push :: "'a::linorder \<Rightarrow> 'q \<Rightarrow> 'q" and pop :: "'q \<Rightarrow> ('a \<times> 'q) option"
    and elems :: "'q \<Rightarrow> 'a multiset" and invar :: "'q \<Rightarrow> bool"
  assumes invar_push: "invar q \<Longrightarrow> invar (push x q)"
    and elems_push: "elems (push x q) = add_mset x (elems q)"
    and pop_None: "invar q \<Longrightarrow> pop q = None \<longleftrightarrow> elems q = {#}"
    and pop_Some: "invar q \<Longrightarrow> pop q = Some (x, q') \<Longrightarrow>
      invar q' \<and> elems q = add_mset x (elems q') \<and> (\<forall>y \<in># elems q'. x \<le> y)"
begin

lemma fold_push:
  "invar q \<Longrightarrow> invar (fold push xs q) \<and> elems (fold push xs q) = elems q + mset xs"
  by (induction xs arbitrary: q) (auto simp: invar_push elems_push)

lemma pop_least: "invar q \<Longrightarrow> pop q = Some (x, q') \<Longrightarrow> y \<in># elems q \<Longrightarrow> x \<le> y"
  using pop_Some by fastforce

lemma pop_exists: "invar q \<Longrightarrow> elems q \<noteq> {#} \<Longrightarrow> \<exists>x q'. pop q = Some (x, q')"
  by (metis pop_None option.exhaust surj_pair)

end

definition heap_push :: "'a::linorder \<Rightarrow> 'a list \<Rightarrow> 'a list" where
  "heap_push x h = insert_by (\<le>) x h"

definition heap_pop :: "'a list \<Rightarrow> ('a \<times> 'a list) option" where
  "heap_pop h = (case h of [] \<Rightarrow> None | x # h' \<Rightarrow> Some (x, h'))"

interpretation heap: min_queue heap_push heap_pop mset sorted
proof
  show "sorted (heap_push x q)" if "sorted q" for x :: 'a and q
    using that by (simp add: heap_push_def ord.sorted_insert_by)
qed (auto simp: heap_push_def heap_pop_def split: list.splits)

section \<open>Ordered maps\<close>

text \<open>\<^verbatim>\<open>BTreeMap\<close>, as an association list with ascending keys\<close>

definition btree_insert :: "'k::linorder \<Rightarrow> 'v \<Rightarrow> ('k \<times> 'v) list \<Rightarrow> ('k \<times> 'v) list" where
  "btree_insert k v m = filter (\<lambda>e. fst e < k) m @ (k, v) # filter (\<lambda>e. k < fst e) m"

definition btree_remove :: "'k::linorder \<Rightarrow> ('k \<times> 'v) list \<Rightarrow> ('k \<times> 'v) list" where
  "btree_remove k m = filter (\<lambda>e. fst e \<noteq> k) m"

definition btree :: "('k::linorder \<times> 'v) list \<Rightarrow> bool" where
  "btree m \<longleftrightarrow> sorted_wrt (\<lambda>x y. fst x < fst y) m"

lemma btree_lookup: "btree m \<Longrightarrow> map_of m k = Some v \<longleftrightarrow> (k, v) \<in> set m"
proof (induction m)
  case (Cons e m)
  then show ?case by (cases e) (auto simp: btree_def)
qed simp

lemma btree_ops [simp]:
  "btree m \<Longrightarrow> btree (btree_insert k v m)"
  "btree m \<Longrightarrow> btree (btree_remove k m)"
  "btree m \<Longrightarrow> btree (fold btree_remove ks m)"
proof -
  show r: "btree m \<Longrightarrow> btree (btree_remove k m)" for k and m :: "('a \<times> 'b) list"
    by (simp add: btree_def btree_remove_def sorted_wrt_filter)
  show "btree m \<Longrightarrow> btree (fold btree_remove ks m)"
    by (induction ks arbitrary: m) (auto intro: r)
qed (auto simp: btree_def btree_insert_def sorted_wrt_append sorted_wrt_filter intro: less_trans)

lemma set_btree_insert: "set (btree_insert k v m) = insert (k, v) {e \<in> set m. fst e \<noteq> k}"
  by (auto simp: btree_insert_def)

lemma fold_btree_remove: "fold btree_remove ks m = filter (\<lambda>e. fst e \<notin> set ks) m"
  by (induction ks arbitrary: m) (auto simp: btree_remove_def conj_commute intro: filter_cong)

lemma btree_foldr: "btree (foldr (\<lambda>(k, v). btree_insert k v) es [])"
  by (induction es) (auto simp: btree_def [of "[]"])

end
