(* ===== verification/Room_Events.thy ===== *)
theory Room_Events
  imports Errors Ordered
begin

text \<open>
  Events as the authorization and state resolution code sees them (the \<^verbatim>\<open>Event\<close> trait of
  \<^verbatim>\<open>src/core/matrix/event.rs\<close>) and the lazily deserialized views of
  \<^verbatim>\<open>src/service/rooms/state_res/events/\<close>: create, join rules, member, power levels and third-party
  invite events. Event contents are raw JSON texts. What \<^verbatim>\<open>ruma\<close> and \<^verbatim>\<open>serde_json\<close> do with a text
  is a parameter, the record \<open>ruma\<close>: one field per deserialization the code asks for, \<open>None\<close> where the
  library reports an error.
\<close>

section \<open>Data\<close>

type_synonym raw = string
type_synonym event_id = string
type_synonym user_id = string
type_synonym event_type = string
type_synonym type_state_key = "event_type \<times> string"

definition m_room_create :: event_type where "m_room_create = ''m.room.create''"
definition m_room_member :: event_type where "m_room_member = ''m.room.member''"
definition m_room_power_levels :: event_type where "m_room_power_levels = ''m.room.power_levels''"
definition m_room_join_rules :: event_type where "m_room_join_rules = ''m.room.join_rules''"
definition m_room_third_party_invite :: event_type where
  "m_room_third_party_invite = ''m.room.third_party_invite''"
definition m_room_redaction :: event_type where "m_room_redaction = ''m.room.redaction''"
definition m_room_aliases :: event_type where "m_room_aliases = ''m.room.aliases''"

lemmas event_type_defs = m_room_create_def m_room_member_def m_room_power_levels_def
  m_room_join_rules_def m_room_third_party_invite_def m_room_redaction_def m_room_aliases_def

lemma event_type_neq [simp]:
  "m_room_create \<noteq> m_room_member" "m_room_create \<noteq> m_room_power_levels"
  "m_room_create \<noteq> m_room_join_rules" "m_room_create \<noteq> m_room_third_party_invite"
  "m_room_create \<noteq> m_room_redaction" "m_room_create \<noteq> m_room_aliases"
  "m_room_member \<noteq> m_room_create" "m_room_member \<noteq> m_room_power_levels"
  "m_room_member \<noteq> m_room_join_rules" "m_room_member \<noteq> m_room_third_party_invite"
  "m_room_member \<noteq> m_room_redaction" "m_room_member \<noteq> m_room_aliases"
  "m_room_power_levels \<noteq> m_room_create" "m_room_power_levels \<noteq> m_room_member"
  "m_room_power_levels \<noteq> m_room_join_rules"
  "m_room_power_levels \<noteq> m_room_third_party_invite"
  "m_room_power_levels \<noteq> m_room_redaction" "m_room_power_levels \<noteq> m_room_aliases"
  "m_room_join_rules \<noteq> m_room_create" "m_room_join_rules \<noteq> m_room_member"
  "m_room_join_rules \<noteq> m_room_power_levels"
  "m_room_join_rules \<noteq> m_room_third_party_invite"
  "m_room_join_rules \<noteq> m_room_redaction" "m_room_join_rules \<noteq> m_room_aliases"
  "m_room_third_party_invite \<noteq> m_room_create"
  "m_room_third_party_invite \<noteq> m_room_member"
  "m_room_third_party_invite \<noteq> m_room_power_levels"
  "m_room_third_party_invite \<noteq> m_room_join_rules"
  "m_room_third_party_invite \<noteq> m_room_redaction"
  "m_room_third_party_invite \<noteq> m_room_aliases"
  "m_room_redaction \<noteq> m_room_create" "m_room_redaction \<noteq> m_room_member"
  "m_room_redaction \<noteq> m_room_power_levels" "m_room_redaction \<noteq> m_room_join_rules"
  "m_room_redaction \<noteq> m_room_third_party_invite" "m_room_redaction \<noteq> m_room_aliases"
  "m_room_aliases \<noteq> m_room_create" "m_room_aliases \<noteq> m_room_member"
  "m_room_aliases \<noteq> m_room_power_levels" "m_room_aliases \<noteq> m_room_join_rules"
  "m_room_aliases \<noteq> m_room_third_party_invite" "m_room_aliases \<noteq> m_room_redaction"
  by (simp_all add: event_type_defs)

text \<open>The fields of a persisted event the trait gives access to, under their accessors' names.\<close>

record pdu =
  event_id :: event_id
  room_id :: string
  sender :: user_id
  event_type :: event_type
  content :: raw
  state_key :: "string option"
  redacts :: "event_id option"
  prev_events :: "event_id list"
  auth_events :: "event_id list"
  origin_server_ts :: nat
  rejected :: bool

definition is_type_and_state_key :: "pdu \<Rightarrow> event_type \<Rightarrow> string \<Rightarrow> bool" where
  "is_type_and_state_key e k sk \<longleftrightarrow> event_type e = k \<and> state_key e = Some sk"

datatype membership_state = Join | Invite | Leave | Ban | Knock | CustomMembership string

datatype join_rule =
  JRPublic | JRInvite | JRKnock | JRRestricted | JRKnockRestricted | JRCustom string

text \<open>\<^verbatim>\<open>UserPowerLevel\<close>: a creator's level in the newest room versions lies above every integer.\<close>

datatype user_power_level = Infinite | Lvl int

instantiation user_power_level :: linorder
begin

fun less_eq_user_power_level :: "user_power_level \<Rightarrow> user_power_level \<Rightarrow> bool" where
  "less_eq_user_power_level _ Infinite = True"
| "less_eq_user_power_level Infinite (Lvl _) = False"
| "less_eq_user_power_level (Lvl a) (Lvl b) = (a \<le> b)"

definition less_user_power_level :: "user_power_level \<Rightarrow> user_power_level \<Rightarrow> bool" where
  "less_user_power_level a b \<longleftrightarrow> a \<le> b \<and> \<not> b \<le> a"

instance
proof
  fix x y z :: user_power_level
  show "(x < y) = (x \<le> y \<and> \<not> y \<le> x)" by (simp add: less_user_power_level_def)
  show "x \<le> x" by (cases x) auto
  show "x \<le> y \<Longrightarrow> y \<le> z \<Longrightarrow> x \<le> z" by (cases x; cases y; cases z) auto
  show "x \<le> y \<Longrightarrow> y \<le> x \<Longrightarrow> x = y" by (cases x; cases y) auto
  show "x \<le> y \<or> y \<le> x" by (cases x; cases y) auto
qed

end

lemma power_level_less [simp]:
  "Lvl a < Lvl b \<longleftrightarrow> a < b" "Lvl a < Infinite" "\<not> Infinite < x" "Infinite \<le> x \<longleftrightarrow> x = Infinite"
  by (auto simp: less_user_power_level_def elim: less_eq_user_power_level.elims)

datatype canonical_json =
    CNull | CBool bool | CInteger int | CString string
  | CArray "canonical_json list" | CObject "(string \<times> canonical_json) list"

type_synonym canonical_object = "(string \<times> canonical_json) list"

fun as_str :: "canonical_json \<Rightarrow> string option" where
  "as_str (CString s) = Some s"
| "as_str _ = None"

fun as_object :: "canonical_json \<Rightarrow> canonical_object option" where
  "as_object (CObject m) = Some m"
| "as_object _ = None"

section \<open>Room version rules\<close>

record authorization_rules =
  special_case_room_redaction :: bool
  special_case_room_aliases :: bool
  limit_notifications_power_levels :: bool
  knocking :: bool
  restricted_join_rule :: bool
  knock_restricted_join_rule :: bool
  integer_power_levels :: bool
  use_room_create_sender :: bool
  explicitly_privilege_room_creators :: bool
  additional_room_creators :: bool
  room_create_event_id_as_room_id :: bool

record state_res_v2_rules =
  consider_conflicted_state_subgraph :: bool
  begin_iterative_auth_checks_with_empty_state_map :: bool

record room_version_rules =
  authorization :: authorization_rules
  state_res_v2 :: "state_res_v2_rules option"

section \<open>What the libraries provide\<close>

text \<open>The key type an integer map of a power levels event is read with.\<close>

datatype map_key = UserIdKey | EventTypeKey | StringKey

record ruma =
  de_room_version :: "raw \<Rightarrow> string option option"
  de_federate :: "raw \<Rightarrow> bool option option"
  de_creator :: "raw \<Rightarrow> user_id option"
  de_additional_creators :: "raw \<Rightarrow> user_id list option"
  de_creator_ignored :: "raw \<Rightarrow> unit option option"
  de_join_rule :: "raw \<Rightarrow> join_rule option"
  de_membership :: "raw \<Rightarrow> membership_state option"
  de_join_authorised_via_users_server :: "raw \<Rightarrow> user_id option option"
  de_third_party_invite :: "raw \<Rightarrow> canonical_object option option"
  de_public_keys :: "raw \<Rightarrow> (string option \<times> string list) option"
  de_json_object :: "raw \<Rightarrow> (string \<times> raw) list option"
  de_int :: "raw \<Rightarrow> int option"
  de_v1_powerlevel :: "raw \<Rightarrow> int option"
  de_int_powerlevel_values :: "map_key \<Rightarrow> raw \<Rightarrow> (string \<times> int) list option"
  de_v1_powerlevel_values :: "map_key \<Rightarrow> raw \<Rightarrow> (string \<times> int) list option"
  user_id_valid :: "string \<Rightarrow> bool"
  user_server_name :: "user_id \<Rightarrow> string"
  room_server_name :: "string \<Rightarrow> string option"
  room_as_event_id :: "string \<Rightarrow> event_id option"
  event_server_name :: "event_id \<Rightarrow> string option"
  signing_key_algorithm :: "string \<Rightarrow> string option"
  base64_parse :: "string \<Rightarrow> string option"
  public_key_decode :: "string \<Rightarrow> string option"
  verify_canonical_json_bytes :: "string \<Rightarrow> string \<Rightarrow> string \<Rightarrow> string \<Rightarrow> bool"
  canonical_json_string_for_signing :: "canonical_object \<Rightarrow> string option"
  state_event_type_cmp :: "event_type \<Rightarrow> event_type \<Rightarrow> ordering"

section \<open>\<^verbatim>\<open>m.room.create\<close>\<close>

definition create_room_version :: "ruma \<Rightarrow> pdu \<Rightarrow> string res" where
  "create_room_version R e =
     rmap (\<lambda>v. case v of None \<Rightarrow> ''1'' | Some v \<Rightarrow> v)
       (ok_or (Err ''invalid `room_version` field in `m.room.create` event: {err}'')
         (de_room_version R (content e)))"

definition federate :: "ruma \<Rightarrow> pdu \<Rightarrow> bool res" where
  "federate R e =
     rmap (\<lambda>v. case v of None \<Rightarrow> True | Some b \<Rightarrow> b)
       (ok_or (Err ''invalid `m.federate` field in `m.room.create` event: {err}'')
         (de_federate R (content e)))"

definition creator :: "ruma \<Rightarrow> authorization_rules \<Rightarrow> pdu \<Rightarrow> user_id res" where
  "creator R rules e =
     (if use_room_create_sender rules then Inr (sender e)
      else ok_or (Err ''missing or invalid `creator` field in `m.room.create` event: {err}'')
             (de_creator R (content e)))"

definition additional_creators :: "ruma \<Rightarrow> authorization_rules \<Rightarrow> pdu \<Rightarrow> user_id list res" where
  "additional_creators R rules e =
     (if additional_room_creators rules then
        rmap (\<lambda>us. dedup_by (=) (sort_by (\<le>) us))
          (ok_or (Err ''invalid `additional_creators` field in `m.room.create` event: {err}'')
            (de_additional_creators R (content e)))
      else Inr [])"

definition creators :: "ruma \<Rightarrow> authorization_rules \<Rightarrow> pdu \<Rightarrow> user_id list res" where
  "creators R rules e =
     rbind (creator R rules e) (\<lambda>initial.
     rbind (additional_creators R rules e) (\<lambda>additional.
     Inr (initial # additional)))"

definition has_creator :: "ruma \<Rightarrow> pdu \<Rightarrow> bool res" where
  "has_creator R e =
     rmap (\<lambda>c. c \<noteq> None)
       (ok_or (Err ''invalid `creator` field in `m.room.create` event: {err}'')
         (de_creator_ignored R (content e)))"

section \<open>\<^verbatim>\<open>m.room.join_rules\<close>\<close>

definition event_join_rule :: "ruma \<Rightarrow> pdu \<Rightarrow> join_rule res" where
  "event_join_rule R e =
     ok_or (Err ''missing or invalid `join_rule` field in `m.room.join_rules` event: {err}'')
       (de_join_rule R (content e))"

section \<open>\<^verbatim>\<open>m.room.member\<close>\<close>

definition content_membership :: "ruma \<Rightarrow> raw \<Rightarrow> membership_state res" where
  "content_membership R c =
     ok_or (request InvalidParam ''missing or invalid `membership` field in `m.room.member` event: {err}'')
       (de_membership R c)"

definition content_join_authorised_via_users_server :: "ruma \<Rightarrow> raw \<Rightarrow> user_id option res" where
  "content_join_authorised_via_users_server R c =
     ok_or (request InvalidParam
         ''invalid `join_authorised_via_users_server` field in `m.room.member` event: {err}'')
       (de_join_authorised_via_users_server R c)"

definition content_third_party_invite :: "ruma \<Rightarrow> raw \<Rightarrow> canonical_object option res" where
  "content_third_party_invite R c =
     ok_or (request InvalidParam ''invalid `third_party_invite` field in `m.room.member` event: {err}'')
       (de_third_party_invite R c)"

definition membership :: "ruma \<Rightarrow> pdu \<Rightarrow> membership_state res" where
  "membership R e = content_membership R (content e)"

definition join_authorised_via_users_server :: "ruma \<Rightarrow> pdu \<Rightarrow> user_id option res" where
  "join_authorised_via_users_server R e = content_join_authorised_via_users_server R (content e)"

definition third_party_invite :: "ruma \<Rightarrow> pdu \<Rightarrow> canonical_object option res" where
  "third_party_invite R e = content_third_party_invite R (content e)"

definition result_membership :: "ruma \<Rightarrow> pdu res \<Rightarrow> membership_state res" where
  "result_membership R r = (case r of
     Inr e \<Rightarrow> membership R e
   | Inl err \<Rightarrow> if is_not_found err then Inr Leave else Inl err)"

definition invite_token :: "canonical_object \<Rightarrow> string res" where
  "invite_token obj = (case map_of obj ''token'' of
     None \<Rightarrow> Inl (request InvalidParam
       ''missing `token` field in `third_party_invite.signed` of `m.room.member` event'')
   | Some v \<Rightarrow> ok_or (request InvalidParam
       ''unexpected format of `token` field in `third_party_invite.signed` of `m.room.member` event: expected string, got {token_value:?}'')
       (as_str v))"

definition invite_mxid :: "canonical_object \<Rightarrow> string res" where
  "invite_mxid obj = (case map_of obj ''mxid'' of
     None \<Rightarrow> Inl (request InvalidParam
       ''missing `mxid` field in `third_party_invite.signed` of `m.room.member` event'')
   | Some v \<Rightarrow> ok_or (request InvalidParam
       ''unexpected format of `mxid` field in `third_party_invite.signed` of `m.room.member` event: expected string, got {mxid_value:?}'')
       (as_str v))"

definition invite_signatures :: "canonical_object \<Rightarrow> canonical_object res" where
  "invite_signatures obj = (case map_of obj ''signatures'' of
     None \<Rightarrow> Inl (request InvalidParam
       ''missing `signatures` field in `third_party_invite.signed` of `m.room.member` event'')
   | Some v \<Rightarrow> ok_or (request InvalidParam
       ''unexpected format of `signatures` field in `third_party_invite.signed` of `m.room.member` event: expected object, got {signatures_value:?}'')
       (as_object v))"

definition signed_canonical_json :: "ruma \<Rightarrow> canonical_object \<Rightarrow> string res" where
  "signed_canonical_json R obj =
     ok_or (request InvalidParam
         ''invalid `third_party_invite.signed` field in `m.room.member` event: {error}'')
       (canonical_json_string_for_signing R obj)"

section \<open>\<^verbatim>\<open>m.room.third_party_invite\<close>\<close>

definition public_keys :: "ruma \<Rightarrow> pdu \<Rightarrow> string list res" where
  "public_keys R e =
     rmap (\<lambda>(one, many).
         dedup_by (=) (sort_by (\<le>) ((case one of None \<Rightarrow> [] | Some k \<Rightarrow> [k]) @ many)))
       (ok_or (Err ''invalid `public_key` or `public_keys` in `m.room.third_party_invite` event: {err}'')
         (de_public_keys R (content e)))"

section \<open>Power events\<close>

definition is_power_event :: "ruma \<Rightarrow> pdu \<Rightarrow> bool" where
  "is_power_event R e =
     (if event_type e \<in> {m_room_power_levels, m_room_join_rules, m_room_create}
      then state_key e = Some ''''
      else if event_type e = m_room_member then
        (case content_membership R (content e) of
           Inr m \<Rightarrow> m \<in> {Leave, Ban} \<and> Some (sender e) \<noteq> state_key e
         | Inl _ \<Rightarrow> False)
      else False)"

section \<open>\<^verbatim>\<open>m.room.power_levels\<close>\<close>

datatype int_field =
  UsersDefault | EventsDefault | StateDefault | BanLevel | RedactLevel | KickLevel | InviteLevel

definition ALL_FIELDS :: "int_field list" where
  "ALL_FIELDS = [UsersDefault, EventsDefault, StateDefault, BanLevel, RedactLevel, KickLevel, InviteLevel]"

fun default_value :: "int_field \<Rightarrow> int" where
  "default_value UsersDefault = 0"
| "default_value EventsDefault = 0"
| "default_value InviteLevel = 0"
| "default_value StateDefault = 50"
| "default_value KickLevel = 50"
| "default_value BanLevel = 50"
| "default_value RedactLevel = 50"

fun field_str :: "int_field \<Rightarrow> string" where
  "field_str UsersDefault = ''users_default''"
| "field_str EventsDefault = ''events_default''"
| "field_str StateDefault = ''state_default''"
| "field_str BanLevel = ''ban''"
| "field_str RedactLevel = ''redact''"
| "field_str KickLevel = ''kick''"
| "field_str InviteLevel = ''invite''"

definition DEFAULT_CREATOR_POWER_LEVEL :: int where "DEFAULT_CREATOR_POWER_LEVEL = 100"

definition pl_position :: "('k \<times> 'v) list \<Rightarrow> 'k \<Rightarrow> nat option" where
  "pl_position vec key =
     (let i = length (takeWhile (\<lambda>kv. fst kv \<noteq> key) vec) in if i < length vec then Some i else None)"

definition get_value :: "('k \<times> 'v) list \<Rightarrow> 'k \<Rightarrow> 'v option" where
  "get_value vec key = (case pl_position vec key of None \<Rightarrow> None | Some i \<Rightarrow> Some (snd (vec ! i)))"

definition pl_contains_key :: "('k \<times> 'v) list \<Rightarrow> 'k \<Rightarrow> bool" where
  "pl_contains_key vec key \<longleftrightarrow> pl_position vec key \<noteq> None"

definition deserialized_content :: "ruma \<Rightarrow> pdu \<Rightarrow> (string \<times> raw) list res" where
  "deserialized_content R e =
     ok_or (request InvalidParam ''malformed `m.room.power_levels` content: {error}'')
       (de_json_object R (content e))"

abbreviation unexpected_field :: error where
  "unexpected_field \<equiv> request InvalidParam
     ''unexpected format of `{field}` field in `content` of `m.room.power_levels` event: {error}''"

definition get_as_int :: "ruma \<Rightarrow> authorization_rules \<Rightarrow> pdu \<Rightarrow> int_field \<Rightarrow> int option res" where
  "get_as_int R rules e field =
     rbind (deserialized_content R e) (\<lambda>c.
     case map_of c (field_str field) of
       None \<Rightarrow> Inr None
     | Some v \<Rightarrow> rmap Some (ok_or unexpected_field
         (if integer_power_levels rules then de_int R v else de_v1_powerlevel R v)))"

definition get_as_int_or_default :: "ruma \<Rightarrow> authorization_rules \<Rightarrow> pdu \<Rightarrow> int_field \<Rightarrow> int res" where
  "get_as_int_or_default R rules e field =
     rmap (\<lambda>v. case v of Some n \<Rightarrow> n | None \<Rightarrow> default_value field) (get_as_int R rules e field)"

definition get_as_int_map ::
  "ruma \<Rightarrow> authorization_rules \<Rightarrow> map_key \<Rightarrow> pdu \<Rightarrow> string \<Rightarrow> (string \<times> int) list option res" where
  "get_as_int_map R rules k e field =
     rbind (deserialized_content R e) (\<lambda>c.
     case map_of c field of
       None \<Rightarrow> Inr None
     | Some v \<Rightarrow> rmap Some (ok_or unexpected_field
         (if integer_power_levels rules then de_int_powerlevel_values R k v
          else de_v1_powerlevel_values R k v)))"

definition pl_events :: "ruma \<Rightarrow> authorization_rules \<Rightarrow> pdu \<Rightarrow> (event_type \<times> int) list option res" where
  "pl_events R rules e = get_as_int_map R rules EventTypeKey e ''events''"

definition pl_notifications :: "ruma \<Rightarrow> authorization_rules \<Rightarrow> pdu \<Rightarrow> (string \<times> int) list option res" where
  "pl_notifications R rules e = get_as_int_map R rules StringKey e ''notifications''"

definition pl_users :: "ruma \<Rightarrow> authorization_rules \<Rightarrow> pdu \<Rightarrow> (user_id \<times> int) list option res" where
  "pl_users R rules e = get_as_int_map R rules UserIdKey e ''users''"

definition pl_user_power_level ::
  "ruma \<Rightarrow> authorization_rules \<Rightarrow> pdu \<Rightarrow> user_id \<Rightarrow> user_power_level res" where
  "pl_user_power_level R rules e u =
     rbind (pl_users R rules e) (\<lambda>users.
     rmap Lvl (case Option.bind users (\<lambda>us. get_value us u) of
         Some n \<Rightarrow> Inr n
       | None \<Rightarrow> get_as_int_or_default R rules e UsersDefault))"

definition pl_event_power_level ::
  "ruma \<Rightarrow> authorization_rules \<Rightarrow> pdu \<Rightarrow> event_type \<Rightarrow> string option \<Rightarrow> int res" where
  "pl_event_power_level R rules e t sk =
     rbind (pl_events R rules e) (\<lambda>events.
     case Option.bind events (\<lambda>es. get_value es t) of
       Some n \<Rightarrow> Inr n
     | None \<Rightarrow> get_as_int_or_default R rules e (if sk \<noteq> None then StateDefault else EventsDefault))"

definition int_fields_map :: "ruma \<Rightarrow> authorization_rules \<Rightarrow> pdu \<Rightarrow> (int_field \<times> int) list res" where
  "int_fields_map R rules e =
     rmap (List.map_filter (\<lambda>x. x))
       (rmapM (\<lambda>f. rmap (map_option (Pair f)) (get_as_int R rules e f)) ALL_FIELDS)"

text \<open>The same questions of a room that may have no power levels event.\<close>

definition user_power_level_of ::
  "ruma \<Rightarrow> authorization_rules \<Rightarrow> pdu option \<Rightarrow> user_id list \<Rightarrow> user_id \<Rightarrow> user_power_level res" where
  "user_power_level_of R rules pl cs u =
     (if explicitly_privilege_room_creators rules \<and> u \<in> set cs then Inr Infinite
      else case pl of
        Some e \<Rightarrow> pl_user_power_level R rules e u
      | None \<Rightarrow> Inr (Lvl (if u \<in> set cs then DEFAULT_CREATOR_POWER_LEVEL else default_value UsersDefault)))"

definition int_or_default ::
  "ruma \<Rightarrow> authorization_rules \<Rightarrow> pdu option \<Rightarrow> int_field \<Rightarrow> int res" where
  "int_or_default R rules pl field = (case pl of
     None \<Rightarrow> Inr (default_value field)
   | Some e \<Rightarrow> get_as_int_or_default R rules e field)"

definition event_power_level ::
  "ruma \<Rightarrow> authorization_rules \<Rightarrow> pdu option \<Rightarrow> event_type \<Rightarrow> string option \<Rightarrow> int res" where
  "event_power_level R rules pl t sk = (case pl of
     None \<Rightarrow> Inr (default_value (if sk \<noteq> None then StateDefault else EventsDefault))
   | Some e \<Rightarrow> pl_event_power_level R rules e t sk)"

section \<open>Lookups in power level maps\<close>

lemma pl_position_simps [simp]:
  "pl_position [] key = None"
  "pl_position (kv # vec) key = (if fst kv = key then Some 0 else map_option Suc (pl_position vec key))"
  by (simp_all add: pl_position_def Let_def)

lemma get_value_map_of [simp]: "get_value vec key = map_of vec key"
proof (induction vec)
  case (Cons kv vec)
  then show ?case by (cases "pl_position vec key") (auto simp: get_value_def split: if_splits)
qed (simp add: get_value_def)

lemma pl_contains_key_iff [simp]: "pl_contains_key vec key \<longleftrightarrow> key \<in> fst ` set vec"
proof -
  have "pl_position vec key = None \<longleftrightarrow> key \<notin> fst ` set vec" by (induction vec) auto
  then show ?thesis by (simp add: pl_contains_key_def)
qed

lemma set_ALL_FIELDS [simp]: "field \<in> set ALL_FIELDS"
  by (cases field) (simp_all add: ALL_FIELDS_def)

lemma field_str_inject: "field_str f = field_str g \<Longrightarrow> f = g"
  by (cases f; cases g) simp_all

text \<open>The map of integer fields answers as the event's fields do.\<close>

lemma rmap_pair_Inr: "rmap (map_option (Pair f)) r = Inr y \<longleftrightarrow> (\<exists>v. r = Inr v \<and> y = map_option (Pair f) v)"
  by (cases r) auto

lemma keys_map_filter_fields:
  "list_all2 (\<lambda>f y. rmap (map_option (Pair f)) (g f) = Inr y) fs ys \<Longrightarrow>
   map_of (List.map_filter (\<lambda>x. x) ys) f \<noteq> None \<Longrightarrow> f \<in> set fs"
proof (induction fs ys rule: list_all2_induct)
  case (Cons h fs y ys)
  then show ?case by (cases "f = h"; cases y) (auto simp: rmap_pair_Inr List.map_filter_simps split: option.splits)
qed (simp add: List.map_filter_simps)

lemma map_filter_fields:
  "list_all2 (\<lambda>f y. rmap (map_option (Pair f)) (g f) = Inr y) fs ys \<Longrightarrow> distinct fs \<Longrightarrow> f \<in> set fs \<Longrightarrow>
   g f = Inr (map_of (List.map_filter (\<lambda>x. x) ys) f)"
proof (induction fs ys rule: list_all2_induct)
  case (Cons h fs y ys)
  obtain v where v: "g h = Inr v" "y = map_option (Pair h) v"
    using Cons.hyps(1) by (auto simp: rmap_pair_Inr)
  have "map_of (List.map_filter (\<lambda>x. x) ys) h = None"
    using keys_map_filter_fields [OF Cons.hyps(2), of h] Cons.prems(1) by (cases "map_of (List.map_filter (\<lambda>x. x) ys) h") auto
  with v Cons.IH Cons.prems show ?case
    by (cases "f = h"; cases v) (auto simp: List.map_filter_simps)
qed simp

lemma int_fields_map_get:
  "int_fields_map R rules e = Inr m \<Longrightarrow> get_as_int R rules e f = Inr (map_of m f)"
  by (auto simp: int_fields_map_def rmapM_Inr_iff ALL_FIELDS_def [symmetric]
      intro!: map_filter_fields [where fs = ALL_FIELDS])
    (simp_all add: ALL_FIELDS_def)

end
