(* ===== verification/Auth_Types.thy ===== *)
theory Auth_Types
  imports Room_Events
begin

text \<open>
  Reading the room state an event is checked against (\<^verbatim>\<open>state_res/fetch_state.rs\<close>) and the auth events
  selection of \<^verbatim>\<open>state_res/event_auth/auth_types.rs\<close>. A state snapshot is the function \<open>fetch_state\<close>
  the code is given: it answers a type and state key with an event or an error, and an error that maps
  to HTTP 404 reads as an absent entry.
\<close>

section \<open>Fetching state\<close>

type_synonym fetch_state = "event_type \<Rightarrow> string \<Rightarrow> pdu res"
type_synonym fetch_event = "event_id \<Rightarrow> pdu res"

definition absent_or :: "pdu res \<Rightarrow> pdu option res" where
  "absent_or r = (case r of
     Inr e \<Rightarrow> Inr (Some e)
   | Inl err \<Rightarrow> if is_not_found err then Inr None else Inl err)"

definition room_create_event :: "fetch_state \<Rightarrow> pdu res" where
  "room_create_event fetch =
     rmap_err (\<lambda>e. if is_not_found e then Err ''no `m.room.create` event in current state: {error}'' else e)
       (fetch m_room_create '''')"

definition user_membership :: "ruma \<Rightarrow> fetch_state \<Rightarrow> user_id \<Rightarrow> membership_state res" where
  "user_membership R fetch u = result_membership R (fetch m_room_member u)"

definition room_power_levels_event :: "fetch_state \<Rightarrow> pdu option res" where
  "room_power_levels_event fetch = absent_or (fetch m_room_power_levels '''')"

definition join_rule :: "ruma \<Rightarrow> fetch_state \<Rightarrow> join_rule res" where
  "join_rule R fetch =
     rbind (rmap_err
         (\<lambda>e. if is_not_found e then Err ''no `m.room.join_rules` event in current state: {error}'' else e)
         (fetch m_room_join_rules ''''))
       (event_join_rule R)"

definition room_third_party_invite_event :: "fetch_state \<Rightarrow> string \<Rightarrow> pdu option res" where
  "room_third_party_invite_event fetch token = absent_or (fetch m_room_third_party_invite token)"

section \<open>Auth events selection\<close>

definition MAX_AUTH_EVENTS :: nat where "MAX_AUTH_EVENTS = 10"

definition push_new :: "'a list \<Rightarrow> 'a \<Rightarrow> 'a list" where
  "push_new xs x = (if x \<in> set xs then xs else xs @ [x])"

definition auth_types_for_member_event ::
  "ruma \<Rightarrow> authorization_rules \<Rightarrow> string option \<Rightarrow> raw \<Rightarrow> type_state_key list \<Rightarrow> type_state_key list res" where
  "auth_types_for_member_event R rules sk c auth_types0 = (case sk of
     None \<Rightarrow> Inl (Err ''missing `state_key` field for `m.room.member` event'')
   | Some k \<Rightarrow>
     let auth_types1 = push_new auth_types0 (m_room_member, k) in
     rbind (content_membership R c) (\<lambda>m.
     let auth_types2 =
       (if m \<in> {Join, Invite, Knock} then push_new auth_types1 (m_room_join_rules, '''') else auth_types1) in
     rbind
       (if m = Invite then
          rbind (content_third_party_invite R c) (\<lambda>tpi. case tpi of
            None \<Rightarrow> Inr auth_types2
          | Some obj \<Rightarrow> rbind (invite_token obj) (\<lambda>token.
              Inr (push_new auth_types2 (m_room_third_party_invite, token))))
        else Inr auth_types2) (\<lambda>auth_types3.
     if m = Join \<and> restricted_join_rule rules then
       rbind (content_join_authorised_via_users_server R c) (\<lambda>via. case via of
         None \<Rightarrow> Inr auth_types3
       | Some u \<Rightarrow> Inr (push_new auth_types3 (m_room_member, u)))
     else Inr auth_types3)))"

definition auth_types_for_event ::
  "ruma \<Rightarrow> authorization_rules \<Rightarrow> event_type \<Rightarrow> user_id \<Rightarrow> string option \<Rightarrow> raw \<Rightarrow> bool \<Rightarrow>
   type_state_key list res" where
  "auth_types_for_event R rules t u sk c always_create =
     (let auth_types =
        (if t \<noteq> m_room_create then
           (if \<not> room_create_event_id_as_room_id rules \<or> always_create
            then [(m_room_create, '''')] else []) @
           [(m_room_power_levels, ''''), (m_room_member, u)]
         else [])
      in if t = m_room_member then auth_types_for_member_event R rules sk c auth_types
         else Inr auth_types)"

section \<open>Lemmas\<close>

lemma absent_or_Inr [simp]:
  "absent_or r = Inr x \<longleftrightarrow> (\<exists>e. r = Inr e \<and> x = Some e) \<or> (\<exists>e. r = Inl e \<and> is_not_found e \<and> x = None)"
  by (auto simp: absent_or_def split: sum.splits)

lemma absent_or_Inl [simp]: "absent_or r = Inl e \<longleftrightarrow> r = Inl e \<and> \<not> is_not_found e"
  by (auto simp: absent_or_def split: sum.splits)

lemma set_push_new [simp]: "set (push_new xs x) = insert x (set xs)"
  by (auto simp: push_new_def)

lemma distinct_push_new [simp]: "distinct xs \<Longrightarrow> distinct (push_new xs x)"
  by (simp add: push_new_def)

lemma length_push_new: "length (push_new xs x) \<le> Suc (length xs)"
  by (simp add: push_new_def)

text \<open>What the selection algorithm of the server-server specification asks for.\<close>

definition required_auth_types ::
  "ruma \<Rightarrow> authorization_rules \<Rightarrow> event_type \<Rightarrow> user_id \<Rightarrow> string option \<Rightarrow> raw \<Rightarrow> bool \<Rightarrow>
   type_state_key set" where
  "required_auth_types R rules t u sk c always_create =
     (if t = m_room_create then {} else
      {(m_room_power_levels, ''''), (m_room_member, u)} \<union>
      {(m_room_create, '''') |_::unit. \<not> room_create_event_id_as_room_id rules \<or> always_create} \<union>
      (if t \<noteq> m_room_member then {} else
       {(m_room_member, k) |k. sk = Some k} \<union>
       {(m_room_join_rules, '''') |m. de_membership R c = Some m \<and> m \<in> {Join, Invite, Knock}} \<union>
       {(m_room_third_party_invite, token) |obj token.
          de_membership R c = Some Invite \<and> de_third_party_invite R c = Some (Some obj) \<and>
          map_of obj ''token'' = Some (CString token)} \<union>
       {(m_room_member, v) |v.
          de_membership R c = Some Join \<and> restricted_join_rule rules \<and>
          de_join_authorised_via_users_server R c = Some (Some v)}))"

lemma as_str_Some [simp]: "as_str v = Some s \<longleftrightarrow> v = CString s"
  by (cases v) auto

lemma as_object_Some [simp]: "as_object v = Some m \<longleftrightarrow> v = CObject m"
  by (cases v) auto

lemma invite_token_Inr [simp]: "invite_token obj = Inr s \<longleftrightarrow> map_of obj ''token'' = Some (CString s)"
  by (auto simp: invite_token_def split: option.splits)

lemma invite_mxid_Inr [simp]: "invite_mxid obj = Inr s \<longleftrightarrow> map_of obj ''mxid'' = Some (CString s)"
  by (auto simp: invite_mxid_def split: option.splits)

lemma invite_signatures_Inr [simp]:
  "invite_signatures obj = Inr m \<longleftrightarrow> map_of obj ''signatures'' = Some (CObject m)"
  by (auto simp: invite_signatures_def split: option.splits)

lemma auth_types_member_spec:
  assumes "auth_types_for_member_event R rules sk c ts0 = Inr ts" and "distinct ts0"
  shows "distinct ts \<and> length ts \<le> length ts0 + 3 \<and>
    set ts = set ts0 \<union> {(m_room_member, k) |k. sk = Some k} \<union>
       {(m_room_join_rules, '''') |m. de_membership R c = Some m \<and> m \<in> {Join, Invite, Knock}} \<union>
       {(m_room_third_party_invite, token) |obj token.
          de_membership R c = Some Invite \<and> de_third_party_invite R c = Some (Some obj) \<and>
          map_of obj ''token'' = Some (CString token)} \<union>
       {(m_room_member, v) |v.
          de_membership R c = Some Join \<and> restricted_join_rule rules \<and>
          de_join_authorised_via_users_server R c = Some (Some v)}"
proof -
  note defs = auth_types_for_member_event_def content_membership_def content_third_party_invite_def
    content_join_authorised_via_users_server_def Let_def
  have len: "length (push_new (push_new (push_new ts0 a) b) d) \<le> length ts0 + 3"
    "length (push_new (push_new ts0 a) b) \<le> length ts0 + 3" "length (push_new ts0 a) \<le> length ts0 + 3"
    for a b d by (auto simp: push_new_def)
  from assms(1) obtain k m where km: "sk = Some k" "de_membership R c = Some m"
    by (auto simp: defs case_option_Inr_iff)
  consider "m = Invite" | "m = Join" | "m \<noteq> Invite" "m \<noteq> Join" by blast
  then show ?thesis
    using assms km len by cases (auto simp: defs case_option_Inr_iff split: if_splits)
qed

lemma auth_types_for_event_spec:
  assumes "auth_types_for_event R rules t u sk c ac = Inr ts"
  shows "distinct ts" and "length ts \<le> 6" and "set ts = required_auth_types R rules t u sk c ac"
proof -
  define ts0 where "ts0 = (if t \<noteq> m_room_create then
      (if \<not> room_create_event_id_as_room_id rules \<or> ac then [(m_room_create, '''')] else []) @
      [(m_room_power_levels, ''''), (m_room_member, u)] else [])"
  have ts: "if t = m_room_member then auth_types_for_member_event R rules sk c ts0 = Inr ts else ts = ts0"
    using assms by (auto simp: auth_types_for_event_def ts0_def Let_def split: if_splits)
  have ts0: "distinct ts0" "length ts0 \<le> 3" by (auto simp: ts0_def)
  note spec = auth_types_member_spec [of R rules sk c ts0 ts, OF _ ts0(1)]
  show "distinct ts" and "length ts \<le> 6"
    using ts ts0 spec by (auto split: if_splits)
  show "set ts = required_auth_types R rules t u sk c ac"
  proof (cases "t = m_room_member")
    case True
    with ts spec show ?thesis by (auto simp: required_auth_types_def ts0_def)
  next
    case False
    with ts show ?thesis by (auto simp: required_auth_types_def ts0_def)
  qed
qed

end
