(* ===== verification/Room_Member.thy ===== *)
theory Room_Member
  imports Auth_Types
begin

text \<open>
  The \<^verbatim>\<open>m.room.member\<close> authorization rules (\<^verbatim>\<open>state_res/event_auth/room_member.rs\<close>): join, invite (with
  third-party invites and their signatures), leave, ban and knock. The state fetches a rule joins
  concurrently are pure reads of one snapshot; their results are looked at in the order of the code.
\<close>

section \<open>Join\<close>

definition check_room_member_join ::
  "ruma \<Rightarrow> authorization_rules \<Rightarrow> pdu \<Rightarrow> user_id \<Rightarrow> pdu \<Rightarrow> fetch_state \<Rightarrow> unit res" where
  "check_room_member_join R rules ev target create fetch =
     rbind (creator R rules create) (\<lambda>cr.
     rbind (creators R rules create) (\<lambda>cs.
     let prev_event_is_only_room_create_event = (prev_events ev = [event_id create]) in
     if prev_event_is_only_room_create_event \<and> target = cr then Inr ()
     else guard_err (sender ev \<noteq> target) (Err ''sender of join event must match target user'') (
     rbind (user_membership R fetch target) (\<lambda>current.
     guard_err (current = Ban) (Err ''banned user cannot join room'') (
     rbind (join_rule R fetch) (\<lambda>jr.
     if (jr = JRInvite \<or> knocking rules \<and> jr = JRKnock) \<and> current \<in> {Invite, Join} then Inr ()
     else if restricted_join_rule rules \<and> jr = JRRestricted
           \<or> knock_restricted_join_rule rules \<and> jr = JRKnockRestricted then
       if current \<in> {Join, Invite} then Inr ()
       else rbind (join_authorised_via_users_server R ev) (\<lambda>via. case via of
         None \<Rightarrow> Inl (Err ''cannot join restricted room without `join_authorised_via_users_server` field if not invited'')
       | Some v \<Rightarrow>
         rbind (user_membership R fetch v) (\<lambda>vm.
         guard_err (vm \<noteq> Join) (Err ''`join_authorised_via_users_server` is not joined'') (
         rbind (room_power_levels_event fetch) (\<lambda>pl.
         rbind (user_power_level_of R rules pl cs v) (\<lambda>vpl.
         rbind (int_or_default R rules pl InviteLevel) (\<lambda>inv.
         guard_err (vpl < Lvl inv) (Err ''`join_authorised_via_users_server` does not have enough power'')
           (Inr ())))))))
     else guard_err (jr \<noteq> JRPublic) (Err ''cannot join a room that is not `public`'') (Inr ())))))))"

section \<open>Invite\<close>

text \<open>One entry of a signatures object: whether some public key verifies it. Malformed parts are skipped.\<close>

definition signature_verifies ::
  "ruma \<Rightarrow> string list \<Rightarrow> string \<Rightarrow> string \<times> canonical_json \<Rightarrow> bool" where
  "signature_verifies R pks json entry =
     (case signing_key_algorithm R (fst entry) of None \<Rightarrow> False | Some algorithm \<Rightarrow>
      case as_str (snd entry) of None \<Rightarrow> False | Some signature_str \<Rightarrow>
      case base64_parse R signature_str of None \<Rightarrow> False | Some signature \<Rightarrow>
      list_ex (\<lambda>encoded. case public_key_decode R encoded of None \<Rightarrow> False | Some key \<Rightarrow>
        verify_canonical_json_bytes R algorithm key signature json) pks)"

fun any_signature_verifies ::
  "ruma \<Rightarrow> string list \<Rightarrow> string \<Rightarrow> canonical_json list \<Rightarrow> bool res" where
  "any_signature_verifies R pks json [] = Inr False"
| "any_signature_verifies R pks json (v # vs) = (case as_object v of
     None \<Rightarrow> Inl (request InvalidParam
       ''unexpected format of `signatures` field in `third_party_invite.signed` of `m.room.member` event: expected a map of string to object, got {entity_signatures_value:?}'')
   | Some entries \<Rightarrow>
     if list_ex (signature_verifies R pks json) entries then Inr True
     else any_signature_verifies R pks json vs)"

definition check_third_party_invite ::
  "ruma \<Rightarrow> pdu \<Rightarrow> canonical_object \<Rightarrow> user_id \<Rightarrow> fetch_state \<Rightarrow> unit res" where
  "check_third_party_invite R ev tpi target fetch =
     rbind (user_membership R fetch target) (\<lambda>current.
     guard_err (current = Ban) (Err ''cannot invite user that is banned'') (
     rbind (invite_token tpi) (\<lambda>token.
     rbind (invite_mxid tpi) (\<lambda>mxid.
     guard_err (target \<noteq> mxid) (Err ''third-party invite mxid does not match target user'') (
     rbind (room_third_party_invite_event fetch token) (\<lambda>tpie. case tpie of
       None \<Rightarrow> Inl (Err ''no `m.room.third_party_invite` in room state matches the token'')
     | Some tpe \<Rightarrow>
       guard_err (sender ev \<noteq> sender tpe)
         (Err ''sender of `m.room.third_party_invite` does not match sender of `m.room.member`'') (
       rbind (invite_signatures tpi) (\<lambda>signatures.
       rbind (public_keys R tpe) (\<lambda>pks.
       rbind (signed_canonical_json R tpi) (\<lambda>json.
       rbind (any_signature_verifies R pks json (map snd signatures)) (\<lambda>found.
       if found then Inr ()
       else Inl (Err ''no signature on third-party invite matches a public key in `m.room.third_party_invite` event'')
       )))))))))))"

definition check_room_member_invite ::
  "ruma \<Rightarrow> authorization_rules \<Rightarrow> pdu \<Rightarrow> user_id \<Rightarrow> pdu \<Rightarrow> fetch_state \<Rightarrow> unit res" where
  "check_room_member_invite R rules ev target create fetch =
     rbind (third_party_invite R ev) (\<lambda>tpi. case tpi of
       Some obj \<Rightarrow> check_third_party_invite R ev obj target fetch
     | None \<Rightarrow>
       rbind (user_membership R fetch (sender ev)) (\<lambda>sm.
       guard_err (sm \<noteq> Join) (Err ''cannot invite user if sender is not joined'') (
       rbind (user_membership R fetch target) (\<lambda>tm.
       guard_err (tm \<in> {Join, Ban}) (Err ''cannot invite user that is joined or banned'') (
       rbind (room_power_levels_event fetch) (\<lambda>pl.
       rbind (creators R rules create) (\<lambda>cs.
       rbind (user_power_level_of R rules pl cs (sender ev)) (\<lambda>spl.
       rbind (int_or_default R rules pl InviteLevel) (\<lambda>inv.
       guard_err (spl < Lvl inv) (Err ''sender does not have enough power to invite'') (Inr ()))))))))))"

section \<open>Leave, ban and knock\<close>

definition check_room_member_leave ::
  "ruma \<Rightarrow> authorization_rules \<Rightarrow> pdu \<Rightarrow> user_id \<Rightarrow> pdu \<Rightarrow> fetch_state \<Rightarrow> unit res" where
  "check_room_member_leave R rules ev target create fetch =
     rbind (user_membership R fetch (sender ev)) (\<lambda>sm.
     if sender ev = target then
       if sm \<in> {Join, Invite} \<or> knocking rules \<and> sm = Knock then Inr ()
       else Inl (Err ''cannot leave if not joined, invited or knocked'')
     else guard_err (sm \<noteq> Join) (Err ''cannot kick if sender is not joined'') (
     rbind (creators R rules create) (\<lambda>cs.
     rbind (user_membership R fetch target) (\<lambda>tm.
     rbind (room_power_levels_event fetch) (\<lambda>pl.
     rbind (user_power_level_of R rules pl cs (sender ev)) (\<lambda>spl.
     rbind (int_or_default R rules pl BanLevel) (\<lambda>ban.
     guard_err (tm = Ban \<and> spl < Lvl ban) (Err ''sender does not have enough power to unban'') (
     rbind (int_or_default R rules pl KickLevel) (\<lambda>kick.
     rbind (user_power_level_of R rules pl cs target) (\<lambda>tpl.
     if spl \<ge> Lvl kick \<and> tpl < spl then Inr ()
     else Inl (Err ''sender does not have enough power to kick target user'')))))))))))"

definition check_room_member_ban ::
  "ruma \<Rightarrow> authorization_rules \<Rightarrow> pdu \<Rightarrow> user_id \<Rightarrow> pdu \<Rightarrow> fetch_state \<Rightarrow> unit res" where
  "check_room_member_ban R rules ev target create fetch =
     rbind (user_membership R fetch (sender ev)) (\<lambda>sm.
     guard_err (sm \<noteq> Join) (Err ''cannot ban if sender is not joined'') (
     rbind (room_power_levels_event fetch) (\<lambda>pl.
     rbind (creators R rules create) (\<lambda>cs.
     rbind (user_power_level_of R rules pl cs (sender ev)) (\<lambda>spl.
     rbind (int_or_default R rules pl BanLevel) (\<lambda>ban.
     rbind (user_power_level_of R rules pl cs target) (\<lambda>tpl.
     if spl \<ge> Lvl ban \<and> tpl < spl then Inr ()
     else Inl (Err ''sender does not have enough power to ban target user''))))))))"

definition check_room_member_knock ::
  "ruma \<Rightarrow> authorization_rules \<Rightarrow> pdu \<Rightarrow> user_id \<Rightarrow> fetch_state \<Rightarrow> unit res" where
  "check_room_member_knock R rules ev target fetch =
     rbind (join_rule R fetch) (\<lambda>jr.
     let supports_knock = (jr = JRKnock \<or> knock_restricted_join_rule rules \<and> jr = JRKnockRestricted) in
     guard_err (\<not> supports_knock)
       (Err ''join rule is not set to knock or knock_restricted, knocking is not allowed'') (
     guard_err (sender ev \<noteq> target)
       (Err ''cannot make another user knock, sender does not match target user'') (
     rbind (user_membership R fetch (sender ev)) (\<lambda>sm.
     if sm \<notin> {Ban, Invite, Join} then Inr ()
     else Inl (Err ''cannot knock if user is banned, invited or joined'')))))"

section \<open>The member rules\<close>

definition check_room_member ::
  "ruma \<Rightarrow> authorization_rules \<Rightarrow> pdu \<Rightarrow> pdu \<Rightarrow> fetch_state \<Rightarrow> unit res" where
  "check_room_member R rules ev create fetch = (case state_key ev of
     None \<Rightarrow> Inl (Err ''missing `state_key` field in `m.room.member` event'')
   | Some target \<Rightarrow>
     guard_err (\<not> user_id_valid R target) (Err ''invalid `state_key` field in `m.room.member` event: {e}'') (
     rbind (federate R create) (\<lambda>fed.
     guard_err (\<not> fed \<and> user_server_name R target \<noteq> user_server_name R (sender create))
       (Err ''MSC4361: room is not federated and target user domain does not match `m.room.create` event's sender domain'') (
     rbind (membership R ev) (\<lambda>m.
     if m = Join then check_room_member_join R rules ev target create fetch
     else if m = Invite then check_room_member_invite R rules ev target create fetch
     else if m = Leave then check_room_member_leave R rules ev target create fetch
     else if m = Ban then check_room_member_ban R rules ev target create fetch
     else if m = Knock \<and> knocking rules then check_room_member_knock R rules ev target fetch
     else Inl (Err ''unknown membership''))))))"

section \<open>What the rules decide\<close>

text \<open>\<open>outranks\<close>: the actor has the level of the field and strictly more than the target.\<close>

definition outranks ::
  "ruma \<Rightarrow> authorization_rules \<Rightarrow> pdu \<Rightarrow> fetch_state \<Rightarrow> int_field \<Rightarrow> user_id \<Rightarrow> user_id \<Rightarrow> bool" where
  "outranks R rules create fetch field actor target \<longleftrightarrow>
     (\<exists>pl cs apl tpl n. room_power_levels_event fetch = Inr pl \<and> creators R rules create = Inr cs \<and>
        user_power_level_of R rules pl cs actor = Inr apl \<and>
        user_power_level_of R rules pl cs target = Inr tpl \<and>
        int_or_default R rules pl field = Inr n \<and> Lvl n \<le> apl \<and> tpl < apl)"

definition has_power ::
  "ruma \<Rightarrow> authorization_rules \<Rightarrow> pdu \<Rightarrow> fetch_state \<Rightarrow> int_field \<Rightarrow> user_id \<Rightarrow> bool" where
  "has_power R rules create fetch field actor \<longleftrightarrow>
     (\<exists>pl cs apl n. room_power_levels_event fetch = Inr pl \<and> creators R rules create = Inr cs \<and>
        user_power_level_of R rules pl cs actor = Inr apl \<and>
        int_or_default R rules pl field = Inr n \<and> Lvl n \<le> apl)"

lemma check_room_member_ban_iff:
  "check_room_member_ban R rules ev target create fetch = Inr () \<longleftrightarrow>
     user_membership R fetch (sender ev) = Inr Join \<and>
     outranks R rules create fetch BanLevel (sender ev) target"
  unfolding check_room_member_ban_def outranks_def by auto

lemma check_room_member_leave_iff:
  "check_room_member_leave R rules ev target create fetch = Inr () \<longleftrightarrow>
     (if sender ev = target then
        \<exists>m. user_membership R fetch (sender ev) = Inr m \<and> (m \<in> {Join, Invite} \<or> knocking rules \<and> m = Knock)
      else
        user_membership R fetch (sender ev) = Inr Join \<and>
        outranks R rules create fetch KickLevel (sender ev) target \<and>
        (\<exists>ban. \<forall>pl. room_power_levels_event fetch = Inr pl \<longrightarrow> int_or_default R rules pl BanLevel = Inr ban) \<and>
        (\<exists>m. user_membership R fetch target = Inr m \<and>
             (m = Ban \<longrightarrow> has_power R rules create fetch BanLevel (sender ev))))"
  unfolding check_room_member_leave_def outranks_def has_power_def
  by (auto simp: not_less)

lemma check_room_member_knock_iff:
  "check_room_member_knock R rules ev target fetch = Inr () \<longleftrightarrow>
     sender ev = target \<and>
     (\<exists>jr. join_rule R fetch = Inr jr \<and>
        (jr = JRKnock \<or> knock_restricted_join_rule rules \<and> jr = JRKnockRestricted)) \<and>
     (\<exists>m. user_membership R fetch target = Inr m \<and> m \<notin> {Ban, Invite, Join})"
  unfolding check_room_member_knock_def Let_def by auto

lemma any_signature_verifies_True:
  "any_signature_verifies R pks json vs = Inr True \<Longrightarrow>
     \<exists>entries entry. CObject entries \<in> set vs \<and> entry \<in> set entries \<and> signature_verifies R pks json entry"
proof (induction vs)
  case (Cons v vs)
  then show ?case by (cases "as_object v") (auto simp: list_ex_iff split: if_splits)
qed simp

definition join_permitted ::
  "ruma \<Rightarrow> authorization_rules \<Rightarrow> pdu \<Rightarrow> pdu \<Rightarrow> fetch_state \<Rightarrow> join_rule \<Rightarrow> membership_state \<Rightarrow> bool" where
  "join_permitted R rules ev create fetch jr m \<longleftrightarrow>
     jr = JRPublic \<or>
     (jr = JRInvite \<or> knocking rules \<and> jr = JRKnock) \<and> m \<in> {Invite, Join} \<or>
     (restricted_join_rule rules \<and> jr = JRRestricted \<or>
      knock_restricted_join_rule rules \<and> jr = JRKnockRestricted) \<and>
     (m \<in> {Invite, Join} \<or>
      (\<exists>v. join_authorised_via_users_server R ev = Inr (Some v) \<and>
           user_membership R fetch v = Inr Join \<and> has_power R rules create fetch InviteLevel v))"

lemma creators_Inr: "creators R rules e = Inr cs \<Longrightarrow> \<exists>cr rest. creator R rules e = Inr cr \<and> cs = cr # rest"
  by (auto simp: creators_def)

lemma check_room_member_join_aux:
  assumes "creator R rules create = Inr cr" "creators R rules create = Inr cs"
    "\<not> (prev_events ev = [event_id create] \<and> target = cr)" "sender ev = target"
    "user_membership R fetch target = Inr m" "m \<noteq> Ban" "join_rule R fetch = Inr jr"
  shows "check_room_member_join R rules ev target create fetch = Inr () \<longleftrightarrow>
    join_permitted R rules ev create fetch jr m"
proof (cases "m \<in> {Invite, Join}")
  case True
  with assms show ?thesis
    by (cases jr) (auto simp: check_room_member_join_def Let_def join_permitted_def)
next
  case False
  with assms show ?thesis
    by (cases jr)
      (auto simp: check_room_member_join_def Let_def join_permitted_def has_power_def
        case_option_Inr_iff not_less)
qed

lemma check_room_member_join_iff:
  "check_room_member_join R rules ev target create fetch = Inr () \<longleftrightarrow>
     (\<exists>cr cs. creator R rules create = Inr cr \<and> creators R rules create = Inr cs \<and>
       (prev_events ev = [event_id create] \<and> target = cr \<or>
        sender ev = target \<and>
        (\<exists>m jr. user_membership R fetch target = Inr m \<and> m \<noteq> Ban \<and> join_rule R fetch = Inr jr \<and>
           join_permitted R rules ev create fetch jr m)))"
  (is "?l \<longleftrightarrow> ?r")
proof (cases "creator R rules create")
  case (Inr cr)
  show ?thesis
  proof (cases "creators R rules create")
    case cs: (Inr cs)
    show ?thesis
    proof (cases "prev_events ev = [event_id create] \<and> target = cr")
      case False
      show ?thesis
      proof (cases "user_membership R fetch target")
        case m: (Inr m)
        show ?thesis
          by (cases "join_rule R fetch"; cases "sender ev = target"; cases "m = Ban")
            (use Inr cs False m in \<open>simp_all add: check_room_member_join_aux\<close>,
             simp_all add: check_room_member_join_def Let_def, blast)
      qed (use Inr cs False in \<open>simp add: check_room_member_join_def Let_def\<close>)
    qed (use Inr cs in \<open>simp add: check_room_member_join_def\<close>)
  qed (use Inr in \<open>simp add: check_room_member_join_def\<close>)
qed (simp add: check_room_member_join_def)

definition third_party_verified ::
  "ruma \<Rightarrow> pdu \<Rightarrow> canonical_object \<Rightarrow> pdu \<Rightarrow> bool" where
  "third_party_verified R ev tpi tpe \<longleftrightarrow>
     (\<exists>signatures pks json entity entries entry.
        map_of tpi ''signatures'' = Some (CObject signatures) \<and> public_keys R tpe = Inr pks \<and>
        signed_canonical_json R tpi = Inr json \<and> (entity, CObject entries) \<in> set signatures \<and>
        entry \<in> set entries \<and> signature_verifies R pks json entry)"

lemma check_third_party_invite_Inr:
  assumes "check_third_party_invite R ev tpi target fetch = Inr ()"
  shows "\<exists>m token tpe. user_membership R fetch target = Inr m \<and> m \<noteq> Ban \<and>
    map_of tpi ''token'' = Some (CString token) \<and> map_of tpi ''mxid'' = Some (CString target) \<and>
    fetch m_room_third_party_invite token = Inr tpe \<and> sender tpe = sender ev \<and>
    third_party_verified R ev tpi tpe"
  using assms unfolding check_third_party_invite_def third_party_verified_def room_third_party_invite_event_def
  by (auto simp: case_option_Inr_iff dest!: any_signature_verifies_True) blast+

lemma check_room_member_invite_iff:
  "check_room_member_invite R rules ev target create fetch = Inr () \<longleftrightarrow>
     (\<exists>tpi. third_party_invite R ev = Inr (Some tpi) \<and> check_third_party_invite R ev tpi target fetch = Inr ()) \<or>
     third_party_invite R ev = Inr None \<and> user_membership R fetch (sender ev) = Inr Join \<and>
     (\<exists>m. user_membership R fetch target = Inr m \<and> m \<notin> {Join, Ban}) \<and>
     has_power R rules create fetch InviteLevel (sender ev)"
  unfolding check_room_member_invite_def has_power_def
  by (auto simp: case_option_Inr_iff not_less)

lemma check_room_member_iff:
  "check_room_member R rules ev create fetch = Inr () \<longleftrightarrow>
     (\<exists>target fed m. state_key ev = Some target \<and> user_id_valid R target \<and> federate R create = Inr fed \<and>
       (fed \<or> user_server_name R target = user_server_name R (sender create)) \<and> membership R ev = Inr m \<and>
       (m = Join \<and> check_room_member_join R rules ev target create fetch = Inr () \<or>
        m = Invite \<and> check_room_member_invite R rules ev target create fetch = Inr () \<or>
        m = Leave \<and> check_room_member_leave R rules ev target create fetch = Inr () \<or>
        m = Ban \<and> check_room_member_ban R rules ev target create fetch = Inr () \<or>
        m = Knock \<and> knocking rules \<and> check_room_member_knock R rules ev target fetch = Inr ()))"
  unfolding check_room_member_def
  by (auto simp: case_option_Inr_iff split: if_splits)

lemma creator_level_infinite:
  "explicitly_privilege_room_creators rules \<Longrightarrow> u \<in> set cs \<Longrightarrow>
   user_power_level_of R rules pl cs u = Inr Infinite"
  by (simp add: user_power_level_of_def)

lemma outranks_not_creator:
  assumes "explicitly_privilege_room_creators rules" and "creators R rules create = Inr cs" and "u \<in> set cs"
  shows "\<not> outranks R rules create fetch field actor u"
  using assms by (auto simp: outranks_def creator_level_infinite)

lemma outranks_irrefl: "\<not> outranks R rules create fetch field u u"
  by (auto simp: outranks_def)

end
