(* ===== verification/Event_Auth.thy ===== *)
theory Event_Auth
  imports Room_Member
begin

text \<open>
  The event authorization rules (\<^verbatim>\<open>state_res/event_auth.rs\<close>): the state-independent rules on the auth
  events of an event, the state-dependent rules against a state snapshot, and their combination into an
  outcome. \<^verbatim>\<open>auth_check\<close> runs both rule sets concurrently with \<^verbatim>\<open>try_join\<close> of the futures library, which is a parameter:
  where both fail, the one that completes first gives the error.
\<close>

section \<open>Outcomes\<close>

datatype auth_check_outcome = Allow | Deny error

fun into_result :: "auth_check_outcome \<Rightarrow> unit res" where
  "into_result Allow = Inr ()"
| "into_result (Deny e) = (case e of
     Request k _ _ \<Rightarrow> if k = InvalidParam then Inl e else Inl (AuthCheck e)
   | _ \<Rightarrow> Inl (AuthCheck e))"

definition classify_auth_error :: "error \<Rightarrow> auth_check_outcome res" where
  "classify_auth_error e = (case e of
     Err _ \<Rightarrow> Inr (Deny e)
   | Request k _ _ \<Rightarrow> if k = InvalidParam then Inr (Deny e) else Inl e
   | _ \<Rightarrow> Inl e)"

text \<open>What the futures library documents of \<^verbatim>\<open>try_join\<close>, the \<open>join\<close> of the model: both results if both futures succeed, and
  otherwise the error of one that fails.\<close>

type_synonym join = "unit res \<Rightarrow> unit res \<Rightarrow> (unit \<times> unit) res"

definition try_join_ok :: "join \<Rightarrow> bool" where
  "try_join_ok join \<longleftrightarrow> join (Inr ()) (Inr ()) = Inr ((), ()) \<and>
     (\<forall>a b. \<not> (is_ok a \<and> is_ok b) \<longrightarrow> (\<exists>e. join a b = Inl e \<and> (a = Inl e \<or> b = Inl e)))"

section \<open>\<^verbatim>\<open>m.room.create\<close>\<close>

definition check_room_create :: "ruma \<Rightarrow> authorization_rules \<Rightarrow> pdu \<Rightarrow> unit res" where
  "check_room_create R rules ev =
     guard_err (prev_events ev \<noteq> []) (Err ''`m.room.create` event cannot have previous events'') (
     guard_err (auth_events ev \<noteq> []) (Err ''`m.room.create` event cannot have `auth_events`'') (
     rbind
       (if room_create_event_id_as_room_id rules then
          (case room_as_event_id R (room_id ev) of
             None \<Rightarrow> Inl (request InvalidParam
               ''Failed to create `event_id` out of `m.room.create` synthetic `room_id`'')
           | Some eid \<Rightarrow> guard_err (eid \<noteq> event_id ev) (request InvalidParam
               ''`m.room.create` has mismatching synthetic `room_id` and `event_id`'') (Inr ()))
        else
          (case room_server_name R (room_id ev) of
             None \<Rightarrow> Inl (Err ''Invalid `ServerName` for `room_id` in `m.room.create` event'')
           | Some name \<Rightarrow> guard_err (name \<noteq> user_server_name R (sender ev))
               (Err ''Mismatched `ServerName` for `room_id` in `m.room.create` with `sender`'') (Inr ())))
       (\<lambda>_. if use_room_create_sender rules then Inr ()
            else rbind (has_creator R ev) (\<lambda>has.
              guard_err (\<not> has) (Err ''missing `creator` field in `m.room.create` event'') (Inr ())))))"

section \<open>State-independent rules\<close>

definition fetch_auth_event :: "fetch_event \<Rightarrow> event_id \<Rightarrow> pdu res" where
  "fetch_auth_event fetch eid = (case fetch eid of
     Inr e \<Rightarrow> Inr e
   | Inl err \<Rightarrow> if is_not_found err then Inl (request NotFound ''auth event {event_id}: {e}'') else Inl err)"

definition check_auth_event ::
  "pdu \<Rightarrow> type_state_key list \<Rightarrow> type_state_key list \<Rightarrow> pdu \<Rightarrow> type_state_key list res" where
  "check_auth_event ev expected seen auth_event =
     guard_err (room_id auth_event \<noteq> room_id ev) (Err ''auth event {event_id} not in the same room'') (
     rbind (ok_or (Err ''auth event {event_id} has no `state_key`'') (state_key auth_event)) (\<lambda>sk.
     let key = (event_type auth_event, sk) in
     guard_err (key \<in> set seen)
       (Err ''duplicate auth event {event_id} for ({event_type}, {state_key}) pair'') (
     guard_err (key \<notin> set expected)
       (Err ''unexpected auth event {event_id} with ({event_type}, {state_key}) pair'') (
     guard_err (rejected auth_event) (Err ''rejected auth event {event_id}'') (
     Inr (seen @ [key]))))))"

definition check_state_independent_auth_rules ::
  "ruma \<Rightarrow> room_version_rules \<Rightarrow> pdu \<Rightarrow> fetch_event \<Rightarrow> unit res" where
  "check_state_independent_auth_rules R rules ev fetch =
     (if event_type ev = m_room_create then check_room_create R (authorization rules) ev
      else
        rbind (auth_types_for_event R (authorization rules) (event_type ev) (sender ev) (state_key ev)
                 (content ev) False) (\<lambda>expected.
        rbind (rfoldM (\<lambda>seen eid. rbind (fetch_auth_event fetch eid) (check_auth_event ev expected seen))
                 [] (auth_events ev)) (\<lambda>seen.
        guard_err (\<not> room_create_event_id_as_room_id (authorization rules) \<and>
                   \<not> list_ex (\<lambda>k. fst k = m_room_create) seen)
          (Err ''no `m.room.create` event in auth events'') (
        if room_create_event_id_as_room_id (authorization rules) then
          rbind (ok_or (request InvalidParam
                   ''could not construct `m.room.create` event ID from room ID: {e}'')
                   (room_as_event_id R (room_id ev))) (\<lambda>eid.
          case fetch eid of
            Inl _ \<Rightarrow> Inl (request NotFound ''failed to find `m.room.create` event {room_create_event_id}'')
          | Inr create \<Rightarrow>
              guard_err (rejected create) (Err ''rejected `m.room.create` event {room_create_event_id}'')
                (Inr ()))
        else Inr ()))))"

section \<open>\<^verbatim>\<open>m.room.power_levels\<close>\<close>

definition opt_keys :: "(string \<times> int) list option \<Rightarrow> string list" where
  "opt_keys m = (case m of None \<Rightarrow> [] | Some kvs \<Rightarrow> map fst kvs)"

fun check_power_level_keys ::
  "(string \<times> int) list option \<Rightarrow> (string \<times> int) list option \<Rightarrow> user_power_level \<Rightarrow>
   (string \<Rightarrow> int \<Rightarrow> bool) \<Rightarrow> (string \<Rightarrow> error) \<Rightarrow> string list \<Rightarrow> unit res" where
  "check_power_level_keys current new spl reject error_fn [] = Inr ()"
| "check_power_level_keys current new spl reject error_fn (key # ks) =
     (let current_power_level = Option.bind current (\<lambda>m. get_value m key);
          new_power_level = Option.bind new (\<lambda>m. get_value m key)
      in if current_power_level = new_power_level
         then check_power_level_keys current new spl reject error_fn ks
         else guard_err
           ((case current_power_level of None \<Rightarrow> False | Some n \<Rightarrow> reject key n) \<or>
            (case new_power_level of None \<Rightarrow> False | Some n \<Rightarrow> Lvl n > spl))
           (error_fn key) (check_power_level_keys current new spl reject error_fn ks))"

definition check_power_level_maps ::
  "(string \<times> int) list option \<Rightarrow> (string \<times> int) list option \<Rightarrow> user_power_level \<Rightarrow>
   (string \<Rightarrow> int \<Rightarrow> bool) \<Rightarrow> (string \<Rightarrow> error) \<Rightarrow> unit res" where
  "check_power_level_maps current new spl reject error_fn =
     check_power_level_keys current new spl reject error_fn (opt_keys current @ opt_keys new)"

fun check_int_fields ::
  "ruma \<Rightarrow> authorization_rules \<Rightarrow> pdu \<Rightarrow> (int_field \<times> int) list \<Rightarrow> user_power_level \<Rightarrow> int_field list \<Rightarrow>
   unit res" where
  "check_int_fields R rules current new_int_fields spl [] = Inr ()"
| "check_int_fields R rules current new_int_fields spl (field # fs) =
     rbind (get_as_int R rules current field) (\<lambda>current_power_level.
     let new_power_level = get_value new_int_fields field;
         or_default = (\<lambda>v. case v of None \<Rightarrow> default_value field | Some n \<Rightarrow> n)
     in if current_power_level = new_power_level
        then check_int_fields R rules current new_int_fields spl fs
        else guard_err (Lvl (or_default current_power_level) > spl \<or> Lvl (or_default new_power_level) > spl)
          (Err ''sender does not have enough power to change the power level of `{field}`'')
          (check_int_fields R rules current new_int_fields spl fs))"

definition check_room_power_levels ::
  "ruma \<Rightarrow> authorization_rules \<Rightarrow> pdu \<Rightarrow> pdu option \<Rightarrow> user_power_level \<Rightarrow> user_id list \<Rightarrow> unit res" where
  "check_room_power_levels R rules ev current_event spl room_creators =
     rbind (int_fields_map R rules ev) (\<lambda>new_int_fields.
     rbind (pl_events R rules ev) (\<lambda>new_events.
     rbind (pl_notifications R rules ev) (\<lambda>new_notifications.
     rbind (pl_users R rules ev) (\<lambda>new_users.
     guard_err (explicitly_privilege_room_creators rules \<and>
         (case new_users of None \<Rightarrow> False | Some us \<Rightarrow> list_ex (pl_contains_key us) room_creators))
       (request InvalidParam ''creator user IDs are not allowed in the `users` field'') (
     case current_event of
       None \<Rightarrow> Inr ()
     | Some current \<Rightarrow>
       rbind (check_int_fields R rules current new_int_fields spl ALL_FIELDS) (\<lambda>_.
       rbind (pl_events R rules current) (\<lambda>current_events.
       rbind (check_power_level_maps current_events new_events spl (\<lambda>_ n. Lvl n > spl)
         (\<lambda>_. Err ''sender does not have enough power to change the `{ev_type}` event type power level'')) (\<lambda>_.
       rbind (if limit_notifications_power_levels rules then
           rbind (pl_notifications R rules current) (\<lambda>current_notifications.
           check_power_level_maps current_notifications new_notifications spl (\<lambda>_ n. Lvl n > spl)
             (\<lambda>_. Err ''sender does not have enough power to change the `{key}` notification power level''))
         else Inr ()) (\<lambda>_.
       rbind (pl_users R rules current) (\<lambda>current_users.
       check_power_level_maps current_users new_users spl (\<lambda>u n. u \<noteq> sender ev \<and> Lvl n \<ge> spl)
         (\<lambda>_. Err ''sender does not have enough power to change `{user_id}`'s  power level'')))))))))))"

section \<open>\<^verbatim>\<open>m.room.redaction\<close>\<close>

definition check_room_redaction ::
  "ruma \<Rightarrow> authorization_rules \<Rightarrow> pdu \<Rightarrow> pdu option \<Rightarrow> user_power_level \<Rightarrow> unit res" where
  "check_room_redaction R rules ev current_event spl =
     rbind (int_or_default R rules current_event RedactLevel) (\<lambda>redact.
     if spl \<ge> Lvl redact then Inr ()
     else if event_server_name R (event_id ev) = Option.bind (redacts ev) (event_server_name R) then Inr ()
     else Inl (Err ''`m.room.redaction` event did not pass any of the allow rules''))"

section \<open>State-dependent rules\<close>

text \<open>The part after the sender's power level is known: the level the event type needs, state keys that
  name a user, and the types with rules of their own.\<close>

definition check_sender_power ::
  "ruma \<Rightarrow> authorization_rules \<Rightarrow> pdu \<Rightarrow> pdu option \<Rightarrow> user_id list \<Rightarrow> user_power_level \<Rightarrow> unit res" where
  "check_sender_power R auth ev pl cs spl =
     rbind (event_power_level R auth pl (event_type ev) (state_key ev)) (\<lambda>required.
     guard_err (spl < Lvl required)
       (Err ''sender does not have enough power ({sender_power_level:?}) for `{}` event type ({event_type_power_level})'') (
     guard_err ((case state_key ev of None \<Rightarrow> False | Some k \<Rightarrow> take 1 k = ''@'') \<and>
                state_key ev \<noteq> Some (sender ev))
       (Err ''sender cannot send event with `state_key` matching another user's ID'') (
     if event_type ev = m_room_power_levels then check_room_power_levels R auth ev pl spl cs
     else if special_case_room_redaction auth \<and> event_type ev = m_room_redaction then
       check_room_redaction R auth ev pl spl
     else Inr ())))"

definition check_state_dependent_auth_rules ::
  "ruma \<Rightarrow> room_version_rules \<Rightarrow> pdu \<Rightarrow> fetch_state \<Rightarrow> unit res" where
  "check_state_dependent_auth_rules R rules ev fetch =
     (if event_type ev = m_room_create then Inr ()
      else
        let auth = authorization rules in
        rbind (room_create_event fetch) (\<lambda>create.
        rbind (federate R create) (\<lambda>fed.
        guard_err (\<not> fed \<and> user_server_name R (sender create) \<noteq> user_server_name R (sender ev))
          (Err ''room is not federated and event's sender domain does not match `m.room.create` event's sender domain'') (
        if special_case_room_aliases auth \<and> event_type ev = m_room_aliases then
          guard_err (state_key ev \<noteq> Some (user_server_name R (sender ev)))
            (Err ''server name of the `state_key` of `m.room.aliases` event does not match the server name of the sender'')
            (Inr ())
        else if event_type ev = m_room_member then check_room_member R auth ev create fetch
        else
          rbind (user_membership R fetch (sender ev)) (\<lambda>sm.
          guard_err (sm \<noteq> Join) (Err ''sender's membership `{sender_membership}` is not `join`'') (
          rbind (room_power_levels_event fetch) (\<lambda>pl.
          rbind (creators R auth create) (\<lambda>cs.
          rbind (user_power_level_of R auth pl cs (sender ev)) (\<lambda>spl.
          if event_type ev = m_room_third_party_invite then
            rbind (int_or_default R auth pl InviteLevel) (\<lambda>inv.
            guard_err (spl < Lvl inv)
              (Err ''sender does not have enough power ({sender_power_level:?}) to send invites ({invite_power_level}) in this room'')
              (Inr ()))
          else check_sender_power R auth ev pl cs spl)))))))))"

section \<open>The check\<close>

definition auth_check ::
  "join \<Rightarrow> ruma \<Rightarrow> room_version_rules \<Rightarrow> pdu \<Rightarrow> fetch_event \<Rightarrow> fetch_state \<Rightarrow> auth_check_outcome res" where
  "auth_check try_join R rules ev fetch_event fetch_state =
     (case try_join
             (check_state_independent_auth_rules R rules ev fetch_event)
             (check_state_dependent_auth_rules R rules ev fetch_state) of
        Inr _ \<Rightarrow> Inr Allow
      | Inl e \<Rightarrow> classify_auth_error e)"


section \<open>Inversions of the rules\<close>

lemma room_create_event_Inr [simp]: "room_create_event fetch = Inr e \<longleftrightarrow> fetch m_room_create '''' = Inr e"
  by (cases "fetch m_room_create ''''") (auto simp: room_create_event_def)

definition same_domain :: "ruma \<Rightarrow> pdu \<Rightarrow> user_id \<Rightarrow> bool" where
  "same_domain R create u \<longleftrightarrow> user_server_name R (sender create) = user_server_name R u"

lemma dependent_member_iff:
  assumes "event_type ev = m_room_member"
  shows "check_state_dependent_auth_rules R rules ev fetch = Inr () \<longleftrightarrow>
    (\<exists>create fed. fetch m_room_create '''' = Inr create \<and> federate R create = Inr fed \<and>
       (fed \<or> same_domain R create (sender ev)) \<and>
       check_room_member R (authorization rules) ev create fetch = Inr ())"
  using assms by (auto simp: check_state_dependent_auth_rules_def same_domain_def Let_def)

definition standing ::
  "ruma \<Rightarrow> authorization_rules \<Rightarrow> fetch_state \<Rightarrow> user_id \<Rightarrow> pdu \<Rightarrow> pdu option \<Rightarrow> user_id list \<Rightarrow>
   user_power_level \<Rightarrow> bool" where
  "standing R auth fetch u create pl cs lvl \<longleftrightarrow>
     fetch m_room_create '''' = Inr create \<and>
     (\<exists>fed. federate R create = Inr fed \<and> (fed \<or> same_domain R create u)) \<and>
     user_membership R fetch u = Inr Join \<and> room_power_levels_event fetch = Inr pl \<and>
     creators R auth create = Inr cs \<and> user_power_level_of R auth pl cs u = Inr lvl"

lemma dependent_other_iff:
  assumes "event_type ev \<notin> {m_room_create, m_room_member, m_room_third_party_invite}"
    and "\<not> (special_case_room_aliases (authorization rules) \<and> event_type ev = m_room_aliases)"
  shows "check_state_dependent_auth_rules R rules ev fetch = Inr () \<longleftrightarrow>
    (\<exists>create pl cs spl. standing R (authorization rules) fetch (sender ev) create pl cs spl \<and>
       check_sender_power R (authorization rules) ev pl cs spl = Inr ())"
proof -
  have "check_state_dependent_auth_rules R rules ev fetch = Inr () \<longleftrightarrow>
    (\<exists>create. fetch m_room_create '''' = Inr create \<and>
      (\<exists>fed. federate R create = Inr fed \<and> (fed \<or> same_domain R create (sender ev))) \<and>
      user_membership R fetch (sender ev) = Inr Join \<and>
      (\<exists>pl. room_power_levels_event fetch = Inr pl \<and>
        (\<exists>cs. creators R (authorization rules) create = Inr cs \<and>
          (\<exists>spl. user_power_level_of R (authorization rules) pl cs (sender ev) = Inr spl \<and>
             check_sender_power R (authorization rules) ev pl cs spl = Inr ()))))"
    using assms
    by (simp add: check_state_dependent_auth_rules_def same_domain_def Let_def) blast
  then show ?thesis unfolding standing_def by blast
qed

lemma check_sender_power_iff:
  "check_sender_power R auth ev pl cs spl = Inr () \<longleftrightarrow>
     (\<exists>required. event_power_level R auth pl (event_type ev) (state_key ev) = Inr required \<and> Lvl required \<le> spl) \<and>
     (\<forall>k. state_key ev = Some k \<and> take 1 k = ''@'' \<longrightarrow> k = sender ev) \<and>
     (event_type ev = m_room_power_levels \<longrightarrow> check_room_power_levels R auth ev pl spl cs = Inr ()) \<and>
     (special_case_room_redaction auth \<and> event_type ev = m_room_redaction \<longrightarrow>
        check_room_redaction R auth ev pl spl = Inr ())"
  by (cases "state_key ev") (auto simp: check_sender_power_def not_less)

lemma dependent_federation:
  assumes "check_state_dependent_auth_rules R rules ev fetch = Inr ()" and "event_type ev \<noteq> m_room_create"
  obtains create fed where "fetch m_room_create '''' = Inr create" and "federate R create = Inr fed"
    and "fed \<or> same_domain R create (sender ev)"
proof -
  have "\<exists>create fed. fetch m_room_create '''' = Inr create \<and> federate R create = Inr fed \<and>
      (fed \<or> same_domain R create (sender ev))"
    using assms by (simp add: check_state_dependent_auth_rules_def same_domain_def Let_def) blast
  then show thesis using that by blast
qed


section \<open>Power level changes\<close>

abbreviation lookup :: "(string \<times> int) list option \<Rightarrow> string \<Rightarrow> int option" where
  "lookup m k \<equiv> Option.bind m (\<lambda>kvs. map_of kvs k)"

lemma check_power_level_keys_iff:
  "check_power_level_keys current new spl reject err ks = Inr () \<longleftrightarrow>
     (\<forall>k \<in> set ks. lookup current k \<noteq> lookup new k \<longrightarrow>
        (\<forall>n. lookup current k = Some n \<longrightarrow> \<not> reject k n) \<and> (\<forall>n. lookup new k = Some n \<longrightarrow> Lvl n \<le> spl))"
proof (induction ks)
  case (Cons k ks)
  then show ?case
    by (cases "lookup current k"; cases "lookup new k") (auto simp: Let_def not_less)
qed simp

lemma lookup_opt_keys: "lookup m k \<noteq> None \<Longrightarrow> k \<in> set (opt_keys m)"
  by (cases m) (auto simp: opt_keys_def dest: map_of_SomeD intro: rev_image_eqI)

lemma check_power_level_maps_iff:
  "check_power_level_maps current new spl reject err = Inr () \<longleftrightarrow>
     (\<forall>k. lookup current k \<noteq> lookup new k \<longrightarrow>
        (\<forall>n. lookup current k = Some n \<longrightarrow> \<not> reject k n) \<and> (\<forall>n. lookup new k = Some n \<longrightarrow> Lvl n \<le> spl))"
proof -
  have "k \<in> set (opt_keys current @ opt_keys new)" if "lookup current k \<noteq> lookup new k" for k
    using that lookup_opt_keys [of current k] lookup_opt_keys [of new k] by (metis Un_iff set_append)
  then show ?thesis unfolding check_power_level_maps_def check_power_level_keys_iff by blast
qed

definition field_value :: "int_field \<Rightarrow> int option \<Rightarrow> int" where
  "field_value f v = (case v of None \<Rightarrow> default_value f | Some n \<Rightarrow> n)"

lemma check_int_fields_iff:
  "check_int_fields R rules cur new spl fs = Inr () \<longleftrightarrow> (\<forall>f \<in> set fs. \<exists>c. get_as_int R rules cur f = Inr c \<and>
     (c \<noteq> map_of new f \<longrightarrow> Lvl (field_value f c) \<le> spl \<and> Lvl (field_value f (map_of new f)) \<le> spl))"
proof (induction fs)
  case (Cons g fs)
  show ?case
  proof (cases "get_as_int R rules cur g")
    case (Inr c)
    then show ?thesis using Cons by (cases "c = map_of new g") (auto simp: Let_def field_value_def not_less)
  qed simp
qed simp

lemma int_fields_map_ok: "(\<exists>m. int_fields_map R rules e = Inr m) \<longleftrightarrow> (\<forall>f. \<exists>n. get_as_int R rules e f = Inr n)"
proof
  assume all: "\<forall>f. \<exists>n. get_as_int R rules e f = Inr n"
  have "\<exists>ys. rmapM (\<lambda>f. rmap (map_option (Pair f)) (get_as_int R rules e f)) fs = Inr ys" for fs
  proof (induction fs)
    case (Cons f fs)
    then show ?case using all [rule_format, of f] by auto
  qed simp
  then show "\<exists>m. int_fields_map R rules e = Inr m" by (auto simp: int_fields_map_def)
qed (use int_fields_map_get in blast)

text \<open>What an accepted change of power levels may do.\<close>

definition changes_allowed ::
  "user_power_level \<Rightarrow> (string \<Rightarrow> int \<Rightarrow> bool) \<Rightarrow> (string \<times> int) list option \<Rightarrow> (string \<times> int) list option \<Rightarrow> bool" where
  "changes_allowed spl keep current new \<longleftrightarrow>
     (\<forall>k. lookup current k \<noteq> lookup new k \<longrightarrow>
        (\<forall>n. lookup current k = Some n \<longrightarrow> \<not> keep k n) \<and> (\<forall>n. lookup new k = Some n \<longrightarrow> Lvl n \<le> spl))"

text \<open>The content of a power levels event: every field can be read, and no creator is listed where creators are privileged.\<close>

definition power_content_ok :: "ruma \<Rightarrow> authorization_rules \<Rightarrow> pdu \<Rightarrow> user_id list \<Rightarrow> bool" where
  "power_content_ok R rules ev cs \<longleftrightarrow>
     (\<forall>f. \<exists>n. get_as_int R rules ev f = Inr n) \<and> (\<exists>es. pl_events R rules ev = Inr es) \<and>
     (\<exists>ns. pl_notifications R rules ev = Inr ns) \<and>
     (\<exists>us. pl_users R rules ev = Inr us \<and> (explicitly_privilege_room_creators rules \<longrightarrow> (\<forall>u \<in> set cs. lookup us u = None)))"

text \<open>What the level \<open>spl\<close> of the sender lets it change. Every integer field that changes was and stays at most \<open>spl\<close>; in
  \<^verbatim>\<open>events\<close> and, where the room version limits them, in \<^verbatim>\<open>notifications\<close> no changed entry was or becomes greater than \<open>spl\<close>;
  in \<^verbatim>\<open>users\<close> no changed entry becomes greater than \<open>spl\<close>, and that of another user at \<open>spl\<close> or above is kept.\<close>

definition power_change_ok :: "ruma \<Rightarrow> authorization_rules \<Rightarrow> pdu \<Rightarrow> pdu \<Rightarrow> user_power_level \<Rightarrow> bool" where
  "power_change_ok R rules cur ev spl \<longleftrightarrow>
     (\<forall>f. \<exists>c n. get_as_int R rules cur f = Inr c \<and> get_as_int R rules ev f = Inr n \<and>
        (c \<noteq> n \<longrightarrow> Lvl (field_value f c) \<le> spl \<and> Lvl (field_value f n) \<le> spl)) \<and>
     (\<exists>c n. pl_events R rules cur = Inr c \<and> pl_events R rules ev = Inr n \<and> changes_allowed spl (\<lambda>_ l. Lvl l > spl) c n) \<and>
     (limit_notifications_power_levels rules \<longrightarrow> (\<exists>c n. pl_notifications R rules cur = Inr c \<and>
        pl_notifications R rules ev = Inr n \<and> changes_allowed spl (\<lambda>_ l. Lvl l > spl) c n)) \<and>
     (\<exists>c n. pl_users R rules cur = Inr c \<and> pl_users R rules ev = Inr n \<and>
        changes_allowed spl (\<lambda>u l. u \<noteq> sender ev \<and> Lvl l \<ge> spl) c n)"

lemma power_fields_iff:
  assumes "int_fields_map R rules ev = Inr ni"
  shows "check_int_fields R rules cur ni spl ALL_FIELDS = Inr () \<longleftrightarrow>
    (\<forall>f. \<exists>c n. get_as_int R rules cur f = Inr c \<and> get_as_int R rules ev f = Inr n \<and>
      (c \<noteq> n \<longrightarrow> Lvl (field_value f c) \<le> spl \<and> Lvl (field_value f n) \<le> spl))"
  unfolding check_int_fields_iff by (simp add: int_fields_map_get [OF assms] Ball_def)

lemma no_creator_listed:
  "(case us of None \<Rightarrow> False | Some us \<Rightarrow> list_ex (pl_contains_key us) cs) \<longleftrightarrow> (\<exists>u \<in> set cs. lookup us u \<noteq> None)"
  by (cases us) (auto simp: list_ex_iff map_of_eq_None_iff)

lemma check_room_power_levels_iff:
  "check_room_power_levels R rules ev pl spl cs = Inr () \<longleftrightarrow>
     power_content_ok R rules ev cs \<and> (\<forall>cur. pl = Some cur \<longrightarrow> power_change_ok R rules cur ev spl)"
proof (cases "power_content_ok R rules ev cs")
  case True
  then obtain ni es ns us where ok: "int_fields_map R rules ev = Inr ni" "pl_events R rules ev = Inr es"
      "pl_notifications R rules ev = Inr ns" "pl_users R rules ev = Inr us"
      "\<not> (explicitly_privilege_room_creators rules \<and> (\<exists>u \<in> set cs. lookup us u \<noteq> None))"
    using int_fields_map_ok [of R rules ev] by (auto simp: power_content_ok_def)
  show ?thesis
    using True ok unfolding check_room_power_levels_def no_creator_listed
    by (cases pl) (auto simp: power_change_ok_def power_fields_iff [OF ok(1)] check_power_level_maps_iff changes_allowed_def)
next
  case False
  then show ?thesis
    unfolding check_room_power_levels_def no_creator_listed
    by (auto simp: power_content_ok_def int_fields_map_ok [symmetric])
qed

section \<open>State-independent rules\<close>

definition auth_key :: "pdu \<Rightarrow> type_state_key option" where
  "auth_key e = map_option (Pair (event_type e)) (state_key e)"

lemma fetch_auth_event_Inr [simp]: "fetch_auth_event fetch eid = Inr e \<longleftrightarrow> fetch eid = Inr e"
  by (auto simp: fetch_auth_event_def split: sum.splits)

lemma check_auth_event_Inr:
  "check_auth_event ev expected seen e = Inr seen' \<longleftrightarrow>
     (\<exists>key. auth_key e = Some key \<and> seen' = seen @ [key] \<and> key \<notin> set seen \<and> key \<in> set expected \<and>
        room_id e = room_id ev \<and> \<not> rejected e)"
  by (auto simp: check_auth_event_def auth_key_def Let_def)

definition good_auth_event :: "pdu \<Rightarrow> fetch_event \<Rightarrow> event_id \<Rightarrow> type_state_key \<Rightarrow> bool" where
  "good_auth_event ev fetch eid k \<longleftrightarrow>
     (\<exists>e. fetch eid = Inr e \<and> auth_key e = Some k \<and> room_id e = room_id ev \<and> \<not> rejected e)"

lemma auth_event_step_Inr:
  "rbind (fetch_auth_event fetch eid) (check_auth_event ev expected seen) = Inr seen' \<longleftrightarrow>
     (\<exists>k. good_auth_event ev fetch eid k \<and> k \<notin> set seen \<and> k \<in> set expected \<and> seen' = seen @ [k])"
  by (auto simp: check_auth_event_Inr good_auth_event_def)

lemma auth_events_fold_Inr:
  "rfoldM (\<lambda>seen eid. rbind (fetch_auth_event fetch eid) (check_auth_event ev expected seen)) seen ids = Inr seen' \<longleftrightarrow>
     (\<exists>ks. seen' = seen @ ks \<and> list_all2 (good_auth_event ev fetch) ids ks \<and>
        distinct ks \<and> set ks \<inter> set seen = {} \<and> set ks \<subseteq> set expected)"
proof (induction ids arbitrary: seen)
  case (Cons eid ids)
  show ?case
    by (simp add: auth_event_step_Inr Cons.IH list_all2_Cons1 del: rbind_Inr_iff
        add: rbind_Inr_iff [of "rbind _ _"]) (auto; fastforce)
qed auto

lemma independent_iff:
  assumes "event_type ev \<noteq> m_room_create"
  shows "check_state_independent_auth_rules R rules ev fetch = Inr () \<longleftrightarrow>
    (\<exists>expected ks.
       auth_types_for_event R (authorization rules) (event_type ev) (sender ev) (state_key ev) (content ev)
         False = Inr expected \<and>
       list_all2 (good_auth_event ev fetch) (auth_events ev) ks \<and> distinct ks \<and> set ks \<subseteq> set expected \<and>
       (if room_create_event_id_as_room_id (authorization rules)
        then \<exists>eid create. room_as_event_id R (room_id ev) = Some eid \<and> fetch eid = Inr create \<and> \<not> rejected create
        else m_room_create \<in> fst ` set ks))"
proof -
  have create: "(case fetch eid of Inl _ \<Rightarrow> Inl e1 | Inr create \<Rightarrow> guard_err (rejected create) e2 (Inr ())) = Inr () \<longleftrightarrow>
      (\<exists>create. fetch eid = Inr create \<and> \<not> rejected create)" for eid e1 e2
    by (cases "fetch eid") auto
  have ex: "list_ex (\<lambda>k. fst k = m_room_create) ks \<longleftrightarrow> m_room_create \<in> fst ` set ks" for ks :: "type_state_key list"
    unfolding list_ex_iff image_iff by metis
  show ?thesis
    using assms unfolding check_state_independent_auth_rules_def
    by (simp add: auth_events_fold_Inr create ex)
qed

lemma classify_Inr: "classify_auth_error e = Inr r \<Longrightarrow> r = Deny e"
  by (auto simp: classify_auth_error_def split: error.splits if_splits)

text \<open>The combined check allows an event exactly when both rule sets accept it, whichever completes first.\<close>

lemma auth_check_Allow_iff:
  assumes "try_join_ok join"
  shows "auth_check join R rules ev fetch_event fetch_state = Inr Allow \<longleftrightarrow>
     check_state_independent_auth_rules R rules ev fetch_event = Inr () \<and>
     check_state_dependent_auth_rules R rules ev fetch_state = Inr ()"
proof (cases "is_ok (check_state_independent_auth_rules R rules ev fetch_event) \<and>
    is_ok (check_state_dependent_auth_rules R rules ev fetch_state)")
  case True
  then show ?thesis using assms by (auto simp: auth_check_def try_join_ok_def is_ok_def split: sum.splits)
next
  case False
  then obtain e where "join (check_state_independent_auth_rules R rules ev fetch_event)
      (check_state_dependent_auth_rules R rules ev fetch_state) = Inl e"
    using assms by (auto simp: try_join_ok_def)
  then show ?thesis using False by (auto simp: auth_check_def dest: classify_Inr)
qed

lemma accepted_power_levels:
  assumes "event_type ev = m_room_power_levels" and "fetch m_room_power_levels '''' = Inr cur"
    and "check_state_dependent_auth_rules R rules ev fetch = Inr ()"
  obtains create cs spl where "standing R (authorization rules) fetch (sender ev) create (Some cur) cs spl"
    and "check_room_power_levels R (authorization rules) ev (Some cur) spl cs = Inr ()"
proof -
  have "event_type ev \<notin> {m_room_create, m_room_member, m_room_third_party_invite}" and
    "\<not> (special_case_room_aliases (authorization rules) \<and> event_type ev = m_room_aliases)"
    using assms(1) by simp_all
  from dependent_other_iff [OF this, of R fetch] assms(3) obtain create pl cs spl
    where st: "standing R (authorization rules) fetch (sender ev) create pl cs spl"
      and ok: "check_sender_power R (authorization rules) ev pl cs spl = Inr ()" by blast
  have pl: "pl = Some cur" using st assms(2) by (simp add: standing_def room_power_levels_event_def)
  with ok assms(1) have "check_room_power_levels R (authorization rules) ev (Some cur) spl cs = Inr ()"
    by (simp add: check_sender_power_iff)
  with st pl that show thesis by blast
qed

lemma get_as_int_or_default_field_value:
  "get_as_int_or_default R rules e f = rmap (field_value f) (get_as_int R rules e f)"
  unfolding get_as_int_or_default_def field_value_def
  by (cases "get_as_int R rules e f") (auto split: option.splits)

end
