(* ===== verification/Auth_Properties.thy ===== *)
theory Auth_Properties
  imports Event_Auth
begin

text \<open>
  The properties of the authorization rules, each with a run of the rules on a small room: a creator
  \<open>@a:x\<close> of level 100, a moderator \<open>@b:x\<close> of level 50, a member \<open>@c:x\<close> and a banned user \<open>@d:x\<close>. In
  that room contents are short tags, and \<open>sample_ruma\<close> says what each tag deserializes to.
\<close>

section \<open>A room to run the rules on\<close>

definition tag_membership :: "raw \<Rightarrow> membership_state option" where
  "tag_membership c = map_of
     [(''join'', Join), (''ban'', Ban), (''leave'', Leave), (''invite'', Invite), (''invite3'', Invite)] c"

definition sample_signed :: canonical_object where
  "sample_signed = [(''mxid'', CString ''@e:x''), (''token'', CString ''tok''),
     (''signatures'', CObject [(''id.x'', CObject [(''ed25519:0'', CString ''sig'')])])]"

definition sample_ruma :: ruma where
  "sample_ruma = \<lparr>
     de_room_version = (\<lambda>_. Some None),
     de_federate = (\<lambda>c. Some (if c = ''local'' then Some False else None)),
     de_creator = (\<lambda>_. Some ''@a:x''),
     de_additional_creators = (\<lambda>_. Some []),
     de_creator_ignored = (\<lambda>_. Some (Some ())),
     de_join_rule = map_of [(''public'', JRPublic)],
     de_membership = tag_membership,
     de_join_authorised_via_users_server = (\<lambda>_. Some None),
     de_third_party_invite = (\<lambda>c. Some (if c = ''invite3'' then Some sample_signed else None)),
     de_public_keys = (\<lambda>_. Some (Some ''key'', [])),
     de_json_object = map_of [(''pl'', [(''users'', ''u1'')]), (''pl2'', [(''users'', ''u2'')])],
     de_int = (\<lambda>_. None),
     de_v1_powerlevel = (\<lambda>_. None),
     de_int_powerlevel_values = (\<lambda>_. map_of
       [(''u1'', [(''@a:x'', 100), (''@b:x'', 50)]),
        (''u2'', [(''@a:x'', 100), (''@b:x'', 50), (''@c:x'', 50)])]),
     de_v1_powerlevel_values = (\<lambda>_ _. None),
     user_id_valid = (\<lambda>u. take 1 u = ''@''),
     user_server_name = (\<lambda>u. drop 3 u),
     room_server_name = (\<lambda>r. Some (drop 3 r)),
     room_as_event_id = (\<lambda>_. None),
     event_server_name = (\<lambda>_. None),
     signing_key_algorithm = (\<lambda>_. Some ''ed25519''),
     base64_parse = Some,
     public_key_decode = Some,
     verify_canonical_json_bytes = (\<lambda>a k s j. k = ''key'' \<and> s = ''sig'' \<and> j = ''signed''),
     canonical_json_string_for_signing = (\<lambda>_. Some ''signed''),
     state_event_type_cmp = cmp_of \<rparr>"

definition sample_rules :: room_version_rules where
  "sample_rules = \<lparr> authorization = \<lparr>
       special_case_room_redaction = False, special_case_room_aliases = False,
       limit_notifications_power_levels = True, knocking = True, restricted_join_rule = True,
       knock_restricted_join_rule = True, integer_power_levels = True, use_room_create_sender = True,
       explicitly_privilege_room_creators = False, additional_room_creators = False,
       room_create_event_id_as_room_id = False \<rparr>,
     state_res_v2 = Some \<lparr> consider_conflicted_state_subgraph = False,
       begin_iterative_auth_checks_with_empty_state_map = False \<rparr> \<rparr>"

definition privileged_rules :: room_version_rules where
  "privileged_rules = sample_rules \<lparr> authorization := (authorization sample_rules)
     \<lparr> explicitly_privilege_room_creators := True \<rparr> \<rparr>"

definition sample_event :: "event_id \<Rightarrow> user_id \<Rightarrow> event_type \<Rightarrow> string option \<Rightarrow> raw \<Rightarrow> pdu" where
  "sample_event eid u t sk c =
     \<lparr> event_id = eid, room_id = ''!r:x'', sender = u, event_type = t, content = c, state_key = sk,
       redacts = None, prev_events = [''$p''], auth_events = [''$create'', ''$pl'', ''$mb''],
       origin_server_ts = 0, rejected = False \<rparr>"

definition sample_create :: pdu where
  "sample_create = sample_event ''$create'' ''@a:x'' m_room_create (Some '''') ''create''"

definition sample_pl :: pdu where
  "sample_pl = sample_event ''$pl'' ''@a:x'' m_room_power_levels (Some '''') ''pl''"

definition sample_entries :: "(type_state_key \<times> pdu) list" where
  "sample_entries =
     [((m_room_create, ''''), sample_create),
      ((m_room_power_levels, ''''), sample_pl),
      ((m_room_join_rules, ''''), sample_event ''$jr'' ''@a:x'' m_room_join_rules (Some '''') ''public''),
      ((m_room_member, ''@a:x''), sample_event ''$ma'' ''@a:x'' m_room_member (Some ''@a:x'') ''join''),
      ((m_room_member, ''@b:x''), sample_event ''$mb'' ''@b:x'' m_room_member (Some ''@b:x'') ''join''),
      ((m_room_member, ''@c:x''), sample_event ''$mc'' ''@c:x'' m_room_member (Some ''@c:x'') ''join''),
      ((m_room_member, ''@d:x''), sample_event ''$md'' ''@a:x'' m_room_member (Some ''@d:x'') ''ban''),
      ((m_room_third_party_invite, ''tok''),
         sample_event ''$t'' ''@b:x'' m_room_third_party_invite (Some ''tok'') ''keys'')]"

definition state_of :: "(type_state_key \<times> pdu) list \<Rightarrow> fetch_state" where
  "state_of entries t k = (case map_of entries (t, k) of
     Some e \<Rightarrow> Inr e | None \<Rightarrow> Inl (request NotFound ''no such entry''))"

definition events_of :: "(type_state_key \<times> pdu) list \<Rightarrow> fetch_event" where
  "events_of entries eid = (case find (\<lambda>e. event_id e = eid) (map snd entries) of
     Some e \<Rightarrow> Inr e | None \<Rightarrow> Inl (request NotFound ''no such event''))"

abbreviation sample_state :: fetch_state where "sample_state \<equiv> state_of sample_entries"

definition sample_ban :: pdu where
  "sample_ban = sample_event ''$1'' ''@b:x'' m_room_member (Some ''@c:x'') ''ban''"

definition sample_bootstrap :: pdu where
  "sample_bootstrap = (sample_event ''$2'' ''@a:x'' m_room_member (Some ''@a:x'') ''join'')
     \<lparr> prev_events := [''$create''] \<rparr>"

definition banned_entries :: "(type_state_key \<times> pdu) list" where
  "banned_entries = ((m_room_member, ''@a:x''),
     sample_event ''$ba'' ''@b:x'' m_room_member (Some ''@a:x'') ''ban'') # sample_entries"

definition sample_join :: pdu where
  "sample_join = sample_event ''$3'' ''@e:x'' m_room_member (Some ''@e:x'') ''join''"

definition sample_invite :: pdu where
  "sample_invite = sample_event ''$4'' ''@b:x'' m_room_member (Some ''@e:x'') ''invite3''"

definition sample_new_pl :: pdu where
  "sample_new_pl = sample_event ''$5'' ''@a:x'' m_room_power_levels (Some '''') ''pl2''"

definition sample_message :: pdu where
  "sample_message = sample_event ''$6'' ''@b:x'' ''m.room.message'' None ''hello''"

definition local_entries :: "(type_state_key \<times> pdu) list" where
  "local_entries = ((m_room_create, ''''),
     sample_event ''$create'' ''@a:x'' m_room_create (Some '''') ''local'') # sample_entries"

definition sample_unban :: pdu where
  "sample_unban = sample_event ''$7'' ''@b:x'' m_room_member (Some ''@d:x'') ''leave''"

lemmas sample_defs = sample_ban_def sample_unban_def sample_bootstrap_def sample_join_def sample_invite_def
  sample_new_pl_def sample_message_def sample_create_def sample_pl_def sample_event_def

lemma sample_runs:
  "check_state_dependent_auth_rules sample_ruma sample_rules sample_ban sample_state = Inr ()"
  "check_state_dependent_auth_rules sample_ruma sample_rules sample_bootstrap (state_of banned_entries) = Inr ()"
  "check_state_dependent_auth_rules sample_ruma sample_rules sample_join sample_state = Inr ()"
  "check_state_dependent_auth_rules sample_ruma sample_rules sample_invite sample_state = Inr ()"
  "check_state_dependent_auth_rules sample_ruma sample_rules sample_new_pl sample_state = Inr ()"
  "check_state_dependent_auth_rules sample_ruma sample_rules sample_message sample_state = Inr ()"
  "check_state_dependent_auth_rules sample_ruma sample_rules sample_ban (state_of local_entries) = Inr ()"
  "check_state_dependent_auth_rules sample_ruma sample_rules sample_unban sample_state = Inr ()"
  by code_simp+

section \<open>Properties\<close>

text \<open>C9: the exact condition under which a power levels event is accepted: its sender is a joined member, from the
  creator's domain where the room is not federated, with the level the event type needs; a state key that names a user
  names the sender; every field can be read and no creator is listed where creators are privileged; and, where the room
  has a power levels event already, the level \<open>spl\<close> of the sender bounds every change of an integer field and of an entry
  of \<^verbatim>\<open>events\<close>, \<^verbatim>\<open>notifications\<close> (where the room version limits them) and \<^verbatim>\<open>users\<close>, before and after, and no entry
  of another user who stands at \<open>spl\<close> or above is touched.\<close>

theorem power_levels_accepted_iff:
  assumes "event_type ev = m_room_power_levels"
  shows "check_state_dependent_auth_rules R rules ev fetch = Inr () \<longleftrightarrow>
    (\<exists>create pl cs spl required. standing R (authorization rules) fetch (sender ev) create pl cs spl \<and>
       event_power_level R (authorization rules) pl m_room_power_levels (state_key ev) = Inr required \<and> Lvl required \<le> spl \<and>
       (\<forall>k. state_key ev = Some k \<and> take 1 k = ''@'' \<longrightarrow> k = sender ev) \<and>
       power_content_ok R (authorization rules) ev cs \<and>
       (\<forall>cur. pl = Some cur \<longrightarrow> power_change_ok R (authorization rules) cur ev spl))"
proof -
  have "event_type ev \<notin> {m_room_create, m_room_member, m_room_third_party_invite}" and
    "\<not> (special_case_room_aliases (authorization rules) \<and> event_type ev = m_room_aliases)"
    using assms by simp_all
  from dependent_other_iff [OF this, of R fetch] show ?thesis
    using assms by (simp add: check_sender_power_iff check_room_power_levels_iff) blast
qed

theorem power_levels_accepted_iff_witness:
  "power_change_ok sample_ruma (authorization sample_rules) sample_pl sample_new_pl (Lvl 100)"
proof -
  obtain create cs spl where st: "standing sample_ruma (authorization sample_rules) sample_state ''@a:x'' create (Some sample_pl) cs spl"
      and ok: "power_change_ok sample_ruma (authorization sample_rules) sample_pl sample_new_pl spl"
    using power_levels_accepted_iff [of sample_new_pl sample_ruma sample_rules sample_state] sample_runs(5)
    by (auto simp: sample_defs standing_def room_power_levels_event_def state_of_def sample_entries_def)
  have "user_power_level_of sample_ruma (authorization sample_rules) (Some sample_pl) cs ''@a:x'' = Inr (Lvl 100)"
    by (simp add: user_power_level_of_def sample_rules_def) code_simp
  then show ?thesis using st ok by (simp add: standing_def)
qed

text \<open>No accepted power levels event lifts a user above both the level they had and the level of the event's
  sender, with one exception the rules leave open: removing a user's entry drops them to \<^verbatim>\<open>users_default\<close>,
  which may be higher.\<close>

lemma user_level_rise_bounded:
  assumes "event_type ev = m_room_power_levels" and "fetch m_room_power_levels '''' = Inr cur"
    and "check_state_dependent_auth_rules R rules ev fetch = Inr ()"
    and "pl_user_power_level R (authorization rules) cur u = Inr old"
    and "pl_user_power_level R (authorization rules) ev u = Inr new"
  shows "\<exists>create cs spl. standing R (authorization rules) fetch (sender ev) create (Some cur) cs spl \<and>
    (new \<le> max old spl \<or>
     (\<exists>d c n. pl_users R (authorization rules) cur = Inr c \<and> pl_users R (authorization rules) ev = Inr n \<and>
        lookup c u \<noteq> None \<and> lookup n u = None \<and>
        get_as_int_or_default R (authorization rules) cur UsersDefault = Inr d \<and> new = Lvl d))"
proof -
  let ?a = "authorization rules"
  note default = get_as_int_or_default_field_value
  obtain create cs spl where st: "standing R ?a fetch (sender ev) create (Some cur) cs spl"
    and chk: "check_room_power_levels R ?a ev (Some cur) spl cs = Inr ()"
    by (rule accepted_power_levels [OF assms(1-3)])
  obtain dc dn where d: "get_as_int R ?a cur UsersDefault = Inr dc" "get_as_int R ?a ev UsersDefault = Inr dn"
      "dc \<noteq> dn \<Longrightarrow> Lvl (field_value UsersDefault dn) \<le> spl"
    using chk unfolding check_room_power_levels_iff power_change_ok_def by blast
  obtain c n where cn: "pl_users R ?a cur = Inr c" "pl_users R ?a ev = Inr n"
      "changes_allowed spl (\<lambda>u l. u \<noteq> sender ev \<and> Lvl l \<ge> spl) c n"
    using chk unfolding check_room_power_levels_iff power_change_ok_def by blast
  have old: "old = Lvl (case lookup c u of Some l \<Rightarrow> l | None \<Rightarrow> field_value UsersDefault dc)"
    and new: "new = Lvl (case lookup n u of Some l \<Rightarrow> l | None \<Rightarrow> field_value UsersDefault dn)"
    using assms(4,5) cn(1,2) d(1,2) by (auto simp: pl_user_power_level_def default split: option.splits)
  have "Lvl l \<le> spl" if "lookup n u = Some l" "lookup c u \<noteq> Some l" for l
    using cn(3) that unfolding changes_allowed_def by metis
  then have "new \<le> max old spl \<or> lookup c u \<noteq> None \<and> lookup n u = None \<and> dc = dn"
    using d(3) unfolding old new
    by (cases "lookup n u"; cases "lookup c u"; cases "dc = dn") (auto simp: le_max_iff_disj)
  then have "new \<le> max old spl \<or>
     (\<exists>d c n. pl_users R ?a cur = Inr c \<and> pl_users R ?a ev = Inr n \<and>
        lookup c u \<noteq> None \<and> lookup n u = None \<and>
        get_as_int_or_default R ?a cur UsersDefault = Inr d \<and> new = Lvl d)"
    using cn(1,2) d(1) new by (auto simp: default)
  with st show ?thesis by blast
qed

text \<open>What every member event needs, before the rule of its membership.\<close>

lemma member_event_iff:
  assumes "event_type ev = m_room_member" and "state_key ev = Some target" and "membership R ev = Inr m"
  shows "check_state_dependent_auth_rules R rules ev fetch = Inr () \<longleftrightarrow>
    (\<exists>create. fetch m_room_create '''' = Inr create \<and> user_id_valid R target \<and>
       (\<exists>fed. federate R create = Inr fed \<and> (fed \<or> same_domain R create (sender ev) \<and> same_domain R create target)) \<and>
       (m = Join \<and> check_room_member_join R (authorization rules) ev target create fetch = Inr () \<or>
        m = Invite \<and> check_room_member_invite R (authorization rules) ev target create fetch = Inr () \<or>
        m = Leave \<and> check_room_member_leave R (authorization rules) ev target create fetch = Inr () \<or>
        m = Ban \<and> check_room_member_ban R (authorization rules) ev target create fetch = Inr () \<or>
        m = Knock \<and> knocking (authorization rules) \<and> check_room_member_knock R (authorization rules) ev target fetch = Inr ()))"
  (is "?l \<longleftrightarrow> (\<exists>create. _ \<and> _ \<and> _ \<and> ?rule create)")
proof -
  have "check_room_member R (authorization rules) ev create fetch = Inr () \<longleftrightarrow> user_id_valid R target \<and>
      (\<exists>fed. federate R create = Inr fed \<and> (fed \<or> same_domain R create target)) \<and> ?rule create" for create
  proof -
    have "same_domain R create target \<longleftrightarrow> user_server_name R target = user_server_name R (sender create)"
      by (auto simp: same_domain_def)
    then show ?thesis unfolding check_room_member_iff assms(2,3) option.inject sum.inject(2) by blast
  qed
  moreover have "(\<exists>fed. federate R create = Inr fed \<and> (fed \<or> A) \<and> V \<and> (\<exists>fed. federate R create = Inr fed \<and> (fed \<or> B)) \<and> Q) \<longleftrightarrow>
      V \<and> (\<exists>fed. federate R create = Inr fed \<and> (fed \<or> A \<and> B)) \<and> Q" for create A B V Q
    by (cases "federate R create") auto
  ultimately show ?thesis unfolding dependent_member_iff [OF assms(1)] by simp
qed

text \<open>C10: the exact condition under which a member event that bans a user, or that removes another user from the room (a
  kick or the lifting of a ban), is accepted: the target is a valid user id; sender and target are of the creator's domain
  where the room is not federated; the sender is joined, has the ban level for a ban and the kick level for a removal, and
  stands strictly above the target; and to lift a ban the sender has the ban level as well.\<close>

theorem removal_accepted_iff:
  assumes "event_type ev = m_room_member" and "state_key ev = Some target" and "membership R ev = Inr m"
    and "m = Ban \<or> m = Leave \<and> sender ev \<noteq> target"
  shows "check_state_dependent_auth_rules R rules ev fetch = Inr () \<longleftrightarrow>
    (\<exists>create. fetch m_room_create '''' = Inr create \<and> user_id_valid R target \<and>
       (\<exists>fed. federate R create = Inr fed \<and> (fed \<or> same_domain R create (sender ev) \<and> same_domain R create target)) \<and>
       user_membership R fetch (sender ev) = Inr Join \<and>
       (if m = Ban then outranks R (authorization rules) create fetch BanLevel (sender ev) target
        else outranks R (authorization rules) create fetch KickLevel (sender ev) target \<and>
          (\<exists>pl ban. room_power_levels_event fetch = Inr pl \<and> int_or_default R (authorization rules) pl BanLevel = Inr ban) \<and>
          (\<exists>current. user_membership R fetch target = Inr current \<and>
             (current = Ban \<longrightarrow> has_power R (authorization rules) create fetch BanLevel (sender ev)))))"
proof -
  have level: "outranks R (authorization rules) create fetch KickLevel (sender ev) target \<Longrightarrow>
      (\<exists>ban. \<forall>pl. room_power_levels_event fetch = Inr pl \<longrightarrow> int_or_default R (authorization rules) pl BanLevel = Inr ban) \<longleftrightarrow>
      (\<exists>pl ban. room_power_levels_event fetch = Inr pl \<and> int_or_default R (authorization rules) pl BanLevel = Inr ban)" for create
    by (auto simp: outranks_def)
  show ?thesis
  proof (cases "m = Ban")
    case True
    then show ?thesis unfolding member_event_iff [OF assms(1-3)] by (simp add: check_room_member_ban_iff)
  next
    case False
    then have "m = Leave" "sender ev \<noteq> target" using assms(4) by simp_all
    then show ?thesis unfolding member_event_iff [OF assms(1-3)]
      by (simp add: check_room_member_leave_iff) (simp add: level cong: conj_cong)
  qed
qed

theorem removal_accepted_iff_witness:
  "has_power sample_ruma (authorization sample_rules) sample_create sample_state BanLevel ''@b:x'' \<and>
   outranks sample_ruma (authorization sample_rules) sample_create sample_state KickLevel ''@b:x'' ''@d:x''"
proof -
  have "membership sample_ruma sample_unban = Inr Leave" "user_membership sample_ruma sample_state ''@d:x'' = Inr Ban" by code_simp+
  then show ?thesis
    using removal_accepted_iff [of sample_unban "''@d:x''" sample_ruma Leave sample_rules sample_state] sample_runs(8)
    by (auto simp: sample_defs state_of_def sample_entries_def)
qed

text \<open>In room versions that privilege creators, no ban of a creator and no kick of a creator by someone else is
  ever accepted, whatever the power levels event says.\<close>

lemma creators_cannot_be_removed:
  assumes "explicitly_privilege_room_creators (authorization rules)"
    and "fetch m_room_create '''' = Inr create" and "creators R (authorization rules) create = Inr cs"
    and "target \<in> set cs" and "event_type ev = m_room_member" and "state_key ev = Some target"
    and "membership R ev = Inr m" and "m = Ban \<or> m = Leave \<and> sender ev \<noteq> target"
  shows "check_state_dependent_auth_rules R rules ev fetch \<noteq> Inr ()"
  using assms outranks_not_creator [OF assms(1,3,4)]
  by (auto simp: dependent_member_iff check_room_member_iff check_room_member_ban_iff check_room_member_leave_iff)



text \<open>C12: the exact condition under which a join event is accepted: the target is a valid user id; sender and target are of
  the creator's domain where the room is not federated; and either the event follows the create event directly and the
  target is the creator, or the sender joins for itself, is not banned, and is let in by the join rule (public; invited or
  joined; or vouched for by a joined member with the invite level in restricted rooms).\<close>

theorem join_accepted_iff:
  assumes "event_type ev = m_room_member" and "state_key ev = Some target" and "membership R ev = Inr Join"
  shows "check_state_dependent_auth_rules R rules ev fetch = Inr () \<longleftrightarrow>
    (\<exists>create cr cs. fetch m_room_create '''' = Inr create \<and> user_id_valid R target \<and>
       (\<exists>fed. federate R create = Inr fed \<and> (fed \<or> same_domain R create (sender ev) \<and> same_domain R create target)) \<and>
       creator R (authorization rules) create = Inr cr \<and> creators R (authorization rules) create = Inr cs \<and>
       (prev_events ev = [event_id create] \<and> target = cr \<or>
        sender ev = target \<and> (\<exists>m jr. user_membership R fetch target = Inr m \<and> m \<noteq> Ban \<and> join_rule R fetch = Inr jr \<and>
          join_permitted R (authorization rules) ev create fetch jr m)))"
  unfolding member_event_iff [OF assms] check_room_member_join_iff by simp

theorem join_accepted_iff_witness:
  "\<exists>m jr. user_membership sample_ruma sample_state ''@e:x'' = Inr m \<and> m \<noteq> Ban \<and>
     join_rule sample_ruma sample_state = Inr jr \<and>
     join_permitted sample_ruma (authorization sample_rules) sample_join sample_create sample_state jr m"
proof -
  have "membership sample_ruma sample_join = Inr Join" by code_simp
  then show ?thesis
    using join_accepted_iff [of sample_join "''@e:x''" sample_ruma sample_rules sample_state] sample_runs(3)
    by (auto simp: sample_defs state_of_def sample_entries_def)
qed

text \<open>C13: an accepted invite that carries a third-party invite names the invited user in its signed part, refers by its
  token to an invite the same sender placed in the room state, and bears a signature over the signed part
  that verifies under a public key of that invite; the target is not banned.\<close>

theorem third_party_invite_is_signed:
  assumes "event_type ev = m_room_member" and "state_key ev = Some target" and "membership R ev = Inr Invite"
    and "third_party_invite R ev = Inr (Some tpi)"
    and "check_state_dependent_auth_rules R rules ev fetch = Inr ()"
  shows "\<exists>m token tpe. user_membership R fetch target = Inr m \<and> m \<noteq> Ban \<and>
    map_of tpi ''token'' = Some (CString token) \<and> map_of tpi ''mxid'' = Some (CString target) \<and>
    fetch m_room_third_party_invite token = Inr tpe \<and> sender tpe = sender ev \<and>
    third_party_verified R ev tpi tpe"
  using assms
  by (auto simp: dependent_member_iff check_room_member_iff check_room_member_invite_iff
      dest: check_third_party_invite_Inr)

theorem third_party_invite_is_signed_witness:
  "\<exists>tpe. sample_state m_room_third_party_invite ''tok'' = Inr tpe \<and> sender tpe = ''@b:x'' \<and>
     third_party_verified sample_ruma sample_invite sample_signed tpe"
proof -
  have "membership sample_ruma sample_invite = Inr Invite"
    "third_party_invite sample_ruma sample_invite = Inr (Some sample_signed)" by code_simp+
  then show ?thesis
    using third_party_invite_is_signed [of sample_invite "''@e:x''" sample_ruma sample_signed sample_rules sample_state]
      sample_runs(4)
    by (auto simp: sample_defs sample_signed_def)
qed

text \<open>An event of a type without rules of its own is accepted exactly when its sender is a joined member of at
  least the level the power levels ask for that type, and its state key, if it names a user, names the sender.\<close>

lemma message_accepted_iff:
  assumes "event_type ev \<notin> {m_room_create, m_room_member, m_room_third_party_invite, m_room_power_levels,
      m_room_aliases, m_room_redaction}"
  shows "check_state_dependent_auth_rules R rules ev fetch = Inr () \<longleftrightarrow>
    (\<exists>create pl cs spl required. standing R (authorization rules) fetch (sender ev) create pl cs spl \<and>
       event_power_level R (authorization rules) pl (event_type ev) (state_key ev) = Inr required \<and>
       Lvl required \<le> spl \<and>
       (\<forall>k. state_key ev = Some k \<and> take 1 k = ''@'' \<longrightarrow> k = sender ev))"
  using assms dependent_other_iff [of ev rules R fetch] by (simp add: check_sender_power_iff) blast

text \<open>C14: the state-independent rules accept an event other than a create event exactly when each listed auth event
  exists, is a state event of the same room that was not rejected, no two of them have the same type and
  state key, each is one the selection algorithm asks for, and the room's create event is among them (or, where
  the room id is the create event's id, exists and was not rejected).\<close>

theorem independent_rules_accept_iff:
  assumes "event_type ev \<noteq> m_room_create"
  shows "check_state_independent_auth_rules R rules ev fetch = Inr () \<longleftrightarrow>
    (\<exists>expected ks.
       auth_types_for_event R (authorization rules) (event_type ev) (sender ev) (state_key ev) (content ev)
         False = Inr expected \<and>
       list_all2 (good_auth_event ev fetch) (auth_events ev) ks \<and> distinct ks \<and>
       set ks \<subseteq> required_auth_types R (authorization rules) (event_type ev) (sender ev) (state_key ev)
         (content ev) False \<and>
       (if room_create_event_id_as_room_id (authorization rules)
        then \<exists>eid create. room_as_event_id R (room_id ev) = Some eid \<and> fetch eid = Inr create \<and> \<not> rejected create
        else m_room_create \<in> fst ` set ks))"
  unfolding independent_iff [OF assms] by (simp add: auth_types_for_event_spec(3) cong: conj_cong)

theorem independent_rules_accept_iff_witness:
  "\<exists>ks. list_all2 (good_auth_event sample_message (events_of sample_entries)) [''$create'', ''$pl'', ''$mb''] ks \<and>
     distinct ks \<and> m_room_create \<in> fst ` set ks"
proof -
  have "check_state_independent_auth_rules sample_ruma sample_rules sample_message (events_of sample_entries) = Inr ()"
    by code_simp
  then show ?thesis
    using independent_rules_accept_iff [of sample_message sample_ruma sample_rules "events_of sample_entries"]
    by (auto simp: sample_defs event_type_defs sample_rules_def)
qed

text \<open>In a room whose create event switches federation off, every accepted event comes from a user of the creator's
  domain, and an accepted member event concerns a user of that domain.\<close>

lemma unfederated_room_keeps_members_local:
  assumes "fetch m_room_create '''' = Inr create" and "federate R create = Inr False"
    and "event_type ev \<noteq> m_room_create" and "check_state_dependent_auth_rules R rules ev fetch = Inr ()"
  shows "same_domain R create (sender ev) \<and>
    (event_type ev = m_room_member \<longrightarrow> (\<exists>target. state_key ev = Some target \<and> same_domain R create target))"
proof
  show "same_domain R create (sender ev)"
    using dependent_federation [OF assms(4,3)] assms(1,2) by (metis sum.inject(2))
  show "event_type ev = m_room_member \<longrightarrow> (\<exists>target. state_key ev = Some target \<and> same_domain R create target)"
    using assms(1,2,4) by (auto simp: dependent_member_iff check_room_member_iff same_domain_def)
qed

end
