(* ===== verification/Topo_Sort.thy ===== *)
theory Topo_Sort
  imports Room_Events
begin

text \<open>
  Reverse topological power ordering (\<^verbatim>\<open>state_res/topological_sort.rs\<close>): Kahn's algorithm over the event
  graph, with a heap of ready events ordered by \<^verbatim>\<open>TieBreaker\<close>, and the two order checks. A graph is an
  association list, so the list order stands for the arbitrary iteration order of the \<^verbatim>\<open>HashMap\<close>; the
  result is shown not to depend on it. The stream of \<^verbatim>\<open>kahn_sort\<close> is unfolded to a list: \<open>None\<close> stands for a
  stream that does not end or panics at \<^verbatim>\<open>expect("contains all parent_ids")\<close>, and never occurs.
\<close>

section \<open>Tie breaking\<close>

datatype tie_breaker =
  TieBreaker (tb_event_id: event_id) (tb_power_level: user_power_level) (tb_origin_server_ts: nat)

definition tb_cmp :: "tie_breaker \<Rightarrow> tie_breaker \<Rightarrow> ordering" where
  "tb_cmp a b =
     then_cmp (then_cmp (cmp_of (tb_power_level b) (tb_power_level a))
       (cmp_of (tb_origin_server_ts a) (tb_origin_server_ts b)))
       (cmp_of (tb_event_id a) (tb_event_id b))"

instantiation tie_breaker :: linorder
begin

definition less_eq_tie_breaker :: "tie_breaker \<Rightarrow> tie_breaker \<Rightarrow> bool" where
  "less_eq_tie_breaker a b \<longleftrightarrow> tb_cmp a b \<noteq> Greater"

definition less_tie_breaker :: "tie_breaker \<Rightarrow> tie_breaker \<Rightarrow> bool" where
  "less_tie_breaker a b \<longleftrightarrow> tb_cmp a b = Less"

instance
  by standard
    (auto simp: less_eq_tie_breaker_def less_tie_breaker_def tb_cmp_def cmp_of_def then_cmp_def
      split: if_splits ordering.splits intro: tie_breaker.expand)

end

section \<open>The graph\<close>

type_synonym graph = "(event_id \<times> event_id list) list"
type_synonym tie_query = "event_id \<Rightarrow> (user_power_level \<times> nat) res"

definition refs :: "graph \<Rightarrow> event_id \<Rightarrow> event_id list" where
  "refs g x = (case map_of g x of None \<Rightarrow> [] | Some rs \<Rightarrow> rs)"

definition add_incoming :: "graph \<Rightarrow> event_id \<times> event_id \<Rightarrow> graph" where
  "add_incoming inc edge =
     upsert (snd edge) [] (\<lambda>ids. if fst edge \<in> set ids then ids else ids @ [fst edge]) inc"

definition incoming_of :: "graph \<Rightarrow> graph" where
  "incoming_of g = fold (\<lambda>edge inc. add_incoming inc edge)
     (concat (map (\<lambda>(eid, out). map (Pair eid) out) g)) []"

definition has_present :: "graph \<Rightarrow> event_id list \<Rightarrow> bool" where
  "has_present g rs = list_ex (contains_key g) rs"

definition tie_breaker_of :: "tie_query \<Rightarrow> event_id \<Rightarrow> tie_breaker res" where
  "tie_breaker_of query eid = rmap (\<lambda>(pl, ts). TieBreaker eid pl ts) (query eid)"

definition horizon :: "tie_query \<Rightarrow> graph \<Rightarrow> tie_breaker list res" where
  "horizon query g =
     rmap (\<lambda>ts. fold heap_push ts [])
       (rmapM (tie_breaker_of query) (map fst (filter (\<lambda>kv. \<not> has_present g (snd kv)) g)))"

section \<open>Kahn's algorithm\<close>

type_synonym kahn_state = "tie_breaker list \<times> graph"

definition release_parent ::
  "tie_query \<Rightarrow> event_id \<Rightarrow> kahn_state \<Rightarrow> event_id \<Rightarrow> (error, kahn_state) comp" where
  "release_parent query eid st parent_id = (case map_of (snd st) parent_id of
     None \<Rightarrow> None
   | Some rs \<Rightarrow>
     let graph = upsert parent_id [] (filter (\<lambda>r. r \<noteq> eid)) (snd st) in
     if \<not> has_present graph (refs graph parent_id) then
       (case tie_breaker_of query parent_id of
          Inl e \<Rightarrow> Some (Inl e)
        | Inr t \<Rightarrow> Some (Inr (heap_push t (fst st), graph)))
     else Some (Inr (fst st, graph)))"

partial_function (option) kahn_sort ::
  "tie_query \<Rightarrow> graph \<Rightarrow> tie_breaker list \<Rightarrow> graph \<Rightarrow> (error, event_id list) comp" where
  "kahn_sort query incoming heap graph = (case heap_pop heap of
     None \<Rightarrow> Some (Inr [])
   | Some (item, heap') \<Rightarrow>
     (case cfoldM (release_parent query (tb_event_id item)) (heap', graph)
             (refs incoming (tb_event_id item)) of
        None \<Rightarrow> None
      | Some r \<Rightarrow> (case r of
          Inl e \<Rightarrow> Some (Inl e)
        | Inr (heap'', graph') \<Rightarrow>
            Option.bind (kahn_sort query incoming heap'' graph')
              (\<lambda>rest. Some (rmap ((#) (tb_event_id item)) rest)))))"

declare kahn_sort.simps [code]

definition topological_sort :: "tie_query \<Rightarrow> graph \<Rightarrow> (error, event_id list) comp" where
  "topological_sort query graph = (case horizon query graph of
     Inl e \<Rightarrow> Some (Inl e)
   | Inr heap \<Rightarrow> kahn_sort query (incoming_of graph) heap graph)"

section \<open>Order checks\<close>

fun topologically_sorted_from :: "graph \<Rightarrow> event_id set \<Rightarrow> event_id list \<Rightarrow> bool" where
  "topologically_sorted_from g seen [] = True"
| "topologically_sorted_from g seen (x # xs) =
     (list_all (\<lambda>r. r \<in> seen) (filter (contains_key g) (refs g x)) \<and>
      topologically_sorted_from g (insert x seen) xs)"

definition is_topologically_sorted :: "event_id list \<Rightarrow> graph \<Rightarrow> bool" where
  "is_topologically_sorted order g = topologically_sorted_from g {} order"

fun in_place_from :: "('t \<Rightarrow> string) \<Rightarrow> ('t \<Rightarrow> string list) \<Rightarrow> 't list \<Rightarrow> bool" where
  "in_place_from ident references [] = True"
| "in_place_from ident references (x # xs) =
     (list_all (\<lambda>r. list_all (\<lambda>other. ident other \<noteq> r) (x # xs)) (references x) \<and>
      in_place_from ident references xs)"

definition is_topologically_sorted_in_place :: "('t \<Rightarrow> string) \<Rightarrow> ('t \<Rightarrow> string list) \<Rightarrow> 't list \<Rightarrow> bool" where
  "is_topologically_sorted_in_place ident references items =
     (length items < 2 \<or> in_place_from ident references items)"


section \<open>What the order is\<close>

definition edges :: "graph \<Rightarrow> event_id \<Rightarrow> event_id set" where
  "edges g x = set (refs g x) \<inter> set (keys g)"

definition ready :: "graph \<Rightarrow> event_id set \<Rightarrow> event_id set" where
  "ready g D = {x \<in> set (keys g) - D. edges g x \<subseteq> D}"

definition tb :: "tie_query \<Rightarrow> event_id \<Rightarrow> tie_breaker" where
  "tb query x = (case query x of Inr (pl, ts) \<Rightarrow> TieBreaker x pl ts | Inl _ \<Rightarrow> TieBreaker x Infinite 0)"

text \<open>Kahn's algorithm with the least ready event at each step, until none is ready.\<close>

fun greedy_order :: "graph \<Rightarrow> tie_query \<Rightarrow> event_id set \<Rightarrow> event_id list \<Rightarrow> bool" where
  "greedy_order g query D [] \<longleftrightarrow> ready g D = {}"
| "greedy_order g query D (x # xs) \<longleftrightarrow>
     x \<in> ready g D \<and> (\<forall>y \<in> ready g D. tb query x \<le> tb query y) \<and> greedy_order g query (insert x D) xs"

lemma tb_event_id_tb [simp]: "tb_event_id (tb query x) = x"
  by (auto simp: tb_def split: sum.splits)

lemma tb_inject [simp]: "tb query x = tb query y \<longleftrightarrow> x = y"
  by (metis tb_event_id_tb)

lemma tie_breaker_of_Inr [simp]: "tie_breaker_of query x = Inr t \<longleftrightarrow> is_ok (query x) \<and> t = tb query x"
  by (cases "query x") (auto simp: tie_breaker_of_def tb_def)

lemma tie_breaker_of_Inl [simp]: "tie_breaker_of query x = Inl e \<longleftrightarrow> query x = Inl e"
  by (cases "query x") (auto simp: tie_breaker_of_def)

lemma finite_ready [simp]: "finite (ready g D)"
  by (simp add: ready_def)

lemma has_present_iff: "has_present g rs \<longleftrightarrow> set rs \<inter> set (keys g) \<noteq> {}"
  by (auto simp: has_present_def list_ex_iff)

section \<open>Incoming edges\<close>

lemma refs_outside: "r \<in> set (refs g x) \<Longrightarrow> x \<in> set (keys g)"
  by (cases "map_of g x") (auto simp: refs_def dest: map_of_Some_keys)

lemma refs_upsert: "refs (upsert k [] f g) x = (if x = k then f (refs g k) else refs g x)"
  by (simp add: refs_def map_of_upsert)

lemma refs_add_incoming:
  "refs (add_incoming inc edge) x =
     (if x = snd edge \<and> fst edge \<notin> set (refs inc x) then refs inc x @ [fst edge] else refs inc x)"
  by (auto simp: add_incoming_def refs_upsert)

lemma refs_incoming_fold:
  "distinct (refs inc x) \<Longrightarrow>
   distinct (refs (fold (\<lambda>edge inc. add_incoming inc edge) es inc) x) \<and>
   set (refs (fold (\<lambda>edge inc. add_incoming inc edge) es inc) x) = set (refs inc x) \<union> {p. (p, x) \<in> set es}"
proof (induction es arbitrary: inc)
  case (Cons edge es)
  have "distinct (refs (add_incoming inc edge) x)"
    using Cons.prems by (auto simp: refs_add_incoming)
  from Cons.IH [OF this] show ?case by (cases edge) (auto simp: refs_add_incoming)
qed simp

lemma refs_incoming_of:
  assumes "distinct (keys g)"
  shows "distinct (refs (incoming_of g) x)"
    and "set (refs (incoming_of g) x) = {p \<in> set (keys g). x \<in> set (refs g p)}"
proof -
  let ?es = "concat (map (\<lambda>(eid, out). map (Pair eid) out) g)"
  have "(p, x) \<in> set ?es \<longleftrightarrow> p \<in> set (keys g) \<and> x \<in> set (refs g p)" for p
  proof -
    have "(p, x) \<in> set ?es \<longleftrightarrow> (\<exists>out. (p, out) \<in> set g \<and> x \<in> set out)" by auto
    also have "\<dots> \<longleftrightarrow> (\<exists>out. map_of g p = Some out \<and> x \<in> set out)"
      using map_of_eq_Some_distinct [OF assms] by blast
    also have "\<dots> \<longleftrightarrow> p \<in> set (keys g) \<and> x \<in> set (refs g p)"
      using keys_map_of_Some [of p g] map_of_Some_keys [of g p] by (auto simp: refs_def split: option.splits)
    finally show ?thesis .
  qed
  moreover have "refs [] x = []" by (simp add: refs_def)
  ultimately show "distinct (refs (incoming_of g) x)"
    and "set (refs (incoming_of g) x) = {p \<in> set (keys g). x \<in> set (refs g p)}"
    using refs_incoming_fold [of "[]" x ?es] by (auto simp: incoming_of_def)
qed

section \<open>The loop invariant\<close>

definition kahn_inv :: "graph \<Rightarrow> tie_query \<Rightarrow> event_id set \<Rightarrow> tie_breaker list \<Rightarrow> graph \<Rightarrow> bool" where
  "kahn_inv g query D heap graph \<longleftrightarrow>
     D \<subseteq> set (keys g) \<and> (\<forall>p \<in> D. edges g p \<subseteq> D) \<and>
     sorted heap \<and> mset heap = image_mset (tb query) (mset_set (ready g D)) \<and>
     set (keys graph) = set (keys g) \<and> (\<forall>p. refs graph p = filter (\<lambda>r. r \<notin> D) (refs g p))"

text \<open>Between two pops: \<open>x\<close> was popped and its parents in \<open>Q\<close> are released.\<close>

definition release_inv ::
  "graph \<Rightarrow> tie_query \<Rightarrow> event_id set \<Rightarrow> event_id \<Rightarrow> event_id set \<Rightarrow> tie_breaker list \<Rightarrow> graph \<Rightarrow> bool" where
  "release_inv g query D x Q heap graph \<longleftrightarrow>
     sorted heap \<and>
     mset heap = image_mset (tb query)
       (mset_set (ready g D - {x} \<union> {p \<in> Q. edges g p \<subseteq> insert x D})) \<and>
     set (keys graph) = set (keys g) \<and>
     (\<forall>p. refs graph p = filter (\<lambda>r. r \<notin> (if p \<in> Q then insert x D else D)) (refs g p))"

lemma parent_not_ready:
  assumes "x \<in> ready g D" and "x \<in> set (refs g p)"
  shows "p \<notin> ready g D"
  using assms by (auto simp: ready_def edges_def)

lemma release_parent_step:
  assumes "x \<in> ready g D" and "p \<in> set (keys g)" and "x \<in> set (refs g p)" and "p \<notin> Q" and "finite Q"
    and "release_inv g query D x Q heap graph"
  shows "(\<exists>e. release_parent query x (heap, graph) p = Some (Inl e) \<and> query p = Inl e) \<or>
    (\<exists>heap' graph'. release_parent query x (heap, graph) p = Some (Inr (heap', graph')) \<and>
       release_inv g query D x (insert p Q) heap' graph')"
proof -
  let ?graph = "upsert p [] (filter (\<lambda>r. r \<noteq> x)) graph"
  have keys: "set (keys graph) = set (keys g)" using assms(6) by (simp add: release_inv_def)
  obtain rs where rs: "map_of graph p = Some rs" using keys_map_of_Some [of p graph] assms(2) keys by auto
  have refs: "refs ?graph q = filter (\<lambda>r. r \<notin> (if q \<in> insert p Q then insert x D else D)) (refs g q)" for q
    using assms(4,6) by (auto simp: release_inv_def refs_upsert intro: filter_cong)
  have present: "has_present ?graph (refs ?graph p) \<longleftrightarrow> \<not> edges g p \<subseteq> insert x D"
    using keys assms(2) by (auto simp: has_present_iff refs edges_def)
  have p: "p \<notin> ready g D - {x} \<union> {q \<in> Q. edges g q \<subseteq> insert x D}"
    using parent_not_ready [OF assms(1,3)] assms(4) by auto
  have keys': "set (keys ?graph) = set (keys g)" using keys assms(2) by auto
  show ?thesis
  proof (cases "edges g p \<subseteq> insert x D")
    case True
    have set: "ready g D - {x} \<union> {q \<in> insert p Q. edges g q \<subseteq> insert x D} =
        insert p (ready g D - {x} \<union> {q \<in> Q. edges g q \<subseteq> insert x D})" using True by auto
    have "release_inv g query D x (insert p Q) (heap_push (tb query p) heap) ?graph"
      using assms(5,6) p keys' refs unfolding release_inv_def set
      by (simp add: heap.invar_push heap.elems_push)
    with True present rs show ?thesis
      by (cases "query p") (auto simp: release_parent_def Let_def split: sum.splits)
  next
    case False
    then have "{q \<in> insert p Q. edges g q \<subseteq> insert x D} = {q \<in> Q. edges g q \<subseteq> insert x D}" by auto
    then have "release_inv g query D x (insert p Q) heap ?graph"
      using assms(6) keys' refs by (simp add: release_inv_def)
    with False present rs show ?thesis by (auto simp: release_parent_def Let_def)
  qed
qed


lemma release_parents:
  assumes "x \<in> ready g D" and "set ps \<subseteq> {p \<in> set (keys g). x \<in> set (refs g p)}" and "distinct ps"
    and "set ps \<inter> Q = {}" and "finite Q" and "release_inv g query D x Q heap graph"
  shows "(\<exists>e. cfoldM (release_parent query x) (heap, graph) ps = Some (Inl e) \<and> (\<exists>p \<in> set (keys g). query p = Inl e)) \<or>
    (\<exists>heap' graph'. cfoldM (release_parent query x) (heap, graph) ps = Some (Inr (heap', graph')) \<and>
       release_inv g query D x (Q \<union> set ps) heap' graph')"
  using assms(2-6)
proof (induction ps arbitrary: Q heap graph)
  case (Cons p ps)
  from Cons.prems have p: "p \<in> set (keys g)" "x \<in> set (refs g p)" "p \<notin> Q" by auto
  from release_parent_step [OF assms(1) p Cons.prems(4,5)] show ?case
  proof
    assume "\<exists>heap' graph'. release_parent query x (heap, graph) p = Some (Inr (heap', graph')) \<and>
       release_inv g query D x (insert p Q) heap' graph'"
    then obtain heap' graph' where *: "release_parent query x (heap, graph) p = Some (Inr (heap', graph'))"
      "release_inv g query D x (insert p Q) heap' graph'" by blast
    have "set ps \<inter> insert p Q = {}" using Cons.prems(2,3) by auto
    from Cons.IH [OF _ _ this _ *(2)] Cons.prems * show ?case by (simp add: Un_insert_left)
  qed (use p in auto)
qed simp

lemma ready_insert:
  assumes "x \<in> ready g D" and "\<forall>p \<in> D. edges g p \<subseteq> D"
  shows "ready g (insert x D) =
    ready g D - {x} \<union> {p \<in> {p \<in> set (keys g). x \<in> set (refs g p)}. edges g p \<subseteq> insert x D}" (is "?l = ?r")
proof
  show "?l \<subseteq> ?r" by (auto simp: ready_def edges_def)
  have "p \<notin> D \<and> p \<noteq> x" if "x \<in> set (refs g p)" "p \<in> set (keys g)" for p
    using assms that by (auto simp: ready_def edges_def)
  then show "?r \<subseteq> ?l" by (auto simp: ready_def)
qed

lemma kahn_pop:
  assumes "kahn_inv g query D heap graph" and "heap_pop heap = Some (item, heap')"
  obtains x where "item = tb query x" and "x \<in> ready g D" and "\<forall>y \<in> ready g D. tb query x \<le> tb query y"
    and "release_inv g query D x {} heap' graph"
proof -
  let ?m = "image_mset (tb query) (mset_set (ready g D))"
  have inv: "sorted heap" "mset heap = ?m" using assms(1) by (simp_all add: kahn_inv_def)
  note pop = heap.pop_Some [OF inv(1) assms(2)]
  have "item \<in># ?m" using pop inv(2) by (metis union_single_eq_member)
  then obtain x where x: "item = tb query x" "x \<in> ready g D" by auto
  have "mset heap' = ?m - {#tb query x#}" using pop inv(2) x(1) by (metis add_mset_remove_trivial)
  also have "\<dots> = image_mset (tb query) (mset_set (ready g D - {x}))"
    using x(2) by (simp add: mset_set_Diff image_mset_Diff)
  finally have "release_inv g query D x {} heap' graph"
    using assms(1) pop by (auto simp: release_inv_def kahn_inv_def)
  moreover have "\<forall>y \<in> ready g D. tb query x \<le> tb query y"
    using heap.pop_least [OF inv(1) assms(2)] inv(2) x by auto
  ultimately show thesis using that x by blast
qed

lemma kahn_inv_next:
  assumes "kahn_inv g query D heap graph" and "x \<in> ready g D"
    and "release_inv g query D x {p \<in> set (keys g). x \<in> set (refs g p)} heap' graph'"
  shows "kahn_inv g query (insert x D) heap' graph'"
proof -
  have closed: "\<forall>p \<in> D. edges g p \<subseteq> D" using assms(1) by (simp add: kahn_inv_def)
  have "refs graph' p = filter (\<lambda>r. r \<notin> insert x D) (refs g p)" for p
  proof (cases "p \<in> set (keys g) \<and> x \<in> set (refs g p)")
    case True
    then show ?thesis using assms(3) by (simp add: release_inv_def)
  next
    case False
    have "x \<notin> set (refs g p)" using False refs_outside [of x g p] by auto
    with False show ?thesis using assms(3) by (auto simp: release_inv_def intro!: filter_cong)
  qed
  then show ?thesis
    using assms closed unfolding kahn_inv_def release_inv_def
    by (simp add: ready_insert [OF assms(2) closed]) (auto simp: ready_def)
qed

lemma kahn_sort_correct:
  assumes "distinct (keys g)" and "kahn_inv g query D heap graph"
  shows "(\<exists>e. kahn_sort query (incoming_of g) heap graph = Some (Inl e) \<and> (\<exists>p \<in> set (keys g). query p = Inl e)) \<or>
    (\<exists>xs. kahn_sort query (incoming_of g) heap graph = Some (Inr xs) \<and> greedy_order g query D xs)"
  using assms(2)
proof (induction "card (set (keys g) - D)" arbitrary: D heap graph rule: less_induct)
  case less
  show ?case
  proof (cases "heap_pop heap")
    case None
    have "sorted heap" using less.prems by (simp add: kahn_inv_def)
    from heap.pop_None [OF this] None have "mset heap = {#}" by simp
    then have "ready g D = {}" using less.prems by (simp add: kahn_inv_def mset_set_empty_iff)
    with None show ?thesis by (simp add: kahn_sort.simps)
  next
    case (Some a)
    obtain item heap' where pop: "heap_pop heap = Some (item, heap')" using Some by (cases a) auto
    obtain x where x: "item = tb query x" "x \<in> ready g D" "\<forall>y \<in> ready g D. tb query x \<le> tb query y"
      "release_inv g query D x {} heap' graph" by (rule kahn_pop [OF less.prems pop])
    let ?ps = "refs (incoming_of g) x"
    note inc = refs_incoming_of [OF assms(1), of x]
    note unfold = kahn_sort.simps [of query _ heap graph, unfolded pop x(1), simplified]
    from release_parents [OF x(2) _ inc(1) _ _ x(4)] inc(2)
    consider (err) e where "cfoldM (release_parent query x) (heap', graph) ?ps = Some (Inl e)"
        "\<exists>p \<in> set (keys g). query p = Inl e"
      | (ok) heap'' graph' where "cfoldM (release_parent query x) (heap', graph) ?ps = Some (Inr (heap'', graph'))"
        "release_inv g query D x {p \<in> set (keys g). x \<in> set (refs g p)} heap'' graph'" by auto
    then show ?thesis
    proof cases
      case err
      then show ?thesis by (simp add: unfold)
    next
      case ok
      have "x \<in> set (keys g) - D" using x(2) by (simp add: ready_def)
      then have "card (set (keys g) - insert x D) < card (set (keys g) - D)"
        by (intro psubset_card_mono) auto
      from less.hyps [OF this kahn_inv_next [OF less.prems x(2) ok(2)]] show ?thesis
        using ok(1) x(2,3) by (auto simp: unfold)
    qed
  qed
qed

lemma kahn_inv_init:
  assumes "distinct (keys g)" and "horizon query g = Inr heap"
  shows "kahn_inv g query {} heap g"
proof -
  let ?xs = "map fst (filter (\<lambda>kv. \<not> has_present g (snd kv)) g)"
  from assms(2) obtain ts where ts: "list_all2 (\<lambda>x t. is_ok (query x) \<and> t = tb query x) ?xs ts"
    and heap: "heap = fold heap_push ts []"
    by (auto simp: horizon_def rmapM_Inr_iff)
  then have "ts = map (tb query) ?xs" by (simp add: list_all2_conv_all_nth list_eq_iff_nth_eq)
  have set: "set ?xs = ready g {}"
  proof -
    have "x \<in> set ?xs \<longleftrightarrow> (\<exists>rs. map_of g x = Some rs \<and> set rs \<inter> set (keys g) = {})" for x
      using map_of_eq_Some_distinct [OF assms(1)] by (auto simp: has_present_iff image_iff)
    then show ?thesis
      using keys_map_of_Some [of _ g] map_of_Some_keys [of g]
      by (fastforce simp: ready_def edges_def refs_def split: option.splits)
  qed
  have "distinct ?xs" using assms(1) by (simp add: keys_def distinct_map_filter)
  then have "mset ?xs = mset_set (ready g {})" using set by (metis mset_set_set)
  then show ?thesis
    using heap \<open>ts = map (tb query) ?xs\<close> heap.fold_push [of "[]" ts]
    by (simp add: kahn_inv_def flip: image_mset.comp)
qed

lemma topological_sort_correct:
  assumes "distinct (keys g)"
  shows "(\<exists>e. topological_sort query g = Some (Inl e) \<and> (\<exists>p \<in> set (keys g). query p = Inl e)) \<or>
    (\<exists>xs. topological_sort query g = Some (Inr xs) \<and> greedy_order g query {} xs)"
proof (cases "horizon query g")
  case (Inl e)
  then have "rmapM (tie_breaker_of query) (map fst (filter (\<lambda>kv. \<not> has_present g (snd kv)) g)) = Inl e"
    by (auto simp: horizon_def rmap_def split: sum.splits)
  from rmapM_Inl_E [OF this] have "\<exists>p \<in> set (keys g). query p = Inl e" by (fastforce simp: keys_def)
  with Inl show ?thesis by (auto simp: topological_sort_def)
next
  case (Inr heap)
  from kahn_sort_correct [OF assms kahn_inv_init [OF assms Inr]] Inr show ?thesis
    by (simp add: topological_sort_def)
qed

section \<open>What a greedy order gives\<close>

lemma greedy_order_unique: "greedy_order g query D xs \<Longrightarrow> greedy_order g query D ys \<Longrightarrow> xs = ys"
proof (induction xs arbitrary: D ys)
  case Nil
  then show ?case by (cases ys) auto
next
  case (Cons x xs)
  then obtain y ys' where ys: "ys = y # ys'" by (cases ys) auto
  with Cons.prems have "tb query x \<le> tb query y" "tb query y \<le> tb query x" by auto
  then have "x = y" using tb_inject by (metis antisym)
  with Cons ys show ?case by auto
qed

lemma greedy_order_distinct: "greedy_order g query D xs \<Longrightarrow> distinct xs \<and> set xs \<subseteq> set (keys g) - D"
  by (induction xs arbitrary: D) (fastforce simp: ready_def)+

lemma greedy_order_sorted: "greedy_order g query D xs \<Longrightarrow> topologically_sorted_from g D xs"
  by (induction xs arbitrary: D) (auto simp: ready_def edges_def list_all_iff)

text \<open>No infinite descent along present references.\<close>

definition acyclic_graph :: "graph \<Rightarrow> bool" where
  "acyclic_graph g \<longleftrightarrow> acyclic {(r, x). r \<in> edges g x}"

lemma ready_nonempty:
  assumes "acyclic_graph g" and "\<not> set (keys g) \<subseteq> D"
  shows "ready g D \<noteq> {}"
proof -
  let ?R = "{(r, x). r \<in> edges g x}"
  have "?R \<subseteq> set (keys g) \<times> set (keys g)"
    by (auto simp: edges_def refs_outside)
  then have "finite ?R" by (rule finite_subset) simp
  then have "wf ?R" using assms(1) by (simp add: acyclic_graph_def finite_acyclic_wf)
  moreover obtain z where "z \<in> set (keys g) - D" using assms(2) by auto
  ultimately obtain x where "x \<in> set (keys g) - D" "\<And>r. (r, x) \<in> ?R \<Longrightarrow> r \<notin> set (keys g) - D"
    by (metis wfE_min)
  then have "x \<in> ready g D" by (auto simp: ready_def edges_def)
  then show ?thesis by blast
qed

lemma greedy_order_complete:
  assumes "acyclic_graph g"
  shows "greedy_order g query D xs \<Longrightarrow> set (keys g) \<subseteq> D \<union> set xs"
proof (induction xs arbitrary: D)
  case Nil
  then show ?case using ready_nonempty [OF assms, of D] by auto
next
  case (Cons x xs)
  then have "set (keys g) \<subseteq> insert x D \<union> set xs" by (intro Cons.IH) simp
  then show ?case by auto
qed

lemma greedy_order_least:
  assumes "greedy_order g query D xs" and "distinct ys" and "set ys \<subseteq> set (keys g) - D"
    and "topologically_sorted_from g D ys" and "set (keys g) \<subseteq> D \<union> set ys"
  shows "map (tb query) xs \<le> map (tb query) ys"
  using assms
proof (induction xs arbitrary: D ys)
  case (Cons x xs)
  have "x \<in> set (keys g) - D" using Cons.prems(1) by (simp add: ready_def)
  with Cons.prems(5) obtain y ys' where ys: "ys = y # ys'" by (cases ys) auto
  then have "y \<in> ready g D" using Cons.prems(3,4) by (auto simp: ready_def edges_def list_all_iff)
  then have "tb query x \<le> tb query y" using Cons.prems(1) by simp
  moreover have "map (tb query) xs \<le> map (tb query) ys'" if "x = y"
    using Cons.prems ys that by (intro Cons.IH [of "insert x D"]) auto
  ultimately show ?case using ys by (cases "x = y") (auto simp: less_le)
qed simp


lemma greedy_order_cong:
  assumes "set (keys g) = set (keys g')" and "\<And>x. set (refs g x) = set (refs g' x)"
    and "\<And>x. x \<in> set (keys g) \<Longrightarrow> query x = query' x"
  shows "greedy_order g query D xs \<longleftrightarrow> greedy_order g' query' D xs"
proof -
  have ready: "ready g' = ready g" using assms(1,2) by (auto simp: ready_def edges_def fun_eq_iff)
  have tb: "tb query' x = tb query x" if "x \<in> ready g D" for x D
    using that assms(3) by (simp add: ready_def tb_def)
  show ?thesis
  proof (induction xs arbitrary: D)
    case (Cons x xs)
    then show ?case by (auto simp: ready tb)
  qed (simp add: ready)
qed

lemma topological_sort_ok:
  assumes "distinct (keys g)" and "\<And>x. x \<in> set (keys g) \<Longrightarrow> is_ok (query x)"
  shows "\<exists>xs. topological_sort query g = Some (Inr xs) \<and> greedy_order g query {} xs"
  using topological_sort_correct [OF assms(1), of query] assms(2) by fastforce

lemma topological_sort_cong:
  assumes "distinct (keys g)" and "distinct (keys g')" and "set (keys g) = set (keys g')"
    and "\<And>x. set (refs g x) = set (refs g' x)" and "\<And>x. x \<in> set (keys g) \<Longrightarrow> query x = query' x"
    and "\<And>x. x \<in> set (keys g) \<Longrightarrow> is_ok (query x)"
  shows "topological_sort query g = topological_sort query' g'"
proof -
  have "is_ok (query' x)" if "x \<in> set (keys g')" for x using assms(3,5,6) that by metis
  then obtain xs ys where xs: "topological_sort query g = Some (Inr xs)" "greedy_order g query {} xs"
    and ys: "topological_sort query' g' = Some (Inr ys)" "greedy_order g' query' {} ys"
    using topological_sort_ok [OF assms(1), of query] topological_sort_ok [OF assms(2), of query'] assms(6) by blast
  have "greedy_order g query {} ys" using ys(2) greedy_order_cong [of g g' query query', OF assms(3-5)] by blast
  from greedy_order_unique [OF xs(2) this] xs(1) ys(1) show ?thesis by simp
qed

lemma topologically_sorted_from_iff:
  "topologically_sorted_from g seen xs \<longleftrightarrow>
     (\<forall>i < length xs. \<forall>r \<in> edges g (xs ! i). r \<in> seen \<union> set (take i xs))"
proof (induction xs arbitrary: seen)
  case (Cons x xs)
  show ?case
    unfolding topologically_sorted_from.simps Cons.IH
    by (simp add: All_less_Suc2 edges_def list_all_iff) blast
qed simp

lemma in_place_from_iff:
  "in_place_from ident references xs \<longleftrightarrow>
     (\<forall>i < length xs. \<forall>r \<in> set (references (xs ! i)). r \<notin> ident ` set (drop i xs))"
proof (induction xs)
  case (Cons x xs)
  show ?case
    unfolding in_place_from.simps Cons.IH by (simp add: All_less_Suc2 list_all_iff image_iff) auto
qed simp

section \<open>Properties\<close>

text \<open>C15: on an acyclic event graph whose tie-breaking queries succeed, \<^verbatim>\<open>topological_sort\<close> returns the
  lexicographically smallest topological ordering: every event of the graph exactly once, each after the events
  it references, and no other such ordering is smaller under the comparison by power level (highest first),
  timestamp and event id.\<close>

theorem topological_sort_least_order:
  assumes "distinct (keys g)" and "acyclic_graph g" and "\<forall>x \<in> set (keys g). is_ok (query x)"
  shows "\<exists>xs. topological_sort query g = Some (Inr xs) \<and> distinct xs \<and> set xs = set (keys g) \<and>
    is_topologically_sorted xs g \<and>
    (\<forall>ys. distinct ys \<and> set ys = set (keys g) \<and> is_topologically_sorted ys g \<longrightarrow>
       map (tb query) xs \<le> map (tb query) ys)"
proof -
  obtain xs where xs: "topological_sort query g = Some (Inr xs)" "greedy_order g query {} xs"
    using topological_sort_ok [OF assms(1)] assms(3) by blast
  have "set xs = set (keys g)"
    using greedy_order_complete [OF assms(2) xs(2)] greedy_order_distinct [OF xs(2)] by auto
  with xs greedy_order_distinct [OF xs(2)] greedy_order_sorted [OF xs(2)] greedy_order_least [OF xs(2)]
  show ?thesis by (auto simp: is_topologically_sorted_def)
qed

definition sample_graph :: graph where
  "sample_graph = [(''b'', [''a'', ''z'']), (''a'', []), (''c'', [''a''])]"

definition sample_query :: tie_query where
  "sample_query x = Inr (if x = ''c'' then Lvl 50 else Lvl 0, length x)"

lemma sample_acyclic: "acyclic_graph sample_graph"
proof -
  have "{(r, x). r \<in> edges sample_graph x} \<subseteq> {(''a'', ''b''), (''a'', ''c'')}"
    by (auto simp: edges_def refs_def sample_graph_def split: option.splits if_splits)
  moreover have "acyclic {(''a'', ''b''), (''a'', ''c'')}"
    by (simp add: acyclic_insert) (auto simp: acyclic_def rtrancl_insert elim: converse_rtranclE)
  ultimately show ?thesis unfolding acyclic_graph_def by (rule acyclic_subset [rotated])
qed

theorem topological_sort_least_order_witness:
  "\<exists>xs. topological_sort sample_query sample_graph = Some (Inr xs) \<and> distinct xs \<and>
     set xs = {''a'', ''b'', ''c''} \<and> is_topologically_sorted xs sample_graph"
  using topological_sort_least_order [of sample_graph sample_query] sample_acyclic
  by (auto simp: sample_graph_def keys_def sample_query_def)

text \<open>On every graph, cyclic ones included, \<^verbatim>\<open>topological_sort\<close> ends without panicking: it returns an
  ordering whose events are distinct events of the graph in topological order, or the error of a query about
  one of the graph's events.\<close>

lemma topological_sort_returns:
  assumes "distinct (keys g)"
  shows "(\<exists>e p. topological_sort query g = Some (Inl e) \<and> p \<in> set (keys g) \<and> query p = Inl e) \<or>
    (\<exists>xs. topological_sort query g = Some (Inr xs) \<and> distinct xs \<and> set xs \<subseteq> set (keys g) \<and>
       is_topologically_sorted xs g)"
  using topological_sort_correct [OF assms, of query] greedy_order_distinct [of g query "{}"]
    greedy_order_sorted [of g query "{}"]
  by (auto simp: is_topologically_sorted_def)

text \<open>The result of \<^verbatim>\<open>topological_sort\<close> does not depend on the iteration order of the hash map it is given,
  nor on the order or repetition of the references of an event.\<close>

lemma topological_sort_map_order_irrelevant:
  assumes "distinct (keys g)" and "distinct (keys g')" and "set (keys g) = set (keys g')"
    and "\<forall>x. set (refs g x) = set (refs g' x)" and "\<forall>x \<in> set (keys g). is_ok (query x)"
  shows "topological_sort query g = topological_sort query g'"
  using assms by (intro topological_sort_cong) auto

text \<open>\<^verbatim>\<open>is_topologically_sorted\<close> holds exactly when each reference that is present in the graph occurs earlier
  in the order.\<close>

lemma is_topologically_sorted_iff:
  "is_topologically_sorted xs g \<longleftrightarrow>
     {(i, r). i < length xs \<and> r \<in> set (refs g (xs ! i)) \<and> r \<in> set (keys g)} \<subseteq>
     {(i, r). r \<in> set (take i xs)}"
  unfolding is_topologically_sorted_def topologically_sorted_from_iff edges_def by auto

text \<open>The graph of a slice: what \<^verbatim>\<open>is_topologically_sorted\<close> would be given for it.\<close>

definition graph_of :: "('t \<Rightarrow> string) \<Rightarrow> ('t \<Rightarrow> string list) \<Rightarrow> 't list \<Rightarrow> graph" where
  "graph_of ident references items = map (\<lambda>x. (ident x, references x)) items"

lemma edges_graph_of:
  assumes "distinct (map ident xs)" and "i < length xs"
  shows "edges (graph_of ident references xs) (ident (xs ! i)) = set (references (xs ! i)) \<inter> ident ` set xs"
proof -
  have "map_of (graph_of ident references xs) (ident (xs ! i)) = Some (references (xs ! i))"
    using assms by (intro map_of_is_SomeI) (auto simp: graph_of_def comp_def)
  moreover have "set (keys (graph_of ident references xs)) = ident ` set xs" by (auto simp: keys_def graph_of_def)
  ultimately show ?thesis by (simp add: edges_def refs_def)
qed

text \<open>C16: for items without repeated identifiers, the check in place, which builds no graph and scans the rest of the slice
  for each reference, gives the answer of \<^verbatim>\<open>is_topologically_sorted\<close> on the graph of the items, except that it accepts
  every slice of fewer than two items, also one whose only item references itself.\<close>

theorem order_checks_agree:
  assumes "distinct (map ident xs)"
  shows "is_topologically_sorted_in_place ident references xs \<longleftrightarrow>
    length xs < 2 \<or> is_topologically_sorted (map ident xs) (graph_of ident references xs)"
proof -
  have "r \<notin> ident ` set (drop i xs) \<longleftrightarrow> (r \<in> ident ` set xs \<longrightarrow> r \<in> ident ` set (take i xs))" for r i
  proof -
    have "ident ` set xs = ident ` set (take i xs) \<union> ident ` set (drop i xs)"
      by (metis append_take_drop_id image_Un set_append)
    moreover have "ident ` set (take i xs) \<inter> ident ` set (drop i xs) = {}"
      using assms by (metis append_take_drop_id distinct_append map_append set_map)
    ultimately show ?thesis by blast
  qed
  then show ?thesis
    unfolding is_topologically_sorted_in_place_def in_place_from_iff is_topologically_sorted_def topologically_sorted_from_iff
    by (simp add: edges_graph_of [OF assms] take_map) blast
qed

theorem order_checks_agree_witness:
  "is_topologically_sorted_in_place fst snd [(''a'', []), (''b'', [''a'', ''x''])] \<and>
   \<not> is_topologically_sorted_in_place fst snd [(''b'', [''a'', ''x'']), (''a'', [])] \<and>
   is_topologically_sorted_in_place fst snd [(''a'', [''a''])] \<and>
   \<not> is_topologically_sorted [''a''] (graph_of fst snd [(''a'', [''a''])])"
proof -
  have "is_topologically_sorted [''a'', ''b''] (graph_of fst snd [(''a'', []), (''b'', [''a'', ''x''])])"
    "\<not> is_topologically_sorted [''b'', ''a''] (graph_of fst snd [(''b'', [''a'', ''x'']), (''a'', [])])"
    "\<not> is_topologically_sorted [''a''] (graph_of fst snd [(''a'', [''a''])])" by code_simp+
  then show ?thesis
    using order_checks_agree [of fst "[(''a'', []), (''b'', [''a'', ''x''])]" snd]
      order_checks_agree [of fst "[(''b'', [''a'', ''x'']), (''a'', [])]" snd] order_checks_agree [of fst "[(''a'', [''a''])]" snd]
    by simp
qed

end
