(* ===== verification/Conflicts.thy ===== *)
theory Conflicts
  imports Room_Events
begin

text \<open>
  The conflicted state of a set of forks: \<^verbatim>\<open>state_res/resolve/split_conflicted.rs\<close>,
  \<^verbatim>\<open>state_res/resolve/auth_difference.rs\<close> and the \<^verbatim>\<open>AuthSet\<close> of \<^verbatim>\<open>state_res/resolve.rs\<close>. Both algorithms
  count occurrences in hash maps; the lemmas relate the counts to membership in the given maps and sets.
\<close>

section \<open>State maps and auth sets\<close>

type_synonym state_map = "(type_state_key \<times> event_id) list"
type_synonym conflict_map = "(type_state_key \<times> event_id list) list"
type_synonym auth_set = "event_id list"

definition auth_set_from_iter :: "event_id list \<Rightarrow> auth_set" where
  "auth_set_from_iter ids = dedup_by (=) (sort_by (\<le>) ids)"

section \<open>Splitting\<close>

definition bump :: "'a \<Rightarrow> ('a \<times> nat) list \<Rightarrow> ('a \<times> nat) list" where
  "bump x = upsert x 0 (\<lambda>c. sat_add c 1)"

definition occurrences :: "state_map list \<Rightarrow> (type_state_key \<times> (event_id \<times> nat) list) list" where
  "occurrences maps = fold (\<lambda>kv. upsert (fst kv) [] (bump (snd kv))) (concat maps) []"

definition sort_occurrence ::
  "nat \<Rightarrow> type_state_key \<times> event_id \<times> nat \<Rightarrow> state_map \<times> conflict_map \<Rightarrow> state_map \<times> conflict_map" where
  "sort_occurrence state_set_count occ acc = (case occ of (k, eid, occurrence_count) \<Rightarrow>
     if occurrence_count = state_set_count then (map_insert k eid (fst acc), snd acc)
     else (fst acc, upsert k [] (\<lambda>conflicts. conflicts @ [eid]) (snd acc)))"

definition split_conflicted_state :: "state_map list \<Rightarrow> state_map \<times> conflict_map" where
  "split_conflicted_state maps =
     (let state_set_count = foldl (\<lambda>acc _. validated_add acc 1) 0 maps
      in fold (sort_occurrence state_set_count)
           (concat (map (\<lambda>(k, v). map (\<lambda>(eid, n). (k, eid, n)) v) (occurrences maps))) ([], []))"

section \<open>Auth difference\<close>

record counts =
  by_id :: "(event_id \<times> nat) list"
  total :: nat

definition counts_default :: counts where
  "counts_default = \<lparr> by_id = [], total = 0 \<rparr>"

definition counts_merge :: "counts \<Rightarrow> auth_set \<Rightarrow> counts" where
  "counts_merge c s = \<lparr> by_id = fold bump s (by_id c), total = sat_add (total c) 1 \<rparr>"

definition auth_difference :: "auth_set list \<Rightarrow> event_id list" where
  "auth_difference sets =
     (let c = foldl counts_merge counts_default sets
      in map fst (filter (\<lambda>kv. snd kv < total c) (by_id c)))"

section \<open>Counting\<close>

lemma sat_add_sat: "sat_add (sat_add a b) c = sat_add a (b + c)"
  by (simp add: sat_add_def)

lemma map_of_fold_bump:
  "map_of (fold bump xs m) x =
     (if x \<in> set xs \<or> x \<in> set (keys m)
      then Some (if x \<in> set xs then sat_add (case map_of m x of None \<Rightarrow> 0 | Some c \<Rightarrow> c) (count_list xs x)
                 else the (map_of m x))
      else None)"
proof (induction xs arbitrary: m)
  case Nil
  then show ?case using keys_map_of_Some [of x m] map_of_Some_keys [of m x] by (cases "map_of m x") auto
next
  case (Cons y xs)
  have "count_list xs x = 0" if "x \<notin> set xs" using that by (simp add: count_notin)
  then show ?case by (simp add: Cons.IH) (auto simp: bump_def map_of_upsert sat_add_sat)
qed

lemma fold_bump_empty:
  "map_of (fold bump xs []) x = (if x \<in> set xs then Some (min (count_list xs x) usize_max) else None)"
  by (simp add: map_of_fold_bump sat_add_def)

lemma keys_fold_bump: "set (keys (fold bump xs m)) = set xs \<union> set (keys m)"
  by (induction xs arbitrary: m) (auto simp: bump_def)

lemma distinct_keys_fold_bump: "distinct (keys m) \<Longrightarrow> distinct (keys (fold bump xs m))"
  by (induction xs arbitrary: m) (simp_all add: bump_def distinct_keys_upsert)

section \<open>What the auth difference is\<close>

lemma counts_fold:
  "foldl counts_merge c sets =
     \<lparr> by_id = fold bump (concat sets) (by_id c),
       total = (if sets = [] then total c else sat_add (total c) (length sets)) \<rparr>"
proof (induction sets arbitrary: c)
  case (Cons s sets)
  then show ?case by (auto simp: counts_merge_def sat_add_sat)
qed simp

lemma count_list_concat_distinct:
  "\<forall>s \<in> set sets. distinct s \<Longrightarrow> count_list (concat sets) x = length (filter (\<lambda>s. x \<in> set s) sets)"
proof (induction sets)
  case (Cons s sets)
  have "count_list s x = (if x \<in> set s then 1 else 0)"
    using Cons.prems by (simp add: distinct_count_atmost_1 flip: count_mset)
  with Cons show ?case by (simp add: count_list_append)
qed simp

lemma length_filter_less_iff: "length (filter P xs) < length xs \<longleftrightarrow> (\<exists>x \<in> set xs. \<not> P x)"
  by (metis length_filter_le length_filter_less filter_True le_neq_implies_less less_irrefl)

lemma set_auth_difference:
  assumes "\<forall>s \<in> set sets. distinct s" and "length sets \<le> usize_max"
  shows "set (auth_difference sets) = \<Union> (set ` set sets) - \<Inter> (set ` set sets)"
proof (cases "sets = []")
  case True
  then show ?thesis by (simp add: auth_difference_def counts_default_def)
next
  case False
  let ?m = "fold bump (concat sets) []"
  have m: "map_of ?m x = (if x \<in> \<Union> (set ` set sets)
      then Some (length (filter (\<lambda>s. x \<in> set s) sets)) else None)" for x
  proof -
    have "length (filter (\<lambda>s. x \<in> set s) sets) \<le> usize_max"
      using assms(2) by (meson length_filter_le order_trans)
    then show ?thesis
      by (simp add: fold_bump_empty count_list_concat_distinct [OF assms(1)])
  qed
  have "distinct (keys ?m)" by (rule distinct_keys_fold_bump) simp
  then have "set (auth_difference sets) = {x. \<exists>c. map_of ?m x = Some c \<and> c < length sets}"
    using False assms(2) map_of_eq_Some_distinct [of ?m]
    by (auto simp: auth_difference_def counts_fold counts_default_def sat_add_def Let_def image_iff)
  also have "\<dots> = \<Union> (set ` set sets) - \<Inter> (set ` set sets)"
    by (auto simp: m length_filter_less_iff split: if_splits)
  finally show ?thesis .
qed

section \<open>What the split is\<close>

definition inner :: "('k \<times> ('v \<times> nat) list) list \<Rightarrow> 'k \<Rightarrow> ('v \<times> nat) list" where
  "inner occ k = (case map_of occ k of None \<Rightarrow> [] | Some m \<Rightarrow> m)"

lemma inner_upsert: "inner (upsert k [] f occ) k' = (if k' = k then f (inner occ k) else inner occ k')"
  by (simp add: inner_def map_of_upsert)

lemma inner_fold:
  "inner (fold (\<lambda>kv. upsert (fst kv) [] (bump (snd kv))) ps occ) k =
     fold bump (map snd (filter (\<lambda>kv. fst kv = k) ps)) (inner occ k)"
  by (induction ps arbitrary: occ) (auto simp: inner_upsert)

lemma occurrences_keys:
  "distinct (keys occ) \<Longrightarrow>
   distinct (keys (fold (\<lambda>kv. upsert (fst kv) [] (bump (snd kv))) ps occ)) \<and>
   set (keys (fold (\<lambda>kv. upsert (fst kv) [] (bump (snd kv))) ps occ)) = fst ` set ps \<union> set (keys occ)"
proof (induction ps arbitrary: occ)
  case (Cons kv ps)
  from Cons.IH [OF distinct_keys_upsert [OF Cons.prems, of "fst kv" "[]" "bump (snd kv)"]] show ?case by auto
qed simp

lemma values_of_key:
  assumes "distinct (keys m)"
  shows "map snd (filter (\<lambda>kv. fst kv = k) m) = (case map_of m k of None \<Rightarrow> [] | Some v \<Rightarrow> [v])"
  using assms
proof (induction m)
  case (Cons kv m)
  have "filter (\<lambda>kv. fst kv = k) m = []" if "k \<notin> set (keys m)"
    using that by (auto simp: filter_empty_conv keys_def)
  moreover have "map_of m k = None" if "k \<notin> set (keys m)"
    using that by (simp add: keys_def map_of_eq_None_iff)
  ultimately show ?case using Cons by (cases kv) auto
qed simp

lemma count_values:
  assumes "\<forall>m \<in> set maps. distinct (keys m)"
  shows "count_list (map snd (filter (\<lambda>kv. fst kv = k) (concat maps))) v =
    length (filter (\<lambda>m. map_of m k = Some v) maps)"
  using assms
proof (induction maps)
  case (Cons m maps)
  have "count_list (map snd (filter (\<lambda>kv. fst kv = k) m)) v = (if map_of m k = Some v then 1 else 0)"
    using Cons.prems by (cases "map_of m k") (auto simp: values_of_key)
  with Cons show ?case by (simp add: count_list_append)
qed simp

lemma length_filter_eq_iff: "length (filter P xs) = length xs \<longleftrightarrow> (\<forall>x \<in> set xs. P x)"
  by (metis length_filter_less_iff length_filter_le le_neq_implies_less less_irrefl)

text \<open>The triples the second loop goes through.\<close>

definition triples :: "state_map list \<Rightarrow> (type_state_key \<times> event_id \<times> nat) list" where
  "triples maps = concat (map (\<lambda>(k, v). map (\<lambda>(eid, n). (k, eid, n)) v) (occurrences maps))"

lemma in_triples:
  "(k, v, n) \<in> set (concat (map (\<lambda>(k, v). map (\<lambda>(eid, n). (k, eid, n)) v) occ)) \<longleftrightarrow>
     (\<exists>m. (k, m) \<in> set occ \<and> (v, n) \<in> set m)"
  by (induction occ) auto

lemma occurrences_facts:
  assumes "\<forall>m \<in> set maps. distinct (keys m)" and "length maps \<le> usize_max"
  shows "distinct (keys (occurrences maps))"
    and "map_of (occurrences maps) k = Some m \<Longrightarrow> distinct (keys m)"
    and "map_of (occurrences maps) k = Some m \<Longrightarrow>
      map_of m v = (let n = length (filter (\<lambda>m. map_of m k = Some v) maps) in if n = 0 then None else Some n)"
    and "k \<in> set (keys (occurrences maps)) \<longleftrightarrow> (\<exists>m \<in> set maps. map_of m k \<noteq> None)"
proof -
  let ?vs = "map snd (filter (\<lambda>kv. fst kv = k) (concat maps))"
  show "distinct (keys (occurrences maps))"
    using occurrences_keys [of "[]" "concat maps"] by (simp add: occurrences_def)
  show "k \<in> set (keys (occurrences maps)) \<longleftrightarrow> (\<exists>m \<in> set maps. map_of m k \<noteq> None)"
  proof -
    have "set (keys (occurrences maps)) = fst ` set (concat maps)"
      using occurrences_keys [of "[]" "concat maps"] by (simp add: occurrences_def)
    also have "\<dots> = (\<Union>m \<in> set maps. set (keys m))" by (simp add: keys_def image_UN)
    finally show ?thesis by (simp add: contains_key_def flip: contains_key_iff)
  qed
  have inner: "m = fold bump ?vs []" if "map_of (occurrences maps) k = Some m"
    using inner_fold [of "concat maps" "[]" k] that by (simp add: inner_def occurrences_def)
  show "distinct (keys m)" if "map_of (occurrences maps) k = Some m"
    using inner [OF that] by (simp add: distinct_keys_fold_bump)
  have "length (filter (\<lambda>m. map_of m k = Some v) maps) \<le> usize_max"
    using assms(2) by (meson length_filter_le order_trans)
  then show "map_of m v = (let n = length (filter (\<lambda>m. map_of m k = Some v) maps) in if n = 0 then None else Some n)"
    if "map_of (occurrences maps) k = Some m"
    unfolding inner [OF that] fold_bump_empty count_values [OF assms(1)] Let_def
    using count_list_0_iff [of ?vs v] count_values [OF assms(1), of k v] by auto
qed

lemma set_triples:
  assumes "\<forall>m \<in> set maps. distinct (keys m)" and "length maps \<le> usize_max"
  shows "set (triples maps) = {(k, v, n). n = length (filter (\<lambda>m. map_of m k = Some v) maps) \<and> 0 < n}"
proof -
  note facts = occurrences_facts [OF assms]
  have "(k, v, n) \<in> set (triples maps) \<longleftrightarrow> (\<exists>m. map_of (occurrences maps) k = Some m \<and> map_of m v = Some n)" for k v n
  proof -
    have "(k, v, n) \<in> set (triples maps) \<longleftrightarrow> (\<exists>m. (k, m) \<in> set (occurrences maps) \<and> (v, n) \<in> set m)"
      unfolding triples_def by (rule in_triples)
    also have "\<dots> \<longleftrightarrow> (\<exists>m. map_of (occurrences maps) k = Some m \<and> (v, n) \<in> set m)"
      by (simp add: map_of_eq_Some_distinct [OF facts(1)])
    also have "\<dots> \<longleftrightarrow> (\<exists>m. map_of (occurrences maps) k = Some m \<and> map_of m v = Some n)"
    proof -
      have "(v, n) \<in> set m \<longleftrightarrow> map_of m v = Some n" if "map_of (occurrences maps) k = Some m" for m
        by (rule map_of_eq_Some_distinct [OF facts(2) [OF that], symmetric])
      then show ?thesis by (simp cong: conj_cong)
    qed
    finally show ?thesis .
  qed
  moreover have "(\<exists>m. map_of (occurrences maps) k = Some m \<and> map_of m v = Some n) \<longleftrightarrow>
      n = length (filter (\<lambda>m. map_of m k = Some v) maps) \<and> 0 < n" for k v n
  proof
    assume "n = length (filter (\<lambda>m. map_of m k = Some v) maps) \<and> 0 < n"
    then have n: "n = length (filter (\<lambda>m. map_of m k = Some v) maps)" "0 < n" by blast+
    have "filter (\<lambda>m. map_of m k = Some v) maps \<noteq> []" using n by (metis less_irrefl list.size(3))
    then have "\<exists>m \<in> set maps. map_of m k \<noteq> None" unfolding filter_empty_conv by blast
    then have "k \<in> set (keys (occurrences maps))" unfolding facts(4) .
    from keys_map_of_Some [OF this] obtain m' where m': "map_of (occurrences maps) k = Some m'" ..
    from facts(3) [OF m', of v] n have "map_of m' v = Some n" by (simp add: Let_def)
    with m' show "\<exists>m. map_of (occurrences maps) k = Some m \<and> map_of m v = Some n" by (intro exI conjI)
  next
    assume "\<exists>m. map_of (occurrences maps) k = Some m \<and> map_of m v = Some n"
    then obtain m where m: "map_of (occurrences maps) k = Some m" "map_of m v = Some n" by blast
    from facts(3) [OF m(1), of v] m(2)
    show "n = length (filter (\<lambda>m. map_of m k = Some v) maps) \<and> 0 < n" by (simp add: Let_def split: if_splits)
  qed
  ultimately have iff: "(k, v, n) \<in> set (triples maps) \<longleftrightarrow>
      n = length (filter (\<lambda>m. map_of m k = Some v) maps) \<and> 0 < n" for k v n by (rule trans)
  show ?thesis
  proof (rule set_eqI)
    fix t
    show "t \<in> set (triples maps) \<longleftrightarrow>
        t \<in> {(k, v, n). n = length (filter (\<lambda>m. map_of m k = Some v) maps) \<and> 0 < n}"
      by (cases t) (simp only: iff mem_Collect_eq case_prod_conv)
  qed
qed

definition conflicts_of :: "conflict_map \<Rightarrow> type_state_key \<Rightarrow> event_id list" where
  "conflicts_of c k = (case map_of c k of None \<Rightarrow> [] | Some ids \<Rightarrow> ids)"

lemma conflicts_of_upsert:
  "conflicts_of (upsert k [] f c) k' = (if k' = k then f (conflicts_of c k) else conflicts_of c k')"
  by (simp add: conflicts_of_def map_of_upsert)

lemma sort_occurrence_simps [simp]:
  "map_of (fst (sort_occurrence n (k, v, m) acc)) = (if m = n then (map_of (fst acc))(k \<mapsto> v) else map_of (fst acc))"
  "conflicts_of (snd (sort_occurrence n (k, v, m) acc)) k' =
     (if m \<noteq> n \<and> k' = k then conflicts_of (snd acc) k @ [v] else conflicts_of (snd acc) k')"
  "set (keys (snd (sort_occurrence n (k, v, m) acc))) =
     (if m = n then set (keys (snd acc)) else insert k (set (keys (snd acc))))"
  by (auto simp: sort_occurrence_def conflicts_of_upsert)

lemma unconflicted_from:
  "map_of (fst (fold (sort_occurrence n) ts acc)) k = Some v \<Longrightarrow> (k, v, n) \<in> set ts \<or> map_of (fst acc) k = Some v"
proof (induction ts arbitrary: acc)
  case (Cons t ts)
  obtain k' v' m where t: "t = (k', v', m)" by (cases t)
  from Cons.IH [of "sort_occurrence n t acc"] Cons.prems show ?case by (auto simp: t split: if_splits)
qed simp

lemma unconflicted_some:
  "(\<exists>v. (k, v, n) \<in> set ts) \<or> (\<exists>v. map_of (fst acc) k = Some v) \<Longrightarrow>
   \<exists>v. map_of (fst (fold (sort_occurrence n) ts acc)) k = Some v"
proof (induction ts arbitrary: acc)
  case (Cons t ts)
  obtain k' v' m where t: "t = (k', v', m)" by (cases t)
  have "(\<exists>v. (k, v, n) \<in> set ts) \<or> (\<exists>v. map_of (fst (sort_occurrence n t acc)) k = Some v)"
    using Cons.prems by (auto simp: t)
  from Cons.IH [OF this] show ?case by simp
qed simp

lemma conflicts_of_fold:
  "conflicts_of (snd (fold (sort_occurrence n) ts acc)) k =
     conflicts_of (snd acc) k @ map (\<lambda>t. fst (snd t)) (filter (\<lambda>t. fst t = k \<and> snd (snd t) \<noteq> n) ts)"
proof (induction ts arbitrary: acc)
  case (Cons t ts)
  obtain k' v' m where t: "t = (k', v', m)" by (cases t)
  from Cons.IH [of "sort_occurrence n t acc"] show ?case by (auto simp: t)
qed simp

lemma conflict_keys_fold:
  "set (keys (snd (fold (sort_occurrence n) ts acc))) =
     set (keys (snd acc)) \<union> {k. \<exists>v m. (k, v, m) \<in> set ts \<and> m \<noteq> n}"
proof (induction ts arbitrary: acc)
  case (Cons t ts)
  obtain k' v' m where t: "t = (k', v', m)" by (cases t)
  from Cons.IH [of "sort_occurrence n t acc"] show ?case by (auto simp: t)
qed simp

lemma set_conflicting:
  "set (map (\<lambda>t. fst (snd t)) (filter (\<lambda>t. fst t = k \<and> snd (snd t) \<noteq> n) ts)) =
     {v. \<exists>m. (k, v, m) \<in> set ts \<and> m \<noteq> n}"
  by (induction ts) auto

lemma state_set_count:
  "length maps \<le> usize_max \<Longrightarrow> foldl (\<lambda>acc _. validated_add acc 1) 0 maps = length maps"
proof (induction maps rule: rev_induct)
  case (snoc m maps)
  then show ?case by (simp add: validated_add_exact)
qed simp

lemma split_as_fold:
  assumes "length maps \<le> usize_max"
  shows "split_conflicted_state maps = fold (sort_occurrence (length maps)) (triples maps) ([], [])"
  unfolding split_conflicted_state_def state_set_count [OF assms] triples_def Let_def ..

lemma in_all_maps_iff:
  assumes "\<forall>m \<in> set maps. distinct (keys m)" and "length maps \<le> usize_max"
  shows "(k, v, length maps) \<in> set (triples maps) \<longleftrightarrow> maps \<noteq> [] \<and> (\<forall>m \<in> set maps. map_of m k = Some v)"
  unfolding set_triples [OF assms] using length_filter_eq_iff [of "\<lambda>m. map_of m k = Some v" maps] by auto

lemma split_unconflicted_iff:
  assumes "\<forall>m \<in> set maps. distinct (keys m)" and "length maps \<le> usize_max"
  shows "map_of (fst (split_conflicted_state maps)) k = Some v \<longleftrightarrow>
    maps \<noteq> [] \<and> (\<forall>m \<in> set maps. map_of m k = Some v)"
proof -
  note all_maps = in_all_maps_iff [OF assms]
  note fwd = unconflicted_from [of "length maps" "triples maps" "([], [])" k, folded split_as_fold [OF assms(2)]]
  note bwd = unconflicted_some [of k "length maps" "triples maps" "([], [])", folded split_as_fold [OF assms(2)]]
  have only_if: "maps \<noteq> [] \<and> (\<forall>m \<in> set maps. map_of m k = Some w)"
    if "map_of (fst (split_conflicted_state maps)) k = Some w" for w
    using fwd [OF that] all_maps by simp
  moreover have "map_of (fst (split_conflicted_state maps)) k = Some v"
    if all: "maps \<noteq> [] \<and> (\<forall>m \<in> set maps. map_of m k = Some v)"
  proof -
    obtain w where w: "map_of (fst (split_conflicted_state maps)) k = Some w" using bwd all_maps all by blast
    from only_if [OF w] all have "w = v" by (cases maps) auto
    with w show ?thesis by simp
  qed
  ultimately show ?thesis by blast
qed

lemma split_conflicted_iff:
  assumes "\<forall>m \<in> set maps. distinct (keys m)" and "length maps \<le> usize_max"
  shows "k \<in> set (keys (snd (split_conflicted_state maps))) \<longleftrightarrow>
      (\<exists>m \<in> set maps. map_of m k \<noteq> None) \<and> (\<nexists>v. \<forall>m \<in> set maps. map_of m k = Some v)"
    and "set (conflicts_of (snd (split_conflicted_state maps)) k) =
      (if \<exists>v. \<forall>m \<in> set maps. map_of m k = Some v then {} else {v. \<exists>m \<in> set maps. map_of m k = Some v})"
proof -
  define A where "A = (\<lambda>v. \<forall>m \<in> set maps. map_of m k = Some v)"
  define S where "S = (\<lambda>v. \<exists>m \<in> set maps. map_of m k = Some v)"
  define N where "N = (\<lambda>v. length (filter (\<lambda>m. map_of m k = Some v) maps))"
  have N: "N v = length maps \<longleftrightarrow> A v" "0 < N v \<longleftrightarrow> S v" for v
    using length_filter_eq_iff [of "\<lambda>m. map_of m k = Some v" maps]
    by (simp_all add: N_def A_def S_def filter_empty_conv)
  have ts: "(k, v, n) \<in> set (triples maps) \<and> n \<noteq> length maps \<longleftrightarrow> n = N v \<and> S v \<and> \<not> A v" for v n
    using N [of v] by (auto simp: set_triples [OF assms] N_def)
  have A: "A v" if "S v" "A w" for v w
    using that unfolding A_def S_def by (metis option.inject)
  have S: "(\<exists>m \<in> set maps. map_of m k \<noteq> None) \<longleftrightarrow> (\<exists>v. S v)" by (auto simp: S_def)
  have "k \<in> set (keys (snd (split_conflicted_state maps))) \<longleftrightarrow> (\<exists>v. S v \<and> \<not> A v)"
    unfolding split_as_fold [OF assms(2)] conflict_keys_fold using ts by simp
  then show "k \<in> set (keys (snd (split_conflicted_state maps))) \<longleftrightarrow>
      (\<exists>m \<in> set maps. map_of m k \<noteq> None) \<and> (\<nexists>v. \<forall>m \<in> set maps. map_of m k = Some v)"
    unfolding S A_def [symmetric] using A by metis
  have "set (conflicts_of (snd (split_conflicted_state maps)) k) = {v. S v \<and> \<not> A v}"
    unfolding split_as_fold [OF assms(2)] conflicts_of_fold set_append set_conflicting
    using ts by (simp add: conflicts_of_def)
  then show "set (conflicts_of (snd (split_conflicted_state maps)) k) =
      (if \<exists>v. \<forall>m \<in> set maps. map_of m k = Some v then {} else {v. \<exists>m \<in> set maps. map_of m k = Some v})"
    unfolding A_def [symmetric] S_def [symmetric] using A by auto
qed

section \<open>Properties\<close>

text \<open>C17: the split is the one of the specification: a key belongs to the unconflicted state with value \<open>v\<close> exactly when
  every fork holds \<open>v\<close> for it; a key is contested exactly when some fork holds it and no value is held by all; and
  the contestants of a contested key are exactly the values the forks hold for it.\<close>

theorem split_conflicted_state_spec:
  assumes "\<forall>m \<in> set maps. distinct (keys m)" and "length maps \<le> usize_max" and "maps \<noteq> []"
    and "split_conflicted_state maps = (unconflicted, conflicted)"
  shows "(map_of unconflicted k = Some v \<longleftrightarrow> (\<forall>m \<in> set maps. map_of m k = Some v)) \<and>
    (k \<in> set (keys conflicted) \<longleftrightarrow>
       (\<exists>m \<in> set maps. map_of m k \<noteq> None) \<and> (\<nexists>v. \<forall>m \<in> set maps. map_of m k = Some v)) \<and>
    (k \<in> set (keys conflicted) \<longrightarrow>
       set (conflicts_of conflicted k) = {v. \<exists>m \<in> set maps. map_of m k = Some v})"
  using split_unconflicted_iff [OF assms(1,2), of k v] split_conflicted_iff [OF assms(1,2), of k] assms(3,4)
  by auto

theorem split_conflicted_state_spec_witness:
  "split_conflicted_state [[((''t'', ''''), ''a''), ((''u'', ''''), ''b'')], [((''t'', ''''), ''a''), ((''u'', ''''), ''c'')]] =
     ([((''t'', ''''), ''a'')], [((''u'', ''''), [''b'', ''c''])]) \<and>
   set (conflicts_of [((''u'', ''''), [''b'', ''c''])] (''u'', '''')) = {''b'', ''c''}"
proof -
  let ?maps = "[[((''t'', ''''), ''a''), ((''u'', ''''), ''b'')], [((''t'', ''''), ''a''), ((''u'', ''''), ''c'')]]"
  have run: "split_conflicted_state ?maps = ([((''t'', ''''), ''a'')], [((''u'', ''''), [''b'', ''c''])])"
    by (simp add: split_conflicted_state_def occurrences_def bump_def sat_add_def usize_max_def
        validated_add_def sort_occurrence_def map_insert_def)
  from split_conflicted_state_spec [OF _ _ _ run, of "(''u'', '''')" "''b''"] run show ?thesis
    by (auto simp: keys_def usize_max_def)
qed

text \<open>The auth difference is the union of the auth sets without their intersection, whenever the sets hold no
  duplicates, as \<^verbatim>\<open>AuthSet\<close> promises.\<close>

lemma auth_difference_spec:
  assumes "length sets \<le> usize_max" and "sets = map auth_set_from_iter idss"
  shows "set (auth_difference sets) = \<Union> (set ` set idss) - \<Inter> (set ` set idss)"
proof -
  have "sorted_wrt (\<le>) (sort_by (\<le>) ids)" for ids :: "event_id list" by (rule ord.sorted_sort_by)
  then have d: "distinct (auth_set_from_iter ids)" for ids
    unfolding auth_set_from_iter_def by (intro distinct_dedup_by_sorted) simp
  have s: "set (auth_set_from_iter ids) = set ids" for ids
    by (simp add: auth_set_from_iter_def set_dedup_by_eq)
  have "\<forall>s \<in> set sets. distinct s" using assms(2) d by auto
  from set_auth_difference [OF this assms(1)] show ?thesis by (simp add: assms(2) s image_image)
qed

end
