(* ===== verification/Power_Sort.thy ===== *)
theory Power_Sort
  imports Event_Auth Topo_Sort
begin

text \<open>
  The first step of state resolution (\<^verbatim>\<open>state_res/resolve/power_sort.rs\<close>): collect the power events of the
  full conflicted set with the part of their auth chains inside it, and sort them. Events are fetched
  concurrently: an unordered buffered stream yields its items in some order of completion, and a
  \<^verbatim>\<open>FuturesUnordered\<close> completes some pending future next. Both choices are the \<open>schedule\<close> argument.
\<close>

section \<open>Schedules\<close>

record schedule =
  arrival :: "nat \<Rightarrow> event_id list \<Rightarrow> event_id list"
  pick :: "event_id list \<Rightarrow> nat"

text \<open>A stream yields each of its items once.\<close>

definition fair :: "schedule \<Rightarrow> bool" where
  "fair S \<longleftrightarrow> (\<forall>site ids. mset (arrival S site ids) = mset ids)"

section \<open>Fetching\<close>

definition fetch_optional_event :: "fetch_event \<Rightarrow> event_id \<Rightarrow> pdu option res" where
  "fetch_optional_event fetch eid = absent_or (fetch eid)"

definition is_power_event_id :: "ruma \<Rightarrow> fetch_event \<Rightarrow> event_id \<Rightarrow> bool res" where
  "is_power_event_id R fetch eid =
     rmap (\<lambda>ev. case ev of None \<Rightarrow> False | Some ev \<Rightarrow> is_power_event R ev) (fetch_optional_event fetch eid)"

section \<open>The graph of power events\<close>

definition push_auth_event :: "event_id \<Rightarrow> event_id list \<times> graph \<Rightarrow> event_id \<Rightarrow> event_id list \<times> graph" where
  "push_auth_event eid st auth_event_id =
     (if contains_key (snd st) auth_event_id then fst st else fst st @ [auth_event_id],
      upsert eid [] (\<lambda>references. push_new references auth_event_id) (snd st))"

text \<open>One completed future of the work list: a found event is entered, its auth events in the set are queued.\<close>

definition enter_event :: "event_id list \<Rightarrow> pdu \<Rightarrow> event_id list \<times> graph \<Rightarrow> event_id list \<times> graph" where
  "enter_event full_conflicted_set ev st =
     foldl (push_auth_event (event_id ev)) (fst st, upsert (event_id ev) [] (\<lambda>r. r) (snd st))
       (filter (\<lambda>a. a \<in> set full_conflicted_set) (auth_events ev))"

definition take_next :: "schedule \<Rightarrow> event_id list \<Rightarrow> event_id \<times> event_id list" where
  "take_next S todo =
     (let i = pick S todo mod length todo in (todo ! i, take i todo @ drop (Suc i) todo))"

partial_function (option) add_event_auth_chain ::
  "schedule \<Rightarrow> event_id list \<Rightarrow> fetch_event \<Rightarrow> event_id list \<Rightarrow> graph \<Rightarrow> (error, graph) comp" where
  "add_event_auth_chain S full_conflicted_set fetch todo graph =
     (if todo = [] then Some (Inr graph)
      else (case take_next S todo of (eid, todo') \<Rightarrow>
        (case fetch_optional_event fetch eid of
           Inl e \<Rightarrow> Some (Inl e)
         | Inr ev \<Rightarrow> (case ev of
             None \<Rightarrow> add_event_auth_chain S full_conflicted_set fetch todo' graph
           | Some ev \<Rightarrow> (case enter_event full_conflicted_set ev (todo', graph) of (todo'', graph') \<Rightarrow>
               add_event_auth_chain S full_conflicted_set fetch todo'' graph')))))"

declare add_event_auth_chain.simps [code]

definition add_power_event ::
  "schedule \<Rightarrow> ruma \<Rightarrow> event_id list \<Rightarrow> fetch_event \<Rightarrow> graph \<Rightarrow> event_id \<Rightarrow> (error, graph) comp" where
  "add_power_event S R full_conflicted_set fetch graph eid = (case is_power_event_id R fetch eid of
     Inl e \<Rightarrow> Some (Inl e)
   | Inr is_power \<Rightarrow>
       if is_power then add_event_auth_chain S full_conflicted_set fetch [eid] graph else Some (Inr graph))"

definition power_graph :: "schedule \<Rightarrow> ruma \<Rightarrow> event_id list \<Rightarrow> fetch_event \<Rightarrow> (error, graph) comp" where
  "power_graph S R full_conflicted_set fetch =
     cfoldM (add_power_event S R full_conflicted_set fetch) [] (arrival S 0 full_conflicted_set)"

section \<open>The power level of a sender\<close>

fun find_create_and_power_levels ::
  "fetch_event \<Rightarrow> bool \<Rightarrow> event_id list \<Rightarrow> pdu option \<Rightarrow> pdu option \<Rightarrow> (pdu option \<times> pdu option) res" where
  "find_create_and_power_levels fetch hydra [] create pl = Inr (create, pl)"
| "find_create_and_power_levels fetch hydra (auth_event_id # ids) create pl =
     rbind (fetch_optional_event fetch auth_event_id) (\<lambda>auth_event. case auth_event of
       None \<Rightarrow> find_create_and_power_levels fetch hydra ids create pl
     | Some ev \<Rightarrow>
       let is_create = (\<not> hydra \<and> is_type_and_state_key ev m_room_create '''');
           is_pl = is_type_and_state_key ev m_room_power_levels '''';
           create' = (if is_create \<and> create = None then Some ev else create);
           pl' = (if \<not> is_create \<and> is_pl \<and> pl = None then Some ev else pl)
       in if pl' \<noteq> None \<and> create' \<noteq> None then Inr (create', pl')
          else find_create_and_power_levels fetch hydra ids create' pl')"

definition power_level_for_sender ::
  "ruma \<Rightarrow> room_version_rules \<Rightarrow> fetch_event \<Rightarrow> event_id \<Rightarrow> user_power_level res" where
  "power_level_for_sender R rules fetch eid =
     rbind (fetch_optional_event fetch eid) (\<lambda>event.
     let hydra = room_create_event_id_as_room_id (authorization rules) in
     rbind (case event of
         Some ev \<Rightarrow> if hydra then
             rbind (ok_or (Mxid ''invalid event ID'') (room_as_event_id R (room_id ev))) (\<lambda>create_id.
             rmap Some (fetch create_id))
           else Inr None
       | None \<Rightarrow> Inr None) (\<lambda>create0.
     rbind (find_create_and_power_levels fetch hydra
         (case event of None \<Rightarrow> [] | Some ev \<Rightarrow> auth_events ev) create0 None) (\<lambda>found.
     rbind (case fst found of
         None \<Rightarrow> Inr None
       | Some create \<Rightarrow> rmap Some (creators R (authorization rules) create)) (\<lambda>cs.
     case (event, cs) of
       (Some ev, Some us) \<Rightarrow> user_power_level_of R (authorization rules) (snd found) us (sender ev)
     | _ \<Rightarrow> rmap Lvl (int_or_default R (authorization rules) (snd found) UsersDefault)))))"

definition power_levels_of ::
  "schedule \<Rightarrow> ruma \<Rightarrow> room_version_rules \<Rightarrow> fetch_event \<Rightarrow> graph \<Rightarrow> (event_id \<times> user_power_level) list res" where
  "power_levels_of S R rules fetch graph =
     rmapM (\<lambda>eid. rmap (Pair eid) (power_level_for_sender R rules fetch eid)) (arrival S 1 (keys graph))"

definition power_query :: "fetch_event \<Rightarrow> (event_id \<times> user_power_level) list \<Rightarrow> tie_query" where
  "power_query fetch levels eid =
     rbind (ok_or (request NotFound ''Missing PL event: {event_id}'') (map_of levels eid)) (\<lambda>power_level.
     rbind (fetch eid) (\<lambda>ev. Inr (power_level, origin_server_ts ev)))"

section \<open>Power sort\<close>

definition power_sort ::
  "schedule \<Rightarrow> ruma \<Rightarrow> room_version_rules \<Rightarrow> event_id list \<Rightarrow> fetch_event \<Rightarrow> (error, event_id list) comp" where
  "power_sort S R rules full_conflicted_set fetch =
     cbind (power_graph S R full_conflicted_set fetch) (\<lambda>graph.
     case power_levels_of S R rules fetch graph of
       Inl e \<Rightarrow> Some (Inl e)
     | Inr levels \<Rightarrow> topological_sort (power_query fetch levels) graph)"


section \<open>Reachability inside the conflicted set\<close>

text \<open>The hypothesis on the event store: it answers an id with the event of that id.\<close>

definition honest :: "fetch_event \<Rightarrow> bool" where
  "honest fetch \<longleftrightarrow> (\<forall>eid ev. fetch eid = Inr ev \<longrightarrow> event_id ev = eid)"

definition auth_step :: "fetch_event \<Rightarrow> event_id set \<Rightarrow> (event_id \<times> event_id) set" where
  "auth_step fetch F = {(x, y). \<exists>ev. fetch x = Inr ev \<and> y \<in> set (auth_events ev) \<inter> F}"

definition chain :: "fetch_event \<Rightarrow> event_id set \<Rightarrow> event_id \<Rightarrow> event_id set" where
  "chain fetch F x = {y. (x, y) \<in> (auth_step fetch F)\<^sup>* \<and> is_ok (fetch y)}"

lemma fetch_optional_cases:
  "fetch_optional_event fetch x = Inl e \<longleftrightarrow> fetch x = Inl e \<and> \<not> is_not_found e"
  "fetch_optional_event fetch x = Inr (Some ev) \<longleftrightarrow> fetch x = Inr ev"
  "fetch_optional_event fetch x = Inr None \<longleftrightarrow> (\<exists>e. fetch x = Inl e \<and> is_not_found e)"
  by (auto simp: fetch_optional_event_def)

section \<open>One step of the work list\<close>

lemma take_next_spec:
  assumes "todo \<noteq> []" and "take_next S todo = (x, rest)"
  shows "mset todo = add_mset x (mset rest)"
proof -
  define i where "i = pick S todo mod length todo"
  have i: "i < length todo" using assms(1) by (simp add: i_def)
  have "x = todo ! i" "rest = take i todo @ drop (Suc i) todo"
    using assms(2) by (auto simp: take_next_def i_def Let_def)
  with id_take_nth_drop [OF i] show ?thesis by (metis mset_append mset.simps(2) union_mset_add_mset_right)
qed

lemma push_auth_fold:
  assumes "eid \<in> set (keys g)"
  shows "fst (foldl (push_auth_event eid) (todo, g) ids) = todo @ filter (\<lambda>a. a \<notin> set (keys g)) ids \<and>
    keys (snd (foldl (push_auth_event eid) (todo, g) ids)) = keys g \<and>
    (\<forall>x. refs (snd (foldl (push_auth_event eid) (todo, g) ids)) x =
       (if x = eid then foldl push_new (refs g eid) ids else refs g x))"
  using assms
proof (induction ids arbitrary: todo g)
  case (Cons a ids)
  let ?g = "upsert eid [] (\<lambda>references. push_new references a) g"
  have k: "keys ?g = keys g" using Cons.prems by (simp add: keys_upsert)
  have step: "push_auth_event eid (todo, g) a = (if a \<in> set (keys g) then todo else todo @ [a], ?g)"
    by (simp add: push_auth_event_def)
  have "eid \<in> set (keys ?g)" using Cons.prems k by simp
  from Cons.IH [OF this] show ?case unfolding foldl_Cons step by (simp add: k refs_upsert)
qed simp

lemma set_foldl_push_new: "set (foldl push_new xs ys) = set xs \<union> set ys"
  by (induction ys arbitrary: xs) auto

lemma enter_event_spec:
  fixes ev todo g F
  defines "eid \<equiv> event_id ev" and "r \<equiv> enter_event F ev (todo, g)"
  shows "fst r = todo @ filter (\<lambda>a. a \<notin> insert eid (set (keys g))) (filter (\<lambda>a. a \<in> set F) (auth_events ev))"
    and "set (keys (snd r)) = insert eid (set (keys g))" and "distinct (keys g) \<Longrightarrow> distinct (keys (snd r))"
    and "set (refs (snd r) x) =
      (if x = eid then set (refs g eid) \<union> (set (auth_events ev) \<inter> set F) else set (refs g x))"
proof -
  let ?g = "upsert eid [] (\<lambda>r. r) g"
  have k: "set (keys ?g) = insert eid (set (keys g))" by simp
  note fold = push_auth_fold [of eid ?g todo "filter (\<lambda>a. a \<in> set F) (auth_events ev)"]
  show "fst r = todo @ filter (\<lambda>a. a \<notin> insert eid (set (keys g))) (filter (\<lambda>a. a \<in> set F) (auth_events ev))"
    using fold unfolding r_def enter_event_def eid_def by simp
  show "set (keys (snd r)) = insert eid (set (keys g))"
    using fold k unfolding r_def enter_event_def eid_def by simp
  show "distinct (keys g) \<Longrightarrow> distinct (keys (snd r))"
    using fold distinct_keys_upsert [of g eid "[]" "\<lambda>r. r"] unfolding r_def enter_event_def eid_def by simp
  show "set (refs (snd r) x) =
      (if x = eid then set (refs g eid) \<union> (set (auth_events ev) \<inter> set F) else set (refs g x))"
    using fold unfolding r_def enter_event_def eid_def
    by (auto simp: refs_upsert set_foldl_push_new)
qed

section \<open>The invariant of the work list\<close>

definition entered :: "event_id list \<Rightarrow> fetch_event \<Rightarrow> graph \<Rightarrow> bool" where
  "entered F fetch g \<longleftrightarrow> distinct (keys g) \<and>
     (\<forall>x \<in> set (keys g). \<exists>ev. fetch x = Inr ev \<and> set (refs g x) = set (auth_events ev) \<inter> set F)"

definition closed_but :: "fetch_event \<Rightarrow> event_id set \<Rightarrow> graph \<Rightarrow> bool" where
  "closed_but fetch T g \<longleftrightarrow>
     (\<forall>x \<in> set (keys g). \<forall>y \<in> set (refs g x). is_ok (fetch y) \<longrightarrow> y \<in> set (keys g) \<union> T)"

definition chain_inv ::
  "event_id list \<Rightarrow> fetch_event \<Rightarrow> event_id \<Rightarrow> event_id set \<Rightarrow> event_id list \<Rightarrow> graph \<Rightarrow> bool" where
  "chain_inv F fetch x0 K0 todo g \<longleftrightarrow>
     entered F fetch g \<and> closed_but fetch (set todo) g \<and>
     K0 \<subseteq> set (keys g) \<and> set (keys g) \<subseteq> K0 \<union> chain fetch (set F) x0 \<and>
     set todo \<subseteq> (auth_step fetch (set F))\<^sup>* `` {x0} \<and>
     (is_ok (fetch x0) \<longrightarrow> x0 \<in> set todo \<union> set (keys g))"

lemma chain_inv_skip:
  assumes "chain_inv F fetch x0 K0 todo g" and "mset todo = add_mset x (mset rest)" and "\<not> is_ok (fetch x)"
  shows "chain_inv F fetch x0 K0 rest g"
proof -
  have "set todo = insert x (set rest)" using assms(2) by (metis set_mset_add_mset_insert set_mset_mset)
  then show ?thesis using assms(1,3) unfolding chain_inv_def closed_but_def by auto
qed

lemma chain_inv_enter:
  assumes "chain_inv F fetch x0 K0 todo g" and "mset todo = add_mset x (mset rest)" and "fetch x = Inr ev"
    and "event_id ev = x"
  shows "chain_inv F fetch x0 K0 (fst (enter_event F ev (rest, g))) (snd (enter_event F ev (rest, g)))"
proof -
  let ?r = "enter_event F ev (rest, g)"
  note spec = enter_event_spec [where ev = ev and todo = rest and g = g and F = F, unfolded assms(4)]
  have todo: "set todo = insert x (set rest)" using assms(2) by (metis set_mset_add_mset_insert set_mset_mset)
  have inv: "entered F fetch g" "closed_but fetch (insert x (set rest)) g" "K0 \<subseteq> set (keys g)"
    "set (keys g) \<subseteq> K0 \<union> chain fetch (set F) x0" "insert x (set rest) \<subseteq> (auth_step fetch (set F))\<^sup>* `` {x0}"
    "is_ok (fetch x0) \<Longrightarrow> x0 \<in> insert x (set rest) \<union> set (keys g)"
    using assms(1) by (simp_all add: chain_inv_def todo)
  have old: "set (refs g x) \<subseteq> set (auth_events ev) \<inter> set F"
    using inv(1) assms(3) refs_outside [of _ g x] unfolding entered_def by fastforce
  have r: "set (refs (snd ?r) y) = (if y = x then set (auth_events ev) \<inter> set F else set (refs g y))" for y
    using spec(4) [of y] old by auto
  have q: "set (fst ?r) = set rest \<union> (set (auth_events ev) \<inter> set F - insert x (set (keys g)))"
    unfolding spec(1) by auto
  have "entered F fetch (snd ?r)"
    using inv(1) spec(2,3) assms(3) by (auto simp: entered_def r)
  moreover have "closed_but fetch (set (fst ?r)) (snd ?r)"
    using inv(2) unfolding closed_but_def spec(2) r q by auto
  moreover have x: "x \<in> chain fetch (set F) x0" using inv(5) assms(3) by (simp add: chain_def)
  moreover have "y \<in> (auth_step fetch (set F))\<^sup>* `` {x0}" if "y \<in> set (auth_events ev) \<inter> set F" for y
  proof -
    have "(x, y) \<in> auth_step fetch (set F)" using that assms(3) by (auto simp: auth_step_def)
    then show ?thesis using x by (auto simp: chain_def)
  qed
  ultimately show ?thesis using inv(3-6) unfolding chain_inv_def spec(2) q by auto
qed


lemma chain_inv_final:
  assumes "chain_inv F fetch x0 K0 [] g"
  shows "set (keys g) = K0 \<union> chain fetch (set F) x0"
proof -
  have inv: "entered F fetch g" "closed_but fetch {} g" "K0 \<subseteq> set (keys g)"
    "set (keys g) \<subseteq> K0 \<union> chain fetch (set F) x0" "is_ok (fetch x0) \<Longrightarrow> x0 \<in> set (keys g)"
    using assms by (simp_all add: chain_inv_def)
  have "is_ok (fetch y) \<longrightarrow> y \<in> set (keys g)" if "(x0, y) \<in> (auth_step fetch (set F))\<^sup>*" for y
    using that
  proof (induction rule: rtrancl_induct)
    case base
    then show ?case using inv(5) by blast
  next
    case (step y z)
    then obtain ev where ev: "fetch y = Inr ev" "z \<in> set (auth_events ev) \<inter> set F" by (auto simp: auth_step_def)
    with step.IH have y: "y \<in> set (keys g)" by simp
    with inv(1) ev have "z \<in> set (refs g y)" by (auto simp: entered_def)
    with inv(2) y show ?case by (auto simp: closed_but_def)
  qed
  then have "chain fetch (set F) x0 \<subseteq> set (keys g)" by (auto simp: chain_def)
  with inv(3,4) show ?thesis by blast
qed

lemma rtrancl_auth_step: "(x, y) \<in> (auth_step fetch F)\<^sup>* \<Longrightarrow> y = x \<or> y \<in> F"
  by (induction rule: rtrancl_induct) (auto simp: auth_step_def)

definition chain_measures :: "event_id set \<Rightarrow> (event_id list \<times> graph \<Rightarrow> nat) list" where
  "chain_measures U = [\<lambda>st. card (U - set (keys (snd st))),
     \<lambda>st. length (filter (\<lambda>x. x \<in> set (keys (snd st))) (fst st)), \<lambda>st. length (fst st)]"

lemma measure_skip:
  assumes "mset todo = add_mset x (mset rest)"
  shows "((rest, g), (todo, g)) \<in> measures (chain_measures U)"
proof -
  have "length (filter P todo) = (if P x then Suc (length (filter P rest)) else length (filter P rest))" for P
    using arg_cong [OF assms, of "\<lambda>m. size (filter_mset P m)"] by (simp flip: mset_filter)
  moreover have "length todo = Suc (length rest)" using arg_cong [OF assms, of size] by simp
  ultimately show ?thesis by (auto simp: chain_measures_def)
qed

lemma measure_enter:
  assumes "mset todo = add_mset x (mset rest)" and "event_id ev = x" and "finite U" and "x \<in> U"
  shows "(enter_event F ev (rest, g), (todo, g)) \<in> measures (chain_measures U)"
proof (cases "x \<in> set (keys g)")
  case False
  have "set (keys (snd (enter_event F ev (rest, g)))) = insert x (set (keys g))"
    using enter_event_spec(2) [of F ev rest g] assms(2) by simp
  moreover have "card (U - insert x (set (keys g))) < card (U - set (keys g))"
    using assms(3,4) False by (intro psubset_card_mono) auto
  ultimately show ?thesis by (simp add: chain_measures_def)
next
  case True
  let ?r = "enter_event F ev (rest, g)"
  have k: "set (keys (snd ?r)) = set (keys g)"
    using enter_event_spec(2) [of F ev rest g] assms(2) True by auto
  have "filter (\<lambda>y. y \<in> set (keys g)) (fst ?r) = filter (\<lambda>y. y \<in> set (keys g)) rest"
    unfolding enter_event_spec(1) by (auto simp: filter_empty_conv)
  moreover have "length (filter (\<lambda>y. y \<in> set (keys g)) todo) = Suc (length (filter (\<lambda>y. y \<in> set (keys g)) rest))"
    using arg_cong [OF assms(1), of "\<lambda>m. size (filter_mset (\<lambda>y. y \<in> set (keys g)) m)"] True
    by (simp flip: mset_filter)
  ultimately show ?thesis by (simp add: chain_measures_def k)
qed

lemma add_event_auth_chain_correct:
  assumes "honest fetch" and "chain_inv F fetch x0 K0 todo g"
  shows "(\<exists>e x. add_event_auth_chain S F fetch todo g = Some (Inl e) \<and>
      x \<in> insert x0 (set F) \<and> fetch x = Inl e \<and> \<not> is_not_found e) \<or>
    (\<exists>g'. add_event_auth_chain S F fetch todo g = Some (Inr g') \<and> chain_inv F fetch x0 K0 [] g')"
  using assms(2)
proof (induction "(todo, g)" arbitrary: todo g
    rule: wf_induct_rule [OF wf_measures [of "chain_measures (insert x0 (set F))"]])
  case 1
  show ?case
  proof (cases "todo = []")
    case True
    with 1(2) show ?thesis by (simp add: add_event_auth_chain.simps)
  next
    case False
    obtain x rest where nx: "take_next S todo = (x, rest)" by (cases "take_next S todo")
    note m = take_next_spec [OF False nx]
    have "x \<in> set todo" using m by (metis set_mset_mset union_single_eq_member)
    then have x: "x \<in> insert x0 (set F)" using 1(2) rtrancl_auth_step by (fastforce simp: chain_inv_def)
    consider (err) e where "fetch x = Inl e" "\<not> is_not_found e" | (none) e where "fetch x = Inl e" "is_not_found e"
      | (some) ev where "fetch x = Inr ev" by (cases "fetch x") auto
    then show ?thesis
    proof cases
      case err
      then have "fetch_optional_event fetch x = Inl e" by (simp add: fetch_optional_cases)
      then show ?thesis using False nx err x by (auto simp: add_event_auth_chain.simps [of S F fetch todo])
    next
      case none
      then have "fetch_optional_event fetch x = Inr None" by (simp add: fetch_optional_cases)
      then have "add_event_auth_chain S F fetch todo g = add_event_auth_chain S F fetch rest g"
        using False nx by (simp add: add_event_auth_chain.simps [of S F fetch todo])
      moreover have "chain_inv F fetch x0 K0 rest g" using chain_inv_skip [OF 1(2) m] none by simp
      ultimately show ?thesis using 1(1) [OF measure_skip [OF m]] by simp
    next
      case some
      then have "fetch_optional_event fetch x = Inr (Some ev)" by (simp add: fetch_optional_cases)
      then have eq: "add_event_auth_chain S F fetch todo g =
          add_event_auth_chain S F fetch (fst (enter_event F ev (rest, g))) (snd (enter_event F ev (rest, g)))"
        using False nx by (simp add: add_event_auth_chain.simps [of S F fetch todo] case_prod_unfold)
      have eid: "event_id ev = x" using assms(1) some by (simp add: honest_def)
      have "((fst (enter_event F ev (rest, g)), snd (enter_event F ev (rest, g))), (todo, g)) \<in>
          measures (chain_measures (insert x0 (set F)))"
        using measure_enter [OF m eid _ x, of F g] by simp
      from 1(1) [OF this chain_inv_enter [OF 1(2) m some eid]] eq show ?thesis by simp
    qed
  qed
qed


section \<open>The graph is the closure of the power events\<close>

definition power_events :: "ruma \<Rightarrow> fetch_event \<Rightarrow> event_id set \<Rightarrow> event_id set" where
  "power_events R fetch F = {p \<in> F. \<exists>ev. fetch p = Inr ev \<and> is_power_event R ev}"

definition power_closure :: "ruma \<Rightarrow> fetch_event \<Rightarrow> event_id set \<Rightarrow> event_id set" where
  "power_closure R fetch F = \<Union> (chain fetch F ` power_events R fetch F)"

text \<open>No fetch in the set fails, apart from events that do not exist.\<close>

definition fetches_clean :: "fetch_event \<Rightarrow> event_id set \<Rightarrow> bool" where
  "fetches_clean fetch F \<longleftrightarrow> (\<forall>x \<in> F. \<forall>e. fetch x = Inl e \<longrightarrow> is_not_found e)"

lemma is_power_event_id_cases:
  "is_power_event_id R fetch x = Inl e \<longleftrightarrow> fetch x = Inl e \<and> \<not> is_not_found e"
  "is_power_event_id R fetch x = Inr b \<longleftrightarrow>
     (\<exists>ev. fetch x = Inr ev \<and> b = is_power_event R ev) \<or> (\<exists>e. fetch x = Inl e \<and> is_not_found e \<and> \<not> b)"
  by (cases "fetch x"; auto simp: is_power_event_id_def fetch_optional_event_def absent_or_def)+

lemma chain_inv_start:
  assumes "entered F fetch g" and "closed_but fetch {} g"
  shows "chain_inv F fetch x (set (keys g)) [x] g"
  using assms by (auto simp: chain_inv_def closed_but_def)

lemma add_power_event_spec:
  assumes "honest fetch" and "entered F fetch g" and "closed_but fetch {} g" and "x \<in> set F"
  shows "(\<exists>e y. add_power_event S R F fetch g x = Some (Inl e) \<and> y \<in> set F \<and> fetch y = Inl e \<and> \<not> is_not_found e) \<or>
    (\<exists>g'. add_power_event S R F fetch g x = Some (Inr g') \<and> entered F fetch g' \<and> closed_but fetch {} g' \<and>
       set (keys g') = set (keys g) \<union> (if x \<in> power_events R fetch (set F) then chain fetch (set F) x else {}) \<and>
       (\<forall>e. fetch x = Inl e \<longrightarrow> is_not_found e))"
proof (cases "is_power_event_id R fetch x")
  case (Inl e)
  then have "fetch x = Inl e" "\<not> is_not_found e" by (simp_all add: is_power_event_id_cases)
  with Inl show ?thesis using assms(4) by (auto simp: add_power_event_def)
next
  case (Inr b)
  show ?thesis
  proof (cases b)
    case True
    with Inr assms(4) have p: "x \<in> power_events R fetch (set F)" "is_ok (fetch x)"
      by (auto simp: is_power_event_id_cases power_events_def)
    from add_event_auth_chain_correct [OF assms(1) chain_inv_start [OF assms(2,3), of x], of S] show ?thesis
    proof
      assume "\<exists>g'. add_event_auth_chain S F fetch [x] g = Some (Inr g') \<and> chain_inv F fetch x (set (keys g)) [] g'"
      then obtain g' where g': "add_event_auth_chain S F fetch [x] g = Some (Inr g')"
        "chain_inv F fetch x (set (keys g)) [] g'" by blast
      then show ?thesis
        using True Inr p chain_inv_final [OF g'(2)] by (auto simp: add_power_event_def chain_inv_def)
    qed (use True Inr assms(4) in \<open>auto simp: add_power_event_def\<close>)
  next
    case False
    with Inr have "x \<notin> power_events R fetch (set F)" "\<forall>e. fetch x = Inl e \<longrightarrow> is_not_found e"
      by (auto simp: is_power_event_id_cases power_events_def)
    then show ?thesis using Inr False assms(2,3) by (simp add: add_power_event_def)
  qed
qed

lemma power_graph_fold:
  assumes "honest fetch" and "entered F fetch g" and "closed_but fetch {} g" and "set ids \<subseteq> set F"
  shows "(\<exists>e y. cfoldM (add_power_event S R F fetch) g ids = Some (Inl e) \<and>
      y \<in> set F \<and> fetch y = Inl e \<and> \<not> is_not_found e) \<or>
    (\<exists>g'. cfoldM (add_power_event S R F fetch) g ids = Some (Inr g') \<and> entered F fetch g' \<and>
       set (keys g') = set (keys g) \<union> \<Union> (chain fetch (set F) ` (power_events R fetch (set F) \<inter> set ids)) \<and>
       fetches_clean fetch (set ids))"
  using assms(2-4)
proof (induction ids arbitrary: g)
  case (Cons x ids)
  from Cons.prems(3) have x: "x \<in> set F" and ids: "set ids \<subseteq> set F" by auto
  from add_power_event_spec [OF assms(1) Cons.prems(1,2) x, of S R] show ?case
  proof
    assume "\<exists>g'. add_power_event S R F fetch g x = Some (Inr g') \<and> entered F fetch g' \<and> closed_but fetch {} g' \<and>
       set (keys g') = set (keys g) \<union> (if x \<in> power_events R fetch (set F) then chain fetch (set F) x else {}) \<and>
       (\<forall>e. fetch x = Inl e \<longrightarrow> is_not_found e)"
    then obtain g' where g': "add_power_event S R F fetch g x = Some (Inr g')" "entered F fetch g'"
      "closed_but fetch {} g'" "set (keys g') = set (keys g) \<union>
        (if x \<in> power_events R fetch (set F) then chain fetch (set F) x else {})"
      "\<forall>e. fetch x = Inl e \<longrightarrow> is_not_found e" by blast
    have U: "set (keys g') \<union> \<Union> (chain fetch (set F) ` (power_events R fetch (set F) \<inter> set ids)) =
        set (keys g) \<union> \<Union> (chain fetch (set F) ` (power_events R fetch (set F) \<inter> set (x # ids)))"
      unfolding g'(4) by (cases "x \<in> power_events R fetch (set F)") auto
    from Cons.IH [OF g'(2,3) ids] show ?case
      using g'(1,5) unfolding U by (auto simp: fetches_clean_def)
  qed auto
qed (simp add: fetches_clean_def)

lemma set_arrival: "fair S \<Longrightarrow> set (arrival S site ids) = set ids"
  unfolding fair_def by (metis set_mset_mset)

lemma power_graph_correct:
  assumes "honest fetch" and "fair S"
  shows "(\<exists>e y. power_graph S R F fetch = Some (Inl e) \<and> y \<in> set F \<and> fetch y = Inl e \<and> \<not> is_not_found e) \<or>
    (\<exists>g. power_graph S R F fetch = Some (Inr g) \<and> entered F fetch g \<and>
       set (keys g) = power_closure R fetch (set F) \<and> fetches_clean fetch (set F))"
proof -
  have "entered F fetch []" "closed_but fetch {} []" by (simp_all add: entered_def closed_but_def)
  note fold = power_graph_fold [OF assms(1) this, of "arrival S 0 F" S R]
  have "power_events R fetch (set F) \<inter> set F = power_events R fetch (set F)" by (auto simp: power_events_def)
  with fold show ?thesis unfolding power_graph_def power_closure_def set_arrival [OF assms(2)] by simp
qed

section \<open>Sorting the closure\<close>

lemma power_query_ok:
  assumes "entered F fetch g" and "fair S" and "power_levels_of S R rules fetch g = Inr levels" and "x \<in> set (keys g)"
  shows "\<exists>pl ev. power_level_for_sender R rules fetch x = Inr pl \<and> fetch x = Inr ev \<and>
    power_query fetch levels x = Inr (pl, origin_server_ts ev)"
proof -
  let ?ids = "arrival S 1 (keys g)"
  have "list_all2 (\<lambda>x l. \<exists>pl. power_level_for_sender R rules fetch x = Inr pl \<and> l = (x, pl)) ?ids levels"
    using assms(3) unfolding power_levels_of_def rmapM_Inr_iff by (rule list_all2_mono) auto
  then have levels: "map_of levels x = Some pl \<Longrightarrow> power_level_for_sender R rules fetch x = Inr pl"
    and "x \<in> set ?ids \<Longrightarrow> \<exists>pl. map_of levels x = Some pl" for pl
    by (induction rule: list_all2_induct) (auto split: if_splits)
  then obtain pl where "map_of levels x = Some pl" using assms(4) set_arrival [OF assms(2)] by metis
  moreover obtain ev where "fetch x = Inr ev" using assms(1,4) by (auto simp: entered_def)
  ultimately show ?thesis using levels by (simp add: power_query_def)
qed

lemma power_sort_returns_order:
  assumes "honest fetch" and "fair S"
  shows "\<exists>r. power_sort S R rules F fetch = Some r"
proof -
  have "topological_sort query g \<noteq> None" if "entered F fetch g" for query g
    using topological_sort_correct [of g query] that by (auto simp: entered_def)
  then show ?thesis
    using power_graph_correct [OF assms, of R F] by (fastforce simp: power_sort_def split: sum.splits)
qed

lemma power_sort_Inr:
  assumes "honest fetch" and "fair S" and "power_sort S R rules F fetch = Some (Inr xs)"
  obtains g levels where "power_graph S R F fetch = Some (Inr g)" and "entered F fetch g"
    and "set (keys g) = power_closure R fetch (set F)" and "fetches_clean fetch (set F)"
    and "power_levels_of S R rules fetch g = Inr levels"
    and "topological_sort (power_query fetch levels) g = Some (Inr xs)"
proof -
  from assms(3) obtain g where g: "power_graph S R F fetch = Some (Inr g)"
    and g': "(case power_levels_of S R rules fetch g of Inl e \<Rightarrow> Some (Inl e)
      | Inr levels \<Rightarrow> topological_sort (power_query fetch levels) g) = Some (Inr xs)"
    by (auto simp: power_sort_def)
  from g' obtain levels where "power_levels_of S R rules fetch g = Inr levels"
    "topological_sort (power_query fetch levels) g = Some (Inr xs)"
    by (cases "power_levels_of S R rules fetch g") auto
  with power_graph_correct [OF assms(1,2), of R F] g show thesis by (intro that) auto
qed


definition auth_acyclic :: "fetch_event \<Rightarrow> bool" where
  "auth_acyclic fetch \<longleftrightarrow> acyclic {(y, x). \<exists>ev. fetch x = Inr ev \<and> y \<in> set (auth_events ev)}"

lemma entered_refs:
  assumes "entered F fetch g"
  shows "set (refs g x) = {y. x \<in> set (keys g) \<and> (\<exists>ev. fetch x = Inr ev \<and> y \<in> set (auth_events ev) \<inter> set F)}"
proof (cases "x \<in> set (keys g)")
  case True
  with assms obtain ev where "fetch x = Inr ev" "set (refs g x) = set (auth_events ev) \<inter> set F"
    by (auto simp: entered_def)
  with True show ?thesis by auto
next
  case False
  then have "set (refs g x) = {}" using refs_outside [of _ g x] by (metis equals0I)
  with False show ?thesis by simp
qed

lemma entered_acyclic:
  assumes "entered F fetch g" and "auth_acyclic fetch"
  shows "acyclic_graph g"
proof -
  have "{(r, x). r \<in> edges g x} \<subseteq> {(y, x). \<exists>ev. fetch x = Inr ev \<and> y \<in> set (auth_events ev)}"
    by (auto simp: edges_def entered_refs [OF assms(1)])
  then show ?thesis using assms(2) unfolding acyclic_graph_def auth_acyclic_def by (rule acyclic_subset [rotated])
qed

lemma power_sort_order:
  assumes "honest fetch" and "fair S" and "power_sort S R rules F fetch = Some (Inr xs)" and "auth_acyclic fetch"
  shows "distinct xs" and "set xs = power_closure R fetch (set F)"
    and "i < length xs \<Longrightarrow> fetch (xs ! i) = Inr ev \<Longrightarrow> y \<in> set (auth_events ev) \<Longrightarrow> y \<in> set F \<Longrightarrow>
      y \<in> set xs \<Longrightarrow> y \<in> set (take i xs)"
proof -
  obtain g levels where g: "entered F fetch g" "set (keys g) = power_closure R fetch (set F)"
    "power_levels_of S R rules fetch g = Inr levels" "topological_sort (power_query fetch levels) g = Some (Inr xs)"
    by (rule power_sort_Inr [OF assms(1-3)])
  have "distinct (keys g)" using g(1) by (simp add: entered_def)
  then have greedy: "greedy_order g (power_query fetch levels) {} xs"
    using topological_sort_correct [of g "power_query fetch levels"] g(4) by auto
  note order = greedy_order_distinct [OF greedy] greedy_order_complete [OF entered_acyclic [OF g(1) assms(4)] greedy]
  show "distinct xs" and set: "set xs = power_closure R fetch (set F)" using order g(2) by auto
  show "y \<in> set (take i xs)" if "i < length xs" "fetch (xs ! i) = Inr ev" "y \<in> set (auth_events ev)" "y \<in> set F"
    "y \<in> set xs"
  proof -
    have "xs ! i \<in> set (keys g)" using that(1) set g(2) by (metis nth_mem)
    then have "y \<in> edges g (xs ! i)" using that set g(2) by (auto simp: edges_def entered_refs [OF g(1)])
    then show ?thesis
      using greedy_order_sorted [OF greedy] that(1) unfolding topologically_sorted_from_iff by auto
  qed
qed

lemma power_sort_schedule:
  assumes "honest fetch" and "fair S" and "fair S'" and "set F' = set F"
    and "power_sort S R rules F fetch = Some (Inr xs)"
  shows "power_sort S' R rules F' fetch = Some (Inr xs)"
proof -
  obtain g levels where g: "entered F fetch g" "set (keys g) = power_closure R fetch (set F)"
    "fetches_clean fetch (set F)"
    "power_levels_of S R rules fetch g = Inr levels" "topological_sort (power_query fetch levels) g = Some (Inr xs)"
    by (rule power_sort_Inr [OF assms(1,2,5)])
  obtain g' where g': "power_graph S' R F' fetch = Some (Inr g')" "entered F' fetch g'"
    "set (keys g') = set (keys g)"
  proof -
    have "\<not> (\<exists>e y. power_graph S' R F' fetch = Some (Inl e) \<and> y \<in> set F' \<and> fetch y = Inl e \<and> \<not> is_not_found e)"
      using g(3) assms(4) unfolding fetches_clean_def by blast
    with power_graph_correct [OF assms(1,3), of R F'] show thesis
      using that g(2) assms(4) by (metis (no_types, lifting))
  qed
  have level: "\<exists>pl ev. power_level_for_sender R rules fetch x = Inr pl \<and> fetch x = Inr ev \<and>
      power_query fetch levels x = Inr (pl, origin_server_ts ev)" if "x \<in> set (keys g)" for x
    by (rule power_query_ok [OF g(1) assms(2) g(4) that])
  obtain levels' where levels': "power_levels_of S' R rules fetch g' = Inr levels'"
  proof (cases "power_levels_of S' R rules fetch g'")
    case (Inl e)
    from rmapM_Inl_E [OF this [unfolded power_levels_of_def]] obtain x
      where x: "x \<in> set (keys g')" "rmap (Pair x) (power_level_for_sender R rules fetch x) = Inl e"
      unfolding set_arrival [OF assms(3)] by blast
    from level [of x] x(1) g'(3) obtain pl where "power_level_for_sender R rules fetch x = Inr pl" by auto
    with x(2) show ?thesis by simp
  qed
  have "topological_sort (power_query fetch levels) g = topological_sort (power_query fetch levels') g'"
  proof (rule topological_sort_cong)
    show "distinct (keys g)" "distinct (keys g')" using g(1) g'(2) by (simp_all add: entered_def)
    show "set (keys g) = set (keys g')" by (simp add: g'(3))
    show "set (refs g x) = set (refs g' x)" for x
      by (simp add: entered_refs [OF g(1)] entered_refs [OF g'(2)] g'(3) assms(4))
    fix x assume x: "x \<in> set (keys g)"
    then have "x \<in> set (keys g')" by (simp add: g'(3))
    from power_query_ok [OF g'(2) assms(3) levels' this] level [OF x]
    show "power_query fetch levels x = power_query fetch levels' x" and "is_ok (power_query fetch levels x)" by auto
  qed
  with g'(1) levels' g(5) show ?thesis by (simp add: power_sort_def)
qed

end
