(* ===== verification/Mainline.thy ===== *)
theory Mainline
  imports Power_Sort Conflicts
begin

text \<open>
  Mainline ordering (\<^verbatim>\<open>state_res/resolve/mainline_sort.rs\<close>). The mainline is the chain of power levels
  events reached from the resolved one through auth events; an event's position is that of the closest
  mainline event on its own chain. Both walks follow auth events and end because the auth relation is well
  founded; \<open>None\<close> stands for a walk that does not end.
\<close>

section \<open>Walking the power levels events\<close>

fun first_power_levels :: "fetch_event \<Rightarrow> event_id list \<Rightarrow> pdu option res" where
  "first_power_levels fetch [] = Inr None"
| "first_power_levels fetch (auth_event_id # ids) =
     rbind (fetch auth_event_id) (\<lambda>auth_event.
     if is_type_and_state_key auth_event m_room_power_levels '''' then Inr (Some auth_event)
     else first_power_levels fetch ids)"

definition get_power_levels_auth_event :: "fetch_event \<Rightarrow> pdu \<Rightarrow> pdu option res" where
  "get_power_levels_auth_event fetch event = first_power_levels fetch (auth_events event)"

partial_function (option) mainline_of :: "fetch_event \<Rightarrow> event_id option \<Rightarrow> (error, event_id list) comp" where
  "mainline_of fetch power_level_event_id = (case power_level_event_id of
     None \<Rightarrow> Some (Inr [])
   | Some eid \<Rightarrow> (case fetch eid of
       Inl e \<Rightarrow> Some (Inl e)
     | Inr event \<Rightarrow> (case get_power_levels_auth_event fetch event of
         Inl e \<Rightarrow> Some (Inl e)
       | Inr next_event \<Rightarrow>
           Option.bind (mainline_of fetch (map_option event_id next_event))
             (\<lambda>rest. Some (rmap ((#) (event_id event)) rest)))))"

declare mainline_of.simps [code]

definition positions_of :: "event_id list \<Rightarrow> (event_id \<times> nat) list" where
  "positions_of mainline = fold (\<lambda>iv. map_insert (snd iv) (fst iv)) (List.enumerate 0 (rev mainline)) []"

partial_function (option) mainline_position ::
  "fetch_event \<Rightarrow> (event_id \<times> nat) list \<Rightarrow> pdu option \<Rightarrow> (error, nat) comp" where
  "mainline_position fetch positions current_event = (case current_event of
     None \<Rightarrow> Some (Inr 0)
   | Some event \<Rightarrow> (case map_of positions (event_id event) of
       Some position \<Rightarrow> Some (Inr (sat_add position 1))
     | None \<Rightarrow> (case get_power_levels_auth_event fetch event of
         Inl e \<Rightarrow> Some (Inl e)
       | Inr next_event \<Rightarrow> mainline_position fetch positions next_event)))"

declare mainline_position.simps [code]

section \<open>Sorting\<close>

type_synonym mainline_item = "event_id \<times> nat \<times> nat"

definition mainline_le :: "mainline_item \<Rightarrow> mainline_item \<Rightarrow> bool" where
  "mainline_le a b \<longleftrightarrow>
     then_cmp (then_cmp (cmp_of (fst (snd a)) (fst (snd b))) (cmp_of (snd (snd a)) (snd (snd b)))) (cmp_of a b)
       \<noteq> Greater"

definition position_event ::
  "fetch_event \<Rightarrow> (event_id \<times> nat) list \<Rightarrow> event_id \<Rightarrow> (error, mainline_item option) comp" where
  "position_event fetch positions eid = (case fetch eid of
     Inl e \<Rightarrow> if is_not_found e then Some (Inr None) else Some (Inl e)
   | Inr event \<Rightarrow> (case mainline_position fetch positions (Some event) of
       None \<Rightarrow> None
     | Some r \<Rightarrow> (case r of
         Inl e \<Rightarrow> if is_not_found e then Some (Inr None) else Some (Inl e)
       | Inr position \<Rightarrow> Some (Inr (Some (eid, (position, origin_server_ts event)))))))"

definition mainline_sort ::
  "schedule \<Rightarrow> event_id option \<Rightarrow> event_id list \<Rightarrow> fetch_event \<Rightarrow> (error, event_id list) comp" where
  "mainline_sort S power_level_event_id events fetch =
     cbind (mainline_of fetch power_level_event_id) (\<lambda>mainline.
     cbind (cmapM (position_event fetch (positions_of mainline)) (arrival S 2 events)) (\<lambda>items.
     Some (Inr (map fst (sort_by mainline_le (List.map_filter (\<lambda>x. x) items))))))"

section \<open>The walks end\<close>

definition auth_wf :: "fetch_event \<Rightarrow> bool" where
  "auth_wf fetch \<longleftrightarrow> wf {(y, x). \<exists>ev. fetch x = Inr ev \<and> y \<in> set (auth_events ev)}"

lemma auth_wf_acyclic: "auth_wf fetch \<Longrightarrow> auth_acyclic fetch"
  by (simp add: auth_wf_def auth_acyclic_def wf_acyclic)

lemma first_power_levels_Some:
  "first_power_levels fetch ids = Inr (Some ev) \<Longrightarrow>
     \<exists>a \<in> set ids. fetch a = Inr ev \<and> is_type_and_state_key ev m_room_power_levels ''''"
  by (induction ids) (auto split: if_splits)

lemma power_levels_parent:
  assumes "honest fetch" and "fetch x = Inr ev" and "get_power_levels_auth_event fetch ev = Inr (Some ev')"
  shows "fetch (event_id ev') = Inr ev'"
    and "(event_id ev', x) \<in> {(y, x). \<exists>ev. fetch x = Inr ev \<and> y \<in> set (auth_events ev)}"
  using first_power_levels_Some [of fetch "auth_events ev" ev'] assms
  by (auto simp: get_power_levels_auth_event_def honest_def)

lemma mainline_of_returns:
  assumes "honest fetch" and "auth_wf fetch"
  shows "\<exists>r. mainline_of fetch pl = Some r"
proof -
  have "\<exists>r. mainline_of fetch (Some x) = Some r" for x
    using assms(2) [unfolded auth_wf_def]
  proof (induction x rule: wf_induct_rule)
    case (less x)
    show ?case
    proof (cases "fetch x")
      case (Inr ev)
      show ?thesis
      proof (cases "get_power_levels_auth_event fetch ev")
        case next_event: (Inr nx)
        show ?thesis
        proof (cases nx)
          case None
          then show ?thesis using Inr next_event by (simp add: mainline_of.simps)
        next
          case (Some ev')
          from power_levels_parent(2) [OF assms(1) Inr] less next_event Some
          obtain r where "mainline_of fetch (Some (event_id ev')) = Some r" by blast
          then show ?thesis using Inr next_event Some by (simp add: mainline_of.simps [of _ "Some x"])
        qed
      qed (use Inr in \<open>simp add: mainline_of.simps\<close>)
    qed (simp add: mainline_of.simps)
  qed
  then show ?thesis by (cases pl) (simp_all add: mainline_of.simps)
qed

lemma mainline_position_returns:
  assumes "honest fetch" and "auth_wf fetch" and "fetch x = Inr ev"
  shows "\<exists>r. mainline_position fetch positions (Some ev) = Some r"
  using assms(2) [unfolded auth_wf_def] assms(3)
proof (induction x arbitrary: ev rule: wf_induct_rule)
  case (less x)
  show ?case
  proof (cases "map_of positions (event_id ev)")
    case None
    show ?thesis
    proof (cases "get_power_levels_auth_event fetch ev")
      case next_event: (Inr nx)
      show ?thesis
      proof (cases nx)
        case None
        then show ?thesis using \<open>map_of positions (event_id ev) = None\<close> next_event
          by (simp add: mainline_position.simps)
      next
        case (Some ev')
        note p = power_levels_parent [OF assms(1) less.prems next_event [unfolded Some]]
        obtain r where "mainline_position fetch positions (Some ev') = Some r" using less.IH [OF p(2,1)] by blast
        then show ?thesis using \<open>map_of positions (event_id ev) = None\<close> next_event Some
          by (simp add: mainline_position.simps [of _ _ "Some ev"])
      qed
    qed (use None in \<open>simp add: mainline_position.simps\<close>)
  qed (simp add: mainline_position.simps)
qed

lemma position_event_returns:
  assumes "honest fetch" and "auth_wf fetch"
  shows "position_event fetch positions x \<noteq> None"
proof (cases "fetch x")
  case (Inr ev)
  with mainline_position_returns [OF assms Inr, of positions] show ?thesis
    by (auto simp: position_event_def split: sum.splits)
qed (simp add: position_event_def)

lemma mainline_sort_returns:
  assumes "honest fetch" and "auth_wf fetch"
  shows "mainline_sort S pl events fetch \<noteq> None"
  unfolding mainline_sort_def
proof (intro cbind_not_None cmapM_not_None position_event_returns assms)
  show "mainline_of fetch pl \<noteq> None" using mainline_of_returns [OF assms] by auto
qed simp

section \<open>The order\<close>

interpretation mainline: total_order mainline_le
proof
  show "mainline_le x y \<or> mainline_le y x" for x y
    by (auto simp: mainline_le_def cmp_of_def then_cmp_def)
  show "mainline_le x z" if "mainline_le x y" "mainline_le y z" for x y z
    using that by (auto simp: mainline_le_def cmp_of_def then_cmp_def split: if_splits)
  show "x = y" if "mainline_le x y" "mainline_le y x" for x y
    using that by (auto simp: mainline_le_def cmp_of_def then_cmp_def split: if_splits)
qed

definition item_key :: "mainline_item \<Rightarrow> nat \<times> nat \<times> event_id" where
  "item_key item = (fst (snd item), snd (snd item), fst item)"

lemma mainline_le_key: "mainline_le a b \<longleftrightarrow> item_key a \<le> item_key b"
  by (cases a; cases b) (auto simp: mainline_le_def item_key_def cmp_of_def then_cmp_def less_eq_prod_def)

definition mainline_key :: "fetch_event \<Rightarrow> (event_id \<times> nat) list \<Rightarrow> event_id \<Rightarrow> (nat \<times> nat \<times> event_id) option" where
  "mainline_key fetch positions x = (case position_event fetch positions x of
     Some (Inr (Some item)) \<Rightarrow> Some (item_key item) | _ \<Rightarrow> None)"

lemma position_event_fst: "position_event fetch positions x = Some (Inr (Some item)) \<Longrightarrow> fst item = x"
  by (auto simp: position_event_def split: sum.splits option.splits if_splits)

lemma positioned_items:
  assumes "list_all2 (\<lambda>x it. position_event fetch positions x = Some (Inr it)) ids items"
  shows "map fst (List.map_filter (\<lambda>x. x) items) = filter (\<lambda>x. mainline_key fetch positions x \<noteq> None) ids"
    and "item \<in> set (List.map_filter (\<lambda>x. x) items) \<Longrightarrow>
      mainline_key fetch positions (fst item) = Some (item_key item)"
  using assms
proof (induction ids items rule: list_all2_induct)
  case (Cons x ids it items)
  { case 1
    show ?case using Cons position_event_fst [of fetch positions x]
      by (cases it) (auto simp: List.map_filter_simps mainline_key_def item_key_def) }
  { case 2
    then show ?case using Cons position_event_fst [of fetch positions x]
      by (cases it) (auto simp: List.map_filter_simps mainline_key_def) }
qed (simp_all add: List.map_filter_simps)

lemma mainline_sort_Inr:
  assumes "mainline_sort S pl events fetch = Some (Inr xs)"
  obtains ml items where "mainline_of fetch pl = Some (Inr ml)"
    and "list_all2 (\<lambda>x it. position_event fetch (positions_of ml) x = Some (Inr it)) (arrival S 2 events) items"
    and "xs = map fst (sort_by mainline_le (List.map_filter (\<lambda>x. x) items))"
  using assms by (auto simp: mainline_sort_def cmapM_Inr_iff)

lemma mainline_sort_spec:
  assumes "fair S" and "mainline_sort S pl events fetch = Some (Inr xs)"
  shows "\<exists>ml. mainline_of fetch pl = Some (Inr ml) \<and>
    mset xs = mset (filter (\<lambda>x. mainline_key fetch (positions_of ml) x \<noteq> None) events) \<and>
    sorted (map (\<lambda>x. the (mainline_key fetch (positions_of ml) x)) xs)"
proof -
  obtain ml items where ml: "mainline_of fetch pl = Some (Inr ml)"
    and items: "list_all2 (\<lambda>x it. position_event fetch (positions_of ml) x = Some (Inr it)) (arrival S 2 events) items"
    and xs: "xs = map fst (sort_by mainline_le (List.map_filter (\<lambda>x. x) items))"
    by (rule mainline_sort_Inr [OF assms(2)])
  let ?its = "List.map_filter (\<lambda>x. x) items" and ?key = "mainline_key fetch (positions_of ml)"
  have "mset xs = mset (map fst ?its)" unfolding xs mset_map by simp
  also have "\<dots> = mset (filter (\<lambda>x. ?key x \<noteq> None) events)"
    unfolding positioned_items(1) [OF items] using assms(1) by (simp add: fair_def)
  finally have m: "mset xs = mset (filter (\<lambda>x. ?key x \<noteq> None) events)" .
  have "map (\<lambda>x. the (?key x)) xs = map item_key (sort_by mainline_le ?its)"
    unfolding xs using positioned_items(2) [OF items] by simp
  moreover have "sorted (map item_key (sort_by mainline_le ?its))"
    using mainline.sorted_sort_by [of ?its] unfolding sorted_map by (simp add: mainline_le_key [abs_def])
  ultimately show ?thesis using ml m by auto
qed

lemma mainline_sort_schedule:
  assumes "fair S" and "fair S'" and "mset events' = mset events"
    and "mainline_sort S pl events fetch = Some (Inr xs)"
  shows "mainline_sort S' pl events' fetch = Some (Inr xs)"
proof -
  obtain ml items where ml: "mainline_of fetch pl = Some (Inr ml)"
    and items: "list_all2 (\<lambda>x it. position_event fetch (positions_of ml) x = Some (Inr it)) (arrival S 2 events) items"
    and xs: "xs = map fst (sort_by mainline_le (List.map_filter (\<lambda>x. x) items))"
    by (rule mainline_sort_Inr [OF assms(4)])
  define f where "f = (\<lambda>x. case position_event fetch (positions_of ml) x of Some (Inr it) \<Rightarrow> it | _ \<Rightarrow> None)"
  have f: "position_event fetch (positions_of ml) x = Some (Inr (f x))" if "x \<in> set events" for x
  proof -
    have "x \<in> set (arrival S 2 events)" using that by (simp add: set_arrival [OF assms(1)])
    with items obtain it where "position_event fetch (positions_of ml) x = Some (Inr it)"
      by (auto simp: in_set_conv_nth list_all2_conv_all_nth)
    then show ?thesis by (simp add: f_def)
  qed
  have "items = map f (arrival S 2 events)"
    using items by (auto simp: list_all2_conv_all_nth f_def intro: nth_equalityI)
  moreover have "list_all2 (\<lambda>x it. position_event fetch (positions_of ml) x = Some (Inr it))
      (arrival S' 2 events') (map f (arrival S' 2 events'))"
  proof -
    have "set (arrival S' 2 events') = set events"
      using assms(3) by (metis set_arrival [OF assms(2)] set_mset_mset)
    then show ?thesis using f by (auto simp: list_all2_map2 list.rel_refl_strong intro: list.rel_refl_strong)
  qed
  moreover have "sort_by mainline_le (List.map_filter (\<lambda>x. x) (map f (arrival S' 2 events'))) =
      sort_by mainline_le (List.map_filter (\<lambda>x. x) (map f (arrival S 2 events)))"
  proof (rule mainline.sort_by_canonical)
    have "mset (List.map_filter (\<lambda>x. x) (map f ys)) =
        image_mset (the \<circ> f) (filter_mset (\<lambda>y. f y \<noteq> None) (mset ys))" for ys
      by (simp add: List.map_filter_def comp_def filter_map flip: mset_filter)
    then show "mset (List.map_filter (\<lambda>x. x) (map f (arrival S' 2 events'))) =
        mset (List.map_filter (\<lambda>x. x) (map f (arrival S 2 events)))"
      using assms(1-3) by (simp add: fair_def)
  qed
  ultimately show ?thesis using ml xs by (auto simp: mainline_sort_def cmapM_Inr_iff intro!: exI [of _ "map f (arrival S' 2 events')"])
qed

end
