(* ===== verification/Mainline_Order.thy ===== *)
theory Mainline_Order
  imports Mainline "HOL-Library.Extended_Nat"
begin

text \<open>
  What the mainline ordering promises, in the terms of the specification and without the walks of the code. The power
  levels event of an event is the first power levels event among its auth events; following it from the resolved power
  levels event gives the mainline \<open>P\<^sub>0, P\<^sub>1, \<dots>\<close>. The mainline index of an event is the least \<open>i\<close> such that \<open>P\<^sub>i\<close> is the event
  or is reached from it, infinite if there is none. Events with a greater index come first, then older ones, then by id.
\<close>

section \<open>The order of the specification\<close>

definition is_power_levels :: "fetch_event \<Rightarrow> event_id \<Rightarrow> bool" where
  "is_power_levels fetch x \<longleftrightarrow> (\<exists>ev. fetch x = Inr ev \<and> is_type_and_state_key ev m_room_power_levels '''')"

definition power_parent :: "fetch_event \<Rightarrow> event_id \<Rightarrow> event_id option" where
  "power_parent fetch x = (case fetch x of Inl _ \<Rightarrow> None | Inr ev \<Rightarrow> find (is_power_levels fetch) (auth_events ev))"

primrec power_ancestor :: "fetch_event \<Rightarrow> nat \<Rightarrow> event_id option \<Rightarrow> event_id option" where
  "power_ancestor fetch 0 x = x"
| "power_ancestor fetch (Suc n) x = power_ancestor fetch n (Option.bind x (power_parent fetch))"

definition mainline_index :: "fetch_event \<Rightarrow> event_id option \<Rightarrow> event_id \<Rightarrow> enat" where
  "mainline_index fetch pl x =
     Inf {enat i |i. \<exists>n z. power_ancestor fetch i pl = Some z \<and> power_ancestor fetch n (Some x) = Some z}"

definition event_ts :: "fetch_event \<Rightarrow> event_id \<Rightarrow> nat" where
  "event_ts fetch x = (case fetch x of Inl _ \<Rightarrow> 0 | Inr ev \<Rightarrow> origin_server_ts ev)"

definition mainline_before :: "fetch_event \<Rightarrow> event_id option \<Rightarrow> event_id \<Rightarrow> event_id \<Rightarrow> bool" where
  "mainline_before fetch pl x y \<longleftrightarrow>
     mainline_index fetch pl y < mainline_index fetch pl x \<or>
     mainline_index fetch pl x = mainline_index fetch pl y \<and> (event_ts fetch x, x) \<le> (event_ts fetch y, y)"

text \<open>An event can be placed if every event that is read on the way to the mainline is there: the auth events up to the
  first power levels event, of each event that is not on the mainline itself.\<close>

definition readable :: "fetch_event \<Rightarrow> event_id \<Rightarrow> bool" where
  "readable fetch x \<longleftrightarrow> (\<exists>ev. fetch x = Inr ev \<and>
     (\<forall>a \<in> set (takeWhile (\<lambda>a. \<not> is_power_levels fetch a) (auth_events ev)). \<exists>e. fetch a = Inr e))"

inductive placed :: "fetch_event \<Rightarrow> event_id option \<Rightarrow> event_id \<Rightarrow> bool" for fetch pl where
  placed_on: "fetch x = Inr ev \<Longrightarrow> power_ancestor fetch i pl = Some x \<Longrightarrow> placed fetch pl x"
| placed_root: "readable fetch x \<Longrightarrow> power_parent fetch x = None \<Longrightarrow> placed fetch pl x"
| placed_walk: "readable fetch x \<Longrightarrow> power_parent fetch x = Some y \<Longrightarrow> placed fetch pl y \<Longrightarrow> placed fetch pl x"

inductive_simps placed_iff: "placed fetch pl x"

section \<open>The walks of the code\<close>

lemma power_ancestor_None [simp]: "power_ancestor fetch n None = None"
  by (induction n) simp_all

lemma power_ancestor_add: "power_ancestor fetch (m + n) x = power_ancestor fetch n (power_ancestor fetch m x)"
  by (induction m arbitrary: x) simp_all

text \<open>Reading the auth events up to the first power levels event.\<close>

lemma first_power_levels_parent:
  assumes "honest fetch"
  shows "first_power_levels fetch ids = Inr r \<Longrightarrow> find (is_power_levels fetch) ids = map_option event_id r"
    and "(\<exists>r. first_power_levels fetch ids = Inr r) \<longleftrightarrow>
      (\<forall>a \<in> set (takeWhile (\<lambda>a. \<not> is_power_levels fetch a) ids). \<exists>e. fetch a = Inr e)"
proof (induction ids)
  case (Cons a ids)
  { case 1
    show ?case
    proof (cases "fetch a")
      case (Inr ev)
      then show ?thesis using 1 Cons assms by (auto simp: is_power_levels_def honest_def split: if_splits)
    qed (use 1 in simp) }
  { case 2
    show ?case
    proof (cases "fetch a")
      case (Inr ev)
      then have "is_power_levels fetch a \<longleftrightarrow> is_type_and_state_key ev m_room_power_levels ''''" by (simp add: is_power_levels_def)
      then show ?thesis using Inr Cons.IH(2) by (cases "is_type_and_state_key ev m_room_power_levels ''''") simp_all
    qed (simp add: is_power_levels_def) }
qed simp_all

lemma power_levels_of_event:
  assumes "honest fetch" and "fetch x = Inr ev"
  shows "get_power_levels_auth_event fetch ev = Inr r \<Longrightarrow> power_parent fetch x = map_option event_id r"
    and "readable fetch x \<longleftrightarrow> (\<exists>r. get_power_levels_auth_event fetch ev = Inr r)"
  using first_power_levels_parent [OF assms(1), of "auth_events ev"] assms(2)
  by (simp_all add: get_power_levels_auth_event_def power_parent_def readable_def)

text \<open>The mainline is the list of the ancestors of the power levels event, and repeats none.\<close>

lemma mainline_of_Some:
  "mainline_of fetch (Some y) = Some (Inr ml) \<longleftrightarrow> (\<exists>ev r rest. fetch y = Inr ev \<and> get_power_levels_auth_event fetch ev = Inr r \<and>
     mainline_of fetch (map_option event_id r) = Some (Inr rest) \<and> ml = event_id ev # rest)"
  by (subst mainline_of.simps) (auto simp: bind_eq_Some_conv split: sum.splits)

lemma mainline_of_None [simp]: "mainline_of fetch None = Some (Inr [])"
  by (simp add: mainline_of.simps)

lemma mainline_of_ancestors:
  assumes "honest fetch"
  shows "mainline_of fetch pl = Some (Inr ml) \<Longrightarrow> power_ancestor fetch i pl = (if i < length ml then Some (ml ! i) else None)"
proof (induction ml arbitrary: pl i)
  case Nil
  then have "pl = None"
    by (cases pl) (simp_all add: mainline_of_Some)
  then show ?case by simp
next
  case (Cons x ml)
  then obtain y ev r where pl: "pl = Some y" and ev: "fetch y = Inr ev" and r: "get_power_levels_auth_event fetch ev = Inr r"
      and ml: "mainline_of fetch (map_option event_id r) = Some (Inr ml)" and x: "x = event_id ev"
    by (cases pl) (auto simp: mainline_of_Some)
  have "x = y" using assms ev x by (auto simp: honest_def)
  moreover have "power_parent fetch y = map_option event_id r" using power_levels_of_event(1) [OF assms ev r] .
  ultimately show ?case using Cons.IH [OF ml] pl by (cases i) simp_all
qed

lemma mainline_of_below:
  assumes "honest fetch"
  shows "mainline_of fetch (Some x) = Some (Inr ml) \<Longrightarrow> \<exists>rest. ml = x # rest \<and>
    (\<forall>z \<in> set rest. (z, x) \<in> {(y, x). \<exists>ev. fetch x = Inr ev \<and> y \<in> set (auth_events ev)}\<^sup>+)"
proof (induction ml arbitrary: x)
  case (Cons a ml)
  let ?r = "{(y, x). \<exists>ev. fetch x = Inr ev \<and> y \<in> set (auth_events ev)}"
  obtain ev r where ev: "fetch x = Inr ev" and r: "get_power_levels_auth_event fetch ev = Inr r"
      and ml: "mainline_of fetch (map_option event_id r) = Some (Inr ml)" and a: "a = event_id ev"
    using Cons.prems by (auto simp: mainline_of_Some)
  have "a = x" using ev a assms by (simp add: honest_def)
  moreover have "\<forall>z \<in> set ml. (z, x) \<in> ?r\<^sup>+"
  proof (cases r)
    case (Some ev')
    note p = power_levels_parent(2) [OF assms ev r [unfolded Some]]
    have "mainline_of fetch (Some (event_id ev')) = Some (Inr ml)" using ml Some by simp
    then obtain rest where "ml = event_id ev' # rest" and below: "\<forall>z \<in> set rest. (z, event_id ev') \<in> ?r\<^sup>+"
      using Cons.IH by blast
    have "(z, x) \<in> ?r\<^sup>+" if "z \<in> set rest" for z
      using trancl_into_trancl [OF bspec [OF below that] p] .
    then show ?thesis using r_into_trancl [OF p] \<open>ml = event_id ev' # rest\<close> by simp
  qed (use ml in simp)
  ultimately show ?case by blast
qed (simp add: mainline_of_Some)

lemma mainline_of_distinct:
  assumes "honest fetch" and "auth_wf fetch"
  shows "mainline_of fetch pl = Some (Inr ml) \<Longrightarrow> distinct ml"
proof (induction ml arbitrary: pl)
  case (Cons x ml)
  then obtain y where pl: "pl = Some y" by (cases pl) auto
  from mainline_of_below [OF assms(1) Cons.prems [unfolded pl]]
  have "x = y" and below: "\<forall>z \<in> set ml. (z, y) \<in> {(y, x). \<exists>ev. fetch x = Inr ev \<and> y \<in> set (auth_events ev)}\<^sup>+" by simp_all
  moreover have "(y, y) \<notin> {(y, x). \<exists>ev. fetch x = Inr ev \<and> y \<in> set (auth_events ev)}\<^sup>+"
    using wf_not_refl [OF wf_trancl [OF assms(2) [unfolded auth_wf_def]]] .
  ultimately have "x \<notin> set ml" by blast
  moreover obtain r :: "pdu option" where "mainline_of fetch (map_option event_id r) = Some (Inr ml)"
    using Cons.prems unfolding pl mainline_of_Some by auto
  ultimately show ?case using Cons.IH by simp
qed simp

section \<open>Positions\<close>

lemma enumerated_positions:
  "distinct xs \<Longrightarrow> map_of (fold (\<lambda>iv. map_insert (snd iv) (fst iv)) (List.enumerate n xs) acc) z = Some p \<longleftrightarrow>
     n \<le> p \<and> p < n + length xs \<and> xs ! (p - n) = z \<or> z \<notin> set xs \<and> map_of acc z = Some p"
proof (induction xs arbitrary: n acc)
  case (Cons x xs)
  have "n \<le> p \<and> p < n + length (x # xs) \<and> (x # xs) ! (p - n) = z \<longleftrightarrow>
      p = n \<and> z = x \<or> Suc n \<le> p \<and> p < Suc n + length xs \<and> xs ! (p - Suc n) = z"
    by (cases "p = n") (auto simp: nth_Cons' diff_Suc split: nat.splits)
  then show ?case using Cons by auto
qed auto

lemma positions_of_Some:
  assumes "distinct ml"
  shows "map_of (positions_of ml) z = Some p \<longleftrightarrow> p < length ml \<and> ml ! (length ml - Suc p) = z"
  unfolding positions_of_def using enumerated_positions [of "rev ml" 0 "[]" z p] assms by (auto simp: rev_nth)

lemma mainline_index_on:
  assumes "honest fetch" and "auth_wf fetch" and "mainline_of fetch pl = Some (Inr ml)" and "i < length ml"
  shows "mainline_index fetch pl (ml ! i) = enat i"
  unfolding mainline_index_def
proof (rule Inf_eqI)
  note anc = mainline_of_ancestors [OF assms(1,3)]
  show "enat i \<le> k" if "k \<in> {enat j |j. \<exists>n z. power_ancestor fetch j pl = Some z \<and> power_ancestor fetch n (Some (ml ! i)) = Some z}" for k
  proof -
    from that obtain j n z where k: "k = enat j" and z: "power_ancestor fetch j pl = Some z" "power_ancestor fetch n (Some (ml ! i)) = Some z"
      by blast
    have "power_ancestor fetch (i + n) pl = Some z" using z(2) assms(4) by (simp add: power_ancestor_add anc)
    then have "ml ! (i + n) = ml ! j" "i + n < length ml" "j < length ml" using z(1) by (auto simp: anc split: if_splits)
    then show ?thesis using mainline_of_distinct [OF assms(1-3)] k by (simp add: nth_eq_iff_index_eq)
  qed
  have "power_ancestor fetch i pl = Some (ml ! i)" "power_ancestor fetch 0 (Some (ml ! i)) = Some (ml ! i)"
    using assms(4) by (simp_all add: anc)
  then show "k \<le> enat i" if "\<And>l. l \<in> {enat j |j. \<exists>n z. power_ancestor fetch j pl = Some z \<and>
      power_ancestor fetch n (Some (ml ! i)) = Some z} \<Longrightarrow> k \<le> l" for k
    by (intro that) blast
qed

lemma mainline_index_off:
  assumes "honest fetch" and "mainline_of fetch pl = Some (Inr ml)" and "x \<notin> set ml"
  shows "mainline_index fetch pl x = (case power_parent fetch x of None \<Rightarrow> \<infinity> | Some y \<Rightarrow> mainline_index fetch pl y)"
proof -
  have no: "power_ancestor fetch i pl \<noteq> Some x" for i
    using assms(3) by (auto simp: mainline_of_ancestors [OF assms(1,2)])
  have step: "(\<exists>n z. power_ancestor fetch i pl = Some z \<and> power_ancestor fetch n (Some x) = Some z) \<longleftrightarrow>
      (\<exists>n z. power_ancestor fetch i pl = Some z \<and> power_ancestor fetch n (power_parent fetch x) = Some z)" for i
  proof
    assume "\<exists>n z. power_ancestor fetch i pl = Some z \<and> power_ancestor fetch n (Some x) = Some z"
    then obtain n z where z: "power_ancestor fetch i pl = Some z" "power_ancestor fetch n (Some x) = Some z" by blast
    then obtain n' where "n = Suc n'" using no by (cases n) auto
    then show "\<exists>n z. power_ancestor fetch i pl = Some z \<and> power_ancestor fetch n (power_parent fetch x) = Some z"
      using z by auto
  next
    assume "\<exists>n z. power_ancestor fetch i pl = Some z \<and> power_ancestor fetch n (power_parent fetch x) = Some z"
    then obtain n z where "power_ancestor fetch i pl = Some z" "power_ancestor fetch (Suc n) (Some x) = Some z" by auto
    then show "\<exists>n z. power_ancestor fetch i pl = Some z \<and> power_ancestor fetch n (Some x) = Some z" by blast
  qed
  show ?thesis unfolding mainline_index_def step by (cases "power_parent fetch x") (simp_all add: top_enat_def)
qed

text \<open>The position the walk of the code finds: counted from the oldest event of the mainline, from \<open>1\<close>, and \<open>0\<close> if the
  walk does not meet the mainline.\<close>

definition position_is :: "fetch_event \<Rightarrow> event_id option \<Rightarrow> nat \<Rightarrow> event_id \<Rightarrow> nat \<Rightarrow> bool" where
  "position_is fetch pl len x p \<longleftrightarrow> p \<le> len \<and> mainline_index fetch pl x = (if p = 0 then \<infinity> else enat (len - p))"

lemma mainline_position_spec:
  assumes "honest fetch" and "auth_wf fetch" and ml: "mainline_of fetch pl = Some (Inr ml)" and "length ml \<le> usize_max"
    and "fetch x = Inr ev" and "mainline_position fetch (positions_of ml) (Some ev) = Some r"
  shows "(placed fetch pl x \<longleftrightarrow> (\<exists>p. r = Inr p)) \<and> (\<forall>p. r = Inr p \<longrightarrow> position_is fetch pl (length ml) x p)"
  using assms(2) [unfolded auth_wf_def] assms(5,6)
proof (induction x arbitrary: ev rule: wf_induct_rule)
  case (less x)
  note anc = mainline_of_ancestors [OF assms(1) ml]
  have x: "event_id ev = x" using assms(1) less.prems(1) by (simp add: honest_def)
  have on: "placed fetch pl x" if "x \<in> set ml"
    using that less.prems(1) by (auto simp: in_set_conv_nth anc intro: placed_on)
  note pos = positions_of_Some [OF mainline_of_distinct [OF assms(1,2) ml], of x]
  show ?case
  proof (cases "map_of (positions_of ml) x")
    case (Some q)
    then have q: "q < length ml" "ml ! (length ml - Suc q) = x" by (simp_all add: pos)
    have "r = Inr (Suc q)"
      using less.prems(2) Some q(1) assms(4) x by (simp add: mainline_position.simps [of _ _ "Some ev"] sat_add_def)
    moreover have "x \<in> set ml" using q by (metis diff_less length_greater_0_conv list.size(3) not_less_zero nth_mem zero_less_Suc)
    moreover have "position_is fetch pl (length ml) x (Suc q)"
      using mainline_index_on [OF assms(1-2) ml, of "length ml - Suc q"] q by (simp add: position_is_def)
    ultimately show ?thesis using on by auto
  next
    case None
    have off: "x \<notin> set ml"
    proof
      assume "x \<in> set ml"
      then obtain i where "i < length ml" "ml ! i = x" by (auto simp: in_set_conv_nth)
      then show False using None pos [of "length ml - Suc i"] by simp
    qed
    then have no: "power_ancestor fetch i pl \<noteq> Some x" for i by (auto simp: anc)
    note idx = mainline_index_off [OF assms(1) ml off] and par = power_levels_of_event [OF assms(1) less.prems(1)]
    show ?thesis
    proof (cases "get_power_levels_auth_event fetch ev")
      case (Inl e)
      then have "\<not> readable fetch x" "r = Inl e" using par(2) less.prems(2) None x by (auto simp: mainline_position.simps [of _ _ "Some ev"])
      then show ?thesis using no by (auto simp: placed_iff [of fetch pl x])
    next
      case (Inr nx)
      then have rd: "readable fetch x" and p: "power_parent fetch x = map_option event_id nx" using par by auto
      have run: "mainline_position fetch (positions_of ml) nx = Some r"
        using less.prems(2) None Inr x by (simp add: mainline_position.simps [of _ _ "Some ev"])
      show ?thesis
      proof (cases nx)
        case None
        then have "r = Inr 0" using run by (simp add: mainline_position.simps)
        then show ?thesis using None p rd idx by (auto simp: position_is_def intro: placed_root)
      next
        case (Some ev')
        note y = power_levels_parent [OF assms(1) less.prems(1) Inr [unfolded Some]]
        have "placed fetch pl x \<longleftrightarrow> placed fetch pl (event_id ev')"
          using no p rd Some by (auto simp: placed_iff [of fetch pl x])
        then show ?thesis using less.IH [OF y(2,1) run [unfolded Some]] idx p Some by (simp add: position_is_def)
      qed
    qed
  qed
qed

section \<open>The sort\<close>

lemma position_event_spec:
  assumes "honest fetch" and "auth_wf fetch" and "mainline_of fetch pl = Some (Inr ml)" and "length ml \<le> usize_max"
    and "position_event fetch (positions_of ml) x = Some (Inr it)"
  shows "it \<noteq> None \<longleftrightarrow> placed fetch pl x"
    and "it = Some item \<Longrightarrow> \<exists>p. item_key item = (p, event_ts fetch x, x) \<and> position_is fetch pl (length ml) x p"
proof -
  have "(it \<noteq> None \<longleftrightarrow> placed fetch pl x) \<and>
      (\<forall>item. it = Some item \<longrightarrow> (\<exists>p. item_key item = (p, event_ts fetch x, x) \<and> position_is fetch pl (length ml) x p))"
  proof (cases "fetch x")
    case (Inl e)
    then have "it = None" using assms(5) by (simp add: position_event_def split: if_splits)
    moreover have "\<not> placed fetch pl x" using Inl by (auto simp: placed_iff [of fetch pl x] readable_def)
    ultimately show ?thesis by simp
  next
    case (Inr ev)
    then obtain r where r: "mainline_position fetch (positions_of ml) (Some ev) = Some r"
      using assms(5) by (auto simp: position_event_def split: option.splits)
    from mainline_position_spec [OF assms(1-4) Inr r] show ?thesis
      using assms(5) Inr r by (cases r) (auto simp: position_event_def item_key_def event_ts_def split: if_splits)
  qed
  then show "it \<noteq> None \<longleftrightarrow> placed fetch pl x"
    and "it = Some item \<Longrightarrow> \<exists>p. item_key item = (p, event_ts fetch x, x) \<and> position_is fetch pl (length ml) x p" by blast+
qed

lemma position_order:
  assumes "position_is fetch pl len x p" and "position_is fetch pl len y q" and "(p, event_ts fetch x, x) \<le> (q, event_ts fetch y, y)"
  shows "mainline_before fetch pl x y"
proof (cases "p = q")
  case True
  then show ?thesis using assms by (auto simp: mainline_before_def position_is_def)
next
  case False
  then have "p < q" using assms(3) by auto
  then have "mainline_index fetch pl y < mainline_index fetch pl x" using assms(1,2) by (auto simp: position_is_def)
  then show ?thesis by (simp add: mainline_before_def)
qed

lemma mainline_sort_order:
  assumes "honest fetch" and "auth_wf fetch" and "fair S" and "power_ancestor fetch usize_max pl = None"
    and "mainline_sort S pl events fetch = Some (Inr xs)"
  shows "mset xs = filter_mset (placed fetch pl) (mset events)" and "sorted_wrt (mainline_before fetch pl) xs"
proof -
  obtain ml items where ml: "mainline_of fetch pl = Some (Inr ml)"
    and items: "list_all2 (\<lambda>x it. position_event fetch (positions_of ml) x = Some (Inr it)) (arrival S 2 events) items"
    by (rule mainline_sort_Inr [OF assms(5)])
  have len: "length ml \<le> usize_max"
    using assms(4) mainline_of_ancestors [OF assms(1) ml, of usize_max] by (simp split: if_splits)
  let ?key = "mainline_key fetch (positions_of ml)"
  have key: "(?key x \<noteq> None \<longleftrightarrow> placed fetch pl x) \<and>
      (?key x \<noteq> None \<longrightarrow> (\<exists>p. the (?key x) = (p, event_ts fetch x, x) \<and> position_is fetch pl (length ml) x p))"
    if x: "x \<in> set events" for x
  proof -
    have "x \<in> set (arrival S 2 events)" using x set_arrival [OF assms(3)] by simp
    then obtain i where "i < length (arrival S 2 events)" "arrival S 2 events ! i = x" by (auto simp: in_set_conv_nth)
    then have it: "position_event fetch (positions_of ml) x = Some (Inr (items ! i))" using list_all2_nthD [OF items] by blast
    show ?thesis
    proof (cases "items ! i")
      case None
      then show ?thesis using position_event_spec(1) [OF assms(1,2) ml len it] it by (simp add: mainline_key_def)
    next
      case (Some item)
      then have "?key x = Some (item_key item)" using it by (simp add: mainline_key_def)
      then show ?thesis using position_event_spec [OF assms(1,2) ml len it] Some by (simp del: not_None_eq)
    qed
  qed
  have m: "mset xs = mset (filter (\<lambda>x. ?key x \<noteq> None) events)" and s: "sorted (map (\<lambda>x. the (?key x)) xs)"
    using mainline_sort_spec [OF assms(3,5)] unfolding ml option.inject sum.inject(2) by blast+
  have "filter (\<lambda>x. ?key x \<noteq> None) events = filter (placed fetch pl) events" using key by (intro filter_cong) auto
  then show "mset xs = filter_mset (placed fetch pl) (mset events)" using m by (simp add: mset_filter)
  have xs: "x \<in> set events \<and> ?key x \<noteq> None" if "x \<in> set xs" for x
    using mset_eq_setD [OF m] that by auto
  show "sorted_wrt (mainline_before fetch pl) xs"
  proof (rule sorted_wrt_mono_rel [of _ "\<lambda>x y. the (?key x) \<le> the (?key y)"])
    show "mainline_before fetch pl x y" if xy: "x \<in> set xs" "y \<in> set xs" "the (?key x) \<le> the (?key y)" for x y
    proof -
      obtain p where p: "the (?key x) = (p, event_ts fetch x, x)" "position_is fetch pl (length ml) x p"
        using key [of x] xs [OF xy(1)] by blast
      obtain q where q: "the (?key y) = (q, event_ts fetch y, y)" "position_is fetch pl (length ml) y q"
        using key [of y] xs [OF xy(2)] by blast
      show ?thesis by (rule position_order [OF p(2) q(2)]) (use xy(3) p(1) q(1) in simp)
    qed
    show "sorted_wrt (\<lambda>x y. the (?key x) \<le> the (?key y)) xs" using s by (simp add: sorted_map)
  qed
qed

end
