(* ===== verification/Iterative_Auth.thy ===== *)
theory Iterative_Auth
  imports Event_Auth Conflicts
begin

text \<open>
  The iterative auth checks of state resolution (\<^verbatim>\<open>state_res/resolve/iterative_auth_check.rs\<close>): a sorted list
  of state events is applied to a state map, each event being checked against the map built so far and,
  where the map has no entry, against the event's own auth events. A stream of results is a list of
  results; the order of ruma's \<^verbatim>\<open>StateEventType\<close> is the parameter \<open>state_event_type_cmp\<close>.
\<close>

section \<open>Definitions\<close>

definition fetch_known_event :: "fetch_event \<Rightarrow> event_id \<Rightarrow> pdu res option" where
  "fetch_known_event fetch eid = (case fetch eid of
     Inr e \<Rightarrow> Some (Inr e)
   | Inl err \<Rightarrow> if is_not_found err then None else Some (Inl err))"

definition auth_type_event ::
  "state_map \<Rightarrow> fetch_event \<Rightarrow> type_state_key \<Rightarrow> (type_state_key \<times> pdu) res option" where
  "auth_type_event st fetch key = (case map_of st key of
     None \<Rightarrow> None
   | Some eid \<Rightarrow> (case fetch_known_event fetch eid of
       None \<Rightarrow> None
     | Some (Inl err) \<Rightarrow> Some (Inl err)
     | Some (Inr auth_event) \<Rightarrow> if \<not> rejected auth_event then Some (Inr (key, auth_event)) else None))"

definition auth_types_events ::
  "state_map \<Rightarrow> fetch_event \<Rightarrow> type_state_key list \<Rightarrow> (type_state_key \<times> pdu) res list" where
  "auth_types_events st fetch auth_types = List.map_filter (auth_type_event st fetch) auth_types"

definition also_create_id :: "ruma \<Rightarrow> room_version_rules \<Rightarrow> pdu \<Rightarrow> event_id option" where
  "also_create_id R rules ev =
     (if event_type ev \<noteq> m_room_create \<and> room_create_event_id_as_room_id (authorization rules)
      then room_as_event_id R (room_id ev) else None)"

definition option_list :: "'a option \<Rightarrow> 'a list" where
  "option_list x = (case x of None \<Rightarrow> [] | Some y \<Rightarrow> [y])"

definition own_auth_event :: "fetch_event \<Rightarrow> event_id \<Rightarrow> (type_state_key \<times> pdu) res option" where
  "own_auth_event fetch eid = (case fetch_known_event fetch eid of
     None \<Rightarrow> None
   | Some (Inl err) \<Rightarrow> Some (Inl err)
   | Some (Inr auth_event) \<Rightarrow> (case state_key auth_event of
       None \<Rightarrow> Some (Inl (request InvalidParam ''Missing state_key''))
     | Some k \<Rightarrow>
         if \<not> rejected auth_event then Some (Inr ((event_type auth_event, k), auth_event)) else None))"

definition own_auth_events ::
  "ruma \<Rightarrow> room_version_rules \<Rightarrow> fetch_event \<Rightarrow> pdu \<Rightarrow> (type_state_key \<times> pdu) res list" where
  "own_auth_events R rules fetch ev = List.map_filter (own_auth_event fetch)
     (auth_events ev @ option_list (also_create_id R rules ev))"

definition type_key_cmp :: "ruma \<Rightarrow> type_state_key \<Rightarrow> type_state_key \<Rightarrow> ordering" where
  "type_key_cmp R = pair_cmp (state_event_type_cmp R) cmp_of"

definition collect_auth_events ::
  "ruma \<Rightarrow> room_version_rules \<Rightarrow> fetch_event \<Rightarrow> pdu \<Rightarrow> state_map \<Rightarrow> type_state_key list \<Rightarrow>
   (type_state_key \<times> pdu) list res" where
  "collect_auth_events R rules fetch ev st auth_types =
     rmap (build_table (type_key_cmp R))
       (rmapM (\<lambda>x. x) (own_auth_events R rules fetch ev @ auth_types_events st fetch auth_types))"

definition table_fetch_state :: "ruma \<Rightarrow> (type_state_key \<times> pdu) list \<Rightarrow> fetch_state" where
  "table_fetch_state R table ty key =
     ok_or (request NotFound ''Missing auth_event {ty:?},{key:?}'')
       (search_table (type_key_cmp R) table (ty, key))"

definition iterative_step ::
  "ruma \<Rightarrow> room_version_rules \<Rightarrow> fetch_event \<Rightarrow> state_map \<Rightarrow> event_id \<Rightarrow> string \<Rightarrow> pdu \<Rightarrow> state_map res" where
  "iterative_step R rules fetch st eid sk ev =
     (case auth_types_for_event R (authorization rules) (event_type ev) (sender ev) (Some sk) (content ev) True of
        Inl _ \<Rightarrow> Inr st
      | Inr auth_types \<Rightarrow>
        rbind (collect_auth_events R rules fetch ev st auth_types) (\<lambda>table.
        rbind (case check_state_dependent_auth_rules R rules ev (table_fetch_state R table) of
                 Inr _ \<Rightarrow> Inr Allow
               | Inl err \<Rightarrow> classify_auth_error err) (\<lambda>outcome.
        case outcome of
          Allow \<Rightarrow> Inr (map_insert (event_type ev, sk) eid st)
        | Deny _ \<Rightarrow> Inr st)))"

definition iterative_event ::
  "ruma \<Rightarrow> room_version_rules \<Rightarrow> fetch_event \<Rightarrow> state_map \<Rightarrow> event_id \<Rightarrow> state_map res" where
  "iterative_event R rules fetch st eid =
     rbind (fetch eid) (\<lambda>ev. case state_key ev of
       None \<Rightarrow> Inr st
     | Some sk \<Rightarrow> iterative_step R rules fetch st eid sk ev)"

definition iterative_auth_check ::
  "ruma \<Rightarrow> room_version_rules \<Rightarrow> event_id list \<Rightarrow> state_map \<Rightarrow> fetch_event \<Rightarrow> state_map res" where
  "iterative_auth_check R rules events st fetch = rfoldM (iterative_event R rules fetch) st events"

section \<open>What an event is checked against\<close>

text \<open>An event that is known and not rejected.\<close>

definition usable :: "fetch_event \<Rightarrow> event_id \<Rightarrow> pdu option" where
  "usable fetch eid = (case fetch eid of Inr e \<Rightarrow> if rejected e then None else Some e | Inl _ \<Rightarrow> None)"

text \<open>A room state as a partial function, however the code lays it out.\<close>

type_synonym room_state = "type_state_key \<rightharpoonup> event_id"

definition state_entry :: "room_state \<Rightarrow> fetch_event \<Rightarrow> type_state_key list \<Rightarrow> type_state_key \<Rightarrow> pdu option" where
  "state_entry st fetch auth_types key =
     (if key \<in> set auth_types then Option.bind (st key) (usable fetch) else None)"

definition auth_entry :: "ruma \<Rightarrow> room_version_rules \<Rightarrow> fetch_event \<Rightarrow> pdu \<Rightarrow> type_state_key \<Rightarrow> pdu option" where
  "auth_entry R rules fetch ev key =
     find (\<lambda>e. is_type_and_state_key e (fst key) (snd key))
       (rev (List.map_filter (usable fetch) (auth_events ev @ option_list (also_create_id R rules ev))))"

text \<open>The state map comes first, then the event's own auth events.\<close>

definition resolution_view ::
  "ruma \<Rightarrow> room_version_rules \<Rightarrow> fetch_event \<Rightarrow> pdu \<Rightarrow> room_state \<Rightarrow> type_state_key list \<Rightarrow> fetch_state" where
  "resolution_view R rules fetch ev st auth_types ty key =
     (case state_entry st fetch auth_types (ty, key) of
        Some e \<Rightarrow> Inr e
      | None \<Rightarrow> ok_or (request NotFound ''Missing auth_event {ty:?},{key:?}'')
          (auth_entry R rules fetch ev (ty, key)))"

definition permitted ::
  "ruma \<Rightarrow> room_version_rules \<Rightarrow> fetch_event \<Rightarrow> room_state \<Rightarrow> pdu \<Rightarrow> bool" where
  "permitted R rules fetch st ev \<longleftrightarrow> (\<exists>auth_types.
     auth_types_for_event R (authorization rules) (event_type ev) (sender ev) (state_key ev) (content ev) True
       = Inr auth_types \<and>
     check_state_dependent_auth_rules R rules ev (resolution_view R rules fetch ev st auth_types) = Inr ())"

lemma in_map_filter: "y \<in> set (List.map_filter f xs) \<longleftrightarrow> (\<exists>x\<in>set xs. f x = Some y)"
  by (induction xs) (auto simp: List.map_filter_simps split: option.splits)

lemma map_filter_cong: "(\<And>x. x \<in> set xs \<Longrightarrow> f x = g x) \<Longrightarrow> List.map_filter f xs = List.map_filter g xs"
  by (induction xs) (auto simp: List.map_filter_simps split: option.splits)

lemma map_filter_map_option:
  "List.map_filter (\<lambda>x. map_option g (f x)) xs = map g (List.map_filter f xs)"
  by (induction xs) (auto simp: List.map_filter_simps split: option.splits)

lemma rmapM_id: "rmapM (\<lambda>x. x) xs = Inr ys \<longleftrightarrow> xs = map Inr ys"
  by (induction xs arbitrary: ys) auto

text \<open>A stream of results without an error: every item is what the selection \<open>f\<close> gives.\<close>

lemma map_filter_Inr:
  assumes "List.map_filter g xs = map Inr ys"
    and "\<And>x. (\<forall>e. g x \<noteq> Some (Inl e)) \<Longrightarrow> g x = map_option Inr (f x)"
  shows "ys = List.map_filter f xs"
proof -
  have "g x \<noteq> Some (Inl e)" if "x \<in> set xs" for x e
  proof
    assume "g x = Some (Inl e)"
    then have "Inl e \<in> set (List.map_filter g xs)" using that in_map_filter by fast
    then show False using assms(1) by auto
  qed
  then have "List.map_filter g xs = List.map_filter (\<lambda>x. map_option Inr (f x)) xs"
    using assms(2) by (intro map_filter_cong) blast
  then show ?thesis unfolding map_filter_map_option assms(1) by (simp add: inj_map_eq_map)
qed

lemma map_of_function:
  assumes "\<And>k v. (k, v) \<in> set l \<longleftrightarrow> k \<in> A \<and> f k = Some v"
  shows "map_of l k = (if k \<in> A then f k else None)"
proof (cases "map_of l k")
  case None
  then have "\<nexists>v. (k, v) \<in> set l" by (auto simp: map_of_eq_None_iff image_iff)
  with None show ?thesis using assms by (cases "f k") auto
next
  case (Some v)
  then show ?thesis using assms map_of_SomeD by fastforce
qed

lemma state_entries:
  assumes "auth_types_events st fetch auth_types = map Inr ys"
  shows "map_of (rev ys) key = state_entry (map_of st) fetch auth_types key"
proof -
  let ?entry = "\<lambda>k. Option.bind (map_of st k) (usable fetch)"
  have ys: "ys = List.map_filter (\<lambda>k. map_option (Pair k) (?entry k)) auth_types"
    by (rule map_filter_Inr [OF assms [unfolded auth_types_events_def]])
      (auto simp: auth_type_event_def usable_def fetch_known_event_def split: option.splits sum.splits if_splits)
  have "(k, e) \<in> set (rev ys) \<longleftrightarrow> k \<in> set auth_types \<and> ?entry k = Some e" for k e
    unfolding ys set_rev in_map_filter map_option_eq_Some by blast
  then show ?thesis unfolding state_entry_def by (rule map_of_function)
qed

lemma map_filter_append: "List.map_filter f (xs @ ys) = List.map_filter f xs @ List.map_filter f ys"
  by (simp add: List.map_filter_def)

lemma auth_entries:
  assumes "own_auth_events R rules fetch ev = map Inr ys"
  shows "map_of (rev ys) key = auth_entry R rules fetch ev key"
proof -
  let ?ids = "auth_events ev @ option_list (also_create_id R rules ev)"
  let ?f = "\<lambda>eid. Option.bind (usable fetch eid) (\<lambda>e. map_option (\<lambda>s. ((event_type e, s), e)) (state_key e))"
  have ys: "ys = List.map_filter ?f ?ids"
    by (rule map_filter_Inr [OF assms [unfolded own_auth_events_def]])
      (auto simp: own_auth_event_def usable_def fetch_known_event_def split: option.splits sum.splits if_splits)
  have "map_of (rev (List.map_filter ?f ids)) key =
      find (\<lambda>e. is_type_and_state_key e (fst key) (snd key)) (rev (List.map_filter (usable fetch) ids))" for ids
  proof (induction ids rule: rev_induct)
    case (snoc x ids)
    then show ?case
      by (cases "usable fetch x"; cases key)
        (auto simp: map_filter_append List.map_filter_simps is_type_and_state_key_def split: option.splits)
  qed (simp add: List.map_filter_simps)
  then show ?thesis unfolding ys auth_entry_def .
qed

lemma collected_view:
  assumes "lawful_cmp (state_event_type_cmp R)"
    and "collect_auth_events R rules fetch ev st auth_types = Inr table"
  shows "table_fetch_state R table = resolution_view R rules fetch ev (map_of st) auth_types"
proof (intro ext)
  fix ty key
  have cmp: "lawful_cmp (type_key_cmp R)"
    unfolding type_key_cmp_def by (rule lawful_pair_cmp [OF assms(1) lawful_cmp_of])
  obtain zs where zs: "own_auth_events R rules fetch ev @ auth_types_events st fetch auth_types = map Inr zs"
    and table: "table = build_table (type_key_cmp R) zs"
    using assms(2) by (auto simp: collect_auth_events_def rmapM_id)
  obtain xs ys where "zs = xs @ ys" and xs: "own_auth_events R rules fetch ev = map Inr xs"
    and ys: "auth_types_events st fetch auth_types = map Inr ys"
    using zs by (auto simp: append_eq_map_conv)
  then have "search_table (type_key_cmp R) table (ty, key) =
      (map_of (rev xs) ++ map_of (rev ys)) (ty, key)"
    by (simp add: table search_build_table [OF cmp])
  then show "table_fetch_state R table ty key = resolution_view R rules fetch ev (map_of st) auth_types ty key"
    by (simp add: table_fetch_state_def resolution_view_def map_add_def auth_entries [OF xs] state_entries [OF ys]
        ok_or_def split: option.splits)
qed

section \<open>The checks\<close>

lemma rbind_Inr_right: "rbind r Inr = r"
  by (cases r) simp_all

lemma iterative_step_result:
  assumes "lawful_cmp (state_event_type_cmp R)" and "state_key ev = Some sk"
    and "iterative_step R rules fetch st eid sk ev = Inr st'"
  shows "st' = (if permitted R rules fetch (map_of st) ev then map_insert (event_type ev, sk) eid st else st)"
proof (cases "auth_types_for_event R (authorization rules) (event_type ev) (sender ev) (Some sk) (content ev) True")
  case (Inl e)
  then show ?thesis using assms(2,3) by (simp add: iterative_step_def permitted_def)
next
  case (Inr auth_types)
  then obtain table where table: "collect_auth_events R rules fetch ev st auth_types = Inr table"
    using assms(3) by (auto simp: iterative_step_def)
  show ?thesis
    using assms(2,3) Inr table collected_view [OF assms(1) table]
    by (auto simp: iterative_step_def permitted_def split: sum.splits dest: classify_Inr)
qed

text \<open>One event of the list: a state event that is permitted replaces the entry of its key, any other event changes nothing.\<close>

definition apply_event ::
  "ruma \<Rightarrow> room_version_rules \<Rightarrow> fetch_event \<Rightarrow> event_id \<Rightarrow> pdu \<Rightarrow> room_state \<Rightarrow> room_state" where
  "apply_event R rules fetch eid ev st = (case state_key ev of
     None \<Rightarrow> st
   | Some sk \<Rightarrow> if permitted R rules fetch st ev then st((event_type ev, sk) \<mapsto> eid) else st)"

text \<open>The iterative auth checks of the specification: each event of the list is judged against the state that the events
  before it have built.\<close>

inductive auth_run ::
  "ruma \<Rightarrow> room_version_rules \<Rightarrow> fetch_event \<Rightarrow> room_state \<Rightarrow> event_id list \<Rightarrow> room_state \<Rightarrow> bool"
  for R rules fetch where
  auth_run_done: "auth_run R rules fetch st [] st"
| auth_run_next: "fetch eid = Inr ev \<Longrightarrow> auth_run R rules fetch (apply_event R rules fetch eid ev st) ids st' \<Longrightarrow>
    auth_run R rules fetch st (eid # ids) st'"

inductive_simps auth_run_Nil [simp]: "auth_run R rules fetch st [] st'"
inductive_simps auth_run_Cons [simp]: "auth_run R rules fetch st (eid # ids) st'"

lemma iterative_event_result:
  assumes "lawful_cmp (state_event_type_cmp R)" and "iterative_event R rules fetch st eid = Inr st'"
  shows "\<exists>ev. fetch eid = Inr ev \<and> map_of st' = apply_event R rules fetch eid ev (map_of st)"
proof -
  obtain ev where ev: "fetch eid = Inr ev"
    and step: "(case state_key ev of None \<Rightarrow> Inr st | Some sk \<Rightarrow> iterative_step R rules fetch st eid sk ev) = Inr st'"
    using assms(2) by (auto simp: iterative_event_def)
  show ?thesis
  proof (cases "state_key ev")
    case None
    then show ?thesis using ev step by (simp add: apply_event_def)
  next
    case (Some sk)
    then have "iterative_step R rules fetch st eid sk ev = Inr st'" using step by simp
    from iterative_step_result [OF assms(1) Some this] show ?thesis using ev Some by (auto simp: apply_event_def fun_eq_iff)
  qed
qed

lemma iterative_auth_check_Cons [simp]:
  "iterative_auth_check R rules (eid # ids) st fetch =
     rbind (iterative_event R rules fetch st eid) (\<lambda>st'. iterative_auth_check R rules ids st' fetch)"
  "iterative_auth_check R rules [] st fetch = Inr st"
  by (simp_all add: iterative_auth_check_def)

lemma iterative_auth_check_runs:
  assumes "lawful_cmp (state_event_type_cmp R)"
  shows "iterative_auth_check R rules events st fetch = Inr st' \<Longrightarrow> auth_run R rules fetch (map_of st) events (map_of st')"
proof (induction events arbitrary: st)
  case (Cons eid ids)
  then obtain mid where step: "iterative_event R rules fetch st eid = Inr mid"
    and rest: "iterative_auth_check R rules ids mid fetch = Inr st'" by auto
  from iterative_event_result [OF assms step] Cons.IH [OF rest] show ?case by auto
qed simp

text \<open>What such a run leaves: no key is lost, and an entry that is new is an event of the list, of that type and state key,
  permitted in the state the events before it have built.\<close>

lemma auth_run_keeps_keys: "auth_run R rules fetch st events st' \<Longrightarrow> dom st \<subseteq> dom st'"
  by (induction rule: auth_run.induct) (auto simp: apply_event_def split: option.splits if_splits)

lemma auth_run_entries:
  assumes "auth_run R rules fetch st events st'" and "st' key = Some eid"
  shows "st key = Some eid \<or> (\<exists>before after mid ev. events = before @ eid # after \<and> auth_run R rules fetch st before mid \<and>
    fetch eid = Inr ev \<and> is_type_and_state_key ev (fst key) (snd key) \<and> permitted R rules fetch mid ev)"
  using assms
proof (induction rule: auth_run.induct)
  case (auth_run_next x ev st ids st')
  let ?next = "apply_event R rules fetch x ev st"
  from auth_run_next.IH [OF auth_run_next.prems] show ?case
  proof (elim disjE exE conjE)
    assume new: "?next key = Some eid"
    show ?thesis
    proof (cases "st key = Some eid")
      case False
      with new have "eid = x" "is_type_and_state_key ev (fst key) (snd key)" "permitted R rules fetch st ev"
        by (auto simp: apply_event_def is_type_and_state_key_def split: option.splits if_splits)
      then show ?thesis using auth_run_next.hyps(1) by (intro disjI2 exI [of _ "[]"] exI [of _ ids] exI) simp
    qed simp
  next
    fix before after mid ev'
    assume "ids = before @ eid # after" "auth_run R rules fetch ?next before mid" "fetch eid = Inr ev'"
      "is_type_and_state_key ev' (fst key) (snd key)" "permitted R rules fetch mid ev'"
    then show ?thesis using auth_run_next.hyps(1)
      by (intro disjI2 exI [of _ "x # before"] exI [of _ after] exI [of _ mid] exI [of _ ev']) simp
  qed
qed simp

text \<open>The checks read the state only through its lookups: how a hash map is laid out does not matter.\<close>

lemma iterative_event_cong:
  assumes "map_of st = map_of st'"
  shows "rel_sum (=) (\<lambda>a b. map_of a = map_of b)
    (iterative_event R rules fetch st eid) (iterative_event R rules fetch st' eid)"
proof -
  have "collect_auth_events R rules fetch ev st ts = collect_auth_events R rules fetch ev st' ts" for ev ts
    using assms by (simp add: collect_auth_events_def auth_types_events_def auth_type_event_def [abs_def])
  then show ?thesis using assms
    by (cases "fetch eid")
      (auto simp: iterative_event_def iterative_step_def rbind_def split: option.splits sum.splits auth_check_outcome.splits)
qed

lemma iterative_auth_check_cong:
  "map_of st = map_of st' \<Longrightarrow> rel_sum (=) (\<lambda>a b. map_of a = map_of b)
     (iterative_auth_check R rules events st fetch) (iterative_auth_check R rules events st' fetch)"
proof (induction events arbitrary: st st')
  case (Cons x events)
  show ?case
    using iterative_event_cong [OF Cons.prems, of R rules fetch x] Cons.IH
    by (cases rule: rel_sum.cases) auto
qed simp

end
