(* ===== verification/Subgraph_Walk.thy ===== *)
theory Subgraph_Walk
  imports Mainline
begin

text \<open>
  The search behind \<^verbatim>\<open>state_res/resolve/conflicted_subgraph.rs\<close> as an abstract machine. Walkers descend the
  auth events of the conflicted events concurrently and share one table of node states. A walker holds a
  tower of nodes with the auth events still to be looked at, and does one thing at a time, its \<open>target\<close>.
  The conflicted state subgraph is specified as the events that lie on a path between conflicted events;
  the machine computes it for every interleaving of the walkers, never blocks and always stops.
\<close>

section \<open>The specification\<close>

definition auth_edges :: "fetch_event \<Rightarrow> (event_id \<times> event_id) set" where
  "auth_edges fetch = {(x, y). \<exists>ev. fetch x = Inr ev \<and> y \<in> set (auth_events ev)}"

definition conflicted_subgraph :: "fetch_event \<Rightarrow> event_id set \<Rightarrow> event_id set" where
  "conflicted_subgraph fetch C = {x. \<exists>s\<in>C. \<exists>c\<in>C.
     (s, x) \<in> (auth_edges fetch)\<^sup>* \<and> (x, c) \<in> (auth_edges fetch)\<^sup>* \<and> (s, c) \<in> (auth_edges fetch)\<^sup>+}"

section \<open>The machine\<close>

datatype substate = Conflicted | Pending nat | Dead | Subgraph

text \<open>
  What a walker is about: \<open>Held e\<close> has taken \<open>e\<close> from its topmost frame, \<open>Fetching e\<close> waits for the database,
  \<open>Waiting e\<close> for the walker that owns \<open>e\<close>, \<open>Woken e\<close> has been told the state of \<open>e\<close>.
\<close>

datatype target = Idle | Running | Held event_id | Fetching event_id | Waiting event_id | Woken event_id

type_synonym node_states = "event_id \<Rightarrow> substate option"
type_synonym tower = "(event_id \<times> event_id list) list"

record walk =
  sub :: node_states
  tower :: "nat \<Rightarrow> tower"
  target :: "nat \<Rightarrow> target"
  unlaunched :: "event_id list"
  launched :: nat

definition final :: "substate option \<Rightarrow> bool" where
  "final s \<longleftrightarrow> s = Some Dead \<or> s = Some Subgraph"

definition kill :: "event_id \<Rightarrow> node_states \<Rightarrow> node_states" where
  "kill e s = (if \<exists>j. s e = Some (Pending j) then s(e \<mapsto> Dead) else s)"

definition mark :: "event_id set \<Rightarrow> node_states \<Rightarrow> node_states" where
  "mark X s = (\<lambda>x. if x \<in> X then Some Subgraph else s x)"

definition wake_target :: "node_states \<Rightarrow> target \<Rightarrow> target" where
  "wake_target s t = (case t of Waiting e \<Rightarrow> if final (s e) then Woken e else t | _ \<Rightarrow> t)"

definition move :: "nat \<Rightarrow> node_states \<Rightarrow> tower \<Rightarrow> target \<Rightarrow> walk \<Rightarrow> walk" where
  "move i s tw t a = a \<lparr> sub := s, tower := (tower a)(i := tw),
     target := (\<lambda>j. wake_target s (if j = i then t else target a j)) \<rparr>"

abbreviation nodes :: "tower \<Rightarrow> event_id set" where
  "nodes tw \<equiv> fst ` set tw"

inductive walk_step :: "fetch_event \<Rightarrow> walk \<Rightarrow> walk \<Rightarrow> bool" for fetch where
  launch: "unlaunched a = s # rest \<Longrightarrow> i = launched a \<Longrightarrow> target a i = Idle \<Longrightarrow>
    walk_step fetch a ((move i (sub a) [] (Fetching s) a) \<lparr> unlaunched := rest, launched := Suc i \<rparr>)"
| fetched: "target a i = Fetching e \<Longrightarrow> fetch e = Inr ev \<Longrightarrow>
    walk_step fetch a (move i (sub a) ((e, auth_events ev) # tower a i) Running a)"
| failed: "target a i = Fetching e \<Longrightarrow> fetch e = Inl err \<Longrightarrow>
    walk_step fetch a (move i (kill e (sub a)) (tower a i) Running a)"
| pop_frame: "target a i = Running \<Longrightarrow> tower a i = (x, []) # tw \<Longrightarrow>
    walk_step fetch a (move i (kill x (sub a)) tw Running a)"
| pop_elem: "target a i = Running \<Longrightarrow> tower a i = (x, f @ [e]) # tw \<Longrightarrow>
    walk_step fetch a (move i (sub a) ((x, f) # tw) (Held e) a)"
| eval_dead: "target a i = Held e \<Longrightarrow> sub a e = Some Dead \<Longrightarrow>
    walk_step fetch a (move i (sub a) (tower a i) Running a)"
| eval_sub: "target a i = Held e \<Longrightarrow> sub a e = Some Subgraph \<Longrightarrow>
    walk_step fetch a (move i (mark (insert e (nodes (tower a i))) (sub a)) (tower a i) Running a)"
| eval_own: "target a i = Held e \<Longrightarrow> sub a e = Some (Pending i) \<Longrightarrow>
    walk_step fetch a (move i (sub a) (tower a i) Running a)"
| eval_wait: "target a i = Held e \<Longrightarrow> sub a e = Some (Pending j) \<Longrightarrow> j \<noteq> i \<Longrightarrow>
    walk_step fetch a (move i (sub a) (tower a i) (Waiting e) a)"
| eval_conf: "target a i = Held e \<Longrightarrow> sub a e = Some Conflicted \<Longrightarrow>
    walk_step fetch a (move i (mark (insert e (nodes (tower a i))) (sub a)) (tower a i)
      (if fst (last (tower a i)) = e then Running else Fetching e) a)"
| eval_new: "target a i = Held e \<Longrightarrow> sub a e = None \<Longrightarrow>
    walk_step fetch a (move i ((sub a)(e \<mapsto> Pending i)) (tower a i) (Fetching e) a)"
| woken_dead: "target a i = Woken e \<Longrightarrow> sub a e = Some Dead \<Longrightarrow>
    walk_step fetch a (move i (sub a) (tower a i) Running a)"
| woken_sub: "target a i = Woken e \<Longrightarrow> sub a e = Some Subgraph \<Longrightarrow>
    walk_step fetch a (move i (mark (insert e (nodes (tower a i))) (sub a)) (tower a i) Running a)"
| finish: "target a i = Running \<Longrightarrow> tower a i = [] \<Longrightarrow>
    walk_step fetch a (move i (sub a) [] Idle a)"

definition walk_init :: "event_id list \<Rightarrow> walk" where
  "walk_init seeds = \<lparr> sub = (\<lambda>x. if x \<in> set seeds then Some Conflicted else None),
     tower = (\<lambda>_. []), target = (\<lambda>_. Idle), unlaunched = seeds, launched = 0 \<rparr>"

lemma move_simps [simp]:
  "sub (move i s tw t a) = s" "tower (move i s tw t a) = (tower a)(i := tw)"
  "target (move i s tw t a) j = wake_target s (if j = i then t else target a j)"
  "unlaunched (move i s tw t a) = unlaunched a" "launched (move i s tw t a) = launched a"
  by (simp_all add: move_def)

lemma wake_target_simps [simp]:
  "wake_target s Idle = Idle" "wake_target s Running = Running" "wake_target s (Held e) = Held e"
  "wake_target s (Fetching e) = Fetching e" "wake_target s (Woken e) = Woken e"
  "wake_target s (Waiting e) = (if final (s e) then Woken e else Waiting e)"
  by (simp_all add: wake_target_def)

section \<open>The invariant\<close>

text \<open>A looked-at auth event \<open>c\<close> of \<open>x\<close>: its state is final, and \<open>x\<close> is in the subgraph if \<open>c\<close> is.\<close>

definition looked :: "node_states \<Rightarrow> event_id \<Rightarrow> event_id \<Rightarrow> bool" where
  "looked s x c \<longleftrightarrow> final (s c) \<and> (s c = Some Subgraph \<longrightarrow> s x = Some Subgraph)"

fun cur :: "target \<Rightarrow> event_id set" where
  "cur Idle = {}"
| "cur Running = {}"
| "cur (Held e) = {e}"
| "cur (Fetching e) = {e}"
| "cur (Waiting e) = {e}"
| "cur (Woken e) = {e}"

text \<open>
  A tower descends from a conflicted event along the edges \<open>E\<close>. Every auth event of a node in it is still in
  its frame, is being looked at (it is in \<open>K\<close>) or has been looked at.
\<close>

fun tower_ok ::
  "(event_id \<times> event_id) set \<Rightarrow> event_id set \<Rightarrow> node_states \<Rightarrow> nat \<Rightarrow> event_id set \<Rightarrow> tower \<Rightarrow> bool" where
  "tower_ok E C s i K [] \<longleftrightarrow> True"
| "tower_ok E C s i K ((x, f) # tw) \<longleftrightarrow>
     K \<union> set f \<subseteq> E `` {x} \<and>
     (\<forall>c \<in> E `` {x}. c \<in> set f \<or> c \<in> K \<or> looked s x c) \<and>
     (if tw = [] then x \<in> C \<and> (s x = Some Conflicted \<or> s x = Some Subgraph)
      else s x = Some (Pending i) \<or> s x = Some Subgraph \<and> s (fst (hd tw)) = Some Subgraph) \<and>
     tower_ok E C s i {x} tw"

fun target_ok :: "event_id set \<Rightarrow> node_states \<Rightarrow> nat \<Rightarrow> target \<Rightarrow> tower \<Rightarrow> bool" where
  "target_ok C s i Idle tw \<longleftrightarrow> tw = []"
| "target_ok C s i Running tw \<longleftrightarrow> True"
| "target_ok C s i (Held e) tw \<longleftrightarrow> tw \<noteq> []"
| "target_ok C s i (Fetching e) tw \<longleftrightarrow>
     (if tw = [] then e \<in> C
      else s e = Some (Pending i) \<or> s e = Some Subgraph \<and> s (fst (hd tw)) = Some Subgraph)"
| "target_ok C s i (Waiting e) tw \<longleftrightarrow> tw \<noteq> [] \<and> (\<exists>j. j \<noteq> i \<and> s e = Some (Pending j))"
| "target_ok C s i (Woken e) tw \<longleftrightarrow> tw \<noteq> [] \<and> final (s e)"

definition walker_ok ::
  "(event_id \<times> event_id) set \<Rightarrow> event_id set \<Rightarrow> node_states \<Rightarrow> nat \<Rightarrow> target \<Rightarrow> tower \<Rightarrow> bool" where
  "walker_ok E C s i t tw \<longleftrightarrow> tower_ok E C s i (cur t) tw \<and> target_ok C s i t tw"

text \<open>A pending node is on the tower of its owner, above the seed, or being fetched by it.\<close>

definition owned :: "nat \<Rightarrow> event_id \<Rightarrow> target \<Rightarrow> tower \<Rightarrow> bool" where
  "owned i x t tw \<longleftrightarrow> x \<in> nodes (butlast tw) \<or> t = Fetching x \<and> tw \<noteq> []"

definition explored :: "(event_id \<times> event_id) set \<Rightarrow> node_states \<Rightarrow> event_id \<Rightarrow> bool" where
  "explored E s x \<longleftrightarrow> (\<forall>c \<in> E `` {x}. looked s x c)"

definition active :: "walk \<Rightarrow> event_id \<Rightarrow> bool" where
  "active a x \<longleftrightarrow> x \<in> set (unlaunched a) \<or> (\<exists>i. x \<in> nodes (tower a i) \<or> target a i = Fetching x)"

definition between :: "(event_id \<times> event_id) set \<Rightarrow> event_id set \<Rightarrow> event_id set" where
  "between E C = {x. \<exists>s\<in>C. \<exists>c\<in>C. (s, x) \<in> E\<^sup>* \<and> (x, c) \<in> E\<^sup>* \<and> (s, c) \<in> E\<^sup>+}"

definition seeds_ok :: "event_id set \<Rightarrow> node_states \<Rightarrow> bool" where
  "seeds_ok C s \<longleftrightarrow> (\<forall>x\<in>C. s x = Some Conflicted \<or> s x = Some Subgraph) \<and>
     (\<forall>x. s x = Some Conflicted \<longrightarrow> x \<in> C)"

definition walk_inv :: "(event_id \<times> event_id) set \<Rightarrow> event_id set \<Rightarrow> walk \<Rightarrow> bool" where
  "walk_inv E C a \<longleftrightarrow>
     (\<forall>i. walker_ok E C (sub a) i (target a i) (tower a i)) \<and>
     (\<forall>x j. sub a x = Some (Pending j) \<longrightarrow> owned j x (target a j) (tower a j)) \<and>
     (\<forall>x. sub a x \<noteq> None \<longrightarrow> explored E (sub a) x \<or> active a x) \<and>
     seeds_ok C (sub a) \<and> set (unlaunched a) \<subseteq> C \<and>
     (\<forall>x. sub a x = Some Subgraph \<longrightarrow> x \<in> between E C)"

section \<open>Progress of the table\<close>

text \<open>What walker \<open>i\<close> may do to the table: final states stay, and so do the nodes of the other walkers.\<close>

definition progress :: "nat \<Rightarrow> node_states \<Rightarrow> node_states \<Rightarrow> bool" where
  "progress i s s' \<longleftrightarrow> (\<forall>x. (final (s x) \<longrightarrow> s' x = s x) \<and>
     (\<forall>j. j \<noteq> i \<longrightarrow> s x = Some (Pending j) \<longrightarrow> s' x = s x) \<and>
     (s x = Some Conflicted \<longrightarrow> s' x = Some Conflicted \<or> s' x = Some Subgraph) \<and>
     (s x = Some (Pending i) \<longrightarrow> s' x = Some (Pending i) \<or> final (s' x)) \<and>
     (s' x = Some Conflicted \<longrightarrow> s x = Some Conflicted) \<and>
     (\<forall>j. s' x = Some (Pending j) \<longrightarrow> j = i \<or> s x = Some (Pending j)))"

lemma progress_refl [simp]: "progress i s s"
  by (simp add: progress_def)

lemma progress_final: "progress i s s' \<Longrightarrow> final (s x) \<Longrightarrow> s' x = s x"
  unfolding progress_def by blast

lemma progress_dead: "progress i s s' \<Longrightarrow> s x = Some Dead \<Longrightarrow> s' x = Some Dead"
  unfolding progress_def final_def by metis

lemma progress_sub: "progress i s s' \<Longrightarrow> s x = Some Subgraph \<Longrightarrow> s' x = Some Subgraph"
  unfolding progress_def final_def by metis

lemma progress_other: "progress i s s' \<Longrightarrow> j \<noteq> i \<Longrightarrow> s x = Some (Pending j) \<Longrightarrow> s' x = Some (Pending j)"
  unfolding progress_def by metis

lemma progress_own: "progress i s s' \<Longrightarrow> s x = Some (Pending i) \<Longrightarrow> s' x = Some (Pending i) \<or> final (s' x)"
  unfolding progress_def by blast

lemma progress_conf:
  "progress i s s' \<Longrightarrow> s x = Some Conflicted \<Longrightarrow> s' x = Some Conflicted \<or> s' x = Some Subgraph"
  unfolding progress_def by blast

lemma looked_progress: "progress i s s' \<Longrightarrow> looked s x c \<Longrightarrow> looked s' x c"
  unfolding looked_def by (metis final_def progress_final progress_sub)

lemma tower_progress:
  assumes "progress i s s'" and "j \<noteq> i"
  shows "tower_ok E C s j K tw \<Longrightarrow> tower_ok E C s' j K tw"
proof (induction tw arbitrary: K)
  case (Cons y tw)
  obtain x f where y: "y = (x, f)" by (cases y)
  have "tower_ok E C s' j {x} tw" using Cons y by simp
  moreover have "\<forall>c \<in> E `` {x}. c \<in> set f \<or> c \<in> K \<or> looked s' x c"
    using Cons.prems y looked_progress [OF assms(1)] by auto
  moreover have "if tw = [] then x \<in> C \<and> (s' x = Some Conflicted \<or> s' x = Some Subgraph)
      else s' x = Some (Pending j) \<or> s' x = Some Subgraph \<and> s' (fst (hd tw)) = Some Subgraph"
    using Cons.prems y progress_conf [OF assms(1)] progress_sub [OF assms(1)] progress_other [OF assms]
    by (auto split: if_splits)
  ultimately show ?case using Cons.prems y by simp
qed simp

lemma cur_wake [simp]: "cur (wake_target s t) = cur t"
  by (cases t) auto

lemma walker_progress:
  assumes "progress i s s'" and "j \<noteq> i" and "walker_ok E C s j t tw"
  shows "walker_ok E C s' j (wake_target s' t) tw"
proof -
  note p = progress_sub [OF assms(1)] progress_other [OF assms(1,2)] progress_final [OF assms(1)]
  have "target_ok C s' j (wake_target s' t) tw"
  proof (cases t)
    case (Waiting e)
    then obtain k where "tw \<noteq> []" "k \<noteq> j" "s e = Some (Pending k)"
      using assms(3) by (auto simp: walker_ok_def)
    moreover have "s' e = Some (Pending k) \<or> final (s' e)"
      using progress_own [OF assms(1)] progress_other [OF assms(1), of k e] calculation(3) by metis
    ultimately show ?thesis using Waiting by auto
  next
    case (Woken e)
    then show ?thesis using assms(3) p(3) by (auto simp: walker_ok_def)
  qed (use assms(3) p in \<open>auto simp: walker_ok_def split: if_splits\<close>)
  moreover have "tower_ok E C s' j (cur t) tw"
    using assms(3) tower_progress [OF assms(1,2)] by (simp add: walker_ok_def)
  ultimately show ?thesis by (simp add: walker_ok_def)
qed

text \<open>A walker changes the nodes of its own tower all together, or none of them.\<close>

lemma tower_update:
  assumes "progress i s s'" and "tower_ok E C s i K tw"
    and "(\<forall>y\<in>nodes tw. s' y = s y) \<or> (\<forall>y\<in>nodes tw. s' y = Some Subgraph)"
    and "K' \<subseteq> K" and "\<forall>c\<in>K - K'. looked s' (fst (hd tw)) c"
  shows "tower_ok E C s' i K' tw"
  using assms(2-)
proof (induction tw arbitrary: K K')
  case (Cons y tw)
  obtain x f where y: "y = (x, f)" by (cases y)
  have "tower_ok E C s' i {x} tw"
    using Cons.prems y by (intro Cons.IH [of "{x}" "{x}"]) auto
  moreover have "\<forall>c \<in> E `` {x}. c \<in> set f \<or> c \<in> K' \<or> looked s' x c"
    using Cons.prems(1,4) y looked_progress [OF assms(1)] by (simp, blast)
  moreover have "if tw = [] then x \<in> C \<and> (s' x = Some Conflicted \<or> s' x = Some Subgraph)
      else s' x = Some (Pending i) \<or> s' x = Some Subgraph \<and> s' (fst (hd tw)) = Some Subgraph"
    using Cons.prems(1,2) y by (cases tw) (auto split: if_splits)
  ultimately show ?case using Cons.prems(1,3) y by auto
qed simp

section \<open>Towers are paths\<close>

lemma tower_reach:
  "tower_ok E C s i K ((x, f) # tw) \<Longrightarrow> y \<in> nodes tw \<Longrightarrow> (y, x) \<in> E\<^sup>+"
proof (induction tw arbitrary: K x f)
  case (Cons z tw)
  obtain w g where z: "z = (w, g)" by (cases z)
  have edge: "(w, x) \<in> E" using Cons.prems(1) z by simp
  have "tower_ok E C s i {x} ((w, g) # tw)" using Cons.prems(1) z by simp
  then have "y \<in> nodes tw \<Longrightarrow> (y, w) \<in> E\<^sup>+" by (rule Cons.IH)
  then show ?case using Cons.prems(2) z edge by (auto intro: trancl_into_trancl)
qed simp

lemma tower_top_fresh: "acyclic E \<Longrightarrow> tower_ok E C s i K ((x, f) # tw) \<Longrightarrow> x \<notin> nodes tw"
  using tower_reach [of E C s i K x f tw x] by (auto simp: acyclic_def)

lemma tower_tops: "tower_ok E C s i K tw \<Longrightarrow> y \<in> nodes tw \<Longrightarrow> (y, fst (hd tw)) \<in> E\<^sup>*"
  using tower_reach [of E C s i K "fst (hd tw)" "snd (hd tw)" "tl tw" y]
  by (cases tw) (auto intro: trancl_into_rtrancl)

lemma tower_bottom: "tower_ok E C s i K tw \<Longrightarrow> tw \<noteq> [] \<Longrightarrow> fst (last tw) \<in> C"
  by (induction tw arbitrary: K) (auto split: if_splits)

lemma tower_descends: "tower_ok E C s i K tw \<Longrightarrow> y \<in> nodes tw \<Longrightarrow> (fst (last tw), y) \<in> E\<^sup>*"
proof (induction tw arbitrary: K y)
  case (Cons z tw)
  obtain x f where z: "z = (x, f)" by (cases z)
  have tw: "tower_ok E C s i {x} tw" using Cons.prems(1) z by simp
  consider "y \<in> nodes tw" | "tw = []" "y = x" | w g tw' where "tw = (w, g) # tw'" "y = x"
    using Cons.prems(2) z by (cases tw) auto
  then show ?case
  proof cases
    case 1
    then show ?thesis using Cons.IH [OF tw] by (cases tw) auto
  next
    case 2
    then show ?thesis using z by simp
  next
    case 3
    then have "(fst (last tw), w) \<in> E\<^sup>*" "(w, x) \<in> E" using Cons.IH [OF tw, of w] tw by auto
    then show ?thesis using 3 by (auto intro: rtrancl_into_rtrancl)
  qed
qed simp

section \<open>Every step keeps the invariant\<close>

text \<open>The nodes a walker is responsible for.\<close>

definition held_nodes :: "target \<Rightarrow> tower \<Rightarrow> event_id set" where
  "held_nodes t tw = nodes tw \<union> {x. t = Fetching x}"

lemma active_alt: "active a x \<longleftrightarrow> x \<in> set (unlaunched a) \<or> (\<exists>i. x \<in> held_nodes (target a i) (tower a i))"
  by (auto simp: active_def held_nodes_def)

lemma held_wake [simp]: "held_nodes (wake_target s t) tw = held_nodes t tw"
  by (cases t) (auto simp: held_nodes_def)

lemma owned_wake [simp]: "owned i x (wake_target s t) tw = owned i x t tw"
  by (cases t) (auto simp: owned_def)

lemma move_inv:
  assumes "walk_inv E C a" and "progress i (sub a) s"
    and "walker_ok E C s i t tw" and "wake_target s t = t"
    and "\<And>x. s x = Some (Pending i) \<Longrightarrow> owned i x t tw"
    and "\<And>x. sub a x = None \<Longrightarrow> s x \<noteq> None \<Longrightarrow> x \<in> held_nodes t tw"
    and "\<And>x. x \<in> held_nodes (target a i) (tower a i) \<union> (set (unlaunched a) - set u) \<Longrightarrow>
      x \<in> held_nodes t tw \<or> explored E s x"
    and "\<And>x. s x = Some Subgraph \<Longrightarrow> sub a x \<noteq> Some Subgraph \<Longrightarrow> x \<in> between E C"
    and "set u \<subseteq> set (unlaunched a)"
  shows "walk_inv E C ((move i s tw t a) \<lparr> unlaunched := u \<rparr>)"
proof -
  let ?a = "(move i s tw t a) \<lparr> unlaunched := u \<rparr>"
  have walkers: "walker_ok E C (sub a) j (target a j) (tower a j)"
    and pending: "sub a x = Some (Pending j) \<Longrightarrow> owned j x (target a j) (tower a j)"
    and nodes: "sub a x \<noteq> None \<Longrightarrow> explored E (sub a) x \<or> active a x" for j x
    using assms(1) by (simp_all add: walk_inv_def)
  have "walker_ok E C s j (target ?a j) (tower ?a j)" for j
    using assms(3,4) walker_progress [OF assms(2) _ walkers] by simp
  moreover have "owned j x (target ?a j) (tower ?a j)" if "s x = Some (Pending j)" for x j
  proof (cases "j = i")
    case False
    then have "sub a x = Some (Pending j)" using assms(2) that unfolding progress_def by blast
    then show ?thesis using pending False by simp
  qed (use that assms(4,5) in simp)
  moreover have own: "active ?a x" if "x \<in> held_nodes t tw" for x
  proof -
    have "x \<in> held_nodes (target ?a i) (tower ?a i)" using that by simp
    then show ?thesis unfolding active_alt by blast
  qed
  moreover have "explored E s x \<or> active ?a x" if "s x \<noteq> None" for x
  proof (cases "sub a x = None")
    case True
    then show ?thesis using assms(6) own that by blast
  next
    case False
    consider "explored E (sub a) x" | "x \<in> set (unlaunched a)"
      | j where "x \<in> held_nodes (target a j) (tower a j)"
      using nodes [OF False] unfolding active_alt by blast
    then show ?thesis
    proof cases
      case 1
      then show ?thesis using looked_progress [OF assms(2)] by (simp add: explored_def)
    next
      case 2
      then have "x \<in> set u \<or> x \<in> held_nodes t tw \<or> explored E s x" using assms(7) by blast
      moreover have "active ?a x" if "x \<in> set u" using that by (simp add: active_def)
      ultimately show ?thesis using own by blast
    next
      case 3
      show ?thesis
      proof (cases "j = i")
        case True
        then show ?thesis using 3 assms(7) own by blast
      next
        case False
        then have "held_nodes (target ?a j) (tower ?a j) = held_nodes (target a j) (tower a j)" by simp
        then show ?thesis using 3 unfolding active_alt by blast
      qed
    qed
  qed
  moreover have "seeds_ok C s"
    using assms(1,2) unfolding walk_inv_def seeds_ok_def progress_def final_def by metis
  moreover have "x \<in> between E C" if "s x = Some Subgraph" for x
    using assms(1,8) that unfolding walk_inv_def by blast
  moreover have "set u \<subseteq> C" using assms(1,9) unfolding walk_inv_def by blast
  ultimately show ?thesis by (simp add: walk_inv_def)
qed

lemma unlaunched_same: "(move i s tw t a) \<lparr> unlaunched := unlaunched a \<rparr> = move i s tw t a"
  by (simp add: move_def)

lemmas move_inv_same = move_inv [where u = "unlaunched a" and a = a for a, unfolded unlaunched_same, simplified]

lemma walk_inv_walker:
  assumes "walk_inv E C a"
  shows "tower_ok E C (sub a) i (cur (target a i)) (tower a i)"
    and "target_ok C (sub a) i (target a i) (tower a i)"
    and "sub a x = Some (Pending i) \<Longrightarrow> owned i x (target a i) (tower a i)"
  using assms by (auto simp: walk_inv_def walker_ok_def)

lemma tower_states:
  assumes "tower_ok E C s i K tw" and "x \<in> nodes tw"
  shows "s x = Some (Pending i) \<or> s x = Some Conflicted \<or> s x = Some Subgraph"
  using assms
proof (induction tw arbitrary: K)
  case (Cons z tw)
  obtain y f where z: "z = (y, f)" by (cases z)
  show ?case
  proof (cases "x \<in> nodes tw")
    case True
    then show ?thesis using Cons.IH [of "{y}"] Cons.prems(1) z by simp
  next
    case False
    then show ?thesis using Cons.prems z by (auto split: if_splits)
  qed
qed simp

lemma tower_defined: "tower_ok E C s i K tw \<Longrightarrow> s x = None \<Longrightarrow> (x, f) \<notin> set tw"
  using tower_states [of E C s i K tw x] by force

text \<open>Marking: the tower and the event it leads to.\<close>

lemma mark_progress:
  assumes "tower_ok E C s i K tw" and "s e = Some Conflicted \<or> s e = Some Subgraph"
  shows "progress i s (mark (insert e (nodes tw)) s)"
proof -
  let ?X = "insert e (nodes tw)"
  have "s x = Some (Pending i) \<or> s x = Some Conflicted \<or> s x = Some Subgraph" if "x \<in> ?X" for x
    using tower_states [OF assms(1), of x] assms(2) that by blast
  moreover have "mark ?X s x = Some Subgraph" if "x \<in> ?X" for x
    using that by (simp add: mark_def)
  moreover have "mark ?X s x = s x" if "x \<notin> ?X" for x
    using that by (simp add: mark_def)
  ultimately show ?thesis unfolding progress_def final_def
    by (metis option.inject substate.distinct substate.inject)
qed

lemma mark_between:
  assumes "tower_ok E C s i K tw" and "tw \<noteq> []" and "e \<in> K" and "e \<in> C \<or> e \<in> between E C"
    and "x \<in> insert e (nodes tw)"
  shows "x \<in> between E C"
proof -
  let ?r = "fst (last tw)"
  have r: "?r \<in> C" by (rule tower_bottom [OF assms(1,2)])
  obtain c where c: "c \<in> C" "(e, c) \<in> E\<^sup>*" using assms(4) by (auto simp: between_def)
  have "fst (hd tw) \<in> nodes tw" using assms(2) by simp
  then have top: "(?r, fst (hd tw)) \<in> E\<^sup>*" by (rule tower_descends [OF assms(1)])
  have edge: "(fst (hd tw), e) \<in> E" using assms(1-3) by (cases tw) auto
  have re: "(?r, e) \<in> E\<^sup>+" using top edge by (rule rtrancl_into_trancl1)
  then have "(?r, c) \<in> E\<^sup>+" using c(2) by (rule trancl_rtrancl_trancl)
  moreover have "(?r, x) \<in> E\<^sup>* \<and> (x, c) \<in> E\<^sup>*"
  proof (cases "x = e")
    case True
    then show ?thesis using re c(2) by (simp add: trancl_into_rtrancl)
  next
    case False
    then have x: "x \<in> nodes tw" using assms(5) by simp
    have "(x, e) \<in> E\<^sup>*" using tower_tops [OF assms(1) x] edge by (rule rtrancl_into_rtrancl)
    then show ?thesis using tower_descends [OF assms(1) x] c(2) by (simp add: rtrancl_trans)
  qed
  ultimately show ?thesis using r c(1) unfolding between_def by blast
qed

text \<open>Completing a node that has no further auth events.\<close>

lemma kill_other: "x \<noteq> e \<Longrightarrow> kill e s x = s x"
  by (simp add: kill_def)

lemma kill_pending: "kill e s x = Some (Pending j) \<longleftrightarrow> s x = Some (Pending j) \<and> x \<noteq> e"
  by (auto simp: kill_def)

lemma kill_sub: "kill e s x = Some Subgraph \<longleftrightarrow> s x = Some Subgraph"
  by (auto simp: kill_def)

lemma kill_none: "kill e s x = None \<longleftrightarrow> s x = None"
  by (auto simp: kill_def)

lemma kill_progress:
  assumes "\<And>j. s e = Some (Pending j) \<Longrightarrow> j = i"
  shows "progress i s (kill e s)"
proof -
  have "kill e s e = s e \<or> s e = Some (Pending i) \<and> kill e s e = Some Dead"
    using assms by (auto simp: kill_def)
  then show ?thesis unfolding progress_def final_def
    by (metis kill_other option.inject substate.distinct substate.inject)
qed

lemma kill_looked:
  "s e = Some (Pending i) \<or> s e = Some Subgraph \<and> s p = Some Subgraph \<Longrightarrow> looked (kill e s) p e"
  by (auto simp: looked_def kill_def final_def)

lemma top_edge: "tower_ok E C s i K tw \<Longrightarrow> tw \<noteq> [] \<Longrightarrow> e \<in> K \<Longrightarrow> (fst (hd tw), e) \<in> E"
  by (cases tw) auto

lemma cur_fresh:
  assumes "acyclic E" and "tower_ok E C s i K tw" and "e \<in> K"
  shows "e \<notin> nodes tw"
proof
  assume e: "e \<in> nodes tw"
  then have "tw \<noteq> []" by auto
  from tower_tops [OF assms(2) e] top_edge [OF assms(2) this assms(3)]
  have "(e, e) \<in> E\<^sup>+" by (rule rtrancl_into_trancl1)
  with assms(1) show False by (simp add: acyclic_def)
qed

lemma seeds_status: "walk_inv E C a \<Longrightarrow> x \<in> C \<Longrightarrow> sub a x = Some Conflicted \<or> sub a x = Some Subgraph"
  by (simp add: walk_inv_def seeds_ok_def)

lemma launch_inv:
  assumes "walk_inv E C a" and "unlaunched a = s # rest" and "target a i = Idle"
  shows "walk_inv E C ((move i (sub a) [] (Fetching s) a) \<lparr> unlaunched := rest \<rparr>)"
proof (rule move_inv [OF assms(1) progress_refl])
  have tw: "tower a i = []" using walk_inv_walker(2) [OF assms(1), where i = i] assms(3) by simp
  have "s \<in> C" using assms(1,2) by (auto simp: walk_inv_def)
  then show "walker_ok E C (sub a) i (Fetching s) []" by (simp add: walker_ok_def)
  show "owned i x (Fetching s) []" if "sub a x = Some (Pending i)" for x
    using walk_inv_walker(3) [OF assms(1) that] assms(3) tw by (simp add: owned_def)
  show "x \<in> held_nodes (Fetching s) [] \<or> explored E (sub a) x"
    if "x \<in> held_nodes (target a i) (tower a i) \<union> (set (unlaunched a) - set rest)" for x
    using that assms(2,3) tw by (auto simp: held_nodes_def)
qed (use assms(2) in auto)

lemma fetched_inv:
  assumes "walk_inv (auth_edges fetch) C a" and "target a i = Fetching e" and "fetch e = Inr ev"
  shows "walk_inv (auth_edges fetch) C (move i (sub a) ((e, auth_events ev) # tower a i) Running a)"
proof (rule move_inv_same [OF assms(1) progress_refl])
  let ?E = "auth_edges fetch" and ?tw = "(e, auth_events ev) # tower a i"
  note w = walk_inv_walker [OF assms(1), where i = i, unfolded assms(2)]
  have "?E `` {e} = set (auth_events ev)" using assms(3) by (auto simp: auth_edges_def)
  then show "walker_ok ?E C (sub a) i Running ?tw"
    using w(1,2) seeds_status [OF assms(1)] by (auto simp: walker_ok_def split: if_splits)
  show "owned i x Running ?tw" if "sub a x = Some (Pending i)" for x
    using w(3) [OF that] by (auto simp: owned_def)
  show "x \<in> held_nodes Running ?tw \<or> explored ?E (sub a) x"
    if "x \<in> held_nodes (target a i) (tower a i)" for x
    using that assms(2) by (auto simp: held_nodes_def)
qed simp_all

lemma failed_inv:
  assumes "walk_inv (auth_edges fetch) C a" and "acyclic (auth_edges fetch)"
    and "target a i = Fetching e" and "fetch e = Inl err"
  shows "walk_inv (auth_edges fetch) C (move i (kill e (sub a)) (tower a i) Running a)"
proof -
  let ?E = "auth_edges fetch" and ?s = "kill e (sub a)" and ?tw = "tower a i"
  note w = walk_inv_walker [OF assms(1), where i = i, unfolded assms(3)]
  have progress: "progress i (sub a) ?s"
    using w(2) seeds_status [OF assms(1), of e] by (intro kill_progress) (auto split: if_splits)
  have fresh: "e \<notin> nodes ?tw" by (rule cur_fresh [OF assms(2) w(1)]) simp
  show ?thesis
  proof (rule move_inv_same [OF assms(1) progress])
    have "tower_ok ?E C ?s i {} ?tw"
    proof (cases "?tw = []")
      case False
      then have "looked ?s (fst (hd ?tw)) e" using w(2) by (intro kill_looked [where i = i]) simp
      then show ?thesis
        using fresh by (intro tower_update [OF progress w(1)]) (auto intro!: disjI1 kill_other)
    qed simp
    then show "walker_ok ?E C ?s i Running ?tw" by (simp add: walker_ok_def)
    show "owned i x Running ?tw" if "?s x = Some (Pending i)" for x
      using w(3) [of x] that by (auto simp: owned_def kill_pending)
    have "explored ?E ?s e" using assms(4) by (simp add: explored_def auth_edges_def)
    then show "x \<in> held_nodes Running ?tw \<or> explored ?E ?s x"
      if "x \<in> held_nodes (target a i) ?tw" for x
      using that assms(3) by (auto simp: held_nodes_def)
  qed (simp_all add: kill_none kill_sub flip: not_None_eq)
qed

lemma pop_frame_inv:
  assumes "walk_inv E C a" and "acyclic E" and "target a i = Running" and "tower a i = (x, []) # tw"
  shows "walk_inv E C (move i (kill x (sub a)) tw Running a)"
proof -
  let ?s = "kill x (sub a)"
  note w = walk_inv_walker [OF assms(1), where i = i, unfolded assms(3,4)]
  have progress: "progress i (sub a) ?s"
    using w(1) by (intro kill_progress) (auto split: if_splits)
  have fresh: "x \<notin> nodes tw" by (rule tower_top_fresh [OF assms(2) w(1)])
  show ?thesis
  proof (rule move_inv_same [OF assms(1) progress])
    have tw: "tower_ok E C (sub a) i {x} tw" using w(1) by simp
    have "tower_ok E C ?s i {} tw"
    proof (cases "tw = []")
      case False
      then have "looked ?s (fst (hd tw)) x" using w(1) by (intro kill_looked [where i = i]) simp
      then show ?thesis
        using fresh by (intro tower_update [OF progress tw]) (auto intro!: disjI1 kill_other)
    qed simp
    then show "walker_ok E C ?s i Running tw" by (simp add: walker_ok_def)
    show "owned i y Running tw" if "?s y = Some (Pending i)" for y
      using w(3) [of y] that by (auto simp: owned_def kill_pending split: if_splits)
    have "explored E ?s x"
      using w(1) looked_progress [OF progress] by (simp add: explored_def)
    then show "y \<in> held_nodes Running tw \<or> explored E ?s y"
      if "y \<in> held_nodes (target a i) (tower a i)" for y
      using that assms(3,4) by (auto simp: held_nodes_def)
  qed (simp_all add: kill_none kill_sub flip: not_None_eq)
qed

text \<open>A walker that leaves its tower alone and does not fetch.\<close>

lemma keep_tower_inv:
  assumes "walk_inv E C a" and "progress i (sub a) s" and "target a i \<noteq> Running" and "cur (target a i) = {e}"
    and "\<And>x. target a i \<noteq> Fetching x" and "tower_ok E C s i (cur t) (tower a i)"
    and "target_ok C s i t (tower a i)" and "wake_target s t = t"
    and "\<And>x. s x = Some (Pending i) \<Longrightarrow> sub a x \<noteq> Some (Pending i) \<Longrightarrow> owned i x t (tower a i)"
    and "\<And>x. sub a x = None \<Longrightarrow> s x \<noteq> None \<Longrightarrow> t = Fetching x"
    and "\<And>x. s x = Some Subgraph \<Longrightarrow> sub a x \<noteq> Some Subgraph \<Longrightarrow> x \<in> between E C"
  shows "walk_inv E C (move i s (tower a i) t a)"
proof (rule move_inv_same [OF assms(1,2)])
  show "walker_ok E C s i t (tower a i)" using assms(6,7) by (simp add: walker_ok_def)
  show "owned i x t (tower a i)" if "s x = Some (Pending i)" for x
    using that assms(5,9) walk_inv_walker(3) [OF assms(1), of x i] by (auto simp: owned_def)
  show "x \<in> held_nodes t (tower a i) \<or> explored E s x" if "x \<in> held_nodes (target a i) (tower a i)" for x
    using that assms(5) by (auto simp: held_nodes_def)
qed (use assms(8,10,11) in \<open>auto simp: held_nodes_def\<close>)

lemma eval_dead_inv:
  assumes "walk_inv E C a" and "target a i = Held e \<or> target a i = Woken e" and "sub a e = Some Dead"
  shows "walk_inv E C (move i (sub a) (tower a i) Running a)"
proof -
  have "tower_ok E C (sub a) i {e} (tower a i)"
    using walk_inv_walker(1) [OF assms(1), where i = i] assms(2) by auto
  then have "tower_ok E C (sub a) i {} (tower a i)"
    by (rule tower_update [OF progress_refl]) (auto simp: looked_def final_def assms(3))
  then show ?thesis
    using assms(2) by (intro keep_tower_inv [where e = e]) (auto simp: assms(1))
qed

lemma eval_sub_inv:
  assumes "walk_inv E C a" and "target a i = Held e \<or> target a i = Woken e" and "sub a e = Some Subgraph"
  shows "walk_inv E C (move i (mark (insert e (nodes (tower a i))) (sub a)) (tower a i) Running a)"
proof -
  let ?tw = "tower a i" and ?s = "mark (insert e (nodes (tower a i))) (sub a)"
  have tw: "tower_ok E C (sub a) i {e} ?tw" and ne: "?tw \<noteq> []"
    using walk_inv_walker(1,2) [OF assms(1), where i = i] assms(2) by auto
  have progress: "progress i (sub a) ?s" using mark_progress [OF tw] assms(3) by simp
  have "looked ?s (fst (hd ?tw)) e" using ne by (auto simp: looked_def mark_def final_def)
  then have ok: "tower_ok E C ?s i {} ?tw"
    by (intro tower_update [OF progress tw]) (auto simp: mark_def)
  have e: "e \<in> between E C" using assms(1,3) by (simp add: walk_inv_def)
  show ?thesis
  proof (rule keep_tower_inv [OF assms(1) progress])
    show "x \<in> between E C" if "?s x = Some Subgraph" "sub a x \<noteq> Some Subgraph" for x
      using that e by (intro mark_between [OF tw ne]) (auto simp: mark_def split: if_splits)
  qed (use assms(2,3) ok tower_defined [OF tw] in \<open>auto simp: mark_def split: if_splits\<close>)
qed

lemma eval_wait_inv:
  assumes "walk_inv E C a" and "target a i = Held e" and "sub a e = Some (Pending j)" and "j \<noteq> i"
  shows "walk_inv E C (move i (sub a) (tower a i) (Waiting e) a)"
  using walk_inv_walker(1,2) [OF assms(1), where i = i] assms
  by (intro keep_tower_inv [where e = e]) (auto simp: final_def)

lemma eval_own_impossible:
  assumes "walk_inv E C a" and "acyclic E" and "target a i = Held e"
  shows "sub a e \<noteq> Some (Pending i)"
proof
  assume "sub a e = Some (Pending i)"
  then have "e \<in> nodes (butlast (tower a i))"
    using walk_inv_walker(3) [OF assms(1)] assms(3) by (fastforce simp: owned_def)
  then have "e \<in> nodes (tower a i)" by (auto dest: in_set_butlastD)
  moreover have "e \<notin> nodes (tower a i)"
    using walk_inv_walker(1) [OF assms(1), where i = i] assms(3) by (intro cur_fresh [OF assms(2)]) auto
  ultimately show False by simp
qed

lemma eval_conf_inv:
  assumes "walk_inv E C a" and "acyclic E" and "target a i = Held e" and "sub a e = Some Conflicted"
  shows "walk_inv E C (move i (mark (insert e (nodes (tower a i))) (sub a)) (tower a i)
    (if fst (last (tower a i)) = e then Running else Fetching e) a)"
proof -
  let ?tw = "tower a i" and ?s = "mark (insert e (nodes (tower a i))) (sub a)"
  have tw: "tower_ok E C (sub a) i {e} ?tw" and ne: "?tw \<noteq> []"
    using walk_inv_walker(1,2) [OF assms(1), where i = i] assms(3) by auto
  have progress: "progress i (sub a) ?s" using mark_progress [OF tw] assms(4) by simp
  have "e \<notin> nodes ?tw" by (rule cur_fresh [OF assms(2) tw]) simp
  moreover have "fst (last ?tw) \<in> nodes ?tw" using ne by simp
  ultimately have "fst (last ?tw) \<noteq> e" by metis
  moreover have ok: "tower_ok E C ?s i {e} ?tw"
    by (rule tower_update [OF progress tw]) (auto simp: mark_def)
  have e: "e \<in> C" using assms(1,4) by (simp add: walk_inv_def seeds_ok_def)
  have "walk_inv E C (move i ?s ?tw (Fetching e) a)"
  proof (rule keep_tower_inv [OF assms(1) progress])
    show "x \<in> between E C" if "?s x = Some Subgraph" "sub a x \<noteq> Some Subgraph" for x
      using that e by (intro mark_between [OF tw ne]) (auto simp: mark_def split: if_splits)
  qed (use assms(3,4) ok ne tower_defined [OF tw] in \<open>auto simp: mark_def split: if_splits\<close>)
  ultimately show ?thesis by simp
qed

lemma eval_new_inv:
  assumes "walk_inv E C a" and "target a i = Held e" and "sub a e = None"
  shows "walk_inv E C (move i ((sub a)(e \<mapsto> Pending i)) (tower a i) (Fetching e) a)"
proof -
  let ?tw = "tower a i" and ?s = "(sub a)(e \<mapsto> Pending i)"
  have tw: "tower_ok E C (sub a) i {e} ?tw" and ne: "?tw \<noteq> []"
    using walk_inv_walker(1,2) [OF assms(1), where i = i] assms(2) by auto
  have progress: "progress i (sub a) ?s" using assms(3) by (auto simp: progress_def final_def)
  have "tower_ok E C ?s i {e} ?tw"
    using tower_defined [OF tw assms(3)] by (intro tower_update [OF progress tw]) (auto intro!: disjI1)
  then show ?thesis
    using assms ne by (intro keep_tower_inv [OF assms(1) progress]) (auto simp: owned_def split: if_splits)
qed

lemma pop_elem_inv:
  assumes "walk_inv E C a" and "target a i = Running" and "tower a i = (x, f @ [e]) # tw"
  shows "walk_inv E C (move i (sub a) ((x, f) # tw) (Held e) a)"
proof (rule move_inv_same [OF assms(1) progress_refl])
  note w = walk_inv_walker [OF assms(1), where i = i, unfolded assms(2,3)]
  show "walker_ok E C (sub a) i (Held e) ((x, f) # tw)" using w(1) by (auto simp: walker_ok_def)
  show "owned i y (Held e) ((x, f) # tw)" if "sub a y = Some (Pending i)" for y
    using w(3) [OF that] by (auto simp: owned_def split: if_splits)
qed (use assms(2,3) in \<open>auto simp: held_nodes_def\<close>)

lemma finish_inv:
  assumes "walk_inv E C a" and "target a i = Running" and "tower a i = []"
  shows "walk_inv E C (move i (sub a) [] Idle a)"
proof (rule move_inv_same [OF assms(1) progress_refl])
  show "owned i y Idle []" if "sub a y = Some (Pending i)" for y
    using walk_inv_walker(3) [OF assms(1) that] assms(2,3) by (simp add: owned_def)
qed (use assms(2,3) in \<open>auto simp: held_nodes_def walker_ok_def\<close>)

theorem walk_step_inv:
  assumes "walk_step fetch a a'" and "acyclic (auth_edges fetch)" and "walk_inv (auth_edges fetch) C a"
  shows "walk_inv (auth_edges fetch) C a'"
  using assms(1,3)
proof (induction rule: walk_step.cases)
  case (launch a s rest i)
  have "walk_inv E C (b \<lparr> launched := n \<rparr>) = walk_inv E C b" for E b n
    by (simp add: walk_inv_def active_def)
  then show ?case using launch(2) launch_inv [OF _ launch(3,5)] launch(1,6) by simp
next
  case (fetched a i e ev)
  then show ?case by (blast intro: fetched_inv)
next
  case (failed a i e err)
  then show ?case by (blast intro: failed_inv assms(2))
next
  case (pop_frame a i x tw)
  then show ?case by (blast intro: pop_frame_inv assms(2))
next
  case (pop_elem a i x f e tw)
  then show ?case by (blast intro: pop_elem_inv)
next
  case (eval_own a i e)
  then show ?case using eval_own_impossible [OF _ assms(2)] by blast
next
  case (eval_wait a i e j)
  then show ?case by (blast intro: eval_wait_inv)
next
  case (eval_conf a i e)
  then show ?case using eval_conf_inv [OF _ assms(2)] by blast
next
  case (eval_new a i e)
  then show ?case by (blast intro: eval_new_inv)
next
  case (finish a i)
  then show ?case by (blast intro: finish_inv)
qed (blast intro: eval_dead_inv eval_sub_inv)+

lemma walk_init_inv: "walk_inv E (set seeds) (walk_init seeds)"
  by (auto simp: walk_inv_def walk_init_def walker_ok_def seeds_ok_def active_def split: if_splits)

section \<open>A walk that has stopped\<close>

text \<open>No walker can do anything but wait for another one, and every seed has been launched.\<close>

definition quiescent :: "walk \<Rightarrow> bool" where
  "quiescent a \<longleftrightarrow> unlaunched a = [] \<and> (\<forall>i. target a i = Idle \<or> (\<exists>e. target a i = Waiting e))"

text \<open>No deadlock: a waiting walker would lead to an infinite descent along the auth events.\<close>

lemma quiescent_no_waiting:
  assumes "walk_inv E C a" and "wf (E\<inverse>)" and "quiescent a"
  shows "target a i \<noteq> Waiting e"
proof (induction e arbitrary: i rule: wf_induct [OF wf_trancl [OF assms(2)]])
  case (1 e)
  show ?case
  proof
    assume i: "target a i = Waiting e"
    then obtain j where "sub a e = Some (Pending j)"
      using walk_inv_walker(2) [OF assms(1), where i = i] by auto
    then have "owned j e (target a j) (tower a j)" by (rule walk_inv_walker(3) [OF assms(1)])
    then have e: "e \<in> nodes (tower a j)"
      using assms(3) by (auto simp: owned_def quiescent_def dest: in_set_butlastD) (metis target.distinct)+
    then have ne: "tower a j \<noteq> []" by auto
    then have "target a j \<noteq> Idle" using walk_inv_walker(2) [OF assms(1), where i = j] by auto
    then obtain e' where e': "target a j = Waiting e'" using assms(3) by (auto simp: quiescent_def)
    then have ok: "tower_ok E C (sub a) j {e'} (tower a j)"
      using walk_inv_walker(1) [OF assms(1), where i = j] by simp
    have "(e, e') \<in> E\<^sup>+"
      using tower_tops [OF ok e] top_edge [OF ok ne] by (auto intro: rtrancl_into_trancl1)
    then have "(e', e) \<in> (E\<inverse>)\<^sup>+" by (simp add: trancl_converse)
    with 1 e' show False by blast
  qed
qed


theorem quiescent_exact:
  assumes "walk_inv E C a" and "wf (E\<inverse>)" and "quiescent a"
  shows "{x. sub a x = Some Subgraph} = between E C"
proof
  show "{x. sub a x = Some Subgraph} \<subseteq> between E C" using assms(1) by (auto simp: walk_inv_def)
  have idle: "target a i = Idle" for i
    using assms(3) quiescent_no_waiting [OF assms] by (auto simp: quiescent_def)
  moreover have "tower a i = []" for i
    using walk_inv_walker(2) [OF assms(1), where i = i] by (simp add: idle)
  ultimately have "\<not> active a x" for x using assms(3) by (simp add: active_def quiescent_def)
  then have explored: "looked (sub a) x y" if "sub a x \<noteq> None" "(x, y) \<in> E" for x y
    using assms(1) that unfolding walk_inv_def explored_def by blast
  have seed: "sub a c = Some Conflicted \<or> sub a c = Some Subgraph" if "c \<in> C" for c
    using assms(1) that by (simp add: walk_inv_def seeds_ok_def)
  have found: "sub a x = Some Subgraph" if "c \<in> C" "(x, c) \<in> E\<^sup>+" "sub a x \<noteq> None" for x c
    using that(2,3)
  proof (induction rule: converse_trancl_induct)
    case (base y)
    then show ?case using explored [of y c] seed [OF that(1)] by (auto simp: looked_def final_def)
  next
    case (step y z)
    then have "looked (sub a) y z" by (simp add: explored)
    with step.IH show ?case unfolding looked_def final_def by fastforce
  qed
  have known: "sub a x \<noteq> None" if "(s, x) \<in> E\<^sup>*" "s \<in> C" for s x
    using that(1)
  proof (induction rule: rtrancl_induct)
    case base
    then show ?case using seed [OF that(2)] by auto
  next
    case (step y z)
    then show ?case using explored [of y z] by (auto simp: looked_def final_def)
  qed
  show "between E C \<subseteq> {x. sub a x = Some Subgraph}"
  proof
    fix x assume "x \<in> between E C"
    then obtain s c where sc: "s \<in> C" "c \<in> C" "(s, x) \<in> E\<^sup>*" "(x, c) \<in> E\<^sup>*" "(s, c) \<in> E\<^sup>+"
      by (auto simp: between_def)
    show "x \<in> {x. sub a x = Some Subgraph}"
    proof (cases "x = c")
      case True
      obtain y where y: "(s, y) \<in> E\<^sup>*" "(y, x) \<in> E" using tranclD2 [OF sc(5)] True by blast
      have "looked (sub a) y x" using y known [OF _ sc(1)] by (simp add: explored)
      then show ?thesis using seed [OF sc(2)] True by (auto simp: looked_def final_def)
    next
      case False
      then have "(x, c) \<in> E\<^sup>+" using sc(4) by (auto simp: rtrancl_eq_or_trancl)
      then show ?thesis using found sc(2) known [OF sc(3,1)] by simp
    qed
  qed
qed

lemma between_spec: "between (auth_edges fetch) C = conflicted_subgraph fetch C"
  by (simp add: between_def conflicted_subgraph_def)

end
