(* ===== verification/Subgraph_Stops.thy ===== *)
theory Subgraph_Stops
  imports Subgraph_Walk
begin

text \<open>
  The walks of \<open>Subgraph_Walk\<close> terminate: a lexicographic measure over the reachable events, which are finitely
  many because the auth events are well-founded, decreases with every step of every walker.
\<close>

section \<open>Every walk stops\<close>

definition rank :: "target \<Rightarrow> nat" where
  "rank t = (case t of Idle \<Rightarrow> 0 | Running \<Rightarrow> 1 | Woken _ \<Rightarrow> 2 | Waiting _ \<Rightarrow> 3 | Held _ \<Rightarrow> 4 | Fetching _ \<Rightarrow> 5)"

definition fetches :: "target \<Rightarrow> nat" where
  "fetches t = (case t of Fetching _ \<Rightarrow> 1 | _ \<Rightarrow> 0)"

definition untouched :: "event_id set \<Rightarrow> node_states \<Rightarrow> event_id set" where
  "untouched U s = {x \<in> U. s x = None \<or> s x = Some Conflicted}"

definition walk_measures :: "event_id set \<Rightarrow> nat \<Rightarrow> (walk \<Rightarrow> nat) list" where
  "walk_measures U n = [\<lambda>a. card (untouched U (sub a)) + length (unlaunched a),
     \<lambda>a. \<Sum>i<n. fetches (target a i), \<lambda>a. \<Sum>i<n. length (concat (map snd (tower a i))),
     \<lambda>a. \<Sum>i<n. length (tower a i), \<lambda>a. \<Sum>i<n. rank (target a i)]"

definition walk_bounded :: "nat \<Rightarrow> walk \<Rightarrow> bool" where
  "walk_bounded n a \<longleftrightarrow> launched a + length (unlaunched a) = n \<and>
     (\<forall>i \<ge> launched a. target a i = Idle \<and> tower a i = [])"

lemma sum_decrease:
  fixes f :: "nat \<Rightarrow> nat"
  assumes "i < n" and "f i < g i" and "\<And>j. j < n \<Longrightarrow> f j \<le> g j"
  shows "(\<Sum>j<n. f j) < (\<Sum>j<n. g j)"
  using assms by (intro sum_strict_mono_ex1) auto

lemma sum_le:
  fixes f :: "nat \<Rightarrow> nat"
  shows "(\<And>j. j < n \<Longrightarrow> f j \<le> g j) \<Longrightarrow> (\<Sum>j<n. f j) \<le> (\<Sum>j<n. g j)"
  by (intro sum_mono) auto

lemma rank_wake: "rank (wake_target s t) \<le> rank t"
  by (cases t) (auto simp: rank_def)

lemma fetches_wake [simp]: "fetches (wake_target s t) = fetches t"
  by (cases t) (auto simp: fetches_def)

text \<open>The events that can be reached from finitely many seeds.\<close>

lemma finite_reachable:
  assumes "auth_wf fetch" and "finite C"
  shows "finite ((auth_edges fetch)\<^sup>* `` C)"
proof -
  let ?E = "auth_edges fetch"
  have wf: "wf (?E\<inverse>)"
  proof -
    have "?E\<inverse> = {(y, x). \<exists>ev. fetch x = Inr ev \<and> y \<in> set (auth_events ev)}" by (auto simp: auth_edges_def)
    then show ?thesis using assms(1) by (simp add: auth_wf_def)
  qed
  have "finite (?E\<^sup>* `` {x})" for x
  proof (induction x rule: wf_induct [OF wf])
    case (1 x)
    have "?E\<^sup>* `` {x} = insert x (\<Union>y \<in> ?E `` {x}. ?E\<^sup>* `` {y})"
      by (auto elim: converse_rtranclE intro: converse_rtrancl_into_rtrancl)
    moreover have "finite (?E `` {x})"
    proof (rule finite_subset)
      show "?E `` {x} \<subseteq> (case fetch x of Inr ev \<Rightarrow> set (auth_events ev) | Inl _ \<Rightarrow> {})"
        by (auto simp: auth_edges_def)
    qed (auto split: sum.splits)
    ultimately show ?case using 1 by simp
  qed
  moreover have "?E\<^sup>* `` C = (\<Union>x\<in>C. ?E\<^sup>* `` {x})" by auto
  ultimately show ?thesis using assms(2) by simp
qed

lemma auth_wf_edges: "auth_wf fetch \<Longrightarrow> wf ((auth_edges fetch)\<inverse>)"
proof -
  have "(auth_edges fetch)\<inverse> = {(y, x). \<exists>ev. fetch x = Inr ev \<and> y \<in> set (auth_events ev)}"
    by (auto simp: auth_edges_def)
  then show "auth_wf fetch \<Longrightarrow> wf ((auth_edges fetch)\<inverse>)" by (simp add: auth_wf_def)
qed

lemma untouched_progress:
  assumes "progress i s s'"
  shows "untouched U s' \<subseteq> untouched U s"
proof
  fix x assume x: "x \<in> untouched U s'"
  have "s x = None \<or> s x = Some Conflicted"
  proof (rule ccontr)
    assume "\<not> ?thesis"
    then obtain j where "final (s x) \<or> s x = Some (Pending j)"
      by (cases "s x") (auto simp: final_def, metis substate.exhaust)
    moreover from this have "s' x = s x \<or> final (s' x)"
      using assms unfolding progress_def by metis
    ultimately show False using x by (auto simp: untouched_def final_def)
  qed
  then show "x \<in> untouched U s" using x by (simp add: untouched_def)
qed

lemma finite_untouched: "finite U \<Longrightarrow> finite (untouched U s)"
  by (simp add: untouched_def)

lemma untouched_le: "finite U \<Longrightarrow> progress i s s' \<Longrightarrow> card (untouched U s') \<le> card (untouched U s)"
  by (intro card_mono finite_untouched untouched_progress)

lemma untouched_less:
  assumes "finite U" and "progress i s s'" and "e \<in> untouched U s" and "e \<notin> untouched U s'"
  shows "card (untouched U s') < card (untouched U s)"
  using untouched_progress [OF assms(2), of U] assms(3,4)
  by (intro psubset_card_mono finite_untouched assms(1)) blast

lemma move_decreases:
  assumes "i < n" and "length u \<le> length (unlaunched a)" and "card (untouched U s) \<le> card (untouched U (sub a))"
    and "length u < length (unlaunched a) \<or> card (untouched U s) < card (untouched U (sub a)) \<or>
      fetches t < fetches (target a i) \<or>
      fetches t = fetches (target a i) \<and> (
        length (concat (map snd tw)) < length (concat (map snd (tower a i))) \<or>
        length (concat (map snd tw)) = length (concat (map snd (tower a i))) \<and> (
          length tw < length (tower a i) \<or>
          length tw = length (tower a i) \<and> rank t < rank (target a i)))"
  shows "((move i s tw t a) \<lparr> unlaunched := u, launched := l \<rparr>, a) \<in> measures (walk_measures U n)"
proof -
  let ?a = "(move i s tw t a) \<lparr> unlaunched := u, launched := l \<rparr>"
  have upd: "(\<Sum>j<n. g (tower ?a j)) + g (tower a i) = (\<Sum>j<n. g (tower a j)) + g tw"
    for g :: "tower \<Rightarrow> nat"
    using assms(1) by (simp add: sum.remove [of "{..<n}" i])
  have fet: "(\<Sum>j<n. fetches (target ?a j)) + fetches (target a i) = (\<Sum>j<n. fetches (target a j)) + fetches t"
    using assms(1) by (simp add: sum.remove [of "{..<n}" i])
  have rnk: "rank t < rank (target a i) \<Longrightarrow> (\<Sum>j<n. rank (target ?a j)) < (\<Sum>j<n. rank (target a j))"
    using assms(1) by (intro sum_decrease [of i])
      (auto intro: le_less_trans [OF rank_wake] order.trans [OF rank_wake] less_imp_le rank_wake)
  show ?thesis
    using assms(2-4) upd [of "\<lambda>tw. length (concat (map snd tw))"] upd [of length] fet rnk
    unfolding walk_measures_def by (simp del: length_concat move_simps(2,3)) linarith
qed

lemma move_plain: "(move i s tw t a) \<lparr> unlaunched := unlaunched a, launched := launched a \<rparr> = move i s tw t a"
  by (simp add: move_def)

lemmas move_decreases_plain =
  move_decreases [where u = "unlaunched a" and l = "launched a" and a = a for a, unfolded move_plain, simplified]

lemma bounded_move:
  "walk_bounded n a \<Longrightarrow> i < launched a \<Longrightarrow> walk_bounded n (move i s tw t a)"
  by (auto simp: walk_bounded_def)

lemma bounded_active: "walk_bounded n a \<Longrightarrow> target a i \<noteq> Idle \<Longrightarrow> i < launched a \<and> i < n"
  unfolding walk_bounded_def by (metis leI le_add1 less_le_trans)

text \<open>What a walker looks at can be reached from the seeds.\<close>

lemma held_reachable:
  assumes "walk_inv E C a" and "target a i = Held e"
  shows "e \<in> E\<^sup>* `` C"
proof -
  let ?tw = "tower a i"
  have ok: "tower_ok E C (sub a) i {e} ?tw" and ne: "?tw \<noteq> []"
    using walk_inv_walker(1,2) [OF assms(1), where i = i] assms(2) by auto
  have "(fst (last ?tw), fst (hd ?tw)) \<in> E\<^sup>*" using ne by (intro tower_descends [OF ok]) simp
  then have "(fst (last ?tw), e) \<in> E\<^sup>*" using top_edge [OF ok ne] by (auto intro: rtrancl_into_rtrancl)
  then show ?thesis using tower_bottom [OF ok ne] by blast
qed

lemma walk_step_bounded: "walk_step fetch a a' \<Longrightarrow> walk_bounded n a \<Longrightarrow> walk_bounded n a'"
proof (induction rule: walk_step.cases)
  case (launch a s rest i)
  then show ?case by (auto simp: walk_bounded_def)
qed (use bounded_active bounded_move in fastforce)+

theorem walk_step_decreases:
  assumes "walk_step fetch a a'" and "auth_wf fetch" and "walk_inv (auth_edges fetch) C a"
    and "finite C" and "walk_bounded n a"
  shows "(a', a) \<in> measures (walk_measures ((auth_edges fetch)\<^sup>* `` C) n)"
proof -
  let ?E = "auth_edges fetch" let ?U = "?E\<^sup>* `` C"
  have U: "finite ?U" by (rule finite_reachable [OF assms(2,4)])
  have bound: "target a i \<noteq> Idle \<Longrightarrow> i < n" for i using bounded_active [OF assms(5)] by blast
  have tower: "tower_ok ?E C (sub a) i (cur (target a i)) (tower a i)" for i
    by (rule walk_inv_walker(1) [OF assms(3)])
  have mark: "progress i (sub a) (mark (insert e (nodes (tower a i))) (sub a))"
    if "sub a e = Some Conflicted \<or> sub a e = Some Subgraph" for i e
    by (rule mark_progress [OF tower that])
  have kill: "card (untouched ?U (kill e (sub a))) \<le> card (untouched ?U (sub a))" for e
    by (rule card_mono [OF finite_untouched [OF U]]) (auto simp: untouched_def kill_def split: if_splits)
  show ?thesis using assms(1)
  proof cases
    case (launch s rest i)
    then have "i < n" using assms(5) by (simp add: walk_bounded_def)
    then show ?thesis unfolding launch(1) by (intro move_decreases) (use launch in auto)
  next
    case (eval_sub i e)
    then show ?thesis using bound [of i] untouched_le [OF U mark]
      by (auto intro!: move_decreases_plain simp: rank_def fetches_def)
  next
    case (woken_sub i e)
    then show ?thesis using bound [of i] untouched_le [OF U mark]
      by (auto intro!: move_decreases_plain simp: rank_def fetches_def)
  next
    case (eval_conf i e)
    have "e \<in> ?U" by (rule held_reachable [OF assms(3)]) (use eval_conf in simp)
    then have "card (untouched ?U (mark (insert e (nodes (tower a i))) (sub a))) < card (untouched ?U (sub a))"
      using eval_conf by (intro untouched_less [OF U mark, of e e]) (auto simp: untouched_def mark_def)
    then show ?thesis unfolding eval_conf(1) using bound [of i] eval_conf by (intro move_decreases_plain) auto
  next
    case (eval_new i e)
    have "e \<in> ?U" by (rule held_reachable [OF assms(3)]) (use eval_new in simp)
    moreover have "progress i (sub a) ((sub a)(e \<mapsto> Pending i))"
      using eval_new by (auto simp: progress_def final_def)
    ultimately have "card (untouched ?U ((sub a)(e \<mapsto> Pending i))) < card (untouched ?U (sub a))"
      using eval_new by (intro untouched_less [OF U, of i _ _ e]) (auto simp: untouched_def)
    then show ?thesis unfolding eval_new(1) using bound [of i] eval_new by (intro move_decreases_plain) auto
  qed (use bound kill in \<open>auto intro!: move_decreases_plain simp: rank_def fetches_def\<close>)
qed

end
