(* ===== verification/Conflicted_Subgraph.thy ===== *)
theory Conflicted_Subgraph
  imports Subgraph_Stops Conflicts
begin

text \<open>
  The conflicted state subgraph (\<^verbatim>\<open>state_res/resolve/conflicted_subgraph.rs\<close>): one walker per conflicted event
  searches the auth events depth first; the walkers share a table of node states, park on nodes that
  another walker owns and are woken when the owner has settled them. At most \<open>width\<close> fetches are in flight.
  Which of them completes first is the scheduler's choice \<open>dfs_pick\<close>; the width in force when an item is
  polled is \<open>dfs_width\<close>. Walker numbers are natural numbers; the code keeps them in a \<^verbatim>\<open>u32\<close>, which is enough
  for fewer than \<open>2 ^ 32\<close> conflicted events.
\<close>

section \<open>State\<close>

datatype resolution = RDead | RSubgraph

datatype evaluation = Continue | Fetch event_id | Park

record local_state =
  path :: "event_id list"
  stack :: "event_id list list"
  marked :: nat

record wake =
  wake_event :: event_id
  wake_locals :: "nat list"
  wake_result :: resolution

text \<open>The part of the state a walker borrows (\<^verbatim>\<open>Context\<close>), with the items of the current poll.\<close>

record shared =
  subgraph :: node_states
  waiters :: "(event_id \<times> nat list) list"
  ready_wakes :: "wake list"
  parked :: nat
  outputs :: "event_id list"

record global =
  todo :: "(nat \<times> event_id) list"
  locals :: "local_state list"
  deferred :: "(nat \<times> event_id) list"
  shared_of :: shared

record dfs_schedule =
  dfs_width :: "nat \<Rightarrow> nat"
  dfs_pick :: "nat \<Rightarrow> nat"

definition local_default :: local_state where
  "local_default = \<lparr> path = [], stack = [], marked = 0 \<rparr>"

section \<open>Settling nodes\<close>

definition substate_of :: "resolution \<Rightarrow> substate" where
  "substate_of r = (case r of RDead \<Rightarrow> Dead | RSubgraph \<Rightarrow> Subgraph)"

definition release_waiters :: "event_id \<Rightarrow> resolution \<Rightarrow> shared \<Rightarrow> shared" where
  "release_waiters e r c =
     (if waiters c = [] then c
      else case map_of (waiters c) e of
        None \<Rightarrow> c
      | Some ls \<Rightarrow> c \<lparr> waiters := filter (\<lambda>w. fst w \<noteq> e) (waiters c), parked := parked c - length ls,
          ready_wakes := ready_wakes c @ [\<lparr> wake_event = e, wake_locals = ls, wake_result = r \<rparr>] \<rparr>)"

definition complete_pending :: "shared \<Rightarrow> event_id \<Rightarrow> resolution \<Rightarrow> shared" where
  "complete_pending c e r = (case subgraph c e of
     Some (Pending _) \<Rightarrow> release_waiters e r (c \<lparr> subgraph := (subgraph c)(e \<mapsto> substate_of r) \<rparr>)
   | _ \<Rightarrow> c)"

definition insert_path_filter :: "shared \<Rightarrow> event_id \<Rightarrow> bool \<times> shared" where
  "insert_path_filter c e =
     (let c' = c \<lparr> subgraph := (subgraph c)(e \<mapsto> Subgraph) \<rparr>
      in case subgraph c e of
        None \<Rightarrow> (True, c')
      | Some Subgraph \<Rightarrow> (False, c)
      | Some (Pending _) \<Rightarrow> (True, release_waiters e RSubgraph c')
      | Some _ \<Rightarrow> (True, c'))"

definition insert_event :: "event_id \<Rightarrow> shared \<Rightarrow> shared" where
  "insert_event e c =
     (let (inserted, c') = insert_path_filter c e
      in if inserted then c' \<lparr> outputs := outputs c' @ [e] \<rparr> else c')"

definition insert_path :: "local_state \<Rightarrow> shared \<Rightarrow> event_id \<Rightarrow> local_state \<times> shared" where
  "insert_path l c e =
     (l \<lparr> marked := length (path l) \<rparr>, fold insert_event (drop (marked l) (path l) @ [e]) c)"

section \<open>A walker\<close>

function pop_frames :: "local_state \<Rightarrow> shared \<Rightarrow> local_state \<times> shared" where
  "pop_frames l c =
     (if stack l \<noteq> [] \<and> last (stack l) = [] then
        (if path l = [] then pop_frames (l \<lparr> stack := butlast (stack l) \<rparr>) c
         else pop_frames (l \<lparr> stack := butlast (stack l), path := butlast (path l) \<rparr>)
           (complete_pending c (last (path l)) RDead))
      else (l, c))"
  by pat_completeness auto
termination
  by (relation "measure (\<lambda>(l, c). length (stack l))") auto

declare pop_frames.simps [simp del]

definition pop_local :: "local_state \<Rightarrow> shared \<Rightarrow> event_id option \<times> local_state \<times> shared" where
  "pop_local l c =
     (let (l1, c1) = pop_frames l c;
          l2 = l1 \<lparr> marked := min (marked l1) (length (path l1)) \<rparr>
      in if stack l2 = [] then (None, l2, c1)
         else (Some (last (last (stack l2))),
               l2 \<lparr> stack := butlast (stack l2) @ [butlast (last (stack l2))] \<rparr>, c1))"

text \<open>The parked walkers are counted with a saturating addition; there are fewer walkers than its limit.\<close>

definition push_waiter :: "event_id \<Rightarrow> nat \<Rightarrow> shared \<Rightarrow> shared" where
  "push_waiter e i c = c \<lparr> waiters := upsert e [] (\<lambda>ls. ls @ [i]) (waiters c), parked := parked c + 1 \<rparr>"

definition eval_event :: "nat \<Rightarrow> local_state \<Rightarrow> shared \<Rightarrow> event_id \<Rightarrow> evaluation \<times> local_state \<times> shared" where
  "eval_event i l c e = (case subgraph c e of
     Some Subgraph \<Rightarrow> (Continue, insert_path l c e)
   | Some Dead \<Rightarrow> (Continue, l, c)
   | Some (Pending j) \<Rightarrow> if j = i then (Continue, l, c) else (Park, l, push_waiter e i c)
   | Some Conflicted \<Rightarrow>
       (if path l \<noteq> [] \<and> hd (path l) = e then Continue else Fetch e, insert_path l c e)
   | None \<Rightarrow> (Fetch e, l, c \<lparr> subgraph := (subgraph c)(e \<mapsto> Pending i) \<rparr>))"

definition frame_size :: "local_state \<Rightarrow> nat" where
  "frame_size l = length (concat (stack l))"


lemma pop_frames_size: "pop_frames l c = (l', c') \<Longrightarrow> frame_size l' = frame_size l"
proof (induction l c arbitrary: l' c' rule: pop_frames.induct)
  case (1 l c)
  show ?case
  proof (cases "stack l \<noteq> [] \<and> last (stack l) = []")
    case True
    then have "frame_size (l \<lparr> stack := butlast (stack l) \<rparr>) = frame_size l"
      by (cases "stack l" rule: rev_cases) (auto simp: frame_size_def)
    then show ?thesis using 1 True
      by (auto simp: pop_frames.simps [of l c] frame_size_def split: if_splits)
  qed (use "1.prems" in \<open>auto simp: pop_frames.simps [of l c]\<close>)
qed

lemma pop_frames_top: "pop_frames l c = (l', c') \<Longrightarrow> stack l' \<noteq> [] \<Longrightarrow> last (stack l') \<noteq> []"
proof (induction l c arbitrary: l' c' rule: pop_frames.induct)
  case (1 l c)
  note eq = pop_frames.simps [of l c]
  consider "stack l \<noteq> [] \<and> last (stack l) = []" "path l = []"
    | "stack l \<noteq> [] \<and> last (stack l) = []" "path l \<noteq> []" | "\<not> (stack l \<noteq> [] \<and> last (stack l) = [])"
    by blast
  then show ?case
  proof cases
    case 1
    then show ?thesis using "1.IH"(1) [OF 1] "1.prems" eq by simp
  next
    case 2
    then show ?thesis using "1.IH"(2) [OF 2] "1.prems" eq by simp
  next
    case 3
    then show ?thesis using "1.prems" eq by auto
  qed
qed

lemma pop_local_size: "pop_local l c = (Some e, l', c') \<Longrightarrow> frame_size l' < frame_size l"
proof -
  assume pop: "pop_local l c = (Some e, l', c')"
  obtain l1 c1 where 1: "pop_frames l c = (l1, c1)" by fastforce
  have "stack l1 \<noteq> []" using pop 1 by (auto simp: pop_local_def Let_def split: if_splits)
  then obtain fs f where "stack l1 = fs @ [f]" by (cases "stack l1" rule: rev_cases) auto
  then show ?thesis using pop 1 pop_frames_size [OF 1] pop_frames_top [OF 1]
    by (cases f rule: rev_cases) (auto simp: pop_local_def Let_def frame_size_def)
qed

lemma eval_event_stack: "eval_event i l c e = (ev, l', c') \<Longrightarrow> stack l' = stack l \<and> path l' = path l"
  by (auto simp: eval_event_def insert_path_def split: option.splits substate.splits if_splits)

function advance_local :: "nat \<Rightarrow> local_state \<Rightarrow> shared \<Rightarrow> event_id option \<times> local_state \<times> shared" where
  "advance_local i l c = (case pop_local l c of
     (None, l1, c1) \<Rightarrow> (None, if stack l1 = [] then local_default else l1, c1)
   | (Some e, l1, c1) \<Rightarrow> (case eval_event i l1 c1 e of
       (Continue, l2, c2) \<Rightarrow> advance_local i l2 c2
     | (Fetch e', l2, c2) \<Rightarrow> (Some e', l2, c2)
     | (Park, l2, c2) \<Rightarrow> (None, l2, c2)))"
  by pat_completeness auto
termination
  by (relation "measure (\<lambda>(i, l, c). frame_size l)")
    (auto dest!: pop_local_size [OF sym] eval_event_stack [OF sym] simp: frame_size_def)

declare advance_local.simps [simp del]

section \<open>The driver\<close>

definition advance :: "nat \<Rightarrow> global \<Rightarrow> event_id option \<times> global" where
  "advance i g =
     (let (nx, l, c) = advance_local i (locals g ! i) (shared_of g)
      in (nx, g \<lparr> locals := (locals g)[i := l], shared_of := c \<rparr>))"

definition process_fetch :: "nat \<Rightarrow> event_id \<Rightarrow> pdu res \<Rightarrow> global \<Rightarrow> event_id option \<times> global" where
  "process_fetch i e event g = advance i (case event of
     Inr ev \<Rightarrow> g \<lparr> locals := (locals g)[i := (locals g ! i)
       \<lparr> path := path (locals g ! i) @ [e], stack := stack (locals g ! i) @ [auth_events ev] \<rparr>] \<rparr>
   | Inl _ \<Rightarrow> g \<lparr> shared_of := complete_pending (shared_of g) e RDead \<rparr>)"

definition resume :: "nat \<Rightarrow> event_id \<Rightarrow> resolution \<Rightarrow> global \<Rightarrow> event_id option \<times> global" where
  "resume i e r g = advance i (case r of
     RSubgraph \<Rightarrow> (let (l, c) = insert_path (locals g ! i) (shared_of g) e
       in g \<lparr> locals := (locals g)[i := l], shared_of := c \<rparr>)
   | RDead \<Rightarrow> g)"

definition dispatch :: "nat \<Rightarrow> nat \<Rightarrow> event_id option \<times> global \<Rightarrow> global" where
  "dispatch width i r = (case r of
     (None, g) \<Rightarrow> g
   | (Some e, g) \<Rightarrow> if length (todo g) < width then g \<lparr> todo := todo g @ [(i, e)] \<rparr>
                     else g \<lparr> deferred := deferred g @ [(i, e)] \<rparr>)"

definition resume_all :: "nat \<Rightarrow> event_id \<Rightarrow> resolution \<Rightarrow> nat list \<Rightarrow> global \<Rightarrow> global" where
  "resume_all width e r ls = fold (\<lambda>i g. dispatch width i (resume i e r g)) ls"

partial_function (option) drain_ready :: "nat \<Rightarrow> global \<Rightarrow> global option" where
  "drain_ready width g =
     (let ws = ready_wakes (shared_of g)
      in if ws = [] then Some g
         else drain_ready width (resume_all width (wake_event (last ws)) (wake_result (last ws))
           (wake_locals (last ws)) (g \<lparr> shared_of := (shared_of g) \<lparr> ready_wakes := butlast ws \<rparr> \<rparr>)))"

declare drain_ready.simps [code]

function refill :: "nat \<Rightarrow> event_id list \<Rightarrow> global \<Rightarrow> event_id list \<times> global" where
  "refill width inputs g =
     (if length (todo g) < width then
        (case deferred g of
           d # ds \<Rightarrow> refill width inputs (g \<lparr> deferred := ds, todo := todo g @ [d] \<rparr>)
         | [] \<Rightarrow> (case inputs of
             [] \<Rightarrow> (inputs, g)
           | seed # rest \<Rightarrow> refill width rest
               (g \<lparr> locals := locals g @ [local_default], todo := todo g @ [(length (locals g), seed)] \<rparr>)))
      else (inputs, g))"
  by pat_completeness auto
termination
  by (relation "measure (\<lambda>(w, inputs, g). length (deferred g) + length inputs)") auto

declare refill.simps [simp del]

definition drain_deferred :: "nat \<Rightarrow> global \<Rightarrow> global" where
  "drain_deferred width g = snd (refill width [] g)"

definition remove_nth :: "nat \<Rightarrow> 'a list \<Rightarrow> 'a list" where
  "remove_nth k xs = take k xs @ drop (Suc k) xs"

text \<open>One completed fetch: the walker that asked for it goes on, and so do the walkers it wakes.\<close>

definition complete_fetch ::
  "nat \<Rightarrow> nat \<Rightarrow> fetch_event \<Rightarrow> global \<Rightarrow> (event_id list \<times> global) option" where
  "complete_fetch width choice fetch g =
     (let k = choice mod length (todo g); (i, e) = todo g ! k;
          g1 = g \<lparr> todo := remove_nth k (todo g), shared_of := (shared_of g) \<lparr> outputs := [] \<rparr> \<rparr>;
          g2 = dispatch width i (process_fetch i e (fetch e) (drain_deferred width g1))
      in map_option (\<lambda>g3. (outputs (shared_of g3), g3)) (drain_ready width g2))"

partial_function (option) subgraph_stream ::
  "dfs_schedule \<Rightarrow> fetch_event \<Rightarrow> nat \<Rightarrow> event_id list \<Rightarrow> global \<Rightarrow> event_id list option" where
  "subgraph_stream D fetch n inputs g =
     (let (inputs', g') = refill (dfs_width D n) inputs g
      in if todo g' = [] then Some []
         else Option.bind (complete_fetch (dfs_width D n) (dfs_pick D n) fetch g') (\<lambda>(outs, g'').
           Option.bind (subgraph_stream D fetch (Suc n) inputs' g'') (\<lambda>rest. Some (outs @ rest))))"

declare subgraph_stream.simps [code]

definition global_init :: "event_id list \<Rightarrow> global" where
  "global_init seeds = \<lparr> todo = [], locals = [], deferred = [],
     shared_of = \<lparr> subgraph = (\<lambda>x. if x \<in> set seeds then Some Conflicted else None), waiters = [],
       ready_wakes = [], parked = 0, outputs = [] \<rparr> \<rparr>"

definition conflicted_subgraph_dfs :: "dfs_schedule \<Rightarrow> event_id list \<Rightarrow> fetch_event \<Rightarrow> event_id list option" where
  "conflicted_subgraph_dfs D seeds fetch = subgraph_stream D fetch 0 seeds (global_init seeds)"

end
