(* ===== verification/Subgraph_Sim.thy ===== *)
theory Subgraph_Sim
  imports Conflicted_Subgraph
begin

text \<open>
  The relation between the detailed search of \<open>Conflicted_Subgraph\<close> and the machine of \<open>Subgraph_Walk\<close>, and what
  settling nodes does to the parked walkers: exactly those that wait for a settled node are woken, each once.
\<close>

section \<open>Settling nodes\<close>

definition waiting_of :: "(event_id \<times> nat list) list \<Rightarrow> (nat \<times> event_id) list" where
  "waiting_of ws = concat (map (\<lambda>(e, ls). map (\<lambda>i. (i, e)) ls) ws)"

definition woken_of :: "wake list \<Rightarrow> (nat \<times> event_id \<times> resolution) list" where
  "woken_of ws = concat (map (\<lambda>w. map (\<lambda>i. (i, wake_event w, wake_result w)) (wake_locals w)) ws)"

definition resolution_of :: "substate option \<Rightarrow> resolution" where
  "resolution_of s = (if s = Some Dead then RDead else RSubgraph)"

text \<open>The bookkeeping of parked walkers: they wait for nodes that are pending, and \<open>parked\<close> counts them.\<close>

definition parking_ok :: "shared \<Rightarrow> bool" where
  "parking_ok c \<longleftrightarrow> distinct (map fst (waiters c)) \<and>
     (\<forall>e \<in> fst ` set (waiters c). \<exists>j. subgraph c e = Some (Pending j)) \<and>
     parked c = length (waiting_of (waiters c))"

definition settled :: "shared \<Rightarrow> shared \<Rightarrow> bool" where
  "settled c c' \<longleftrightarrow>
     waiters c' = filter (\<lambda>w. \<not> final (subgraph c' (fst w))) (waiters c) \<and>
     mset (woken_of (ready_wakes c')) = mset (woken_of (ready_wakes c)) +
       mset (map (\<lambda>(i, e). (i, e, resolution_of (subgraph c' e)))
         (filter (\<lambda>w. final (subgraph c' (snd w))) (waiting_of (waiters c)))) \<and>
     (\<forall>x. final (subgraph c x) \<longrightarrow> subgraph c' x = subgraph c x) \<and>
     parking_ok c'"

lemma waiting_of_simps [simp]:
  "waiting_of [] = []" "waiting_of ((e, ls) # ws) = map (\<lambda>i. (i, e)) ls @ waiting_of ws"
  "waiting_of (ws @ ws') = waiting_of ws @ waiting_of ws'"
  by (simp_all add: waiting_of_def)

lemma woken_of_simps [simp]:
  "woken_of [] = []" "woken_of (ws @ ws') = woken_of ws @ woken_of ws'"
  "woken_of [w] = map (\<lambda>i. (i, wake_event w, wake_result w)) (wake_locals w)"
  by (simp_all add: woken_of_def)

lemma waiting_of_filter: "waiting_of (filter (\<lambda>w. P (fst w)) ws) = filter (\<lambda>w. P (snd w)) (waiting_of ws)"
  by (induction ws) (auto simp: filter_map comp_def)

lemma in_waiting_of: "(i, e) \<in> set (waiting_of ws) \<longleftrightarrow> (\<exists>ls. (e, ls) \<in> set ws \<and> i \<in> set ls)"
  by (auto simp: waiting_of_def)

lemma mset_filter_stages:
  "(\<And>x. P x \<Longrightarrow> Q x) \<Longrightarrow>
   mset (map f (filter P xs)) + mset (map f (filter Q (filter (\<lambda>x. \<not> P x) xs))) = mset (map f (filter Q xs))"
  by (induction xs) (simp_all del: mset_map mset_filter filter_filter)

lemma parking_waiting:
  assumes "parking_ok c"
  shows "(e, ls) \<in> set (waiters c) \<Longrightarrow> \<not> final (subgraph c e)"
    and "(i, e) \<in> set (waiting_of (waiters c)) \<Longrightarrow> \<not> final (subgraph c e)"
  using assms unfolding parking_ok_def in_waiting_of by (force simp: final_def)+

lemma settled_refl: "parking_ok c \<Longrightarrow> settled c c"
proof -
  assume ok: "parking_ok c"
  have "filter (\<lambda>w. \<not> final (subgraph c (fst w))) (waiters c) = waiters c"
    using parking_waiting(1) [OF ok] by (auto simp: filter_id_conv)
  moreover have "filter (\<lambda>w. final (subgraph c (snd w))) (waiting_of (waiters c)) = []"
    using parking_waiting(2) [OF ok] by (auto simp: filter_empty_conv)
  ultimately show ?thesis using ok by (simp add: settled_def del: mset_filter)
qed

lemma settled_trans:
  assumes "settled c c'" and "settled c' c''"
  shows "settled c c''"
proof -
  let ?s' = "subgraph c'" and ?s'' = "subgraph c''"
  have keep: "final (?s' x) \<Longrightarrow> ?s'' x = ?s' x" for x using assms(2) by (simp add: settled_def)
  then have f: "\<not> final (?s'' x) \<Longrightarrow> \<not> final (?s' x)" for x by metis
  have "waiters c'' = filter (\<lambda>w. \<not> final (?s'' (fst w))) (waiters c)"
    using assms f unfolding settled_def by (auto intro!: filter_cong)
  moreover have "mset (woken_of (ready_wakes c'')) = mset (woken_of (ready_wakes c)) +
      mset (map (\<lambda>(i, e). (i, e, resolution_of (?s'' e)))
        (filter (\<lambda>w. final (?s'' (snd w))) (waiting_of (waiters c))))"
  proof -
    let ?w = "waiting_of (waiters c)" and ?r'' = "\<lambda>(i, e). (i, e, resolution_of (?s'' e))"
    have same: "map (\<lambda>(i, e). (i, e, resolution_of (?s' e))) (filter (\<lambda>w. final (?s' (snd w))) ?w) =
        map ?r'' (filter (\<lambda>w. final (?s' (snd w))) ?w)"
      using keep by auto
    have wait: "waiting_of (waiters c') = filter (\<lambda>w. \<not> final (?s' (snd w))) ?w"
      using assms(1) waiting_of_filter [of "\<lambda>e. \<not> final (?s' e)"] by (simp add: settled_def)
    have stages: "mset (map ?r'' (filter (\<lambda>w. final (?s' (snd w))) ?w)) +
        mset (map ?r'' (filter (\<lambda>w. final (?s'' (snd w))) (filter (\<lambda>w. \<not> final (?s' (snd w))) ?w))) =
        mset (map ?r'' (filter (\<lambda>w. final (?s'' (snd w))) ?w))"
      by (rule mset_filter_stages) (use keep in metis)
    have "mset (woken_of (ready_wakes c'')) = mset (woken_of (ready_wakes c')) +
        mset (map ?r'' (filter (\<lambda>w. final (?s'' (snd w))) (waiting_of (waiters c'))))"
      using assms(2) unfolding settled_def by blast
    also have "mset (woken_of (ready_wakes c')) = mset (woken_of (ready_wakes c)) +
        mset (map ?r'' (filter (\<lambda>w. final (?s' (snd w))) ?w))"
      using assms(1) unfolding settled_def same by blast
    finally show ?thesis unfolding wait stages [symmetric] by (simp only: add.assoc)
  qed
  moreover have "final (subgraph c x) \<longrightarrow> ?s'' x = subgraph c x" for x
    using assms unfolding settled_def by metis
  ultimately show ?thesis using assms(2) unfolding settled_def by blast
qed

lemma waiting_of_key:
  assumes "distinct (map fst ws)"
  shows "filter (\<lambda>w. snd w = e) (waiting_of ws) = (case map_of ws e of None \<Rightarrow> [] | Some ls \<Rightarrow> map (\<lambda>i. (i, e)) ls)"
  using assms
proof (induction ws)
  case (Cons w ws)
  obtain k ls where w: "w = (k, ls)" by (cases w)
  have "e = k \<Longrightarrow> map_of ws e = None" using Cons.prems w by (simp add: map_of_eq_None_iff)
  then show ?case using Cons w by (auto simp: filter_map comp_def)
qed simp

text \<open>One node becomes final: exactly the walkers parked on it are woken.\<close>

lemma settle_node:
  assumes "parking_ok c" and "\<not> final (subgraph c e)"
    and "subgraph c' = (subgraph c)(e \<mapsto> substate_of r)"
    and "waiters c' = filter (\<lambda>w. fst w \<noteq> e) (waiters c)"
    and "woken_of (ready_wakes c') = woken_of (ready_wakes c) @
      (case map_of (waiters c) e of None \<Rightarrow> [] | Some ls \<Rightarrow> map (\<lambda>i. (i, e, r)) ls)"
    and "parked c' = parked c - (case map_of (waiters c) e of None \<Rightarrow> 0 | Some ls \<Rightarrow> length ls)"
  shows "settled c c'"
proof -
  let ?w = "waiting_of (waiters c)"
  have keys: "distinct (map fst (waiters c))" using assms(1) by (simp add: parking_ok_def)
  have fin: "final (subgraph c' x) \<longleftrightarrow> x = e \<or> final (subgraph c x)" for x
    using assms(3) by (cases r) (auto simp: final_def substate_of_def)
  have 1: "waiters c' = filter (\<lambda>w. \<not> final (subgraph c' (fst w))) (waiters c)"
    unfolding assms(4) using parking_waiting(1) [OF assms(1)] fin by (auto intro!: filter_cong)
  have 2: "filter (\<lambda>w. final (subgraph c' (snd w))) ?w = filter (\<lambda>w. snd w = e) ?w"
    using parking_waiting(2) [OF assms(1)] fin by (auto intro!: filter_cong)
  have 3: "resolution_of (subgraph c' e) = r"
    using assms(3) by (cases r) (auto simp: resolution_of_def substate_of_def)
  have 4: "woken_of (ready_wakes c') = woken_of (ready_wakes c) @
      map (\<lambda>(i, e). (i, e, resolution_of (subgraph c' e))) (filter (\<lambda>w. final (subgraph c' (snd w))) ?w)"
    unfolding assms(5) 2 waiting_of_key [OF keys] using 3 by (auto split: option.splits)
  have "parking_ok c'"
  proof -
    have wait: "waiting_of (waiters c') = filter (\<lambda>w. snd w \<noteq> e) ?w"
      unfolding assms(4) by (rule waiting_of_filter)
    have "length (filter (\<lambda>w. snd w = e) ?w) + length (filter (\<lambda>w. snd w \<noteq> e) ?w) = length ?w"
      by (rule sum_length_filter_compl)
    then have "parked c' = length (waiting_of (waiters c'))"
      unfolding assms(6) wait waiting_of_key [OF keys] using assms(1)
      by (cases "map_of (waiters c) e") (simp_all add: parking_ok_def)
    moreover have "distinct (map fst (waiters c'))"
      unfolding assms(4) using keys by (rule distinct_map_filter)
    moreover have "\<exists>j. subgraph c' x = Some (Pending j)" if "x \<in> fst ` set (waiters c')" for x
      using that assms(1,3,4) by (force simp: parking_ok_def)
    ultimately show ?thesis by (simp add: parking_ok_def)
  qed
  then show ?thesis unfolding settled_def using 1 4 fin assms(2,3) by auto
qed

lemma release_settled:
  fixes r :: resolution
  assumes "parking_ok c" and "\<not> final (subgraph c e)"
  defines "c' \<equiv> release_waiters e r (c \<lparr> subgraph := (subgraph c)(e \<mapsto> substate_of r) \<rparr>)"
  shows "settled c c'" and "subgraph c' = (subgraph c)(e \<mapsto> substate_of r)" and "outputs c' = outputs c"
proof -
  have "filter (\<lambda>w. fst w \<noteq> e) (waiters c) = waiters c" if "map_of (waiters c) e = None"
    using that by (auto simp: filter_id_conv map_of_eq_None_iff)
  then show "settled c c'"
    using assms(1,2) unfolding c'_def release_waiters_def
    by (intro settle_node [where e = e and r = r]) (auto split: option.splits)
qed (auto simp: c'_def release_waiters_def split: option.splits)

lemma plain_settled:
  assumes "parking_ok c" and "subgraph c e = None \<or> subgraph c e = Some Conflicted"
  shows "settled c (c \<lparr> subgraph := (subgraph c)(e \<mapsto> Subgraph) \<rparr>)"
proof -
  have none: "map_of (waiters c) e = None"
    using assms by (force simp: parking_ok_def map_of_eq_None_iff)
  then have "filter (\<lambda>w. fst w \<noteq> e) (waiters c) = waiters c"
    by (auto simp: filter_id_conv map_of_eq_None_iff)
  then show ?thesis using assms none
    by (intro settle_node [where e = e and r = RSubgraph]) (auto simp: final_def substate_of_def)
qed

lemma complete_settled:
  assumes "parking_ok c"
  shows "settled c (complete_pending c e RDead)" and "subgraph (complete_pending c e RDead) = kill e (subgraph c)"
    and "outputs (complete_pending c e RDead) = outputs c"
proof -
  have "settled c (complete_pending c e RDead) \<and> subgraph (complete_pending c e RDead) = kill e (subgraph c) \<and>
      outputs (complete_pending c e RDead) = outputs c"
  proof (cases "\<exists>j. subgraph c e = Some (Pending j)")
    case True
    then have fin: "\<not> final (subgraph c e)" by (auto simp: final_def)
    show ?thesis using True release_settled [OF assms fin, where r = RDead]
      by (auto simp: complete_pending_def kill_def substate_of_def)
  next
    case False
    then have "complete_pending c e RDead = c"
      by (auto simp: complete_pending_def split: option.splits substate.splits)
    with False show ?thesis using settled_refl [OF assms] by (simp add: kill_def)
  qed
  then show "settled c (complete_pending c e RDead)" and "subgraph (complete_pending c e RDead) = kill e (subgraph c)"
    and "outputs (complete_pending c e RDead) = outputs c" by blast+
qed

lemma settled_parking: "settled c c' \<Longrightarrow> parking_ok c'"
  by (simp add: settled_def)

lemma parking_outputs [simp]: "parking_ok (c \<lparr> outputs := xs \<rparr>) = parking_ok c"
  by (simp add: parking_ok_def)

lemma settled_outputs: "settled c (c' \<lparr> outputs := xs \<rparr>) = settled c c'"
  by (simp add: settled_def)

lemma insert_event_settled:
  assumes "parking_ok c" and "subgraph c e \<noteq> Some Dead"
  shows "settled c (insert_event e c) \<and> subgraph (insert_event e c) = (subgraph c)(e \<mapsto> Subgraph) \<and>
    outputs (insert_event e c) = outputs c @ (if subgraph c e = Some Subgraph then [] else [e])"
proof -
  consider "subgraph c e = Some Subgraph" | "subgraph c e = None \<or> subgraph c e = Some Conflicted"
    | j where "subgraph c e = Some (Pending j)"
    using assms(2) by (metis not_None_eq substate.exhaust)
  then show ?thesis
  proof cases
    case 1
    then show ?thesis using settled_refl [OF assms(1)]
      by (auto simp: insert_event_def insert_path_filter_def)
  next
    case 2
    then show ?thesis using plain_settled [OF assms(1) 2]
      by (auto simp: insert_event_def insert_path_filter_def settled_outputs)
  next
    case 3
    then have "\<not> final (subgraph c e)" by (simp add: final_def)
    then show ?thesis using 3 release_settled [OF assms(1), of e RSubgraph]
      by (auto simp: insert_event_def insert_path_filter_def substate_of_def settled_outputs)
  qed
qed

lemma fold_insert_settled:
  assumes "parking_ok c" and "\<And>x. x \<in> set xs \<Longrightarrow> subgraph c x \<noteq> Some Dead"
  shows "settled c (fold insert_event xs c) \<and> subgraph (fold insert_event xs c) = mark (set xs) (subgraph c) \<and>
    (\<exists>new. outputs (fold insert_event xs c) = outputs c @ new \<and> distinct new \<and>
      set new = {x \<in> set xs. subgraph c x \<noteq> Some Subgraph})"
  using assms
proof (induction xs arbitrary: c)
  case Nil
  then show ?case using settled_refl by (auto simp: mark_def)
next
  case (Cons x xs)
  let ?c = "insert_event x c"
  have c: "settled c ?c" "subgraph ?c = (subgraph c)(x \<mapsto> Subgraph)"
    "outputs ?c = outputs c @ (if subgraph c x = Some Subgraph then [] else [x])"
    using insert_event_settled [OF Cons.prems(1)] Cons.prems(2) by simp_all
  have "parking_ok ?c" using c(1) by (rule settled_parking)
  moreover have "subgraph ?c y \<noteq> Some Dead" if "y \<in> set xs" for y
    using that c(2) Cons.prems(2) by simp
  ultimately obtain new where IH: "settled ?c (fold insert_event xs ?c)"
      "subgraph (fold insert_event xs ?c) = mark (set xs) (subgraph ?c)"
      "outputs (fold insert_event xs ?c) = outputs ?c @ new" "distinct new"
      "set new = {y \<in> set xs. subgraph ?c y \<noteq> Some Subgraph}"
    using Cons.IH [of ?c] by blast
  have "settled c (fold insert_event xs ?c)" by (rule settled_trans [OF c(1) IH(1)])
  moreover have "mark (set xs) (subgraph ?c) = mark (set (x # xs)) (subgraph c)"
    unfolding c(2) by (auto simp: mark_def)
  moreover have "\<exists>new'. outputs ?c @ new = outputs c @ new' \<and> distinct new' \<and>
      set new' = {y \<in> set (x # xs). subgraph c y \<noteq> Some Subgraph}"
    using IH(4,5) c(2,3) by (intro exI [of _ "(if subgraph c x = Some Subgraph then [] else [x]) @ new"])
      (auto split: if_splits)
  ultimately show ?case using IH(2,3) by simp
qed


section \<open>The simulation relation\<close>

definition local_sim :: "node_states \<Rightarrow> tower \<Rightarrow> local_state \<Rightarrow> bool" where
  "local_sim s tw l \<longleftrightarrow> path l = rev (map fst tw) \<and> stack l = rev (map snd tw) \<and>
     marked l \<le> length tw \<and> (\<forall>x \<in> set (take (marked l) (path l)). s x = Some Subgraph)"

text \<open>
  \<open>extra\<close> lists the woken walkers of the wake being worked on, \<open>out\<close> the items that have been streamed already.
\<close>

definition shared_sim :: "walk \<Rightarrow> shared \<Rightarrow> (nat \<times> event_id \<times> resolution) list \<Rightarrow> event_id list \<Rightarrow> bool" where
  "shared_sim a c extra out \<longleftrightarrow>
     subgraph c = sub a \<and> parking_ok c \<and>
     distinct (waiting_of (waiters c)) \<and> set (waiting_of (waiters c)) = {(i, e). target a i = Waiting e} \<and>
     distinct (map fst (extra @ woken_of (ready_wakes c))) \<and>
     (\<forall>i e. target a i = Woken e \<longleftrightarrow> (\<exists>r. (i, e, r) \<in> set (extra @ woken_of (ready_wakes c)))) \<and>
     (\<forall>(i, e, r) \<in> set (extra @ woken_of (ready_wakes c)). sub a e = Some (substate_of r)) \<and>
     distinct (out @ outputs c) \<and> set (out @ outputs c) = {x. sub a x = Some Subgraph}"

definition fetch_sim :: "walk \<Rightarrow> (nat \<times> event_id) list \<Rightarrow> bool" where
  "fetch_sim a fet \<longleftrightarrow> distinct (map fst fet) \<and> set fet = {(i, e). target a i = Fetching e}"

text \<open>Only the walkers in \<open>b\<close> are in the middle of something; \<open>w\<close> is how many were launched and what is left.\<close>

definition busy :: "walk \<Rightarrow> nat set" where
  "busy a = {i. target a i = Running \<or> (\<exists>e. target a i = Held e)}"

definition sim :: "nat \<times> event_id list \<Rightarrow> nat set \<Rightarrow> walk \<Rightarrow> (nat \<Rightarrow> local_state) \<Rightarrow> shared \<Rightarrow> (nat \<times> event_id) list \<Rightarrow>
    (nat \<times> event_id \<times> resolution) list \<Rightarrow> event_id list \<Rightarrow> bool" where
  "sim w b a L c fet extra out \<longleftrightarrow>
     shared_sim a c extra out \<and> (\<forall>j. local_sim (sub a) (tower a j) (L j)) \<and> fetch_sim a fet \<and> busy a \<subseteq> b \<and>
     (launched a, unlaunched a) = w"

lemma local_sim_mono:
  "local_sim s tw l \<Longrightarrow> (\<And>x. s x = Some Subgraph \<Longrightarrow> s' x = Some Subgraph) \<Longrightarrow> local_sim s' tw l"
  by (auto simp: local_sim_def)

lemma substate_resolution: "final s \<Longrightarrow> s = Some (substate_of (resolution_of s))"
  by (auto simp: final_def resolution_of_def substate_of_def)

text \<open>Which walkers are woken when walker \<open>i\<close> has settled some nodes.\<close>

definition woken_now :: "shared \<Rightarrow> shared \<Rightarrow> (nat \<times> event_id \<times> resolution) list" where
  "woken_now c c' = map (\<lambda>(i, e). (i, e, resolution_of (subgraph c' e)))
     (filter (\<lambda>w. final (subgraph c' (snd w))) (waiting_of (waiters c)))"

lemma woken_now_mem:
  "(i, e, r) \<in> set (woken_now c c') \<longleftrightarrow>
     (i, e) \<in> set (waiting_of (waiters c)) \<and> final (subgraph c' e) \<and> r = resolution_of (subgraph c' e)"
  by (auto simp: woken_now_def image_iff)

lemma settled_woken:
  assumes "settled c c'"
  shows "mset (woken_of (ready_wakes c')) = mset (woken_of (ready_wakes c) @ woken_now c c')"
  using assms unfolding settled_def woken_now_def mset_append by blast

lemma woken_distinct:
  assumes "shared_sim a c extra out" and "settled c c'"
  shows "distinct (map fst (extra @ woken_of (ready_wakes c')))"
proof -
  have wait: "(i, e) \<in> set (waiting_of (waiters c)) \<longleftrightarrow> target a i = Waiting e" for i e
    using assms(1) by (auto simp: shared_sim_def)
  have "distinct (map fst (filter P (waiting_of (waiters c))))" for P
    using assms(1) wait unfolding shared_sim_def distinct_map by (auto intro!: inj_onI)
  then have "distinct (map fst (woken_now c c'))"
    by (simp add: woken_now_def comp_def case_prod_unfold)
  moreover have "i \<notin> fst ` set (extra @ woken_of (ready_wakes c))" if mem: "i \<in> fst ` set (woken_now c c')" for i
  proof
    assume "i \<in> fst ` set (extra @ woken_of (ready_wakes c))"
    then obtain e where "target a i = Woken e" using assms(1) unfolding shared_sim_def by fastforce
    moreover obtain e' where "target a i = Waiting e'" using mem by (auto simp: woken_now_mem wait)
    ultimately show False by simp
  qed
  moreover have "distinct (map fst (extra @ woken_of (ready_wakes c)))" using assms(1) by (simp add: shared_sim_def)
  ultimately have "distinct (map fst (extra @ woken_of (ready_wakes c) @ woken_now c c'))"
    unfolding distinct_append map_append set_map by auto
  moreover have "mset (map fst (extra @ woken_of (ready_wakes c'))) =
      mset (map fst (extra @ woken_of (ready_wakes c) @ woken_now c c'))"
    using settled_woken [OF assms(2)] by (simp del: mset_append flip: mset_append) (simp flip: image_mset_union)
  ultimately show ?thesis by (metis mset_eq_imp_distinct_iff)
qed


lemma shared_sim_mem:
  assumes "shared_sim a c extra out"
  shows "(i, e) \<in> set (waiting_of (waiters c)) \<longleftrightarrow> target a i = Waiting e"
    and "(\<exists>r. (i, e, r) \<in> set (extra @ woken_of (ready_wakes c))) \<longleftrightarrow> target a i = Woken e"
    and "(i, e, r) \<in> set (extra @ woken_of (ready_wakes c)) \<Longrightarrow> sub a e = Some (substate_of r)"
  using assms unfolding shared_sim_def by (blast, blast, fast)

lemma shared_sim_move:
  assumes "shared_sim a c extra out" and "settled c c'"
    and "\<And>e. t \<noteq> Waiting e \<and> t \<noteq> Woken e \<and> target a i \<noteq> Waiting e"
    and "extra' = extra \<and> (\<forall>e. target a i \<noteq> Woken e) \<or> (\<exists>e r. extra = (i, e, r) # extra' \<and> target a i = Woken e)"
    and "distinct (out @ outputs c')" and "set (out @ outputs c') = {x. subgraph c' x = Some Subgraph}"
  shows "shared_sim (move i (subgraph c') tw t a) c' extra' out"
proof -
  let ?s = "subgraph c'" and ?w = "extra @ woken_of (ready_wakes c)" and ?w' = "extra' @ woken_of (ready_wakes c')"
  let ?t = "\<lambda>j. wake_target ?s (if j = i then t else target a j)"
  note mem = shared_sim_mem [OF assms(1)]
  have keep: "final (sub a x) \<Longrightarrow> ?s x = sub a x" for x
    using assms(1,2) by (auto simp: shared_sim_def settled_def)
  have wait: "waiting_of (waiters c') = filter (\<lambda>w. \<not> final (?s (snd w))) (waiting_of (waiters c))"
    using assms(2) waiting_of_filter [of "\<lambda>e. \<not> final (?s e)"] by (simp add: settled_def)
  have 1: "distinct (waiting_of (waiters c'))" using assms(1) unfolding wait by (simp add: shared_sim_def)
  have 2: "set (waiting_of (waiters c')) = {(j, e). ?t j = Waiting e}"
  proof -
    have "(j, e) \<in> set (waiting_of (waiters c')) \<longleftrightarrow> ?t j = Waiting e" for j e
      using mem(1) [of j e] assms(3) unfolding wait
      by (cases "j = i"; cases "target a j"; cases t) (auto split: if_splits)
    then show ?thesis by auto
  qed
  have full: "set (extra @ woken_of (ready_wakes c')) = set ?w \<union> set (woken_now c c')"
    using mset_eq_setD [OF settled_woken [OF assms(2)]] by auto
  have dist: "distinct (map fst (extra @ woken_of (ready_wakes c')))" by (rule woken_distinct [OF assms(1,2)])
  have fresh: "(i, e, r) \<notin> set ?w'" for e r
  proof
    assume "(i, e, r) \<in> set ?w'"
    moreover have "set ?w' \<subseteq> set ?w \<union> set (woken_now c c')" unfolding full [symmetric] using assms(4) by auto
    ultimately have "(i, e, r) \<in> set ?w \<union> set (woken_now c c')" and mem': "(i, e, r) \<in> set ?w'" by blast+
    then have "target a i = Woken e"
      using mem(1,2) [of i e] assms(3) unfolding woken_now_mem Un_iff by blast
    then obtain e' r' where "extra = (i, e', r') # extra'" using assms(4) by auto
    then have "i \<notin> fst ` set ?w'" using dist by (simp add: image_Un)
    then show False using imageI [OF mem', of fst] by simp
  qed
  have others: "(j, e, r) \<in> set ?w' \<longleftrightarrow> j \<noteq> i \<and> (j, e, r) \<in> set ?w \<union> set (woken_now c c')" for j e r
  proof -
    have "j \<noteq> i \<Longrightarrow> (j, e, r) \<in> set extra \<longleftrightarrow> (j, e, r) \<in> set extra'" using assms(4) by auto
    then show ?thesis using full fresh [of e r] by auto
  qed
  have 3: "distinct (map fst ?w')"
  proof -
    obtain pre where "extra = pre @ extra'" using assms(4) by (metis append_Cons append_Nil)
    then show ?thesis using dist by (simp only: append_assoc map_append distinct_append)
  qed
  have 4: "?t j = Woken e \<longleftrightarrow> (\<exists>r. (j, e, r) \<in> set ?w')" for j e
    using mem(1,2) [of j e] assms(3) unfolding others
    by (cases "j = i"; cases "target a j"; cases t) (auto simp: woken_now_mem split: if_splits)
  have 5: "?s e = Some (substate_of r)" if "(j, e, r) \<in> set ?w'" for j e r
  proof (cases "(j, e, r) \<in> set ?w")
    case True
    then have "sub a e = Some (substate_of r)" by (rule mem(3))
    moreover from this have "final (sub a e)" by (cases r) (auto simp: final_def substate_of_def)
    ultimately show ?thesis using keep by simp
  next
    case False
    then show ?thesis using that substate_resolution unfolding others by (auto simp: woken_now_mem)
  qed
  show ?thesis unfolding shared_sim_def move_simps
    by (intro conjI allI refl settled_parking [OF assms(2)] 1 2 3 4 assms(5,6)) (use 5 in fast)
qed

lemma sim_move:
  assumes "sim w b a L c fet extra out" and "settled c c'" and "local_sim (subgraph c') tw l"
    and "\<And>e. t \<noteq> Waiting e \<and> t \<noteq> Woken e \<and> target a i \<noteq> Waiting e"
    and "extra' = extra \<and> (\<forall>e. target a i \<noteq> Woken e) \<or> (\<exists>e r. extra = (i, e, r) # extra' \<and> target a i = Woken e)"
    and "distinct (out @ outputs c')" and "set (out @ outputs c') = {x. subgraph c' x = Some Subgraph}"
    and "distinct (map fst fet')"
    and "set fet' = {w \<in> set fet. fst w \<noteq> i} \<union> {(i, e) |e. t = Fetching e}" and "i \<in> b"
  shows "sim w b (move i (subgraph c') tw t a) (L(i := l)) c' fet' extra' out"
proof -
  have "wake_target s t' = Fetching e \<longleftrightarrow> t' = Fetching e" for s t' e by (cases t') auto
  then have "fetch_sim (move i (subgraph c') tw t a) fet'"
    using assms(1,8,9) by (auto simp: sim_def fetch_sim_def split: if_splits)
  moreover have "busy (move i (subgraph c') tw t a) \<subseteq> b"
  proof -
    have "wake_target s t' = Running \<longleftrightarrow> t' = Running" "wake_target s t' = Held e \<longleftrightarrow> t' = Held e" for s t' e
      by (cases t'; auto)+
    then show ?thesis using assms(1,10) by (auto simp: sim_def busy_def split: if_splits)
  qed
  moreover have "(launched (move i (subgraph c') tw t a), unlaunched (move i (subgraph c') tw t a)) = w"
    using assms(1) by (simp add: sim_def)
  moreover have "sub a x = Some Subgraph \<Longrightarrow> subgraph c' x = Some Subgraph" for x
    using assms(1,2) by (auto simp: sim_def shared_sim_def settled_def final_def)
  then have "local_sim (subgraph c') (tower (move i (subgraph c') tw t a) j) ((L(i := l)) j)" for j
    using assms(1,3) by (auto simp: sim_def intro: local_sim_mono)
  moreover have "shared_sim (move i (subgraph c') tw t a) c' extra' out"
    using assms(1) by (intro shared_sim_move [OF _ assms(2,4-7)]) (simp add: sim_def)
  ultimately show ?thesis by (simp add: sim_def)
qed

end
