(* ===== verification/Subgraph_Refines.thy ===== *)
theory Subgraph_Refines
  imports Subgraph_Sim
begin

text \<open>
  The detailed search of \<open>Conflicted_Subgraph\<close> refines the machine of \<open>Subgraph_Walk\<close>: every function of the code
  performs steps of the machine, whatever the completion order of the fetches and the concurrency width. Hence the
  search ends, no walker stays parked, and the stream consists of the conflicted state subgraph.
\<close>

section \<open>A walker performs steps of the machine\<close>

abbreviation walk_steps :: "fetch_event \<Rightarrow> walk \<Rightarrow> walk \<Rightarrow> bool" where
  "walk_steps fetch \<equiv> (walk_step fetch)\<^sup>*\<^sup>*"

definition norm_local :: "local_state \<Rightarrow> local_state" where
  "norm_local l = l \<lparr> marked := min (marked l) (length (path l)) \<rparr>"

lemma sim_unfold:
  assumes "sim w b a L c fet extra out"
  shows "shared_sim a c extra out" and "local_sim (sub a) (tower a j) (L j)" and "fetch_sim a fet"
    and "subgraph c = sub a" and "parking_ok c" and "distinct (out @ outputs c)"
    and "set (out @ outputs c) = {x. sub a x = Some Subgraph}" and "busy a \<subseteq> b"
    and "(launched a, unlaunched a) = w"
  using assms by (auto simp: sim_def shared_sim_def)

lemma fetch_sim_other:
  assumes "fetch_sim a fet" and "\<forall>e. target a i \<noteq> Fetching e"
  shows "i \<notin> fst ` set fet" and "{w \<in> set fet. fst w \<noteq> i} = set fet" and "distinct (map fst fet)"
  using assms by (auto simp: fetch_sim_def)

text \<open>A step that neither fetches nor parks.\<close>

lemma sim_move_quiet:
  assumes "sim w b a L c fet extra out" and "settled c c'" and "local_sim (subgraph c') tw l"
    and "t = Running \<or> t = Idle \<or> (\<exists>e. t = Held e)" and "target a i = Running \<or> (\<exists>e. target a i = Held e)"
    and "distinct (out @ outputs c')" and "set (out @ outputs c') = {x. subgraph c' x = Some Subgraph}"
  shows "sim w b (move i (subgraph c') tw t a) (L(i := l)) c' fet extra out"
proof -
  have i: "i \<in> b" using sim_unfold(8) [OF assms(1)] assms(5) by (auto simp: busy_def)
  have "\<forall>e. target a i \<noteq> Fetching e" using assms(5) by auto
  note fet = fetch_sim_other [OF sim_unfold(3) [OF assms(1)] this]
  show ?thesis
    by (rule sim_move [OF assms(1-3) _ _ assms(6,7) fet(3) _ i]) (use assms(4,5) fet(2) in auto)
qed

lemma sim_same:
  assumes "sim w b a L c fet extra out" and "local_sim (sub a) tw l"
    and "t = Running \<or> t = Idle \<or> (\<exists>e. t = Held e)" and "target a i = Running \<or> (\<exists>e. target a i = Held e)"
  shows "sim w b (move i (sub a) tw t a) (L(i := l)) c fet extra out"
  using sim_move_quiet [OF assms(1) settled_refl [OF sim_unfold(5) [OF assms(1)]], unfolded sim_unfold(4) [OF assms(1)],
      OF assms(2-4)] sim_unfold(6,7) [OF assms(1)] by blast

lemma pop_frames_sim:
  "pop_frames l c = (l', c') \<Longrightarrow> sim w b a (L(i := norm_local l)) c fet extra out \<Longrightarrow> target a i = Running \<Longrightarrow>
   \<exists>a'. walk_steps fetch a a' \<and> sim w b a' (L(i := norm_local l')) c' fet extra out \<and> target a' i = Running"
proof (induction l c arbitrary: a rule: pop_frames.induct)
  case (1 l c)
  note eq = pop_frames.simps [of l c]
  have l: "path l = rev (map fst (tower a i))" "stack l = rev (map snd (tower a i))"
    and marks: "\<forall>x \<in> set (take (marked l) (path l)). sub a x = Some Subgraph"
    using sim_unfold(2) [OF "1.prems"(2), of i] by (auto simp: local_sim_def norm_local_def min_def split: if_splits)
  show ?case
  proof (cases "stack l \<noteq> [] \<and> last (stack l) = []")
    case True
    then obtain x tw where tw: "tower a i = (x, []) # tw"
      using l(2) by (cases "tower a i") (auto simp: last_rev)
    let ?l = "l \<lparr> stack := butlast (stack l), path := butlast (path l) \<rparr>"
    let ?c = "complete_pending c x RDead" and ?a = "move i (kill x (sub a)) tw Running a"
    have path: "path l \<noteq> []" "last (path l) = x" using l tw by auto
    have pop: "pop_frames ?l ?c = (l', c')" using "1.prems"(1) eq True path by simp
    have step: "walk_step fetch a ?a" by (rule walk_step.pop_frame [OF "1.prems"(3) tw])
    note c = complete_settled [OF sim_unfold(5) [OF "1.prems"(2)], where e = x]
    have local_sim: "local_sim (subgraph ?c) tw (norm_local ?l)"
      using l tw marks unfolding c(2) sim_unfold(4) [OF "1.prems"(2)]
      by (auto simp: local_sim_def norm_local_def kill_sub take_butlast min_def split: if_splits)
    have out: "distinct (out @ outputs ?c)" "set (out @ outputs ?c) = {x. subgraph ?c x = Some Subgraph}"
      unfolding c(2,3) kill_sub using sim_unfold(4,6,7) [OF "1.prems"(2)] by simp_all
    have "sim w b (move i (subgraph ?c) tw Running a) ((L(i := norm_local l))(i := norm_local ?l)) ?c fet extra out"
      by (rule sim_move_quiet [OF "1.prems"(2) c(1) local_sim _ _ out]) (use "1.prems"(3) in auto)
    then have "sim w b ?a (L(i := norm_local ?l)) ?c fet extra out"
      unfolding c(2) sim_unfold(4) [OF "1.prems"(2)] fun_upd_upd .
    moreover have "target ?a i = Running" by simp
    ultimately obtain a' where "walk_steps fetch ?a a'" "sim w b a' (L(i := norm_local l')) c' fet extra out"
        "target a' i = Running"
      using "1.IH"(2) [OF True path(1), unfolded path(2), OF pop] by blast
    then show ?thesis using converse_rtranclp_into_rtranclp [of "walk_step fetch", OF step] by blast
  next
    case False
    then have "l' = l" "c' = c" using "1.prems"(1) eq by auto
    then show ?thesis using "1.prems" by blast
  qed
qed


lemma sim_norm: "sim w b a L c fet extra out \<Longrightarrow> L(i := norm_local (L i)) = L"
  using sim_unfold(2) [of w b a L c fet extra out i]
  by (auto simp: local_sim_def norm_local_def min_def fun_eq_iff intro!: local_state.equality)

lemma pop_local_sim:
  assumes "pop_local (L i) c = (r, l', c')" and "sim w b a L c fet extra out" and "target a i = Running"
  shows "\<exists>a'. walk_steps fetch a a' \<and> sim w b a' (L(i := l')) c' fet extra out \<and>
    (case r of None \<Rightarrow> target a' i = Running \<and> tower a' i = [] | Some e \<Rightarrow> target a' i = Held e)"
proof -
  obtain l1 where 1: "pop_frames (L i) c = (l1, c')" using assms(1) by (auto simp: pop_local_def Let_def split: prod.splits if_splits)
  have "sim w b a (L(i := norm_local (L i))) c fet extra out" using assms(2) sim_norm by simp
  then obtain a1 where a1: "walk_steps fetch a a1" and sim1: "sim w b a1 (L(i := norm_local l1)) c' fet extra out"
      and run: "target a1 i = Running"
    using pop_frames_sim [OF 1 _ assms(3)] by blast
  note local1 = sim_unfold(2) [OF sim1, of i, simplified]
  show ?thesis
  proof (cases "stack l1 = []")
    case True
    then have "r = None" "l' = norm_local l1"
      using assms(1) 1 by (auto simp: pop_local_def norm_local_def)
    moreover have "tower a1 i = []" using local1 True by (simp add: local_sim_def norm_local_def)
    ultimately show ?thesis using a1 sim1 run by auto
  next
    case False
    then obtain x f tw where tw: "tower a1 i = (x, f) # tw"
      using local1 by (cases "tower a1 i") (auto simp: local_sim_def norm_local_def)
    then have stack: "stack l1 = rev (map snd tw) @ [f]" using local1 by (simp add: local_sim_def norm_local_def)
    then have "f \<noteq> []" using pop_frames_top [OF 1] by simp
    then obtain f' e where f: "f = f' @ [e]" by (cases f rule: rev_cases) auto
    let ?a = "move i (sub a1) ((x, f') # tw) (Held e) a1"
    have step: "walk_step fetch a1 ?a" by (rule walk_step.pop_elem [OF run]) (simp add: tw f)
    have r: "r = Some e" and l': "l' = (norm_local l1) \<lparr> stack := rev (map snd tw) @ [f'] \<rparr>"
      using assms(1) 1 stack f by (auto simp: pop_local_def norm_local_def)
    have "local_sim (sub a1) ((x, f') # tw) l'"
      using local1 tw l' by (auto simp: local_sim_def norm_local_def)
    then have "sim w b ?a ((L(i := norm_local l1))(i := l')) c' fet extra out"
      by (rule sim_same [OF sim1]) (use run in auto)
    then have "sim w b ?a (L(i := l')) c' fet extra out" by simp
    then show ?thesis using r a1 step by (auto intro!: exI [of _ ?a])
  qed
qed

text \<open>Marking the path: what is below \<open>marked\<close> is in the subgraph already.\<close>

lemma insert_path_sim:
  assumes "sim w b a L c fet extra out" and "insert_path (L i) c e = (l', c')"
    and "sub a e = Some Conflicted \<or> sub a e = Some Subgraph"
    and "\<forall>x \<in> nodes (tower a i). sub a x \<noteq> Some Dead"
  shows "settled c c'" and "subgraph c' = mark (insert e (nodes (tower a i))) (sub a)"
    and "local_sim (subgraph c') (tower a i) l'"
    and "distinct (out @ outputs c')" and "set (out @ outputs c') = {x. subgraph c' x = Some Subgraph}"
proof -
  let ?l = "L i" let ?xs = "drop (marked ?l) (path ?l) @ [e]"
  note l = sim_unfold(2) [OF assms(1), of i] and c = sim_unfold(4-7) [OF assms(1)]
  have c': "c' = fold insert_event ?xs c" and l': "l' = ?l \<lparr> marked := length (path ?l) \<rparr>"
    using assms(2) by (simp_all add: insert_path_def)
  have nodes: "set (path ?l) = nodes (tower a i)" using l by (simp add: local_sim_def)
  have dead: "subgraph c x \<noteq> Some Dead" if "x \<in> set ?xs" for x
  proof -
    have "x \<in> nodes (tower a i) \<or> x = e"
      using that set_drop_subset [of "marked ?l" "path ?l"] nodes by auto
    then show ?thesis using assms(3,4) c(1) by auto
  qed
  have "settled c c' \<and> subgraph c' = mark (set ?xs) (subgraph c) \<and>
      (\<exists>new. outputs c' = outputs c @ new \<and> distinct new \<and> set new = {x \<in> set ?xs. subgraph c x \<noteq> Some Subgraph})"
    unfolding c' by (rule fold_insert_settled [OF c(2) dead])
  then obtain new where fold: "settled c c'" "subgraph c' = mark (set ?xs) (sub a)"
      "outputs c' = outputs c @ new" "distinct new" "set new = {x \<in> set ?xs. sub a x \<noteq> Some Subgraph}"
    unfolding c(1) by (elim conjE exE)
  show "settled c c'" by (rule fold(1))
  have marks: "sub a x = Some Subgraph" if "x \<in> nodes (tower a i)" "x \<notin> set ?xs" for x
  proof -
    have "x \<in> set (take (marked ?l) (path ?l)) \<union> set (drop (marked ?l) (path ?l))"
      using that(1) nodes by (metis append_take_drop_id set_append)
    then show ?thesis using that(2) l by (auto simp: local_sim_def)
  qed
  show s: "subgraph c' = mark (insert e (nodes (tower a i))) (sub a)"
  proof
    fix x
    have "x \<in> set ?xs \<Longrightarrow> x \<in> insert e (nodes (tower a i))"
      using nodes set_drop_subset [of "marked ?l" "path ?l"] by auto
    moreover have "e \<in> set ?xs" by simp
    ultimately show "subgraph c' x = mark (insert e (nodes (tower a i))) (sub a) x"
      using marks [of x] unfolding fold(2) mark_def by auto
  qed
  show "local_sim (subgraph c') (tower a i) l'"
    using l unfolding s l' by (auto simp: local_sim_def mark_def)
  have "set (out @ outputs c) \<inter> set new = {}" unfolding c(4) fold(5) by blast
  then show "distinct (out @ outputs c')" using c(3) fold(4) unfolding fold(3) by auto
  have "set (out @ outputs c') = {x. sub a x = Some Subgraph} \<union> {x \<in> set ?xs. sub a x \<noteq> Some Subgraph}"
    unfolding c(4) [symmetric] fold(3) fold(5) [symmetric] by auto
  then show "set (out @ outputs c') = {x. subgraph c' x = Some Subgraph}"
    unfolding fold(2) mark_def by auto
qed


lemma waiting_of_upsert:
  "mset (waiting_of (upsert e [] (\<lambda>ls. ls @ [i]) ws)) = add_mset (i, e) (mset (waiting_of ws))"
proof (induction ws)
  case (Cons w ws)
  then show ?case by (cases w) auto
qed simp

text \<open>Parking on a node that another walker owns.\<close>

lemma push_waiter_sim:
  assumes "sim w b a L c fet extra out" and "target a i = Held e" and "sub a e = Some (Pending j)"
  shows "sim w b (move i (sub a) (tower a i) (Waiting e) a) L (push_waiter e i c) fet extra out"
proof -
  let ?a = "move i (sub a) (tower a i) (Waiting e) a" and ?c = "push_waiter e i c"
  note S = sim_unfold [OF assms(1)] and mem = shared_sim_mem [OF sim_unfold(1) [OF assms(1)]]
  have pend: "\<not> final (sub a e)" using assms(3) by (simp add: final_def)
  have tgt: "target ?a k = (if k = i then Waiting e else target a k)" for k
  proof (cases "target a k")
    case (Waiting e')
    then have "(k, e') \<in> set (waiting_of (waiters c))" using mem(1) by simp
    then have "\<not> final (sub a e')" using parking_waiting(2) [OF S(5)] S(4) by simp
    then show ?thesis using Waiting pend by simp
  qed (use pend in auto)
  have wait: "mset (waiting_of (waiters ?c)) = add_mset (i, e) (mset (waiting_of (waiters c)))"
    by (simp add: push_waiter_def waiting_of_upsert)
  then have "set (waiting_of (waiters ?c)) = insert (i, e) (set (waiting_of (waiters c)))"
    by (metis set_mset_add_mset_insert set_mset_mset)
  also have "\<dots> = {(k, e'). target ?a k = Waiting e'}"
    unfolding tgt using mem(1) assms(2) by (auto split: if_splits)
  finally have set: "set (waiting_of (waiters ?c)) = {(k, e'). target ?a k = Waiting e'}" .
  have "(i, e) \<notin> set (waiting_of (waiters c))" using mem(1) assms(2) by simp
  then have "distinct ((i, e) # waiting_of (waiters c))" using S(1) by (simp add: shared_sim_def)
  then have dist: "distinct (waiting_of (waiters ?c))" using wait by (metis mset.simps(2) mset_eq_imp_distinct_iff)
  have "parking_ok ?c"
  proof -
    have "distinct (map fst (waiters ?c))"
      using S(5) distinct_keys_upsert [of "waiters c"] by (simp add: parking_ok_def push_waiter_def keys_def)
    moreover have "fst ` set (waiters ?c) = insert e (fst ` set (waiters c))"
      using set_keys_upsert [of e "[]" _ "waiters c"] by (simp add: push_waiter_def keys_def)
    moreover have "length (waiting_of (waiters ?c)) = Suc (length (waiting_of (waiters c)))"
      using wait by (metis mset.simps(2) length_Cons size_mset)
    ultimately show ?thesis using S(4,5) assms(3) by (auto simp: parking_ok_def push_waiter_def)
  qed
  moreover have same: "subgraph ?c = sub a" "ready_wakes ?c = ready_wakes c" "outputs ?c = outputs c"
    using S(4) by (simp_all add: push_waiter_def)
  moreover have "target ?a k = Woken e' \<longleftrightarrow> target a k = Woken e'" for k e' unfolding tgt using assms(2) by auto
  ultimately have "shared_sim ?a ?c extra out"
    using S(1) dist set unfolding shared_sim_def same by (simp del: move_simps(3))
  moreover have "fetch_sim ?a fet" using S(3) assms(2) unfolding fetch_sim_def tgt by (auto split: if_splits)
  moreover have "busy ?a \<subseteq> b" using S(8) unfolding busy_def tgt by auto
  ultimately show ?thesis using S(2,9) by (simp add: sim_def fun_upd_idem)
qed

fun eval_post :: "nat \<times> event_id list \<Rightarrow> nat set \<Rightarrow> nat \<Rightarrow> evaluation \<Rightarrow> walk \<Rightarrow> (nat \<Rightarrow> local_state) \<Rightarrow> shared \<Rightarrow> (nat \<times> event_id) list \<Rightarrow>
    (nat \<times> event_id \<times> resolution) list \<Rightarrow> event_id list \<Rightarrow> bool" where
  "eval_post w b i Continue a L c fet extra out \<longleftrightarrow> target a i = Running \<and> sim w b a L c fet extra out"
| "eval_post w b i (Fetch e) a L c fet extra out \<longleftrightarrow>
     target a i = Fetching e \<and> sim w b a L c ((i, e) # fet) extra out"
| "eval_post w b i Park a L c fet extra out \<longleftrightarrow> (\<exists>e. target a i = Waiting e) \<and> sim w b a L c fet extra out"

lemma sim_start_fetch:
  assumes "sim w b a L c fet extra out" and "settled c c'" and "local_sim (subgraph c') (tower a i) l"
    and "target a i = Held e"
    and "distinct (out @ outputs c')" and "set (out @ outputs c') = {x. subgraph c' x = Some Subgraph}"
  shows "sim w b (move i (subgraph c') (tower a i) (Fetching e') a) (L(i := l)) c' ((i, e') # fet) extra out"
proof -
  have i: "i \<in> b" using sim_unfold(8) [OF assms(1)] assms(4) by (auto simp: busy_def)
  have "\<forall>e. target a i \<noteq> Fetching e" using assms(4) by simp
  note fet = fetch_sim_other [OF sim_unfold(3) [OF assms(1)] this]
  show ?thesis
    by (rule sim_move [OF assms(1-3) _ _ assms(5,6) _ _ i]) (use assms(4) fet in auto)
qed

lemma eval_event_sim:
  assumes "sim w b a L c fet extra out" and "target a i = Held e" and "walk_inv (auth_edges fetch) C a"
    and "eval_event i (L i) c e = (ev, l', c')"
  shows "\<exists>a'. walk_step fetch a a' \<and> eval_post w b i ev a' (L(i := l')) c' fet extra out"
proof -
  note S = sim_unfold [OF assms(1)]
  have tw: "tower_ok (auth_edges fetch) C (sub a) i {e} (tower a i)" and ne: "tower a i \<noteq> []"
    using walk_inv_walker(1,2) [OF assms(3), where i = i] assms(2) by auto
  have alive: "\<forall>x \<in> nodes (tower a i). sub a x \<noteq> Some Dead" using tower_states [OF tw] by fastforce
  have path: "path (L i) \<noteq> [] \<and> hd (path (L i)) = e \<longleftrightarrow> fst (last (tower a i)) = e"
    using S(2) [of i] ne by (simp add: local_sim_def hd_rev last_map)
  have run: "sim w b (move i (sub a) (tower a i) Running a) L c fet extra out"
    using sim_same [OF assms(1) S(2) [of i], of Running i] assms(2) by simp
  consider (sub) "sub a e = Some Subgraph" | (dead) "sub a e = Some Dead" | (own) "sub a e = Some (Pending i)"
    | (wait) j where "sub a e = Some (Pending j)" "j \<noteq> i" | (conf) "sub a e = Some Conflicted" | (new) "sub a e = None"
    by (metis not_None_eq substate.exhaust)
  then show ?thesis
  proof cases
    case sub
    then have ev: "ev = Continue" "insert_path (L i) c e = (l', c')" using assms(4) S(4) by (auto simp: eval_event_def)
    note ins = insert_path_sim [OF assms(1) ev(2) disjI2 [OF sub] alive]
    have "sim w b (move i (subgraph c') (tower a i) Running a) (L(i := l')) c' fet extra out"
      by (rule sim_move_quiet [OF assms(1) ins(1,3) _ _ ins(4,5)]) (use assms(2) in auto)
    then show ?thesis using walk_step.eval_sub [OF assms(2) sub] unfolding ev(1) ins(2)
      by (intro exI conjI) (auto intro: walk_step.eval_sub)
  next
    case dead
    then have ev: "ev = Continue" "l' = L i" "c' = c" using assms(4) S(4) by (auto simp: eval_event_def)
    then show ?thesis using run walk_step.eval_dead [OF assms(2) dead, of fetch] by (intro exI conjI) auto
  next
    case own
    then have ev: "ev = Continue" "l' = L i" "c' = c" using assms(4) S(4) by (auto simp: eval_event_def)
    then show ?thesis using run walk_step.eval_own [OF assms(2) own, of fetch] by (intro exI conjI) auto
  next
    case wait
    then have ev: "ev = Park" "l' = L i" "c' = push_waiter e i c" using assms(4) S(4) by (auto simp: eval_event_def)
    moreover have "\<not> final (sub a e)" using wait by (simp add: final_def)
    ultimately show ?thesis
      using walk_step.eval_wait [OF assms(2) wait, of fetch] push_waiter_sim [OF assms(1,2) wait(1)]
      by (intro exI conjI) auto
  next
    case conf
    then have ins': "insert_path (L i) c e = (l', c')"
      and ev: "ev = (if fst (last (tower a i)) = e then Continue else Fetch e)"
      using assms(4) S(4) path by (auto simp: eval_event_def)
    note ins = insert_path_sim [OF assms(1) ins' disjI1 [OF conf] alive]
    show ?thesis
      using walk_step.eval_conf [OF assms(2) conf] sim_move_quiet [OF assms(1) ins(1,3) _ _ ins(4,5), of Running]
        sim_start_fetch [OF assms(1) ins(1,3) assms(2) ins(4,5), of e] assms(2)
      unfolding ev ins(2) by (cases "fst (last (tower a i)) = e") (auto intro!: exI)
  next
    case new
    let ?c = "c \<lparr> subgraph := (subgraph c)(e \<mapsto> Pending i) \<rparr>"
    have ev: "ev = Fetch e" "l' = L i" "c' = ?c" using new assms(4) S(4) by (auto simp: eval_event_def)
    have "e \<notin> fst ` set (waiters c)" using S(4,5) new by (force simp: parking_ok_def)
    then have "parking_ok ?c" using S(5) by (auto simp: parking_ok_def)
    moreover have "final (subgraph ?c x) \<longleftrightarrow> final (subgraph c x)" for x
      using new S(4) by (auto simp: final_def)
    ultimately have settled: "settled c ?c"
      using settled_refl [OF S(5)] new S(4) unfolding settled_def resolution_of_def final_def
      by (auto intro!: arg_cong [of _ _ mset] simp del: mset_map)
    have "local_sim (subgraph ?c) (tower a i) (L i)"
      by (rule local_sim_mono [OF S(2)]) (use new S(4) in auto)
    moreover have "{x. subgraph ?c x = Some Subgraph} = {x. sub a x = Some Subgraph}" using new S(4) by auto
    ultimately have "sim w b (move i (subgraph ?c) (tower a i) (Fetching e) a) (L(i := L i)) ?c ((i, e) # fet) extra out"
      using S(6,7) by (intro sim_start_fetch [OF assms(1) settled _ assms(2)]) auto
    then show ?thesis using walk_step.eval_new [OF assms(2) new, of fetch] S(4) unfolding ev
      by (intro exI conjI) auto
  qed
qed


lemma walk_steps_inv:
  assumes "walk_steps fetch a a'" and "acyclic (auth_edges fetch)" and "walk_inv (auth_edges fetch) C a"
  shows "walk_inv (auth_edges fetch) C a'"
  using assms(1,3) by (induction rule: rtranclp_induct) (auto intro: walk_step_inv [OF _ assms(2)])

text \<open>A walker stops when it asks for an event, parks or has nothing left to do.\<close>

definition advance_post :: "nat \<times> event_id list \<Rightarrow> nat set \<Rightarrow> nat \<Rightarrow> event_id option \<Rightarrow> walk \<Rightarrow> (nat \<Rightarrow> local_state) \<Rightarrow> shared \<Rightarrow>
    (nat \<times> event_id) list \<Rightarrow> (nat \<times> event_id \<times> resolution) list \<Rightarrow> event_id list \<Rightarrow> bool" where
  "advance_post w b i nx a L c fet extra out \<longleftrightarrow> i \<notin> busy a \<and>
     sim w b a L c (case nx of None \<Rightarrow> fet | Some e \<Rightarrow> (i, e) # fet) extra out"

lemma advance_local_sim:
  assumes "acyclic (auth_edges fetch)"
  shows "advance_local i l c = (nx, l', c') \<Longrightarrow> l = L i \<Longrightarrow> sim w b a L c fet extra out \<Longrightarrow> target a i = Running \<Longrightarrow>
    walk_inv (auth_edges fetch) C a \<Longrightarrow>
    \<exists>a'. walk_steps fetch a a' \<and> advance_post w b i nx a' (L(i := l')) c' fet extra out"
proof (induction i l c arbitrary: a L rule: advance_local.induct)
  case (1 i l c)
  note eq = advance_local.simps [of i l c]
  obtain r l1 c1 where pop: "pop_local l c = (r, l1, c1)" by (metis prod_cases3)
  obtain a1 where a1: "walk_steps fetch a a1" and sim1: "sim w b a1 (L(i := l1)) c1 fet extra out"
      and r: "case r of None \<Rightarrow> target a1 i = Running \<and> tower a1 i = [] | Some e \<Rightarrow> target a1 i = Held e"
    using pop_local_sim [OF pop [unfolded "1.prems"(2)] "1.prems"(3,4)] by blast
  have inv1: "walk_inv (auth_edges fetch) C a1" by (rule walk_steps_inv [OF a1 assms "1.prems"(5)])
  show ?case
  proof (cases r)
    case None
    let ?a = "move i (sub a1) [] Idle a1"
    have run: "target a1 i = Running" "tower a1 i = []" using r None by simp_all
    have "stack l1 = []" using sim_unfold(2) [OF sim1, of i] run by (simp add: local_sim_def)
    then have res: "nx = None" "l' = local_default" "c' = c1" using "1.prems"(1) eq pop None by simp_all
    have "local_sim (sub a1) [] local_default" by (simp add: local_sim_def local_default_def)
    then have "sim w b ?a ((L(i := l1))(i := local_default)) c1 fet extra out"
      by (rule sim_same [OF sim1]) (use run in auto)
    then have "sim w b ?a (L(i := local_default)) c1 fet extra out" unfolding fun_upd_upd .
    moreover have "walk_steps fetch a ?a"
      by (rule rtranclp.rtrancl_into_rtrancl [OF a1 walk_step.finish [OF run]])
    moreover have "i \<notin> busy ?a" by (simp add: busy_def)
    ultimately show ?thesis unfolding res advance_post_def option.case by blast
  next
    case (Some e)
    obtain ev l2 c2 where ev: "eval_event i l1 c1 e = (ev, l2, c2)" by (metis prod_cases3)
    obtain a2 where step: "walk_step fetch a1 a2"
        and post: "eval_post w b i ev a2 ((L(i := l1))(i := l2)) c2 fet extra out"
      using eval_event_sim [OF sim1 _ inv1, of i e ev l2 c2] ev r Some by auto
    have a2: "walk_steps fetch a a2" using a1 step by simp
    show ?thesis
    proof (cases ev)
      case Continue
      then have "advance_local i l2 c2 = (nx, l', c')" using "1.prems"(1) eq pop Some ev by simp
      moreover have "walk_inv (auth_edges fetch) C a2" by (rule walk_step_inv [OF step assms inv1])
      moreover have "sim w b a2 (L(i := l2)) c2 fet extra out" "target a2 i = Running" using post Continue by simp_all
      ultimately obtain a' where a': "walk_steps fetch a2 a'"
          "advance_post w b i nx a' ((L(i := l2))(i := l')) c' fet extra out"
        using "1.IH" [OF pop [symmetric] Some refl ev [symmetric] Continue refl, of "L(i := l2)" a2]
        unfolding fun_upd_same by blast
      have "walk_steps fetch a a'" by (rule rtranclp_trans [OF a2 a'(1)])
      then show ?thesis using a'(2) unfolding fun_upd_upd by blast
    next
      case (Fetch e')
      then have res: "nx = Some e'" "l' = l2" "c' = c2" using "1.prems"(1) eq pop Some ev by simp_all
      have "i \<notin> busy a2" "sim w b a2 (L(i := l2)) c2 ((i, e') # fet) extra out"
        using post Fetch by (simp_all add: busy_def)
      then show ?thesis using a2 unfolding res advance_post_def option.case by blast
    next
      case Park
      then have res: "nx = None" "l' = l2" "c' = c2" using "1.prems"(1) eq pop Some ev by simp_all
      have "i \<notin> busy a2" "sim w b a2 (L(i := l2)) c2 fet extra out"
        using post Park by (auto simp: busy_def)
      then show ?thesis using a2 unfolding res advance_post_def option.case by blast
    qed
  qed
qed

end
