(* ===== verification/Subgraph_Driver.thy ===== *)
theory Subgraph_Driver
  imports Subgraph_Refines
begin

text \<open>
  The driver of \<open>Conflicted_Subgraph\<close> (launching, fetching, dispatching and waking walkers) refines the machine of
  \<open>Subgraph_Walk\<close>. The stream therefore ends for every order in which fetches complete and every positive width, and
  yields exactly the conflicted state subgraph.
\<close>

section \<open>The global simulation\<close>

definition locals_fun :: "global \<Rightarrow> nat \<Rightarrow> local_state" where
  "locals_fun g j = (if j < length (locals g) then locals g ! j else local_default)"

text \<open>\<open>pend\<close> holds a fetch that has been asked for and not yet been dispatched.\<close>

definition gsim :: "nat set \<Rightarrow> walk \<Rightarrow> global \<Rightarrow> (nat \<times> event_id) list \<Rightarrow> (nat \<times> event_id \<times> resolution) list \<Rightarrow>
    event_id list \<Rightarrow> event_id list \<Rightarrow> bool" where
  "gsim b a g pend extra out inputs \<longleftrightarrow>
     sim (length (locals g), inputs) b a (locals_fun g) (shared_of g) (todo g @ deferred g @ pend) extra out"

definition walk_ok :: "fetch_event \<Rightarrow> event_id set \<Rightarrow> nat \<Rightarrow> walk \<Rightarrow> bool" where
  "walk_ok fetch C n a \<longleftrightarrow> walk_inv (auth_edges fetch) C a \<and> walk_bounded n a"

lemma walk_ok_steps:
  assumes "walk_steps fetch a a'" and "acyclic (auth_edges fetch)" and "walk_ok fetch C n a"
  shows "walk_ok fetch C n a'"
  using assms(1,3) unfolding walk_ok_def
  by (induction rule: rtranclp_induct) (auto intro: walk_step_inv [OF _ assms(2)] walk_step_bounded)

lemma sim_perm:
  assumes "sim w b a L c fet extra out" and "mset fet' = mset fet"
  shows "sim w b a L c fet' extra out"
proof -
  have "set fet' = set fet" using assms(2) by (rule mset_eq_setD)
  moreover have "distinct (map fst fet') = distinct (map fst fet)"
    using assms(2) by (metis mset_eq_imp_distinct_iff mset_map)
  ultimately show ?thesis using assms(1) by (simp add: sim_def fetch_sim_def)
qed

lemma sim_busy:
  assumes "sim w b a L c fet extra out" and "busy a \<subseteq> b'"
  shows "sim w b' a L c fet extra out"
  using assms by (simp add: sim_def)

lemma locals_fun_update:
  "i < length (locals g) \<Longrightarrow> locals_fun (g \<lparr> locals := (locals g)[i := l], shared_of := c \<rparr>) = (locals_fun g)(i := l)"
  by (auto simp: locals_fun_def fun_eq_iff)

lemma locals_fun_cong: "locals g' = locals g \<Longrightarrow> locals_fun g' = locals_fun g"
  by (simp add: locals_fun_def fun_eq_iff)

lemma gsim_index:
  assumes "gsim b a g pend extra out inputs" and "walk_ok fetch C n a" and "target a i \<noteq> Idle"
  shows "i < length (locals g)"
  using bounded_active [of n a i] sim_unfold(9) [OF assms(1) [unfolded gsim_def]] assms(2,3)
  by (simp add: walk_ok_def)

definition asked :: "nat \<Rightarrow> event_id option \<Rightarrow> (nat \<times> event_id) list" where
  "asked i nx = (case nx of None \<Rightarrow> [] | Some e \<Rightarrow> [(i, e)])"

lemma advance_sim:
  assumes "acyclic (auth_edges fetch)" and "gsim {i} a g pend extra out inputs" and "target a i = Running"
    and "walk_ok fetch C n a" and "advance i g = (nx, g')"
  shows "\<exists>a'. walk_steps fetch a a' \<and> gsim {} a' g' (asked i nx @ pend) extra out inputs"
proof -
  have i: "i < length (locals g)" by (rule gsim_index [OF assms(2,4)]) (simp add: assms(3))
  obtain l c where adv: "advance_local i (locals g ! i) (shared_of g) = (nx, l, c)"
      and g': "g' = g \<lparr> locals := (locals g)[i := l], shared_of := c \<rparr>"
    using assms(5) by (auto simp: advance_def Let_def split: prod.splits)
  have "locals g ! i = locals_fun g i" using i by (simp add: locals_fun_def)
  then obtain a' where a': "walk_steps fetch a a'" and post: "advance_post (length (locals g), inputs) {i} i nx a'
      ((locals_fun g)(i := l)) c (todo g @ deferred g @ pend) extra out"
    using advance_local_sim [OF assms(1) adv _ assms(2) [unfolded gsim_def] assms(3)] assms(4)
    by (auto simp: walk_ok_def)
  have "mset (todo g @ deferred g @ asked i nx @ pend) =
      mset (case nx of None \<Rightarrow> todo g @ deferred g @ pend | Some e \<Rightarrow> (i, e) # todo g @ deferred g @ pend)"
    by (auto simp: asked_def split: option.splits)
  then have "sim (length (locals g), inputs) {i} a' ((locals_fun g)(i := l)) c (todo g @ deferred g @ asked i nx @ pend) extra out"
    using post unfolding advance_post_def by (blast intro: sim_perm)
  moreover have "busy a' \<subseteq> {}" using post sim_unfold(8) unfolding advance_post_def by blast
  ultimately have "gsim {} a' g' (asked i nx @ pend) extra out inputs"
    unfolding gsim_def g' locals_fun_update [OF i] by (simp add: sim_busy)
  then show ?thesis using a' by blast
qed

lemma gsim_cong:
  assumes "gsim b a g pend extra out inputs" and "locals g' = locals g" and "shared_of g' = shared_of g"
    and "mset (todo g' @ deferred g' @ pend') = mset (todo g @ deferred g @ pend)"
  shows "gsim b a g' pend' extra out inputs"
proof -
  have "locals_fun g' = locals_fun g" using assms(2) by (rule locals_fun_cong)
  then show ?thesis using sim_perm [OF assms(1) [unfolded gsim_def] assms(4)] assms(2,3) by (simp add: gsim_def)
qed

lemma dispatch_sim:
  assumes "gsim b a g (asked i nx @ pend) extra out inputs"
  shows "gsim b a (dispatch width i (nx, g)) pend extra out inputs"
  by (rule gsim_cong [OF assms]) (auto simp: dispatch_def asked_def split: option.splits)

text \<open>A completed fetch makes its walker move.\<close>

lemma process_fetch_sim:
  assumes "acyclic (auth_edges fetch)" and "gsim {} a g [(i, e)] extra out inputs" and "walk_ok fetch C n a"
    and "process_fetch i e (fetch e) g = (nx, g')"
  shows "\<exists>a'. (walk_step fetch)\<^sup>+\<^sup>+ a a' \<and> gsim {} a' g' (asked i nx) extra out inputs"
proof -
  note S = sim_unfold [OF assms(2) [unfolded gsim_def]]
  have tgt: "target a i = Fetching e" using S(3) by (auto simp: fetch_sim_def)
  have i: "i < length (locals g)" by (rule gsim_index [OF assms(2,3)]) (simp add: tgt)
  let ?fet = "todo g @ deferred g"
  have fet: "distinct (map fst ?fet)" "set ?fet = {w \<in> set (?fet @ [(i, e)]). fst w \<noteq> i}"
    using S(3) by (auto simp: fetch_sim_def)
  have quiet: "sim (length (locals g), inputs) {i} a (locals_fun g) (shared_of g) (?fet @ [(i, e)]) extra out"
    unfolding append_assoc by (rule sim_busy [OF assms(2) [unfolded gsim_def]]) (use S(8) in blast)
  obtain a1 g1 where step: "walk_step fetch a a1" and run: "target a1 i = Running"
      and sim1: "gsim {i} a1 g1 [] extra out inputs" and adv: "advance i g1 = (nx, g')"
  proof (cases "fetch e")
    case (Inr ev)
    let ?l = "(locals g ! i) \<lparr> path := path (locals g ! i) @ [e], stack := stack (locals g ! i) @ [auth_events ev] \<rparr>"
    let ?g = "g \<lparr> locals := (locals g)[i := ?l], shared_of := shared_of g \<rparr>"
    let ?a = "move i (sub a) ((e, auth_events ev) # tower a i) Running a"
    have "local_sim (sub a) ((e, auth_events ev) # tower a i) ?l"
      using S(2) [of i] i by (auto simp: local_sim_def locals_fun_def)
    then have "sim (length (locals g), inputs) {i} ?a ((locals_fun g)(i := ?l)) (shared_of g) ?fet extra out"
      using sim_move [OF quiet settled_refl [OF S(5)], of _ ?l Running i extra ?fet] tgt S(4,6,7) fet by simp
    then have "gsim {i} ?a ?g [] extra out inputs"
      unfolding gsim_def locals_fun_update [OF i] by simp
    moreover have "advance i ?g = (nx, g')" using assms(4) Inr by (simp add: process_fetch_def)
    ultimately show ?thesis using walk_step.fetched [OF tgt, of fetch, OF Inr] by (intro that) auto
  next
    case (Inl err)
    let ?c = "complete_pending (shared_of g) e RDead"
    let ?g = "g \<lparr> shared_of := ?c \<rparr>" and ?a = "move i (kill e (sub a)) (tower a i) Running a"
    note c = complete_settled [OF S(5), where e = e]
    have "local_sim (subgraph ?c) (tower a i) (locals_fun g i)"
      unfolding c(2) S(4) by (rule local_sim_mono [OF S(2)]) (simp add: kill_sub)
    then have "sim (length (locals g), inputs) {i} (move i (subgraph ?c) (tower a i) Running a)
        ((locals_fun g)(i := locals_fun g i)) ?c ?fet extra out"
      using sim_move [OF quiet c(1), of "tower a i" "locals_fun g i" Running i extra ?fet] tgt S(4,6,7) fet
      by (simp add: c kill_sub)
    then have "gsim {i} ?a ?g [] extra out inputs"
      using locals_fun_cong [of ?g g] unfolding gsim_def c(2) S(4) by simp
    moreover have "advance i ?g = (nx, g')" using assms(4) Inl by (simp add: process_fetch_def)
    ultimately show ?thesis using walk_step.failed [OF tgt, of fetch, OF Inl] by (intro that) auto
  qed
  have "walk_ok fetch C n a1" by (rule walk_ok_steps [OF _ assms(1,3)]) (use step in blast)
  then obtain a' where "walk_steps fetch a1 a'" "gsim {} a' g' (asked i nx @ []) extra out inputs"
    using advance_sim [OF assms(1) sim1 run _ adv] by blast
  then show ?thesis using step by (auto intro: rtranclp_into_tranclp2)
qed


section \<open>Waking\<close>

lemma resume_sim:
  assumes "acyclic (auth_edges fetch)" and "gsim {} a g pend ((i, e, r) # extra) out inputs" and "walk_ok fetch C n a"
    and "resume i e r g = (nx, g')"
  shows "\<exists>a'. (walk_step fetch)\<^sup>+\<^sup>+ a a' \<and> gsim {} a' g' (asked i nx @ pend) extra out inputs"
proof -
  let ?fet = "todo g @ deferred g @ pend"
  note S = sim_unfold [OF assms(2) [unfolded gsim_def]] and mem = shared_sim_mem [OF sim_unfold(1) [OF assms(2) [unfolded gsim_def]]]
  have tgt: "target a i = Woken e" using mem(2) [of i e] by auto
  have r: "sub a e = Some (substate_of r)" using mem(3) [of i e r] by simp
  have i: "i < length (locals g)" by (rule gsim_index [OF assms(2,3)]) (simp add: tgt)
  have fet: "distinct (map fst ?fet)" "{w \<in> set ?fet. fst w \<noteq> i} = set ?fet"
    using fetch_sim_other [OF S(3), of i] tgt by simp_all
  have quiet: "sim (length (locals g), inputs) {i} a (locals_fun g) (shared_of g) ?fet ((i, e, r) # extra) out"
    by (rule sim_busy [OF assms(2) [unfolded gsim_def]]) (use S(8) in blast)
  obtain a1 g1 where step: "walk_step fetch a a1" and run: "target a1 i = Running"
      and sim1: "gsim {i} a1 g1 pend extra out inputs" and adv: "advance i g1 = (nx, g')"
  proof (cases r)
    case RDead
    let ?a = "move i (sub a) (tower a i) Running a"
    have "sim (length (locals g), inputs) {i} (move i (subgraph (shared_of g)) (tower a i) Running a)
        ((locals_fun g)(i := locals_fun g i)) (shared_of g) ?fet extra out"
      using S(2) [of i] S(4,6,7) fet tgt
      by (intro sim_move [OF quiet settled_refl [OF S(5)]]) auto
    then have "gsim {i} ?a g pend extra out inputs" using S(4) unfolding gsim_def by simp
    moreover have "advance i g = (nx, g')" using assms(4) RDead by (simp add: resume_def)
    moreover have "walk_step fetch a ?a" by (rule walk_step.woken_dead [OF tgt]) (use r RDead in \<open>simp add: substate_of_def\<close>)
    ultimately show ?thesis by (intro that) auto
  next
    case RSubgraph
    obtain l c where ins': "insert_path (locals_fun g i) (shared_of g) e = (l, c)" by fastforce
    have sub: "sub a e = Some Subgraph" using r RSubgraph by (simp add: substate_of_def)
    have "tower_ok (auth_edges fetch) C (sub a) i {e} (tower a i)"
      using walk_inv_walker(1) [of "auth_edges fetch" C a i] assms(3) tgt by (simp add: walk_ok_def)
    then have "\<forall>x \<in> nodes (tower a i). sub a x \<noteq> Some Dead" using tower_states by fastforce
    note ins = insert_path_sim [OF assms(2) [unfolded gsim_def] ins' disjI2 [OF sub] this]
    let ?a = "move i (subgraph c) (tower a i) Running a" and ?g = "g \<lparr> locals := (locals g)[i := l], shared_of := c \<rparr>"
    have "sim (length (locals g), inputs) {i} ?a ((locals_fun g)(i := l)) c ?fet extra out"
      using fet tgt by (intro sim_move [OF quiet ins(1,3) _ _ ins(4,5)]) auto
    then have "gsim {i} ?a ?g pend extra out inputs" unfolding gsim_def locals_fun_update [OF i] by simp
    moreover have "advance i ?g = (nx, g')" using assms(4) RSubgraph ins' i by (simp add: resume_def locals_fun_def)
    moreover have "walk_step fetch a ?a" unfolding ins(2) by (rule walk_step.woken_sub [OF tgt sub])
    ultimately show ?thesis by (intro that) auto
  qed
  have "walk_ok fetch C n a1" by (rule walk_ok_steps [OF _ assms(1,3)]) (use step in blast)
  then obtain a' where "walk_steps fetch a1 a'" "gsim {} a' g' (asked i nx @ pend) extra out inputs"
    using advance_sim [OF assms(1) sim1 run _ adv] by blast
  then show ?thesis using step by (auto intro: rtranclp_into_tranclp2)
qed

lemma resume_all_sim:
  assumes "acyclic (auth_edges fetch)"
  shows "gsim {} a g [] (map (\<lambda>i. (i, e, r)) ls @ extra) out inputs \<Longrightarrow> walk_ok fetch C n a \<Longrightarrow>
    \<exists>a'. walk_steps fetch a a' \<and> (ls \<noteq> [] \<longrightarrow> (walk_step fetch)\<^sup>+\<^sup>+ a a') \<and>
      gsim {} a' (resume_all width e r ls g) [] extra out inputs"
proof (induction ls arbitrary: a g)
  case (Cons i ls)
  obtain nx g' where res: "resume i e r g = (nx, g')" by fastforce
  obtain a1 where a1: "(walk_step fetch)\<^sup>+\<^sup>+ a a1"
      and sim1: "gsim {} a1 g' (asked i nx @ []) (map (\<lambda>i. (i, e, r)) ls @ extra) out inputs"
    using resume_sim [OF assms Cons.prems(1) [unfolded list.map append_Cons] Cons.prems(2) res] by blast
  have "walk_ok fetch C n a1"
    by (rule walk_ok_steps [OF tranclp_into_rtranclp [OF a1] assms Cons.prems(2)])
  then obtain a' where "walk_steps fetch a1 a'"
      "gsim {} a' (resume_all width e r ls (dispatch width i (nx, g'))) [] extra out inputs"
    using Cons.IH [OF dispatch_sim [OF sim1]] by blast
  moreover have "resume_all width e r (i # ls) g = resume_all width e r ls (dispatch width i (nx, g'))"
    by (simp add: resume_all_def res)
  moreover have "(walk_step fetch)\<^sup>+\<^sup>+ a a'" using a1 calculation(1) by (rule tranclp_rtranclp_tranclp)
  ultimately show ?case by (auto intro: tranclp_into_rtranclp)
qed (auto simp: resume_all_def)


section \<open>Draining the wakes\<close>

lemma auth_wf_acyclic_edges: "auth_wf fetch \<Longrightarrow> acyclic (auth_edges fetch)"
  using wf_acyclic [OF auth_wf_edges] by (simp add: acyclic_converse)

abbreviation walk_less :: "fetch_event \<Rightarrow> event_id set \<Rightarrow> nat \<Rightarrow> (walk \<times> walk) set" where
  "walk_less fetch C n \<equiv> (measures (walk_measures ((auth_edges fetch)\<^sup>* `` C) n))\<^sup>+"

lemma walk_tranclp_decreases:
  assumes "(walk_step fetch)\<^sup>+\<^sup>+ a a'" and "auth_wf fetch" and "walk_ok fetch C n a" and "finite C"
  shows "(a', a) \<in> walk_less fetch C n"
  using assms(1)
proof (induction rule: tranclp_induct)
  case (base a1)
  then show ?case using walk_step_decreases assms(2-4) by (auto simp: walk_ok_def)
next
  case (step a1 a2)
  have "walk_ok fetch C n a1"
    by (rule walk_ok_steps [OF tranclp_into_rtranclp [OF step.hyps(1)] auth_wf_acyclic_edges [OF assms(2)] assms(3)])
  then have "(a2, a1) \<in> measures (walk_measures ((auth_edges fetch)\<^sup>* `` C) n)"
    using walk_step_decreases [OF step.hyps(2) assms(2)] assms(4) by (auto simp: walk_ok_def)
  then show ?case using step.IH by (rule trancl_into_trancl2)
qed

lemma shared_sim_wakes:
  assumes "shared_sim a c extra out" and "mset (extra' @ woken_of ws) = mset (extra @ woken_of (ready_wakes c))"
  shows "shared_sim a (c \<lparr> ready_wakes := ws \<rparr>) extra' out"
proof -
  let ?c = "c \<lparr> ready_wakes := ws \<rparr>"
  have fields: "subgraph ?c = subgraph c" "waiters ?c = waiters c" "ready_wakes ?c = ws" "parked ?c = parked c"
    "outputs ?c = outputs c" by simp_all
  have dist: "distinct (map fst (extra' @ woken_of ws)) = distinct (map fst (extra @ woken_of (ready_wakes c)))"
    using assms(2) by (metis mset_eq_imp_distinct_iff mset_map)
  show ?thesis
    using assms(1) unfolding shared_sim_def parking_ok_def fields mset_eq_setD [OF assms(2)] dist .
qed

lemma pop_wake_sim:
  assumes "gsim {} a g [] [] out inputs" and "ready_wakes (shared_of g) = ws @ [w]"
  shows "gsim {} a (g \<lparr> shared_of := (shared_of g) \<lparr> ready_wakes := ws \<rparr> \<rparr>) []
    (map (\<lambda>i. (i, wake_event w, wake_result w)) (wake_locals w) @ []) out inputs"
proof -
  let ?c = "(shared_of g) \<lparr> ready_wakes := ws \<rparr>" and ?x = "map (\<lambda>i. (i, wake_event w, wake_result w)) (wake_locals w)"
  have "shared_sim a ?c ?x out"
    by (rule shared_sim_wakes [OF sim_unfold(1) [OF assms(1) [unfolded gsim_def]]]) (simp add: assms(2) woken_of_def)
  moreover have "locals_fun (g \<lparr> shared_of := ?c \<rparr>) = locals_fun g" by (rule locals_fun_cong) simp
  ultimately show ?thesis using assms(1) by (simp add: gsim_def sim_def)
qed

abbreviation drain_less :: "fetch_event \<Rightarrow> event_id set \<Rightarrow> nat \<Rightarrow> ((walk \<times> global) \<times> walk \<times> global) set" where
  "drain_less fetch C n \<equiv> inv_image (walk_less fetch C n <*lex*> less_than)
     (\<lambda>(a, g). (a, length (ready_wakes (shared_of g))))"

lemma wf_drain_less: "wf (drain_less fetch C n)"
  by (intro wf_inv_image wf_lex_prod wf_trancl wf_measures wf_less_than)

lemma drain_ready_sim:
  assumes wf: "auth_wf fetch" and "finite C"
  shows "gsim {} a g [] [] out inputs \<Longrightarrow> walk_ok fetch C n a \<Longrightarrow>
    \<exists>a' g'. drain_ready width g = Some g' \<and> walk_steps fetch a a' \<and> gsim {} a' g' [] [] out inputs \<and>
      ready_wakes (shared_of g') = []"
proof (induction "(a, g)" arbitrary: a g
    rule: wf_induct_rule [OF wf_drain_less [of fetch C n]])
  case (1 a g)
  note IH = "1.hyps" and sim = "1.prems"(1) and ok = "1.prems"(2) and ac = auth_wf_acyclic_edges [OF wf]
  let ?ws = "ready_wakes (shared_of g)"
  show ?case
  proof (cases ?ws rule: rev_cases)
    case Nil
    then show ?thesis using sim by (subst drain_ready.simps) auto
  next
    case (snoc ws w)
    let ?g = "g \<lparr> shared_of := (shared_of g) \<lparr> ready_wakes := ws \<rparr> \<rparr>"
    let ?g' = "resume_all width (wake_event w) (wake_result w) (wake_locals w) ?g"
    have rec: "drain_ready width g = drain_ready width ?g'" by (subst drain_ready.simps) (simp add: snoc)
    note pop = pop_wake_sim [OF sim snoc]
    obtain a1 where steps: "walk_steps fetch a a1" and sim1: "gsim {} a1 ?g' [] [] out inputs"
        and less: "((a1, ?g'), (a, g)) \<in> drain_less fetch C n"
    proof (cases "wake_locals w = []")
      case True
      then have "?g' = ?g" by (simp add: resume_all_def)
      moreover have "gsim {} a ?g [] [] out inputs" using pop True by simp
      ultimately show ?thesis by (intro that [of a]) (simp_all add: snoc)
    next
      case False
      then obtain a1 where a1: "walk_steps fetch a a1" "(walk_step fetch)\<^sup>+\<^sup>+ a a1" "gsim {} a1 ?g' [] [] out inputs"
        using resume_all_sim [OF ac pop ok] by blast
      then show ?thesis using walk_tranclp_decreases [OF a1(2) wf ok assms(2)] by (intro that [of a1]) simp_all
    qed
    have "walk_ok fetch C n a1" by (rule walk_ok_steps [OF steps ac ok])
    then show ?thesis using IH [OF less sim1] steps unfolding rec by (meson rtranclp_trans)
  qed
qed

section \<open>Launching\<close>

lemma sim_relabel:
  "sim w b a L c fet extra out \<Longrightarrow> sim (l, u) b (a \<lparr> unlaunched := u, launched := l \<rparr>) L c fet extra out"
  by (simp add: sim_def shared_sim_def fetch_sim_def busy_def)

lemma launch_sim:
  assumes "gsim {} a g [] [] out (seed # rest)" and "walk_ok fetch C n a"
  shows "\<exists>a'. walk_step fetch a a' \<and>
    gsim {} a' (g \<lparr> locals := locals g @ [local_default], todo := todo g @ [(length (locals g), seed)] \<rparr>) [] [] out rest"
proof -
  let ?i = "length (locals g)" and ?fet = "todo g @ deferred g"
  let ?g = "g \<lparr> locals := locals g @ [local_default], todo := todo g @ [(?i, seed)] \<rparr>"
  let ?m = "move ?i (sub a) [] (Fetching seed) a"
  let ?a = "?m \<lparr> unlaunched := rest, launched := Suc ?i \<rparr>"
  note S = sim_unfold [OF assms(1) [unfolded gsim_def]]
  have launched: "launched a = ?i" "unlaunched a = seed # rest" using S(9) by simp_all
  have idle: "target a ?i = Idle" "tower a ?i = []" using assms(2) launched by (auto simp: walk_ok_def walk_bounded_def)
  have lf: "locals_fun ?g = locals_fun g" "locals_fun g ?i = local_default"
    by (auto simp: locals_fun_def fun_eq_iff nth_append)
  have "sim (?i, seed # rest) {?i} a (locals_fun g) (shared_of g) ?fet [] out"
    using sim_busy [OF assms(1) [unfolded gsim_def], of "{?i}"] S(8) by simp
  then have "sim (?i, seed # rest) {?i} (move ?i (subgraph (shared_of g)) [] (Fetching seed) a)
      ((locals_fun g)(?i := local_default)) (shared_of g) (todo g @ (?i, seed) # deferred g) [] out"
    using fetch_sim_other [OF S(3), of ?i] S(4,6,7) idle
    by (intro sim_move [OF _ settled_refl [OF S(5)]]) (auto simp: local_sim_def local_default_def)
  then have "sim (?i, seed # rest) {?i} ?m (locals_fun g) (shared_of g) (todo g @ (?i, seed) # deferred g) [] out"
    using S(4) lf(2) by (metis fun_upd_triv)
  moreover have "?i \<notin> busy ?m" by (simp add: busy_def)
  then have "busy ?m \<subseteq> {}" using sim_unfold(8) [OF calculation] by blast
  ultimately have "gsim {} ?a ?g [] [] out rest"
    using sim_relabel [OF sim_busy] lf(1) unfolding gsim_def by fastforce
  moreover have "walk_step fetch a ?a" using launched idle by (intro walk_step.launch) auto
  ultimately show ?thesis by blast
qed

lemma refill_sim:
  assumes "acyclic (auth_edges fetch)"
  shows "refill width inputs g = (inputs', g') \<Longrightarrow> gsim {} a g [] [] out inputs \<Longrightarrow> walk_ok fetch C n a \<Longrightarrow>
    \<exists>a'. walk_steps fetch a a' \<and> gsim {} a' g' [] [] out inputs' \<and> shared_of g' = shared_of g \<and>
      (width \<le> length (todo g') \<or> deferred g' = [] \<and> inputs' = [])"
proof (induction width inputs g arbitrary: a rule: refill.induct)
  case (1 width inputs g)
  note eq = refill.simps [of width inputs g] and out = "1.prems"(1)
  show ?case
  proof (cases "length (todo g) < width")
    case False
    then show ?thesis using "1.prems" eq by auto
  next
    case True
    show ?thesis
    proof (cases "deferred g")
      case (Cons d ds)
      let ?g = "g \<lparr> deferred := ds, todo := todo g @ [d] \<rparr>"
      have "gsim {} a ?g [] [] out inputs" by (rule gsim_cong [OF "1.prems"(2)]) (simp_all add: Cons)
      moreover have "refill width inputs ?g = (inputs', g')" using out eq True Cons by simp
      ultimately show ?thesis using "1.IH"(2) [OF True Cons] "1.prems"(3) by fastforce
    next
      case Nil
      show ?thesis
      proof (cases inputs)
        case Nil
        then show ?thesis using "1.prems" eq True \<open>deferred g = []\<close> by auto
      next
        case (Cons seed rest)
        let ?g = "g \<lparr> locals := locals g @ [local_default], todo := todo g @ [(length (locals g), seed)] \<rparr>"
        obtain a1 where a1: "walk_step fetch a a1" "gsim {} a1 ?g [] [] out rest"
          using launch_sim "1.prems"(2,3) unfolding Cons by blast
        have "walk_ok fetch C n a1" by (rule walk_ok_steps [OF _ assms "1.prems"(3)]) (use a1(1) in blast)
        moreover have "refill width rest ?g = (inputs', g')" using out eq True Nil Cons by simp
        ultimately obtain a' where "walk_steps fetch a1 a'" "gsim {} a' g' [] [] out inputs' \<and> shared_of g' = shared_of ?g \<and>
            (width \<le> length (todo g') \<or> deferred g' = [] \<and> inputs' = [])"
          using "1.IH"(1) [OF True Nil Cons] a1(2) by blast
        then show ?thesis using a1(1) by (auto intro: converse_rtranclp_into_rtranclp)
      qed
    qed
  qed
qed


section \<open>One completed fetch\<close>

lemma refill_deferred:
  "refill width [] g = (inputs', g') \<Longrightarrow> locals g' = locals g \<and> shared_of g' = shared_of g \<and>
    todo g' @ deferred g' = todo g @ deferred g"
proof (induction width "[] :: event_id list" g rule: refill.induct)
  case (1 width g)
  then show ?case using refill.simps [of width "[]" g] by (auto split: if_splits list.splits)
qed

lemma drain_deferred_sim:
  assumes "gsim b a g pend extra out inputs"
  shows "gsim b a (drain_deferred width g) pend extra out inputs"
proof (cases "refill width [] g")
  case (Pair inputs' g')
  note eq = refill_deferred [OF this]
  have "mset (todo g' @ deferred g' @ pend) = mset (todo g @ deferred g @ pend)" using eq by (metis append_assoc)
  then show ?thesis using eq Pair gsim_cong [OF assms, of g'] by (simp add: drain_deferred_def)
qed

lemma mset_remove_nth: "k < length xs \<Longrightarrow> add_mset (xs ! k) (mset (remove_nth k xs)) = mset xs"
  by (metis id_take_nth_drop mset.simps(2) mset_append remove_nth_def union_mset_add_mset_right)

text \<open>Items that were streamed leave \<open>outputs\<close>, so that none is streamed again.\<close>

lemma flush_sim:
  "gsim b a (g \<lparr> todo := t, shared_of := (shared_of g) \<lparr> outputs := [] \<rparr> \<rparr>) pend' extra (out @ outputs (shared_of g)) inputs
    \<longleftrightarrow> gsim b a (g \<lparr> todo := t \<rparr>) pend' extra out inputs"
proof -
  have "locals_fun (g \<lparr> todo := t, shared_of := c \<rparr>) = locals_fun (g \<lparr> todo := t \<rparr>)" for c
    by (rule locals_fun_cong) simp
  then show ?thesis by (simp add: gsim_def sim_def shared_sim_def parking_ok_def)
qed

lemma complete_fetch_sim:
  assumes "auth_wf fetch" and "finite C" and "gsim {} a g [] [] out inputs" and "walk_ok fetch C n a" and "todo g \<noteq> []"
  shows "\<exists>outs g' a'. complete_fetch width choice fetch g = Some (outs, g') \<and> (walk_step fetch)\<^sup>+\<^sup>+ a a' \<and>
    gsim {} a' g' [] [] (out @ outputs (shared_of g)) inputs \<and> outputs (shared_of g') = outs \<and>
    ready_wakes (shared_of g') = []"
proof -
  let ?k = "choice mod length (todo g)" and ?out = "out @ outputs (shared_of g)"
  obtain i e where ie: "todo g ! ?k = (i, e)" by fastforce
  let ?g1 = "g \<lparr> todo := remove_nth ?k (todo g), shared_of := (shared_of g) \<lparr> outputs := [] \<rparr> \<rparr>"
  obtain nx g2 where run: "process_fetch i e (fetch e) (drain_deferred width ?g1) = (nx, g2)" by fastforce
  note ac = auth_wf_acyclic_edges [OF assms(1)]
  have "gsim {} a (g \<lparr> todo := remove_nth ?k (todo g) \<rparr>) [(i, e)] [] out inputs"
    using mset_remove_nth [of ?k "todo g"] assms(5) by (intro gsim_cong [OF assms(3)]) (simp_all add: ie)
  then have "gsim {} a ?g1 [(i, e)] [] ?out inputs" unfolding flush_sim .
  then obtain a1 where a1: "(walk_step fetch)\<^sup>+\<^sup>+ a a1" "gsim {} a1 g2 (asked i nx @ []) [] ?out inputs"
    using process_fetch_sim [OF ac drain_deferred_sim [OF \<open>gsim {} a ?g1 _ _ _ _\<close>] assms(4) run] by auto
  have "walk_ok fetch C n a1" by (rule walk_ok_steps [OF tranclp_into_rtranclp [OF a1(1)] ac assms(4)])
  then obtain a' g' where "drain_ready width (dispatch width i (nx, g2)) = Some g'" "walk_steps fetch a1 a'"
      "gsim {} a' g' [] [] ?out inputs" "ready_wakes (shared_of g') = []"
    using drain_ready_sim [OF assms(1,2) dispatch_sim [OF a1(2)]] by blast
  then show ?thesis using a1(1) ie run
    by (simp add: complete_fetch_def Let_def) (meson tranclp_rtranclp_tranclp)
qed

section \<open>The stream\<close>

lemma drained_quiescent:
  assumes "gsim {} a g [] [] out []" and "ready_wakes (shared_of g) = []" and "todo g = []" and "deferred g = []"
  shows "quiescent a"
proof -
  note S = sim_unfold [OF assms(1) [unfolded gsim_def]] and mem = shared_sim_mem [OF sim_unfold(1) [OF assms(1) [unfolded gsim_def]]]
  have "target a i = Idle \<or> (\<exists>e. target a i = Waiting e)" for i
    using mem(2) [of i] S(3,8) assms(2-4) by (cases "target a i") (auto simp: woken_of_def fetch_sim_def busy_def)
  then show ?thesis using S(9) by (simp add: quiescent_def)
qed

lemma subgraph_stream_exact:
  assumes wf: "auth_wf fetch" and "finite C" and width: "\<forall>k. 0 < dfs_width D k"
  shows "gsim {} a g [] [] out inputs \<Longrightarrow> walk_ok fetch C n a \<Longrightarrow> ready_wakes (shared_of g) = [] \<Longrightarrow>
    \<exists>xs. subgraph_stream D fetch k inputs g = Some xs \<and> distinct (out @ outputs (shared_of g) @ xs) \<and>
      set (out @ outputs (shared_of g) @ xs) = conflicted_subgraph fetch C"
proof (induction a arbitrary: k g out inputs rule: wf_induct_rule [OF wf_trancl [OF wf_measures],
    of "walk_measures ((auth_edges fetch)\<^sup>* `` C) n"])
  case (1 a)
  note IH = "1.IH" and sim = "1.prems"(1) and ok = "1.prems"(2) and ac = auth_wf_acyclic_edges [OF wf]
  let ?w = "dfs_width D k" and ?s = "out @ outputs (shared_of g)"
  obtain inputs' g1 where fill: "refill ?w inputs g = (inputs', g1)" by fastforce
  then obtain a1 where a1: "walk_steps fetch a a1" and sim1: "gsim {} a1 g1 [] [] out inputs'"
      and shared: "shared_of g1 = shared_of g" and full: "?w \<le> length (todo g1) \<or> deferred g1 = [] \<and> inputs' = []"
    using refill_sim [OF ac _ sim ok] by blast
  have ok1: "walk_ok fetch C n a1" by (rule walk_ok_steps [OF a1 ac ok])
  note stream = subgraph_stream.simps [of D fetch k inputs g]
  show ?case
  proof (cases "todo g1 = []")
    case True
    then have "deferred g1 = []" "inputs' = []" using full width [rule_format, of k] by auto
    then have "quiescent a1" using drained_quiescent sim1 "1.prems"(3) shared True by simp
    then have "set ?s = conflicted_subgraph fetch C"
      using quiescent_exact [OF _ auth_wf_edges [OF wf]] ok1 sim_unfold(7) [OF sim1 [unfolded gsim_def]]
      by (simp add: walk_ok_def between_spec shared)
    then show ?thesis using stream fill True sim_unfold(6) [OF sim1 [unfolded gsim_def]] shared by simp
  next
    case False
    obtain outs g2 a2 where fetched: "complete_fetch ?w (dfs_pick D k) fetch g1 = Some (outs, g2)"
        and a2: "(walk_step fetch)\<^sup>+\<^sup>+ a1 a2" and sim2: "gsim {} a2 g2 [] [] ?s inputs'"
        and outs: "outputs (shared_of g2) = outs" and "ready_wakes (shared_of g2) = []"
      using complete_fetch_sim [OF wf assms(2) sim1 ok1 False] unfolding shared by blast
    have steps: "(walk_step fetch)\<^sup>+\<^sup>+ a a2" using a1 a2 by (rule rtranclp_tranclp_tranclp)
    have "walk_ok fetch C n a2" by (rule walk_ok_steps [OF tranclp_into_rtranclp [OF steps] ac ok])
    then obtain xs where "subgraph_stream D fetch (Suc k) inputs' g2 = Some xs" "distinct (?s @ outs @ xs)"
        "set (?s @ outs @ xs) = conflicted_subgraph fetch C"
      using IH [OF walk_tranclp_decreases [OF steps wf ok assms(2)] sim2] \<open>ready_wakes (shared_of g2) = []\<close>
      unfolding outs by blast
    then show ?thesis using stream fill False fetched by simp
  qed
qed

lemma global_init_sim: "gsim {} (walk_init seeds) (global_init seeds) [] [] [] seeds"
  by (auto simp: gsim_def sim_def shared_sim_def parking_ok_def local_sim_def fetch_sim_def busy_def walk_init_def
      global_init_def locals_fun_def local_default_def woken_of_def waiting_of_def)

lemma walk_init_ok: "walk_ok fetch (set seeds) (length seeds) (walk_init seeds)"
  by (simp add: walk_ok_def walk_init_inv) (simp add: walk_bounded_def walk_init_def)

text \<open>
  The search ends whatever the order of the fetches and the width of the stream, and streams each event of the
  conflicted state subgraph once.
\<close>

theorem conflicted_subgraph_dfs_correct:
  assumes "auth_wf fetch" and "\<forall>k. 0 < dfs_width D k"
  shows "\<exists>xs. conflicted_subgraph_dfs D seeds fetch = Some xs \<and> distinct xs \<and>
    set xs = conflicted_subgraph fetch (set seeds)"
  using subgraph_stream_exact [OF assms(1) _ assms(2) global_init_sim walk_init_ok, of seeds 0]
  by (simp add: conflicted_subgraph_dfs_def global_init_def)

end
