(* ===== verification/Resolve.thy ===== *)
theory Resolve
  imports Iterative_Auth Subgraph_Driver Mainline_Order
begin

text \<open>
  State resolution as a whole: \<^verbatim>\<open>full_conflicted_set\<close> and \<^verbatim>\<open>resolve\<close> of \<^verbatim>\<open>state_res/resolve.rs\<close>, which compose the
  components. Streams of unordered futures and the iteration order of hash sets are taken from a schedule; the lemmas
  show that nothing of the result depends on it.
\<close>

section \<open>The full conflicted set\<close>

definition considers_subgraph :: "room_version_rules \<Rightarrow> bool \<Rightarrow> bool" where
  "considers_subgraph rules hydra_backports \<longleftrightarrow>
     (case state_res_v2 rules of Some r \<Rightarrow> consider_conflicted_state_subgraph r | None \<Rightarrow> False) \<or> hydra_backports"

definition conflicted_state_set :: "conflict_map \<Rightarrow> event_id list" where
  "conflicted_state_set conflicted_states = dedup_by (=) (sort_by (\<le>) (concat (map snd conflicted_states)))"

definition full_conflicted_set ::
  "schedule \<Rightarrow> dfs_schedule \<Rightarrow> room_version_rules \<Rightarrow> conflict_map \<Rightarrow> auth_set list \<Rightarrow> fetch_event \<Rightarrow>
   (event_id \<Rightarrow> bool) \<Rightarrow> bool \<Rightarrow> event_id list option" where
  "full_conflicted_set S D rules conflicted_states auth_sets fetch existing hydra_backports =
     (let state_ids = conflicted_state_set conflicted_states
      in map_option
           (\<lambda>subgraph. arrival S 4 (remdups
              (filter existing (arrival S 3 (auth_difference auth_sets @ state_ids)) @ subgraph)))
           (if considers_subgraph rules hydra_backports then conflicted_subgraph_dfs D state_ids fetch else Some []))"

section \<open>Resolving\<close>

definition begins_with_empty :: "room_version_rules \<Rightarrow> bool \<Rightarrow> bool" where
  "begins_with_empty rules hydra_backports \<longleftrightarrow>
     (case state_res_v2 rules of Some r \<Rightarrow> begin_iterative_auth_checks_with_empty_state_map r | None \<Rightarrow> False) \<or>
     hydra_backports"

text \<open>\<^verbatim>\<open>map.extend(other)\<close>\<close>

definition extend_map :: "('k \<times> 'v) list \<Rightarrow> ('k \<times> 'v) list \<Rightarrow> ('k \<times> 'v) list" where
  "extend_map m other = fold (\<lambda>kv. map_insert (fst kv) (snd kv)) other m"

definition remaining_events :: "event_id list \<Rightarrow> event_id list \<Rightarrow> event_id list" where
  "remaining_events full power_set = filter (\<lambda>x. \<not> is_ok (binary_search (sort_by (\<le>) power_set) x)) full"

definition sort_remaining ::
  "schedule \<Rightarrow> state_map \<Rightarrow> event_id list \<Rightarrow> fetch_event \<Rightarrow> (error, event_id list) comp" where
  "sort_remaining S partial remaining fetch =
     (if remaining \<noteq> [] then mainline_sort S (map_of partial (m_room_power_levels, '''')) remaining fetch
      else Some (Inr []))"

definition resolve_conflicts ::
  "schedule \<Rightarrow> ruma \<Rightarrow> room_version_rules \<Rightarrow> event_id list \<Rightarrow> state_map \<Rightarrow> fetch_event \<Rightarrow> (error, state_map) comp" where
  "resolve_conflicts S R rules full initial_state fetch =
     cbind (power_sort S R rules full fetch) (\<lambda>sorted_power_set.
     cbind (Some (iterative_auth_check R rules sorted_power_set initial_state fetch)) (\<lambda>partially_resolved_state.
     cbind (sort_remaining S partially_resolved_state (remaining_events full sorted_power_set) fetch)
       (\<lambda>sorted_remaining_events.
     Some (iterative_auth_check R rules sorted_remaining_events partially_resolved_state fetch))))"

definition resolve ::
  "schedule \<Rightarrow> dfs_schedule \<Rightarrow> ruma \<Rightarrow> room_version_rules \<Rightarrow> state_map list \<Rightarrow> auth_set list \<Rightarrow> fetch_event \<Rightarrow>
   (event_id \<Rightarrow> bool) \<Rightarrow> bool \<Rightarrow> (error, state_map) comp" where
  "resolve S D R rules state_maps auth_sets fetch existing hydra_backports =
     (case split_conflicted_state state_maps of (unconflicted_state, conflicted_states) \<Rightarrow>
      if conflicted_states = [] then Some (Inr unconflicted_state)
      else Option.bind (full_conflicted_set S D rules conflicted_states auth_sets fetch existing hydra_backports) (\<lambda>full.
        cbind (resolve_conflicts S R rules full
            (if begins_with_empty rules hydra_backports then [] else unconflicted_state) fetch)
          (\<lambda>resolved_state. Some (Inr (extend_map resolved_state unconflicted_state)))))"

section \<open>What the full conflicted set is\<close>

text \<open>The keys the forks agree on, the values of the others, and the full conflicted set of the specification.\<close>

definition agreed :: "state_map list \<Rightarrow> type_state_key \<Rightarrow> event_id \<Rightarrow> bool" where
  "agreed maps k v \<longleftrightarrow> maps \<noteq> [] \<and> (\<forall>m \<in> set maps. map_of m k = Some v)"

definition contested :: "state_map list \<Rightarrow> event_id set" where
  "contested maps = {v. \<exists>k. (\<exists>m \<in> set maps. map_of m k = Some v) \<and> \<not> (\<exists>w. agreed maps k w)}"

definition auth_diff :: "auth_set list \<Rightarrow> event_id set" where
  "auth_diff sets = \<Union> (set ` set sets) - \<Inter> (set ` set sets)"

definition full_conflicted ::
  "room_version_rules \<Rightarrow> state_map list \<Rightarrow> auth_set list \<Rightarrow> fetch_event \<Rightarrow> (event_id \<Rightarrow> bool) \<Rightarrow> bool \<Rightarrow> event_id set" where
  "full_conflicted rules maps sets fetch existing hydra_backports =
     {x \<in> auth_diff sets \<union> contested maps. existing x} \<union>
     (if considers_subgraph rules hydra_backports then conflicted_subgraph fetch (contested maps) else {})"

text \<open>What the caller promises: the forks are maps, the auth sets are sets, and there are fewer than \<open>2\<^sup>6\<^sup>4\<close> of them.\<close>

definition forks_ok :: "state_map list \<Rightarrow> auth_set list \<Rightarrow> bool" where
  "forks_ok maps sets \<longleftrightarrow> (\<forall>m \<in> set maps. distinct (keys m)) \<and> length maps \<le> usize_max \<and>
     (\<forall>s \<in> set sets. distinct s) \<and> length sets \<le> usize_max"

text \<open>The event store answers with the event asked for, and auth events are acyclic and well-founded.\<close>

definition store_ok :: "fetch_event \<Rightarrow> bool" where
  "store_ok fetch \<longleftrightarrow> honest fetch \<and> auth_wf fetch"

definition schedule_ok :: "schedule \<Rightarrow> dfs_schedule \<Rightarrow> bool" where
  "schedule_ok S D \<longleftrightarrow> fair S \<and> (\<forall>k. 0 < dfs_width D k)"

lemma distinct_conflict_keys:
  "distinct (keys (snd acc)) \<Longrightarrow> distinct (keys (snd (fold (sort_occurrence n) ts acc)))"
  by (induction ts arbitrary: acc)
    (auto simp: sort_occurrence_def distinct_keys_upsert split: prod.splits)

lemma Union_override: "g k = [] \<Longrightarrow> (\<Union>j. set (if j = k then v else g j)) = set v \<union> (\<Union>j. set (g j))"
proof -
  assume "g k = []"
  then have "x \<in> set (g j) \<Longrightarrow> x \<in> set (if j = k then v else g j)" for x j by (cases "j = k") auto
  then show ?thesis by (auto split: if_splits)
qed

lemma set_values:
  "distinct (keys c) \<Longrightarrow> set (concat (map snd c)) = (\<Union>k. set (conflicts_of c k))"
proof (induction c)
  case (Cons kv c)
  obtain k v where kv: "kv = (k, v)" by fastforce
  have "map_of c k = None" using Cons.prems by (simp add: kv keys_def map_of_eq_None_iff)
  then have "conflicts_of c k = []" "conflicts_of (kv # c) j = (if j = k then v else conflicts_of c j)" for j
    by (simp_all add: kv conflicts_of_def)
  then have "(\<Union>j. set (conflicts_of (kv # c) j)) = set v \<union> (\<Union>j. set (conflicts_of c j))"
    using Union_override [of "conflicts_of c" k v] by simp
  then show ?case using Cons by (simp add: kv keys_def)
qed (simp add: conflicts_of_def)

lemma set_conflicted_state_set:
  assumes "forks_ok maps sets"
  shows "set (conflicted_state_set (snd (split_conflicted_state maps))) = contested maps"
proof -
  have maps: "\<forall>m \<in> set maps. distinct (keys m)" "length maps \<le> usize_max" using assms by (auto simp: forks_ok_def)
  have "distinct (keys (snd (split_conflicted_state maps)))"
    unfolding split_as_fold [OF maps(2)] by (rule distinct_conflict_keys) (simp add: keys_def)
  then show ?thesis
    unfolding conflicted_state_set_def set_dedup_by_eq set_sort_by set_values [OF \<open>distinct _\<close>]
      split_conflicted_iff(2) [OF maps] contested_def agreed_def by (auto split: if_splits)
qed

lemma full_conflicted_set_correct:
  assumes "forks_ok maps sets" and "auth_wf fetch" and "schedule_ok S D"
  shows "\<exists>full. full_conflicted_set S D rules (snd (split_conflicted_state maps)) sets fetch existing hydra = Some full \<and>
    distinct full \<and> set full = full_conflicted rules maps sets fetch existing hydra"
proof -
  let ?ids = "conflicted_state_set (snd (split_conflicted_state maps))"
  have S: "fair S" "\<forall>k. 0 < dfs_width D k" using assms(3) by (auto simp: schedule_ok_def)
  obtain xs where xs: "(if considers_subgraph rules hydra then conflicted_subgraph_dfs D ?ids fetch else Some []) = Some xs"
      "set xs = (if considers_subgraph rules hydra then conflicted_subgraph fetch (contested maps) else {})"
    using conflicted_subgraph_dfs_correct [OF assms(2) S(2), of ?ids] set_conflicted_state_set [OF assms(1)]
    by (cases "considers_subgraph rules hydra") auto
  let ?full = "remdups (filter existing (arrival S 3 (auth_difference sets @ ?ids)) @ xs)"
  have "mset (arrival S 4 ?full) = mset ?full" using S(1) by (simp add: fair_def)
  then have "distinct (arrival S 4 ?full)" by (metis distinct_remdups mset_eq_imp_distinct_iff)
  moreover have "set (auth_difference sets) = auth_diff sets"
    using assms(1) unfolding auth_diff_def by (intro set_auth_difference) (auto simp: forks_ok_def)
  then have "set (arrival S 4 ?full) = full_conflicted rules maps sets fetch existing hydra"
    by (auto simp: set_arrival [OF S(1)] set_conflicted_state_set [OF assms(1)] xs(2) full_conflicted_def)
  ultimately show ?thesis by (simp add: full_conflicted_set_def Let_def xs(1))
qed

section \<open>What the remaining events are\<close>

lemma remaining_events_filter: "remaining_events full power_set = filter (\<lambda>x. x \<notin> set power_set) full"
proof -
  have "sorted (sort_by (\<le>) power_set)" using ord.sorted_sort_by [of power_set] by simp
  then show ?thesis by (simp add: remaining_events_def binary_search_mem)
qed

lemma sort_remaining_returns: "store_ok fetch \<Longrightarrow> sort_remaining S partial remaining fetch \<noteq> None"
  unfolding sort_remaining_def store_ok_def using mainline_sort_returns by simp

lemma sort_remaining_events:
  assumes "fair S" and "sort_remaining S partial remaining fetch = Some (Inr xs)"
  shows "set xs \<subseteq> set remaining"
proof (cases "remaining = []")
  case False
  with assms(2) have "mainline_sort S (map_of partial (m_room_power_levels, '''')) remaining fetch = Some (Inr xs)"
    by (simp add: sort_remaining_def)
  then obtain P where "mset xs = mset (filter P remaining)" using mainline_sort_spec [OF assms(1)] by blast
  then have "set xs = set (filter P remaining)" by (rule mset_eq_setD)
  then show ?thesis by auto
qed (use assms(2) in \<open>simp add: sort_remaining_def\<close>)

lemma sort_remaining_schedule:
  assumes "fair S" and "fair S'" and "mset remaining' = mset remaining" and "map_of partial' = map_of partial"
    and "sort_remaining S partial remaining fetch = Some (Inr xs)"
  shows "sort_remaining S' partial' remaining' fetch = Some (Inr xs)"
proof -
  have "remaining' = [] \<longleftrightarrow> remaining = []" using assms(3) by (metis mset_zero_iff)
  then show ?thesis using assms(4,5) mainline_sort_schedule [OF assms(1-3)]
    by (auto simp: sort_remaining_def split: if_splits)
qed

section \<open>What resolving gives\<close>

lemma map_of_extend: "map_of (extend_map m other) = map_of m ++ map_of (rev other)"
  unfolding extend_map_def by (induction other arbitrary: m) (simp_all add: fun_eq_iff map_add_def split: option.splits)

lemma map_of_rev_distinct: "distinct (keys m) \<Longrightarrow> map_of (rev m) = map_of m"
  by (subst map_of_inject_set) (simp_all add: keys_def flip: rev_map)

lemma resolve_conflicts_returns:
  assumes "store_ok fetch" and "fair S"
  shows "resolve_conflicts S R rules full initial fetch \<noteq> None"
proof -
  have "power_sort S R rules full fetch \<noteq> None"
    using power_sort_returns_order [OF _ assms(2)] assms(1) by (simp add: store_ok_def)
  then show ?thesis unfolding resolve_conflicts_def by (intro cbind_not_None sort_remaining_returns assms(1)) simp_all
qed

lemma auth_steps_in: "(x, y) \<in> (auth_step fetch F)\<^sup>* \<Longrightarrow> x \<in> F \<Longrightarrow> y \<in> F"
  by (induction rule: rtrancl_induct) (auto simp: auth_step_def)

lemma power_closure_subset: "power_closure R fetch F \<subseteq> F"
  using auth_steps_in unfolding power_closure_def chain_def power_events_def by fast

text \<open>
  State resolution as the specification has it, over sets of events and room states as partial functions: the power
  events with their auth chains are ordered after their auth events and applied to the start state, the other events of
  the full conflicted set that can be placed are ordered along the mainline of the power levels event reached, and applied
  to that state.
\<close>

definition power_order :: "ruma \<Rightarrow> fetch_event \<Rightarrow> event_id set \<Rightarrow> event_id list \<Rightarrow> bool" where
  "power_order R fetch full xs \<longleftrightarrow> distinct xs \<and> set xs = power_closure R fetch full \<and>
     (\<forall>i ev. i < length xs \<and> fetch (xs ! i) = Inr ev \<longrightarrow> set (auth_events ev) \<inter> set xs \<subseteq> set (take i xs))"

definition mainline_order :: "fetch_event \<Rightarrow> event_id option \<Rightarrow> event_id set \<Rightarrow> event_id list \<Rightarrow> bool" where
  "mainline_order fetch pl X xs \<longleftrightarrow> distinct xs \<and> set xs = {x \<in> X. placed fetch pl x} \<and> sorted_wrt (mainline_before fetch pl) xs"

definition unconflicted :: "state_map list \<Rightarrow> room_state" where
  "unconflicted maps k = (if \<exists>v. agreed maps k v then map_of (hd maps) k else None)"

definition resolution_steps ::
  "ruma \<Rightarrow> room_version_rules \<Rightarrow> fetch_event \<Rightarrow> event_id set \<Rightarrow> room_state \<Rightarrow> room_state \<Rightarrow> bool" where
  "resolution_steps R rules fetch full start resolved \<longleftrightarrow> (\<exists>power partial rest.
     power_order R fetch full power \<and> auth_run R rules fetch start power partial \<and>
     mainline_order fetch (partial (m_room_power_levels, '''')) (full - power_closure R fetch full) rest \<and>
     auth_run R rules fetch partial rest resolved)"

text \<open>No chain of power levels events is longer than a \<^verbatim>\<open>usize\<close> can count.\<close>

definition mainlines_fit :: "fetch_event \<Rightarrow> bool" where
  "mainlines_fit fetch \<longleftrightarrow> (\<forall>x. power_ancestor fetch usize_max (Some x) = None)"

lemma mainlines_fit_ancestor: "mainlines_fit fetch \<Longrightarrow> power_ancestor fetch usize_max pl = None"
  by (cases pl) (simp_all add: mainlines_fit_def)

lemma power_sort_power_order:
  assumes "store_ok fetch" and "fair S" and "power_sort S R rules full fetch = Some (Inr xs)"
  shows "power_order R fetch (set full) xs"
proof -
  have "honest fetch" "auth_acyclic fetch" using assms(1) auth_wf_acyclic by (auto simp: store_ok_def)
  note order = power_sort_order [OF this(1) assms(2,3) this(2)]
  show ?thesis unfolding power_order_def using order power_closure_subset [of R fetch "set full"] by blast
qed

lemma sort_remaining_order:
  assumes "store_ok fetch" and "mainlines_fit fetch" and "fair S" and "distinct remaining"
    and "sort_remaining S partial remaining fetch = Some (Inr xs)"
  shows "mainline_order fetch (map_of partial (m_room_power_levels, '''')) (set remaining) xs"
proof (cases "remaining = []")
  case False
  let ?pl = "map_of partial (m_room_power_levels, '''')"
  have "mainline_sort S ?pl remaining fetch = Some (Inr xs)" using assms(5) False by (simp add: sort_remaining_def)
  note order = mainline_sort_order [OF _ _ assms(3) mainlines_fit_ancestor [OF assms(2)] this]
  have m: "mset xs = mset (filter (placed fetch ?pl) remaining)" using order(1) assms(1) by (simp add: store_ok_def)
  then have "distinct xs" "set xs = {x \<in> set remaining. placed fetch ?pl x}"
    using assms(4) mset_eq_imp_distinct_iff [OF m] mset_eq_setD [OF m] by auto
  then show ?thesis using order(2) assms(1) by (simp add: mainline_order_def store_ok_def)
qed (use assms(5) in \<open>simp add: sort_remaining_def mainline_order_def\<close>)

lemma resolve_conflicts_steps:
  assumes "lawful_cmp (state_event_type_cmp R)" and "store_ok fetch" and "mainlines_fit fetch" and "fair S" and "distinct full"
    and "resolve_conflicts S R rules full initial fetch = Some (Inr st)"
  shows "resolution_steps R rules fetch (set full) (map_of initial) (map_of st)"
proof -
  obtain power partial rest where power: "power_sort S R rules full fetch = Some (Inr power)"
      and partial: "iterative_auth_check R rules power initial fetch = Inr partial"
      and rest: "sort_remaining S partial (remaining_events full power) fetch = Some (Inr rest)"
      and st: "iterative_auth_check R rules rest partial fetch = Inr st"
    using assms(6) by (auto simp: resolve_conflicts_def)
  have p: "power_order R fetch (set full) power" by (rule power_sort_power_order [OF assms(2,4) power])
  have "distinct (remaining_events full power)" using assms(5) by (simp add: remaining_events_filter)
  note m = sort_remaining_order [OF assms(2-4) this rest]
  have "set (remaining_events full power) = set full - power_closure R fetch (set full)"
    using p by (auto simp: remaining_events_filter power_order_def)
  with m p show ?thesis
    using iterative_auth_check_runs [OF assms(1) partial] iterative_auth_check_runs [OF assms(1) st]
    unfolding resolution_steps_def by auto
qed

lemma rel_sum_Inr: "rel_sum (=) Q (Inr x) r \<Longrightarrow> \<exists>y. r = Inr y \<and> Q x y"
  by (cases r) auto

lemma resolve_conflicts_schedule:
  assumes "store_ok fetch" and "fair S" and "fair S'" and "mset full' = mset full" and "map_of initial = map_of initial'"
    and "resolve_conflicts S R rules full initial fetch = Some (Inr st)"
  shows "\<exists>st'. resolve_conflicts S' R rules full' initial' fetch = Some (Inr st') \<and> map_of st' = map_of st"
proof -
  obtain power partial rest where power: "power_sort S R rules full fetch = Some (Inr power)"
      and partial: "iterative_auth_check R rules power initial fetch = Inr partial"
      and rest: "sort_remaining S partial (remaining_events full power) fetch = Some (Inr rest)"
      and st: "iterative_auth_check R rules rest partial fetch = Inr st"
    using assms(6) by (auto simp: resolve_conflicts_def)
  have "honest fetch" using assms(1) by (simp add: store_ok_def)
  then have power': "power_sort S' R rules full' fetch = Some (Inr power)"
    using power_sort_schedule [OF _ assms(2,3) mset_eq_setD [OF assms(4)] power] by simp
  obtain partial' where partial': "iterative_auth_check R rules power initial' fetch = Inr partial'"
      "map_of partial = map_of partial'"
    using rel_sum_Inr [OF iterative_auth_check_cong [OF assms(5), of R rules power fetch, unfolded partial]] by blast
  have "mset (remaining_events full' power) = mset (remaining_events full power)"
    unfolding remaining_events_filter using assms(4) by (metis mset_filter)
  then have rest': "sort_remaining S' partial' (remaining_events full' power) fetch = Some (Inr rest)"
    by (rule sort_remaining_schedule [OF assms(2,3) _ partial'(2) [symmetric] rest])
  obtain st' where "iterative_auth_check R rules rest partial' fetch = Inr st'" "map_of st = map_of st'"
    using rel_sum_Inr [OF iterative_auth_check_cong [OF partial'(2), of R rules rest fetch, unfolded st]] by blast
  then show ?thesis using power' partial' rest' by (auto simp: resolve_conflicts_def)
qed


lemma distinct_unconflicted_keys:
  "distinct (keys (fst acc)) \<Longrightarrow> distinct (keys (fst (fold (sort_occurrence n) ts acc)))"
  by (induction ts arbitrary: acc)
    (auto simp: sort_occurrence_def distinct_keys_map_insert split: prod.splits)

text \<open>The unconflicted state is the agreement of the forks, and nothing is contested if the second part is empty.\<close>

lemma split_facts:
  assumes "forks_ok maps sets"
  shows "distinct (keys (fst (split_conflicted_state maps)))"
    and "map_of (fst (split_conflicted_state maps)) k = Some v \<longleftrightarrow> agreed maps k v"
    and "snd (split_conflicted_state maps) = [] \<longleftrightarrow> (\<forall>k. \<forall>m \<in> set maps. \<forall>v. map_of m k = Some v \<longrightarrow> agreed maps k v)"
proof -
  have maps: "\<forall>m \<in> set maps. distinct (keys m)" "length maps \<le> usize_max" using assms by (auto simp: forks_ok_def)
  show "distinct (keys (fst (split_conflicted_state maps)))"
    unfolding split_as_fold [OF maps(2)] by (rule distinct_unconflicted_keys) (simp add: keys_def)
  show "map_of (fst (split_conflicted_state maps)) k = Some v \<longleftrightarrow> agreed maps k v"
    unfolding agreed_def by (rule split_unconflicted_iff [OF maps])
  have "snd (split_conflicted_state maps) = [] \<longleftrightarrow> (\<forall>k. k \<notin> set (keys (snd (split_conflicted_state maps))))"
    by (simp add: keys_def)
  moreover have "k \<notin> set (keys (snd (split_conflicted_state maps))) \<longleftrightarrow>
      (\<forall>m \<in> set maps. \<forall>v. map_of m k = Some v \<longrightarrow> agreed maps k v)" for k
  proof -
    have "agreed maps k v" if "m \<in> set maps" "map_of m k = Some v" "\<forall>m \<in> set maps. map_of m k = Some w" for m v w
      using that by (auto simp: agreed_def)
    moreover have "\<exists>w. \<forall>m \<in> set maps. map_of m k = Some w" if "agreed maps k v" for v using that by (auto simp: agreed_def)
    ultimately show ?thesis unfolding split_conflicted_iff(1) [OF maps] by blast
  qed
  ultimately show "snd (split_conflicted_state maps) = [] \<longleftrightarrow> (\<forall>k. \<forall>m \<in> set maps. \<forall>v. map_of m k = Some v \<longrightarrow> agreed maps k v)"
    by (simp only:)
qed

lemma resolve_cases:
  assumes "forks_ok maps sets" and "store_ok fetch" and "schedule_ok S D"
  shows "(snd (split_conflicted_state maps) = [] \<and>
      resolve S D R rules maps sets fetch existing hydra = Some (Inr (fst (split_conflicted_state maps)))) \<or>
    (snd (split_conflicted_state maps) \<noteq> [] \<and> (\<exists>full. distinct full \<and> set full = full_conflicted rules maps sets fetch existing hydra \<and>
      resolve S D R rules maps sets fetch existing hydra =
        cbind (resolve_conflicts S R rules full
            (if begins_with_empty rules hydra then [] else fst (split_conflicted_state maps)) fetch)
          (\<lambda>st. Some (Inr (extend_map st (fst (split_conflicted_state maps)))))))"
proof -
  obtain u c where split: "split_conflicted_state maps = (u, c)" by fastforce
  obtain full where "full_conflicted_set S D rules c sets fetch existing hydra = Some full" "distinct full"
      "set full = full_conflicted rules maps sets fetch existing hydra"
    using full_conflicted_set_correct [OF assms(1) _ assms(3)] assms(2) unfolding store_ok_def by (metis split snd_conv)
  then show ?thesis by (cases "c = []") (auto simp: resolve_def split)
qed

lemma map_eqI: "(\<And>k v. m k = Some v \<longleftrightarrow> m' k = Some v) \<Longrightarrow> m = m'"
  by (rule ext) (metis option.exhaust)

lemma unconflicted_Some: "unconflicted maps k = Some v \<longleftrightarrow> agreed maps k v"
  by (cases maps) (auto simp: unconflicted_def agreed_def)

lemma split_unconflicted:
  assumes "forks_ok maps sets"
  shows "map_of (fst (split_conflicted_state maps)) = unconflicted maps"
    and "map_of (extend_map st (fst (split_conflicted_state maps))) = map_of st ++ unconflicted maps"
    and "snd (split_conflicted_state maps) = [] \<longleftrightarrow> contested maps = {}"
proof -
  show u: "map_of (fst (split_conflicted_state maps)) = unconflicted maps"
    by (rule map_eqI) (simp only: split_facts(2) [OF assms] unconflicted_Some)
  show "map_of (extend_map st (fst (split_conflicted_state maps))) = map_of st ++ unconflicted maps"
    unfolding map_of_extend map_of_rev_distinct [OF split_facts(1) [OF assms]] u ..
  have "agreed maps k v" if "agreed maps k w" "m \<in> set maps" "map_of m k = Some v" for k v w m
    using that by (auto simp: agreed_def)
  then show "snd (split_conflicted_state maps) = [] \<longleftrightarrow> contested maps = {}"
    unfolding split_facts(3) [OF assms] contested_def by blast
qed

text \<open>Forks that are the same as sets split in the same way.\<close>

lemma same_forks:
  assumes "forks_ok maps sets" and "forks_ok maps' sets'" and "set maps' = set maps" and "set sets' = set sets"
  shows "map_of (fst (split_conflicted_state maps')) = map_of (fst (split_conflicted_state maps))"
    and "snd (split_conflicted_state maps') = [] \<longleftrightarrow> snd (split_conflicted_state maps) = []"
    and "full_conflicted rules maps' sets' fetch existing hydra = full_conflicted rules maps sets fetch existing hydra"
    and "map_of m' = map_of m \<Longrightarrow> map_of (extend_map m' (fst (split_conflicted_state maps'))) =
      map_of (extend_map m (fst (split_conflicted_state maps)))"
proof -
  have agreed: "agreed maps' = agreed maps" using assms(3) by (auto simp: agreed_def fun_eq_iff)
  show u: "map_of (fst (split_conflicted_state maps')) = map_of (fst (split_conflicted_state maps))"
    by (rule map_eqI) (simp only: split_facts(2) [OF assms(1)] split_facts(2) [OF assms(2)] agreed)
  show "snd (split_conflicted_state maps') = [] \<longleftrightarrow> snd (split_conflicted_state maps) = []"
    unfolding split_facts(3) [OF assms(1)] split_facts(3) [OF assms(2)] agreed assms(3) ..
  show "full_conflicted rules maps' sets' fetch existing hydra = full_conflicted rules maps sets fetch existing hydra"
    unfolding full_conflicted_def contested_def auth_diff_def agreed assms(3,4) ..
  show "map_of m' = map_of m \<Longrightarrow> map_of (extend_map m' (fst (split_conflicted_state maps'))) =
      map_of (extend_map m (fst (split_conflicted_state maps)))"
    unfolding map_of_extend map_of_rev_distinct [OF split_facts(1) [OF assms(1)]]
      map_of_rev_distinct [OF split_facts(1) [OF assms(2)]] u by simp
qed

end
