(* ===== verification/Resolve_Properties.thy ===== *)
theory Resolve_Properties
  imports Resolve Auth_Properties
begin

text \<open>
  The properties of state resolution, each with a run on a room of two forks: they disagree about the power levels
  (\<open>$pl\<close> or its successor \<open>$pl2\<close>, which gives \<open>@c:x\<close> level 50) and about the topic (\<open>$t1\<close> by the creator or \<open>$t2\<close> by
  \<open>@c:x\<close>, which only \<open>$pl2\<close> allows).
\<close>

section \<open>An event store\<close>

text \<open>A store that was filled one event after another, each after its auth events.\<close>

definition store_of :: "pdu list \<Rightarrow> fetch_event" where
  "store_of evs eid = (case find (\<lambda>e. event_id e = eid) evs of
     Some e \<Rightarrow> Inr e | None \<Rightarrow> Inl (request NotFound ''no such event''))"

fun chronological :: "event_id list \<Rightarrow> pdu list \<Rightarrow> bool" where
  "chronological seen [] \<longleftrightarrow> True"
| "chronological seen (e # evs) \<longleftrightarrow>
     event_id e \<notin> set seen \<and> set (auth_events e) \<subseteq> set seen \<and> chronological (seen @ [event_id e]) evs"

lemma chronological_split:
  "chronological seen (xs @ e # ys) \<Longrightarrow>
   set (auth_events e) \<subseteq> set seen \<union> event_id ` set xs \<and> event_id e \<notin> set seen \<union> event_id ` set xs"
proof (induction xs arbitrary: seen)
  case (Cons x xs)
  then show ?case using Cons.IH [of "seen @ [event_id x]"] by auto
qed simp

lemma store_of_Inr: "store_of evs x = Inr ev \<Longrightarrow> ev \<in> set evs \<and> event_id ev = x"
  by (auto simp: store_of_def find_Some_iff split: option.splits)

definition rank_of :: "pdu list \<Rightarrow> event_id \<Rightarrow> nat" where
  "rank_of evs x = length (takeWhile (\<lambda>e. event_id e \<noteq> x) evs)"

lemma takeWhile_shorter: "x \<in> set xs \<Longrightarrow> \<not> P x \<Longrightarrow> length (takeWhile P xs) < length xs"
  by (induction xs) auto

lemma rank_of_auth:
  assumes "chronological [] evs" and "ev \<in> set evs" and "y \<in> set (auth_events ev)"
  shows "rank_of evs y < rank_of evs (event_id ev)"
proof -
  obtain xs ys where evs: "evs = xs @ ev # ys" using assms(2) by (meson split_list)
  note before = chronological_split [OF assms(1) [unfolded evs]]
  then obtain e where e: "e \<in> set xs" "event_id e = y" using assms(3) by auto
  then have "takeWhile (\<lambda>e. event_id e \<noteq> y) evs = takeWhile (\<lambda>e. event_id e \<noteq> y) xs"
    unfolding evs by (intro takeWhile_append1) auto
  then have "rank_of evs y < length xs"
    using takeWhile_shorter [OF e(1), of "\<lambda>e. event_id e \<noteq> y"] e(2) by (simp add: rank_of_def)
  moreover have "rank_of evs (event_id ev) = length xs"
  proof -
    have "\<forall>e \<in> set xs. event_id e \<noteq> event_id ev" using before by (metis UnI2 image_eqI)
    then show ?thesis unfolding rank_of_def evs by (subst takeWhile_append2) auto
  qed
  ultimately show ?thesis by simp
qed

lemma store_of_ok:
  assumes "chronological [] evs"
  shows "store_ok (store_of evs)"
proof -
  have "wf {(y, x). \<exists>ev. store_of evs x = Inr ev \<and> y \<in> set (auth_events ev)}"
    by (rule wf_subset [OF wf_measure [of "rank_of evs"]]) (auto dest!: store_of_Inr intro: rank_of_auth [OF assms])
  then show ?thesis using store_of_Inr by (auto simp: store_ok_def honest_def auth_wf_def)
qed


lemma power_parent_rank:
  assumes "chronological [] evs" and "power_parent (store_of evs) x = Some y"
  shows "rank_of evs y < rank_of evs x"
proof -
  obtain ev where ev: "store_of evs x = Inr ev" and "y \<in> set (auth_events ev)"
    using assms(2) by (auto simp: power_parent_def find_Some_iff split: sum.splits)
  then show ?thesis using rank_of_auth [OF assms(1)] store_of_Inr [OF ev] by metis
qed

lemma power_ancestor_rank:
  assumes "chronological [] evs"
  shows "power_ancestor (store_of evs) n (Some x) = Some z \<Longrightarrow> n + rank_of evs z \<le> rank_of evs x"
proof (induction n arbitrary: x)
  case (Suc n)
  then obtain y where y: "power_parent (store_of evs) x = Some y" "power_ancestor (store_of evs) n (Some y) = Some z"
    by (cases "power_parent (store_of evs) x") auto
  show ?case using Suc.IH [OF y(2)] power_parent_rank [OF assms y(1)] by simp
qed simp

lemma store_of_mainlines_fit:
  assumes "chronological [] evs" and "length evs < usize_max"
  shows "mainlines_fit (store_of evs)"
proof -
  have "rank_of evs x \<le> length evs" for x by (simp add: rank_of_def length_takeWhile_le)
  then have "power_ancestor (store_of evs) usize_max (Some x) \<noteq> Some z" for x z
    using power_ancestor_rank [OF assms(1), of usize_max x z] assms(2) by (metis add_leD1 le_trans not_le)
  then show ?thesis unfolding mainlines_fit_def by (metis not_None_eq)
qed


section \<open>A room with two forks\<close>

definition fork_event :: "event_id \<Rightarrow> user_id \<Rightarrow> event_type \<Rightarrow> string \<Rightarrow> raw \<Rightarrow> event_id list \<Rightarrow> nat \<Rightarrow> pdu" where
  "fork_event eid u t sk c auth ts =
     (sample_event eid u t (Some sk) c) \<lparr> auth_events := auth, origin_server_ts := ts \<rparr>"

definition fork_events :: "pdu list" where
  "fork_events = [
     fork_event ''$c'' ''@a:x'' m_room_create '''' ''create'' [] 1,
     fork_event ''$ma'' ''@a:x'' m_room_member ''@a:x'' ''join'' [''$c''] 2,
     fork_event ''$pl'' ''@a:x'' m_room_power_levels '''' ''pl'' [''$c'', ''$ma''] 3,
     fork_event ''$jr'' ''@a:x'' m_room_join_rules '''' ''public'' [''$c'', ''$ma'', ''$pl''] 4,
     fork_event ''$mc'' ''@c:x'' m_room_member ''@c:x'' ''join'' [''$c'', ''$pl'', ''$jr''] 5,
     fork_event ''$pl2'' ''@a:x'' m_room_power_levels '''' ''pl2'' [''$c'', ''$ma'', ''$pl''] 6,
     fork_event ''$t1'' ''@a:x'' ''m.room.topic'' '''' ''one'' [''$c'', ''$ma'', ''$pl''] 9,
     fork_event ''$t2'' ''@c:x'' ''m.room.topic'' '''' ''two'' [''$c'', ''$mc'', ''$pl2''] 8]"

abbreviation fork_store :: fetch_event where "fork_store \<equiv> store_of fork_events"

definition fork_common :: state_map where
  "fork_common = [((m_room_create, ''''), ''$c''), ((m_room_member, ''@a:x''), ''$ma''),
     ((m_room_join_rules, ''''), ''$jr''), ((m_room_member, ''@c:x''), ''$mc'')]"

definition forks :: "state_map list" where
  "forks = [((m_room_power_levels, ''''), ''$pl'') # ((''m.room.topic'', ''''), ''$t1'') # fork_common,
     ((m_room_power_levels, ''''), ''$pl2'') # ((''m.room.topic'', ''''), ''$t2'') # fork_common]"

definition fork_auth :: "auth_set list" where
  "fork_auth = [[''$c'', ''$ma'', ''$pl'', ''$jr''], [''$c'', ''$ma'', ''$pl'', ''$jr'', ''$mc'', ''$pl2'']]"

definition fork_result :: state_map where
  "fork_result = fork_common @ [((m_room_power_levels, ''''), ''$pl2''), ((''m.room.topic'', ''''), ''$t2'')]"

text \<open>A schedule that keeps the order, and one that reverses it.\<close>

definition in_order :: schedule where
  "in_order = \<lparr> arrival = (\<lambda>_ ids. ids), pick = (\<lambda>_. 0) \<rparr>"

definition backwards :: schedule where
  "backwards = \<lparr> arrival = (\<lambda>_. rev), pick = (\<lambda>ids. length ids - 1) \<rparr>"

definition dfs_in_order :: dfs_schedule where
  "dfs_in_order = \<lparr> dfs_width = (\<lambda>_. 2), dfs_pick = (\<lambda>_. 0) \<rparr>"

definition dfs_backwards :: dfs_schedule where
  "dfs_backwards = \<lparr> dfs_width = (\<lambda>k. Suc (k mod 3)), dfs_pick = (\<lambda>k. 7 - k) \<rparr>"

lemma fork_store_ok: "store_ok fork_store" and fork_mainlines_fit: "mainlines_fit fork_store"
proof -
  have "chronological [] fork_events" by code_simp
  then show "store_ok fork_store" "mainlines_fit fork_store"
    by (simp_all add: store_of_ok store_of_mainlines_fit fork_events_def usize_max_def)
qed

lemma fork_store_honest: "honest fork_store" and fork_store_wf: "auth_wf fork_store"
  using fork_store_ok by (simp_all add: store_ok_def)

lemma sample_schedules:
  "schedule_ok in_order dfs_in_order" "schedule_ok backwards dfs_backwards" "fair in_order" "fair backwards"
  "\<forall>k. 0 < dfs_width dfs_in_order k"
  by (simp_all add: schedule_ok_def fair_def in_order_def backwards_def dfs_in_order_def dfs_backwards_def)

lemma forks_are_ok: "forks_ok forks fork_auth" "forks_ok (rev forks) (rev fork_auth)" "forks_ok [fork_common, fork_common] []"
  by (auto simp: forks_ok_def forks_def fork_common_def fork_auth_def keys_def usize_max_def m_room_create_def
      m_room_member_def m_room_join_rules_def m_room_power_levels_def)

lemma sample_lawful: "lawful_cmp (state_event_type_cmp sample_ruma)"
  by (simp add: sample_ruma_def lawful_cmp_of)

lemma fork_run:
  "resolve in_order dfs_in_order sample_ruma sample_rules forks fork_auth fork_store (\<lambda>_. True) False = Some (Inr fork_result)"
  by code_simp


section \<open>Properties of the whole\<close>

text \<open>C3: state resolution ends, with a state or an error, for every order in which concurrent fetches complete, every
  iteration order of hash sets and every width of the subgraph search.\<close>

theorem resolve_terminates:
  assumes "forks_ok state_maps auth_sets" and "store_ok fetch" and "schedule_ok S D"
  shows "\<exists>r. resolve S D R rules state_maps auth_sets fetch existing hydra_backports = Some r"
proof -
  have "resolve_conflicts S R rules full initial fetch \<noteq> None" for full initial
    using resolve_conflicts_returns [OF assms(2)] assms(3) by (simp add: schedule_ok_def)
  then have "cbind (resolve_conflicts S R rules full initial fetch) (\<lambda>st. Some (Inr (f st))) \<noteq> None" for full initial f
    by (intro cbind_not_None) auto
  then show ?thesis using resolve_cases [OF assms, of R rules existing hydra_backports] by fastforce
qed

theorem resolve_terminates_witness:
  "\<exists>r. resolve backwards dfs_backwards sample_ruma sample_rules forks fork_auth fork_store (\<lambda>_. True) True = Some r"
  by (rule resolve_terminates [OF forks_are_ok(1) fork_store_ok sample_schedules(2)])

text \<open>C1: the resolved state is a function of the forks as a set of maps, the auth sets and the events: neither the order
  of the forks, the completion order of fetches, the iteration order of hash sets nor the width of the search matters.\<close>

theorem resolve_schedule_irrelevant:
  assumes "forks_ok maps sets" and "forks_ok maps' sets'" and "store_ok fetch"
    and "schedule_ok S D" and "schedule_ok S' D'" and "set maps' = set maps" and "set sets' = set sets"
    and "resolve S D R rules maps sets fetch existing hydra = Some (Inr st)"
  shows "\<exists>st'. resolve S' D' R rules maps' sets' fetch existing hydra = Some (Inr st') \<and> map_of st' = map_of st"
proof -
  note same = same_forks [OF assms(1,2,6,7)]
  show ?thesis
  proof (cases "snd (split_conflicted_state maps) = []")
    case True
    then show ?thesis
      using resolve_cases [OF assms(1,3,4), of R rules existing hydra] resolve_cases [OF assms(2,3,5), of R rules existing hydra]
        assms(8) same(1,2) by auto
  next
    case False
    let ?u = "fst (split_conflicted_state maps)" and ?u' = "fst (split_conflicted_state maps')"
    let ?init = "\<lambda>u. if begins_with_empty rules hydra then [] else u"
    obtain F where F: "distinct F" "set F = full_conflicted rules maps sets fetch existing hydra"
        and run: "resolve S D R rules maps sets fetch existing hydra = cbind (resolve_conflicts S R rules F (?init ?u) fetch)
          (\<lambda>st. Some (Inr (extend_map st ?u)))"
      using resolve_cases [OF assms(1,3,4), of R rules existing hydra] False by auto
    obtain F' where F': "distinct F'" "set F' = full_conflicted rules maps sets fetch existing hydra"
        and run': "resolve S' D' R rules maps' sets' fetch existing hydra =
          cbind (resolve_conflicts S' R rules F' (?init ?u') fetch) (\<lambda>st. Some (Inr (extend_map st ?u')))"
      using resolve_cases [OF assms(2,3,5), of R rules existing hydra] False same(2,3) by auto
    obtain mid where mid: "resolve_conflicts S R rules F (?init ?u) fetch = Some (Inr mid)" "st = extend_map mid ?u"
      using assms(8) run by auto
    have "mset F' = mset F" using F F' by (metis set_eq_iff_mset_eq_distinct)
    moreover have "map_of (?init ?u) = map_of (?init ?u')" using same(1) by simp
    ultimately obtain mid' where mid': "resolve_conflicts S' R rules F' (?init ?u') fetch = Some (Inr mid')"
        "map_of mid' = map_of mid"
      using resolve_conflicts_schedule [OF assms(3) _ _ _ _ mid(1)] assms(4,5) by (metis schedule_ok_def)
    then show ?thesis using run' mid(2) same(4) by simp
  qed
qed

theorem resolve_schedule_irrelevant_witness:
  "\<exists>st'. resolve backwards dfs_backwards sample_ruma sample_rules (rev forks) (rev fork_auth) fork_store (\<lambda>_. True) False =
     Some (Inr st') \<and> map_of st' = map_of fork_result"
  by (rule resolve_schedule_irrelevant [OF forks_are_ok(1,2) fork_store_ok sample_schedules(1,2) _ _ fork_run]) simp_all

text \<open>C2: the resolved state is the one the algorithm of the specification builds. Where forks disagree, the power events of
  the full conflicted set with their auth chains are taken in an order that puts auth events first, and each of them is
  applied exactly if the authorization rules allow it against the state built so far; then the other events of the set
  are taken in the order of the mainline of the power levels event in that state, and each is judged against the state
  built so far; and the entries all forks agree on replace whatever was built for their keys. The start is the state the
  forks agree on, or the empty state where the room version says so.\<close>

theorem resolve_follows_algorithm:
  assumes "forks_ok maps sets" and "store_ok fetch" and "mainlines_fit fetch" and "schedule_ok S D"
    and "lawful_cmp (state_event_type_cmp R)"
    and "resolve S D R rules maps sets fetch existing hydra = Some (Inr st)"
  shows "if contested maps = {} then map_of st = unconflicted maps
    else \<exists>resolved. resolution_steps R rules fetch (full_conflicted rules maps sets fetch existing hydra)
        (if begins_with_empty rules hydra then Map.empty else unconflicted maps) resolved \<and>
      map_of st = resolved ++ unconflicted maps"
proof (cases "contested maps = {}")
  case True
  then show ?thesis
    using resolve_cases [OF assms(1,2,4), of R rules existing hydra] assms(6) split_unconflicted [OF assms(1)] by auto
next
  case False
  let ?init = "if begins_with_empty rules hydra then [] else fst (split_conflicted_state maps)"
  obtain full where full: "distinct full" "set full = full_conflicted rules maps sets fetch existing hydra"
      and run: "resolve S D R rules maps sets fetch existing hydra = cbind (resolve_conflicts S R rules full ?init fetch)
        (\<lambda>st. Some (Inr (extend_map st (fst (split_conflicted_state maps)))))"
    using resolve_cases [OF assms(1,2,4), of R rules existing hydra] False split_unconflicted(3) [OF assms(1)] by auto
  obtain mid where mid: "resolve_conflicts S R rules full ?init fetch = Some (Inr mid)"
      and st: "st = extend_map mid (fst (split_conflicted_state maps))"
    using assms(6) unfolding run by auto
  have "fair S" using assms(4) by (simp add: schedule_ok_def)
  from resolve_conflicts_steps [OF assms(5,2,3) this full(1) mid] have
    "resolution_steps R rules fetch (set full) (if begins_with_empty rules hydra then Map.empty else unconflicted maps) (map_of mid)"
    by (simp add: split_unconflicted(1) [OF assms(1)] split: if_splits)
  then show ?thesis using False full(2) split_unconflicted(2) [OF assms(1), of mid] st by auto
qed

theorem resolve_follows_algorithm_witness:
  "\<exists>resolved. resolution_steps sample_ruma sample_rules fork_store
      (full_conflicted sample_rules forks fork_auth fork_store (\<lambda>_. True) False) (unconflicted forks) resolved \<and>
    map_of fork_result = resolved ++ unconflicted forks \<and> resolved (''m.room.topic'', '''') = Some ''$t2''"
proof -
  let ?k = "(''m.room.topic'', '''')"
  have no: "\<not> agreed forks ?k v" for v
    by (auto simp: agreed_def forks_def fork_common_def m_room_create_def m_room_member_def m_room_join_rules_def
        m_room_power_levels_def)
  moreover have "map_of (hd forks) ?k = Some ''$t1''" "hd forks \<in> set forks" by (simp_all add: forks_def m_room_power_levels_def)
  ultimately have "contested forks \<noteq> {}" unfolding contested_def by blast
  then obtain resolved where r: "resolution_steps sample_ruma sample_rules fork_store
        (full_conflicted sample_rules forks fork_auth fork_store (\<lambda>_. True) False) (unconflicted forks) resolved"
      "map_of fork_result = resolved ++ unconflicted forks"
    using resolve_follows_algorithm [OF forks_are_ok(1) fork_store_ok fork_mainlines_fit sample_schedules(1) sample_lawful fork_run]
    by (auto simp: begins_with_empty_def sample_rules_def)
  have "unconflicted forks ?k = None" using no by (simp add: unconflicted_def)
  moreover have "map_of fork_result ?k = Some ''$t2''"
    by (simp add: fork_result_def fork_common_def m_room_create_def m_room_member_def m_room_join_rules_def m_room_power_levels_def)
  ultimately have "resolved ?k = Some ''$t2''" using r(2) by (simp add: map_add_def)
  with r show ?thesis by blast
qed

text \<open>C5: forks that hold the same state resolve to that state, without reading an event.\<close>

theorem resolve_agreement:
  assumes "forks_ok maps sets" and "maps \<noteq> []" and "\<forall>m \<in> set maps. map_of m = map_of st"
  shows "\<exists>st'. (\<forall>S D R rules fetch existing hydra.
      resolve S D R rules maps sets fetch existing hydra = Some (Inr st')) \<and> map_of st' = map_of st"
proof -
  have "agreed maps k v \<longleftrightarrow> map_of st k = Some v" for k v using assms(2,3) by (cases maps) (auto simp: agreed_def)
  then have "snd (split_conflicted_state maps) = []" and "map_of (fst (split_conflicted_state maps)) = map_of st"
    using assms(3) by (simp_all add: split_facts(3) [OF assms(1)] map_eqI split_facts(2) [OF assms(1)])
  then show ?thesis by (cases "split_conflicted_state maps") (simp add: resolve_def)
qed

theorem resolve_agreement_witness:
  "\<exists>st'. (\<forall>S D R rules fetch existing hydra.
     resolve S D R rules [fork_common, fork_common] [] fetch existing hydra = Some (Inr st')) \<and> map_of st' = map_of fork_common"
  by (rule resolve_agreement [OF forks_are_ok(3)]) simp_all


section \<open>Properties of the parts\<close>

text \<open>C6: the full conflicted set that is computed is, for every schedule, that of the specification: the contested events and
  the auth difference as far as they exist, and the conflicted state subgraph where the room version has it.\<close>

theorem full_conflicted_set_spec:
  assumes "forks_ok maps sets" and "auth_wf fetch" and "schedule_ok S D"
  shows "\<exists>full. full_conflicted_set S D rules (snd (split_conflicted_state maps)) sets fetch existing hydra_backports = Some full \<and>
    distinct full \<and> set full = full_conflicted rules maps sets fetch existing hydra_backports"
  by (rule full_conflicted_set_correct [OF assms])

theorem full_conflicted_set_spec_witness:
  "\<exists>full. full_conflicted_set backwards dfs_backwards sample_rules (snd (split_conflicted_state forks)) fork_auth fork_store
      (\<lambda>_. True) True = Some full \<and> distinct full \<and>
    set full = full_conflicted sample_rules forks fork_auth fork_store (\<lambda>_. True) True"
  by (rule full_conflicted_set_spec [OF forks_are_ok(1) fork_store_wf sample_schedules(2)])

text \<open>C4: the concurrent depth-first search ends for every completion order and every width of the stream, without
  deadlock among the walkers that wait for each other, and streams each event that lies on a path of auth events from one
  conflicted event to another, both included, exactly once.\<close>

theorem conflicted_subgraph_dfs_exact:
  assumes "auth_wf fetch" and "\<forall>k. 0 < dfs_width D k"
  shows "\<exists>xs. conflicted_subgraph_dfs D seeds fetch = Some xs \<and> distinct xs \<and>
    set xs = conflicted_subgraph fetch (set seeds)"
  by (rule conflicted_subgraph_dfs_correct [OF assms])

theorem conflicted_subgraph_dfs_exact_witness:
  "conflicted_subgraph fork_store {''$pl'', ''$t2''} = {''$pl'', ''$t2'', ''$mc'', ''$pl2'', ''$jr''}"
proof -
  have "conflicted_subgraph_dfs dfs_in_order [''$pl'', ''$t2''] fork_store =
      Some [''$t2'', ''$pl2'', ''$pl'', ''$mc'', ''$jr'']" by code_simp
  then show ?thesis
    using conflicted_subgraph_dfs_exact [OF fork_store_wf sample_schedules(5), of "[''$pl'', ''$t2'']"] by auto
qed

text \<open>C7: the power events of the full conflicted set, enlarged by the part of their auth chains inside the set, come out
  exactly once each, and every event after those of its auth events that are sorted.\<close>

theorem power_sort_sorts_power_closure:
  assumes "honest fetch" and "fair S" and "auth_acyclic fetch"
    and "power_sort S R rules F fetch = Some (Inr xs)"
  shows "distinct xs \<and> set xs = power_closure R fetch (set F) \<and>
    (\<forall>i ev. i < length xs \<and> fetch (xs ! i) = Inr ev \<longrightarrow> set (auth_events ev) \<inter> set F \<inter> set xs \<subseteq> set (take i xs))"
  using power_sort_order [OF assms(1,2,4,3)] by blast

lemma fork_power_run:
  "power_sort in_order sample_ruma sample_rules [''$t1'', ''$pl2'', ''$jr'', ''$pl''] fork_store =
     Some (Inr [''$pl'', ''$jr'', ''$pl2''])"
  by code_simp

theorem power_sort_sorts_power_closure_witness:
  "set [''$pl'', ''$jr'', ''$pl2''] = power_closure sample_ruma fork_store (set [''$t1'', ''$pl2'', ''$jr'', ''$pl''])"
  using power_sort_sorts_power_closure [OF fork_store_honest sample_schedules(3) auth_wf_acyclic [OF fork_store_wf] fork_power_run]
  by simp

text \<open>C8: the mainline sort returns the events it can place, each as often as it was given, in the mainline order of the
  specification: events whose chain of power levels events meets the mainline farther from its head come first, those
  whose chain never meets it before all others, then older ones, then by id; and it returns the same for every schedule.\<close>

theorem mainline_sort_orders:
  assumes "honest fetch" and "auth_wf fetch" and "fair S" and "fair S'" and "mset events' = mset events"
    and "power_ancestor fetch usize_max power_level_event = None"
    and "mainline_sort S power_level_event events fetch = Some (Inr xs)"
  shows "mset xs = filter_mset (placed fetch power_level_event) (mset events) \<and>
    sorted_wrt (mainline_before fetch power_level_event) xs \<and>
    mainline_sort S' power_level_event events' fetch = Some (Inr xs)"
  using mainline_sort_order [OF assms(1-3,6,7)] mainline_sort_schedule [OF assms(3-5,7)] by blast

lemma fork_mainline_run:
  "mainline_sort in_order (Some ''$pl2'') [''$t2'', ''$x'', ''$t1'', ''$ma''] fork_store = Some (Inr [''$ma'', ''$t1'', ''$t2''])"
  by code_simp

theorem mainline_sort_orders_witness:
  "mainline_sort backwards (Some ''$pl2'') [''$ma'', ''$t1'', ''$t2'', ''$x''] fork_store = Some (Inr [''$ma'', ''$t1'', ''$t2'']) \<and>
   mainline_before fork_store (Some ''$pl2'') ''$ma'' ''$t1'' \<and> mainline_before fork_store (Some ''$pl2'') ''$t1'' ''$t2''"
  using mainline_sort_orders [OF fork_store_honest fork_store_wf sample_schedules(3,4) _ mainlines_fit_ancestor [OF fork_mainlines_fit]
      fork_mainline_run, of "[''$ma'', ''$t1'', ''$t2'', ''$x'']"] by simp

end
