(* ===== verification/Wbf_Pack.thy ===== *)
theory Wbf_Pack
  imports Codec
begin

text \<open>
  One pack of the wire format: \<^verbatim>\<open>src/core/wbf/pack.rs\<close>. The checksum \<^verbatim>\<open>crc32c\<close> is a parameter, any function from bytes to
  32 bits; so are the JSON serializer and parser. Offsets are natural numbers: each is a sum of the length of a slice
  and small constants. A slice access out of range, which would be a panic, is \<open>None\<close>.
\<close>

unbundle bit_operations_syntax

section \<open>Kinds and flags\<close>

definition VERSION :: byte where "VERSION = 1"
definition HEADER_LEN :: nat where "HEADER_LEN = 16"
definition OVERHEAD :: nat where "OVERHEAD = HEADER_LEN + 4 + 4 + 4 + 4"
definition TRAILER_LEN :: nat where "TRAILER_LEN = OVERHEAD - HEADER_LEN"

datatype kind = Control | Stream | Upload | Download | Invite | Session | Account | Sync | Room | Event | Receipt
  | Device | Keys | Push | Media | Search | Voip | Misc | Report | Admin

fun kind_byte :: "kind \<Rightarrow> byte" where
  "kind_byte Control = 0x01"
| "kind_byte Stream = 0x02"
| "kind_byte Upload = 0x03"
| "kind_byte Download = 0x04"
| "kind_byte Invite = 0x05"
| "kind_byte Session = 0x10"
| "kind_byte Account = 0x11"
| "kind_byte Sync = 0x12"
| "kind_byte Room = 0x13"
| "kind_byte Event = 0x14"
| "kind_byte Receipt = 0x15"
| "kind_byte Device = 0x16"
| "kind_byte Keys = 0x17"
| "kind_byte Push = 0x18"
| "kind_byte Media = 0x19"
| "kind_byte Search = 0x1A"
| "kind_byte Voip = 0x1B"
| "kind_byte Misc = 0x1C"
| "kind_byte Report = 0x1D"
| "kind_byte Admin = 0x20"

datatype pack_error =
    TooShort nat
  | UnsupportedVersion byte
  | UnknownKind byte
  | ReservedFlags byte
  | Truncated (needed: nat) (truncated_len: nat)
  | TrailingBytes (expected_len: nat) (actual_len: nat)
  | MetaCrc (meta_expected: u32) (meta_actual: u32)
  | DataCrc (data_expected: u32) (data_actual: u32)
  | MetaNotJson
  | SectionTooLarge nat
  | DataAlreadyReserved

definition kind_try_from :: "byte \<Rightarrow> pack_error + kind" where
  "kind_try_from b =
     (case map_of [(0x01, Control), (0x02, Stream), (0x03, Upload), (0x04, Download), (0x05, Invite), (0x10, Session),
        (0x11, Account), (0x12, Sync), (0x13, Room), (0x14, Event), (0x15, Receipt), (0x16, Device), (0x17, Keys),
        (0x18, Push), (0x19, Media), (0x1A, Search), (0x1B, Voip), (0x1C, Misc), (0x1D, Report), (0x20, Admin)] b of
        Some k \<Rightarrow> Inr k | None \<Rightarrow> Inl (UnknownKind b))"

text \<open>The flags byte. \<open>KNOWN\<close> is the mask of the assigned bits.\<close>

type_synonym flags = byte

definition META_ENCRYPTED :: flags where "META_ENCRYPTED = 0b00000001"
definition WANT_ACK :: flags where "WANT_ACK = 0b00000010"
definition IS_RESPONSE :: flags where "IS_RESPONSE = 0b00000100"
definition IS_LAST :: flags where "IS_LAST = 0b00001000"
definition IS_BRIDGED :: flags where "IS_BRIDGED = 0b00010000"
definition KNOWN :: byte where "KNOWN = 0b00011111"

definition flags_contains :: "flags \<Rightarrow> flags \<Rightarrow> bool" where
  "flags_contains self other \<longleftrightarrow> self AND other = other"

definition flags_union :: "flags \<Rightarrow> flags \<Rightarrow> flags" where
  "flags_union self other = self OR other"

definition is_meta_encrypted :: "flags \<Rightarrow> bool" where "is_meta_encrypted f = flags_contains f META_ENCRYPTED"
definition wants_ack :: "flags \<Rightarrow> bool" where "wants_ack f = flags_contains f WANT_ACK"
definition is_response :: "flags \<Rightarrow> bool" where "is_response f = flags_contains f IS_RESPONSE"
definition is_last :: "flags \<Rightarrow> bool" where "is_last f = flags_contains f IS_LAST"
definition is_bridged :: "flags \<Rightarrow> bool" where "is_bridged f = flags_contains f IS_BRIDGED"

definition has_reserved_bits :: "flags \<Rightarrow> bool" where
  "has_reserved_bits f \<longleftrightarrow> f AND NOT KNOWN \<noteq> 0"

section \<open>Building a pack\<close>

record pack_header =
  version :: byte
  header_kind :: kind
  subtype :: byte
  header_flags :: flags
  header_id :: u64
  seq :: u32

record pack_view =
  header :: pack_header
  meta_section :: "byte list"
  data_section :: "byte list"

record pack_builder =
  buf :: "byte list"
  meta_end :: nat
  data_start :: "nat option"

text \<open>\<^verbatim>\<open>u32::try_from(len)\<close>\<close>

definition u32_try_from :: "nat \<Rightarrow> pack_error + u32" where
  "u32_try_from len = (if len < 2 ^ 32 then Inr (word_of_nat len) else Inl (SectionTooLarge len))"

definition builder_new :: "kind \<Rightarrow> byte \<Rightarrow> flags \<Rightarrow> u64 \<Rightarrow> u32 \<Rightarrow> pack_builder" where
  "builder_new k st fl i sq =
     \<lparr> buf = [VERSION, kind_byte k, st, fl] @ u64_to_be i @ u32_to_be sq @ u32_to_be 0,
       meta_end = HEADER_LEN + 4, data_start = None \<rparr>"

definition builder_meta :: "pack_builder \<Rightarrow> byte list \<Rightarrow> pack_error + pack_builder" where
  "builder_meta b m =
     (if data_start b \<noteq> None then Inl DataAlreadyReserved
      else rbind (u32_try_from (length m)) (\<lambda>len.
        let bytes = take HEADER_LEN (buf b) @ u32_to_be len @ m
        in Inr (b \<lparr> buf := bytes, meta_end := length bytes \<rparr>)))"

definition json_meta :: "('v \<Rightarrow> byte list option) \<Rightarrow> pack_builder \<Rightarrow> 'v \<Rightarrow> pack_error + pack_builder" where
  "json_meta to_vec b v = (case to_vec v of None \<Rightarrow> Inl MetaNotJson | Some bytes \<Rightarrow> builder_meta b bytes)"

text \<open>The slice that is handed out is the rest of the buffer from the returned start; \<open>fill_slot\<close> is a write of all of it.\<close>

definition data_slot :: "pack_builder \<Rightarrow> nat \<Rightarrow> pack_error + pack_builder" where
  "data_slot b len =
     (if data_start b \<noteq> None then Inl DataAlreadyReserved
      else rbind (u32_try_from len) (\<lambda>len_field.
        let bytes = buf b @ replicate 4 0 @ u32_to_be len_field; start = length bytes
        in Inr (b \<lparr> buf := bytes @ replicate len 0, data_start := Some start \<rparr>)))"

definition fill_slot :: "pack_builder \<Rightarrow> byte list \<Rightarrow> pack_builder" where
  "fill_slot b bytes = (case data_start b of None \<Rightarrow> b | Some start \<Rightarrow> b \<lparr> buf := take start (buf b) @ bytes \<rparr>)"

definition builder_data :: "pack_builder \<Rightarrow> byte list \<Rightarrow> pack_error + pack_builder" where
  "builder_data b bytes = rmap (\<lambda>b'. fill_slot b' bytes) (data_slot b (length bytes))"

definition finish :: "(byte list \<Rightarrow> u32) \<Rightarrow> pack_builder \<Rightarrow> byte list" where
  "finish crc32c b =
     (let (bytes, start) = (case data_start b of
            Some start \<Rightarrow> (buf b, start)
          | None \<Rightarrow> (let bytes = buf b @ replicate 4 0 @ u32_to_be 0 in (bytes, length bytes)));
          meta_crc = crc32c (take (meta_end b) bytes);
          patched = take (meta_end b) bytes @ u32_to_be meta_crc @ drop (meta_end b + 4) bytes;
          data_crc = crc32c (drop start patched)
      in patched @ u32_to_be data_crc)"

section \<open>Decoding\<close>

definition read_u32 :: "byte list \<Rightarrow> nat \<Rightarrow> u32 option" where
  "read_u32 bytes at = map_option u32_of_be (range_get bytes at (at + 4))"

text \<open>A slice access inside a fallible computation: the panic is \<open>None\<close>.\<close>

definition access :: "'a option \<Rightarrow> ('e, 'a) comp" where
  "access x = map_option Inr x"

definition refuse :: "bool \<Rightarrow> 'e \<Rightarrow> ('e, 'a) comp \<Rightarrow> ('e, 'a) comp" where
  "refuse c e m = (if c then Some (Inl e) else m)"

definition decode_header :: "byte list \<Rightarrow> (pack_error, pack_header) comp" where
  "decode_header bytes =
     (let len = length bytes in
     refuse (len < OVERHEAD) (TooShort len) (
     cbind (access (idx bytes 0)) (\<lambda>version.
     refuse (version \<noteq> VERSION) (UnsupportedVersion version) (
     cbind (access (idx bytes 1)) (\<lambda>kind_at.
     cbind (Some (kind_try_from kind_at)) (\<lambda>kind.
     cbind (access (idx bytes 2)) (\<lambda>subtype.
     cbind (access (idx bytes 3)) (\<lambda>flags.
     refuse (has_reserved_bits flags) (ReservedFlags flags) (
     cbind (access (map_option u64_of_be (range_get bytes 4 12))) (\<lambda>i.
     cbind (access (map_option u32_of_be (range_get bytes 12 16))) (\<lambda>sq.
     Some (Inr \<lparr> version = version, header_kind = kind, subtype = subtype, header_flags = flags, header_id = i, seq = sq \<rparr>)
     )))))))))))"

definition decode :: "(byte list \<Rightarrow> u32) \<Rightarrow> byte list \<Rightarrow> (pack_error, pack_view) comp" where
  "decode crc32c bytes =
     (let len = length bytes in
     cbind (decode_header bytes) (\<lambda>hdr.
     cbind (access (map_option unat (read_u32 bytes HEADER_LEN))) (\<lambda>meta_len.
     refuse (meta_len > len) (Truncated (sat_add meta_len OVERHEAD) len) (
     let meta_start = HEADER_LEN + 4; meta_end = meta_start + meta_len; data_len_at = meta_end + 4 in
     refuse (data_len_at + 4 > len) (Truncated (data_len_at + 4) len) (
     cbind (access (read_u32 bytes meta_end)) (\<lambda>meta_crc_expected.
     cbind (access (range_get bytes 0 meta_end)) (\<lambda>covered.
     let meta_crc_actual = crc32c covered in
     refuse (meta_crc_expected \<noteq> meta_crc_actual) (MetaCrc meta_crc_expected meta_crc_actual) (
     cbind (access (map_option unat (read_u32 bytes data_len_at))) (\<lambda>data_len.
     refuse (data_len > len) (Truncated (sat_add data_len OVERHEAD) len) (
     let data_start = data_len_at + 4; data_end = data_start + data_len; total = data_end + 4 in
     refuse (total > len) (Truncated total len) (
     refuse (total < len) (TrailingBytes total len) (
     cbind (access (read_u32 bytes data_end)) (\<lambda>data_crc_expected.
     cbind (access (range_get bytes data_start data_end)) (\<lambda>data.
     let data_crc_actual = crc32c data in
     refuse (data_crc_expected \<noteq> data_crc_actual) (DataCrc data_crc_expected data_crc_actual) (
     cbind (access (range_get bytes meta_start meta_end)) (\<lambda>meta.
     Some (Inr \<lparr> header = hdr, meta_section = meta, data_section = data \<rparr>)
     ))))))))))))))))"

definition meta_json :: "(byte list \<Rightarrow> 'v option) \<Rightarrow> pack_view \<Rightarrow> pack_error + 'v" where
  "meta_json from_slice v = (case from_slice (meta_section v) of None \<Rightarrow> Inl MetaNotJson | Some x \<Rightarrow> Inr x)"


section \<open>The layout of a pack\<close>

text \<open>The table at the head of the module as a function, and what a pack can hold.\<close>

definition header_bytes :: "pack_header \<Rightarrow> byte list" where
  "header_bytes h = [version h, kind_byte (header_kind h), subtype h, header_flags h] @
     u64_to_be (header_id h) @ u32_to_be (seq h)"

definition covered_bytes :: "pack_header \<Rightarrow> byte list \<Rightarrow> byte list" where
  "covered_bytes h m = header_bytes h @ u32_to_be (word_of_nat (length m)) @ m"

definition pack_bytes :: "(byte list \<Rightarrow> u32) \<Rightarrow> pack_view \<Rightarrow> byte list" where
  "pack_bytes crc32c v =
     (let covered = covered_bytes (header v) (meta_section v); d = data_section v
      in covered @ u32_to_be (crc32c covered) @ u32_to_be (word_of_nat (length d)) @ d @ u32_to_be (crc32c d))"

definition header_ok :: "pack_header \<Rightarrow> bool" where
  "header_ok h \<longleftrightarrow> version h = VERSION \<and> \<not> has_reserved_bits (header_flags h)"

definition view_ok :: "pack_view \<Rightarrow> bool" where
  "view_ok v \<longleftrightarrow> header_ok (header v) \<and> length (meta_section v) < 2 ^ 32 \<and> length (data_section v) < 2 ^ 32"

lemmas pack_lens = HEADER_LEN_def OVERHEAD_def

lemma length_header_bytes [simp]: "length (header_bytes h) = 16"
  by (simp add: header_bytes_def)

lemma length_covered_bytes [simp]: "length (covered_bytes h m) = 20 + length m"
  by (simp add: covered_bytes_def)

lemma length_pack_bytes: "length (pack_bytes crc32c v) = OVERHEAD + length (meta_section v) + length (data_section v)"
  by (simp add: pack_bytes_def Let_def pack_lens)

lemma kind_try_from_byte [simp]: "kind_try_from (kind_byte k) = Inr k"
  by (cases k) (simp_all add: kind_try_from_def)

lemma kind_try_from_Inr: "kind_try_from b = Inr k \<longleftrightarrow> b = kind_byte k"
proof
  show "b = kind_byte k" if "kind_try_from b = Inr k"
    using that by (auto simp: kind_try_from_def split: if_splits)
qed simp

lemma access_simps [simp]: "access None = None" "access (Some x) = Some (Inr x)"
  by (simp_all add: access_def)

lemma refuse_Inr [simp]: "refuse c e m = Some (Inr x) \<longleftrightarrow> \<not> c \<and> m = Some (Inr x)"
  by (simp add: refuse_def)

lemma refuse_simps [simp]: "refuse True e m = Some (Inl e)" "refuse False e m = m"
  by (simp_all add: refuse_def)

lemma unat_u32_len [simp]: "n < 2 ^ 32 \<Longrightarrow> unat (word_of_nat n :: u32) = n"
  by (simp add: unat_of_nat)

lemma read_u32_in: "at + 4 \<le> length bytes \<Longrightarrow> read_u32 bytes at = Some (u32_of_be (take 4 (drop at bytes)))"
  by (simp add: read_u32_def)

lemma decode_header_bytes:
  assumes "header_ok h" and "12 + 4 \<le> length r"
  shows "decode_header (header_bytes h @ r) = Some (Inr h)"
  using assms by (simp add: decode_header_def Let_def header_bytes_def header_ok_def pack_lens be64.dec_enc be32.dec_enc)

lemma split_16:
  assumes "16 \<le> length bytes"
  shows "bytes = [bytes ! 0, bytes ! 1, bytes ! 2, bytes ! 3] @ take 8 (drop 4 bytes) @ take 4 (drop 12 bytes) @ drop 16 bytes"
proof -
  have "take 4 bytes = [bytes ! 0, bytes ! 1, bytes ! 2, bytes ! 3]"
    using assms by (simp add: list_eq_iff_nth_eq less_Suc_eq numeral_eq_Suc)
  moreover have "drop 4 bytes = take 8 (drop 4 bytes) @ drop 12 bytes" "drop 12 bytes = take 4 (drop 12 bytes) @ drop 16 bytes"
    using append_take_drop_id [of 8 "drop 4 bytes"] append_take_drop_id [of 4 "drop 12 bytes"] by simp_all
  ultimately show ?thesis using append_take_drop_id [of 4 bytes] by metis
qed

lemma header_bytes_decode:
  assumes "decode_header bytes = Some (Inr h)"
  shows "header_ok h" and "OVERHEAD \<le> length bytes" and "bytes = header_bytes h @ drop 16 bytes"
proof -
  show len: "OVERHEAD \<le> length bytes" using assms by (simp add: decode_header_def Let_def)
  then have "bytes \<noteq> []" by (auto simp: pack_lens)
  with len have "header_ok h \<and> header_bytes h = [bytes ! 0, bytes ! 1, bytes ! 2, bytes ! 3] @ take 8 (drop 4 bytes) @ take 4 (drop 12 bytes)"
    using assms by (auto simp: decode_header_def Let_def pack_lens header_ok_def header_bytes_def kind_try_from_Inr
        be64.enc_dec be32.enc_dec)
  then show "header_ok h" and "bytes = header_bytes h @ drop 16 bytes"
    using split_16 [of bytes] len by (simp_all add: pack_lens)
qed

lemma decode_header_total: "decode_header bytes \<noteq> None"
proof (cases "length bytes < OVERHEAD")
  case False
  then have "bytes \<noteq> []" by (auto simp: pack_lens)
  then show ?thesis using False unfolding decode_header_def Let_def
    by (simp add: pack_lens refuse_def cbind_def split: sum.split)
qed (simp add: decode_header_def Let_def)

text \<open>What decoding does once the header and the meta length are read.\<close>

lemma decode_layout:
  assumes "header_ok h" and "length m < 2 ^ 32" and bytes: "bytes = covered_bytes h m @ u32_to_be c @ u32_to_be dl @ t"
    and "4 \<le> length m + length t"
  shows "decode crc32c bytes =
    (let len = length bytes; total = 28 + length m + unat dl + 4; d = take (unat dl) t in
     refuse (c \<noteq> crc32c (covered_bytes h m)) (MetaCrc c (crc32c (covered_bytes h m))) (
     refuse (unat dl > len) (Truncated (sat_add (unat dl) OVERHEAD) len) (
     refuse (total > len) (Truncated total len) (
     refuse (total < len) (TrailingBytes total len) (
     refuse (u32_of_be (take 4 (drop (unat dl) t)) \<noteq> crc32c d) (DataCrc (u32_of_be (take 4 (drop (unat dl) t))) (crc32c d)) (
     Some (Inr \<lparr> header = h, meta_section = m, data_section = d \<rparr>)))))))"
proof -
  have hdr: "decode_header bytes = Some (Inr h)"
    unfolding bytes covered_bytes_def append_assoc using assms(1,4) by (intro decode_header_bytes) simp_all
  have ml: "read_u32 bytes HEADER_LEN = Some (word_of_nat (length m))"
    by (simp add: read_u32_in bytes covered_bytes_def pack_lens be32.dec_enc)
  have len: "length bytes = 28 + length m + length t" by (simp add: bytes)
  have c: "read_u32 bytes (HEADER_LEN + 4 + length m) = Some c"
    by (simp add: read_u32_in bytes pack_lens be32.dec_enc)
  have cov: "range_get bytes 0 (HEADER_LEN + 4 + length m) = Some (covered_bytes h m)"
    by (simp add: bytes pack_lens)
  have dl: "read_u32 bytes (HEADER_LEN + 4 + length m + 4) = Some dl"
    by (simp add: read_u32_in bytes pack_lens be32.dec_enc)
  have m: "range_get bytes (HEADER_LEN + 4) (HEADER_LEN + 4 + length m) = Some m"
    by (simp add: bytes covered_bytes_def pack_lens)
  have t: "drop (28 + length m) bytes = t" "drop (28 + length m + n) bytes = drop n t" for n by (simp_all add: bytes)
  have d: "read_u32 bytes (28 + length m + unat dl) = Some (u32_of_be (drop (unat dl) t))" if "length t = 4 + unat dl"
    using that by (simp add: read_u32_in len t(2))
  show ?thesis
    unfolding decode_def Let_def hdr ml c cov dl m cbind_simps access_simps option.map unat_u32_len [OF assms(2)]
    by (simp add: len t(1) d pack_lens refuse_def)
qed

text \<open>Decoding is the inverse of the layout, in both directions.\<close>

lemma decode_pack_bytes:
  assumes "view_ok v"
  shows "decode crc32c (pack_bytes crc32c v) = Some (Inr v)"
proof -
  let ?d = "data_section v" and ?m = "meta_section v" and ?h = "header v"
  have lens: "length ?m < 2 ^ 32" "length ?d < 2 ^ 32" "header_ok ?h" using assms by (auto simp: view_ok_def)
  have "decode crc32c (pack_bytes crc32c v) = Some (Inr \<lparr> header = ?h, meta_section = ?m, data_section = ?d \<rparr>)"
    using decode_layout [OF lens(3,1), of "pack_bytes crc32c v" _ "word_of_nat (length ?d)" "?d @ u32_to_be (crc32c ?d)" crc32c]
      lens(2) by (simp add: pack_bytes_def Let_def be32.dec_enc)
  then show ?thesis by simp
qed

lemma decode_split:
  assumes "decode crc32c bytes = Some (Inr v)"
  obtains h m c dl t where "header_ok h" and "length m < 2 ^ 32" and "4 \<le> length m + length t"
    and "bytes = covered_bytes h m @ u32_to_be c @ u32_to_be dl @ t"
proof -
  obtain h ml where h: "decode_header bytes = Some (Inr h)" and ml: "read_u32 bytes HEADER_LEN = Some ml"
      and len: "28 + unat ml \<le> length bytes"
    using assms by (auto simp: decode_def Let_def access_def pack_lens)
  note hdr = header_bytes_decode [OF h]
  define m where "m = take (unat ml) (drop 20 bytes)"
  have m: "length m = unat ml" using len by (simp add: m_def)
  then have lm: "length m < 2 ^ 32" and wm: "word_of_nat (length m) = ml" using unat_less_2p [of ml] by simp_all
  have "drop 16 bytes = u32_to_be ml @ drop 20 bytes"
    using ml hdr(2) be32.split_enc [of "drop 16 bytes"] by (simp add: read_u32_in pack_lens)
  moreover have "drop 20 bytes = m @ drop (20 + unat ml) bytes"
    using append_take_drop_id [of "unat ml" "drop 20 bytes"] by (simp add: m_def add.commute)
  ultimately have covered: "bytes = covered_bytes h m @ drop (20 + unat ml) bytes"
    using hdr(3) by (simp add: covered_bytes_def wm)
  define r where "r = drop (20 + unat ml) bytes"
  have "8 \<le> length r" using len by (simp add: r_def)
  then have "r = u32_to_be (u32_of_be (take 4 r)) @ u32_to_be (u32_of_be (take 4 (drop 4 r))) @ drop 8 r"
    using be32.split_enc [of r] be32.split_enc [of "drop 4 r"] by simp
  with covered have bytes: "bytes = covered_bytes h m @ u32_to_be (u32_of_be (take 4 r)) @
      u32_to_be (u32_of_be (take 4 (drop 4 r))) @ drop 8 r" unfolding r_def by metis
  have "length bytes = 28 + length m + length (drop 8 r)" using arg_cong [OF bytes, of length] by simp
  with hdr(2) have "4 \<le> length m + length (drop 8 r)" by (simp add: pack_lens)
  from that [OF hdr(1) lm this bytes] show thesis .
qed

lemma pack_bytes_decode:
  assumes "decode crc32c bytes = Some (Inr v)"
  shows "view_ok v" and "bytes = pack_bytes crc32c v"
proof -
  obtain h m c dl t where h: "header_ok h" and m: "length m < 2 ^ 32" and t: "4 \<le> length m + length t"
      and bytes: "bytes = covered_bytes h m @ u32_to_be c @ u32_to_be dl @ t"
    using decode_split [OF assms] .
  have "length bytes = 28 + length m + length t" by (simp add: bytes)
  then have c: "c = crc32c (covered_bytes h m)" and len: "length t = unat dl + 4"
      and crc: "u32_of_be (drop (unat dl) t) = crc32c (take (unat dl) t)"
      and v: "v = \<lparr> header = h, meta_section = m, data_section = take (unat dl) t \<rparr>"
    using assms unfolding decode_layout [OF h m bytes t] Let_def by (auto simp: pack_lens)
  have "t = take (unat dl) t @ u32_to_be (crc32c (take (unat dl) t))"
    using be32.enc_dec [of "drop (unat dl) t"] append_take_drop_id [of "unat dl" t] len crc by simp
  moreover have "length (take (unat dl) t) = unat dl" using len by simp
  ultimately show "bytes = pack_bytes crc32c v" "view_ok v"
    using bytes c v h m unat_less_2p [of dl] by (simp_all add: pack_bytes_def Let_def view_ok_def)
qed

lemma refuse_not_None: "(\<not> c \<Longrightarrow> m \<noteq> None) \<Longrightarrow> refuse c e m \<noteq> None"
  by (simp add: refuse_def)

lemma access_not_None: "x \<noteq> None \<Longrightarrow> access x \<noteq> None"
  by (simp add: access_def)

lemma read_u32_None: "read_u32 bytes at = None \<longleftrightarrow> length bytes < at + 4"
  by (auto simp: read_u32_def range_get_def)

lemma decode_total: "decode crc32c bytes \<noteq> None"
proof (cases "decode_header bytes")
  case None
  then show ?thesis using decode_header_total by blast
next
  case (Some r)
  show ?thesis
  proof (cases r)
    case (Inl e)
    then show ?thesis using Some by (simp add: decode_def Let_def)
  next
    case (Inr h)
    then have "OVERHEAD \<le> length bytes" using header_bytes_decode(2) Some by blast
    then show ?thesis unfolding decode_def Let_def Some Inr cbind_simps
      by (intro cbind_not_None refuse_not_None access_not_None) (simp_all add: read_u32_None range_get_def pack_lens)
  qed
qed

section \<open>What the builder builds\<close>

datatype build_call = CallMeta "byte list" | CallData "byte list"

fun builder_call :: "pack_builder \<Rightarrow> build_call \<Rightarrow> pack_error + pack_builder" where
  "builder_call b (CallMeta m) = builder_meta b m"
| "builder_call b (CallData d) = builder_data b d"

fun metas :: "build_call list \<Rightarrow> byte list list" where
  "metas [] = []"
| "metas (CallMeta m # cs) = m # metas cs"
| "metas (CallData d # cs) = metas cs"

fun datas :: "build_call list \<Rightarrow> byte list list" where
  "datas [] = []"
| "datas (CallMeta m # cs) = datas cs"
| "datas (CallData d # cs) = d # datas cs"

definition last_or_empty :: "'a list list \<Rightarrow> 'a list" where
  "last_or_empty xs = (if xs = [] then [] else last xs)"

definition builds :: "pack_header \<Rightarrow> byte list \<Rightarrow> byte list option \<Rightarrow> pack_builder \<Rightarrow> bool" where
  "builds h m d b \<longleftrightarrow> length m < 2 ^ 32 \<and> meta_end b = 20 + length m \<and> (case d of
     None \<Rightarrow> data_start b = None \<and> buf b = covered_bytes h m
   | Some d \<Rightarrow> data_start b = Some (28 + length m) \<and> length d < 2 ^ 32 \<and>
       buf b = covered_bytes h m @ replicate 4 0 @ u32_to_be (word_of_nat (length d)) @ d)"

lemma builder_new_builds:
  "builds \<lparr> version = VERSION, header_kind = k, subtype = st, header_flags = fl, header_id = i, seq = sq \<rparr> [] None
     (builder_new k st fl i sq)"
  by (simp add: builds_def builder_new_def covered_bytes_def header_bytes_def pack_lens)

lemma u32_try_from_Inr [simp]: "u32_try_from n = Inr w \<longleftrightarrow> n < 2 ^ 32 \<and> w = word_of_nat n"
  by (auto simp: u32_try_from_def)

lemma builder_meta_builds:
  "builds h m d b \<Longrightarrow> builder_meta b m' = Inr b' \<longleftrightarrow>
     d = None \<and> length m' < 2 ^ 32 \<and>
     b' = b \<lparr> buf := covered_bytes h m', meta_end := 20 + length m' \<rparr>"
  by (cases d) (auto simp: builds_def builder_meta_def Let_def covered_bytes_def pack_lens)

lemma builder_data_builds:
  assumes "builds h m d b"
  shows "builder_data b d' = Inr b' \<longleftrightarrow> d = None \<and> length d' < 2 ^ 32 \<and>
    b' = b \<lparr> buf := covered_bytes h m @ replicate 4 0 @ u32_to_be (word_of_nat (length d')) @ d',
      data_start := Some (28 + length m) \<rparr>"
proof (cases d)
  case None
  then have b: "data_start b = None" "buf b = covered_bytes h m" using assms by (simp_all add: builds_def)
  show ?thesis
  proof (cases "length d' < 2 ^ 32")
    case True
    then have "data_slot b (length d') = Inr (b \<lparr> buf := (covered_bytes h m @ replicate 4 0 @ u32_to_be (word_of_nat (length d'))) @
        replicate (length d') 0, data_start := Some (28 + length m) \<rparr>)"
      using b by (simp add: data_slot_def u32_try_from_def Let_def)
    then show ?thesis using None True by (auto simp: builder_data_def fill_slot_def)
  next
    case False
    then show ?thesis using b by (simp add: builder_data_def data_slot_def u32_try_from_def)
  qed
next
  case (Some d'')
  then show ?thesis using assms by (simp add: builds_def builder_data_def data_slot_def)
qed

lemma builder_call_builds:
  assumes "builds h m d b" and "builder_call b c = Inr b'"
  shows "d = None \<and> (case c of CallMeta m' \<Rightarrow> builds h m' None b' | CallData d' \<Rightarrow> builds h m (Some d') b')"
proof (cases c)
  case (CallMeta m')
  then show ?thesis using assms by (auto simp: builder_meta_builds [OF assms(1)]) (auto simp: builds_def)
next
  case (CallData d')
  then show ?thesis using assms by (auto simp: builder_data_builds [OF assms(1)]) (auto simp: builds_def)
qed

lemma finish_builds: "builds h m d b \<Longrightarrow> finish crc32c b =
    pack_bytes crc32c \<lparr> header = h, meta_section = m, data_section = (case d of None \<Rightarrow> [] | Some d \<Rightarrow> d) \<rparr>"
  by (cases d) (auto simp: builds_def finish_def pack_bytes_def Let_def)

lemma builder_calls_builds:
  "rfoldM builder_call b cs = Inr b' \<Longrightarrow> builds h m d b \<Longrightarrow>
   builds h (last_or_empty (m # metas cs)) (if datas cs = [] then d else Some (last (datas cs))) b'"
proof (induction cs arbitrary: b m d)
  case (Cons c cs)
  then obtain b1 where b1: "builder_call b c = Inr b1" and rest: "rfoldM builder_call b1 cs = Inr b'" by auto
  note step = builder_call_builds [OF Cons.prems(2) b1]
  show ?case
  proof (cases c)
    case (CallMeta m')
    then show ?thesis using Cons.IH [OF rest, of m' None] step by (simp add: last_or_empty_def split: if_splits)
  next
    case (CallData d')
    then show ?thesis using Cons.IH [OF rest, of m "Some d'"] step by (simp add: last_or_empty_def split: if_splits)
  qed
qed (simp add: last_or_empty_def)

section \<open>Damage\<close>

lemma decode_cut:
  assumes "decode_header bytes = Some (Inr h)" and "read_u32 bytes HEADER_LEN = Some ml" and "length bytes < 28 + unat ml"
  shows "\<exists>x. decode crc32c bytes = Some (Inl (Truncated x (length bytes)))"
  using assms by (auto simp: decode_def Let_def pack_lens refuse_def)

lemma pack_as_layout:
  "pack_bytes crc32c v = covered_bytes (header v) (meta_section v) @
     u32_to_be (crc32c (covered_bytes (header v) (meta_section v))) @
     u32_to_be (word_of_nat (length (data_section v))) @ data_section v @ u32_to_be (crc32c (data_section v))"
  by (simp add: pack_bytes_def Let_def)


lemma pack_prefix:
  assumes "view_ok v" and "n < length (pack_bytes crc32c v)"
  shows "decode crc32c (take n (pack_bytes crc32c v)) = Some (Inl (TooShort n)) \<or>
    (\<exists>x. decode crc32c (take n (pack_bytes crc32c v)) = Some (Inl (Truncated x n)))"
proof -
  let ?m = "meta_section v" and ?d = "data_section v" and ?h = "header v" and ?p = "take n (pack_bytes crc32c v)"
  have ok: "header_ok ?h" "length ?m < 2 ^ 32" "length ?d < 2 ^ 32" using assms(1) by (auto simp: view_ok_def)
  have len: "length ?p = n" using assms(2) by simp
  consider "n < OVERHEAD" | "OVERHEAD \<le> n" "n < 28 + length ?m" | "OVERHEAD \<le> n" "28 + length ?m \<le> n" by linarith
  then show ?thesis
  proof cases
    case 1
    then have "decode_header ?p = Some (Inl (TooShort n))" unfolding decode_header_def Let_def len by simp
    then show ?thesis by (simp add: decode_def)
  next
    case 2
    have "?p = header_bytes ?h @ u32_to_be (word_of_nat (length ?m)) @ take (n - 20) (drop 20 (pack_bytes crc32c v))"
      using 2 by (simp add: pack_as_layout covered_bytes_def pack_lens)
    then obtain r where p: "?p = header_bytes ?h @ u32_to_be (word_of_nat (length ?m)) @ r" by blast
    have lr: "length r = n - 20" using arg_cong [OF p, of length] 2 unfolding len by (simp add: pack_lens)
    have "decode_header ?p = Some (Inr ?h)"
      unfolding p using 2 lr ok(1) by (intro decode_header_bytes) (simp_all add: pack_lens)
    moreover have "read_u32 ?p HEADER_LEN = Some (word_of_nat (length ?m))"
      unfolding p by (simp add: read_u32_in pack_lens be32.dec_enc)
    ultimately show ?thesis using decode_cut [of ?p ?h _ crc32c] 2 ok(2) unfolding len by simp
  next
    case 3
    define t where "t = take (n - (28 + length ?m)) (?d @ u32_to_be (crc32c ?d))"
    have p: "?p = covered_bytes ?h ?m @ u32_to_be (crc32c (covered_bytes ?h ?m)) @ u32_to_be (word_of_nat (length ?d)) @ t"
      using 3 by (simp add: pack_as_layout t_def)
    have lt: "length t = n - (28 + length ?m)" using arg_cong [OF p, of length] 3 unfolding len by simp
    have "length t < length ?d + 4" using assms(2) 3 unfolding lt length_pack_bytes by (simp add: pack_lens)
    then show ?thesis
      using decode_layout [OF ok(1,2) p, of crc32c] 3 lt ok(3) unfolding len
      by (auto simp: Let_def pack_lens refuse_def)
  qed
qed

lemma pack_trailing:
  assumes "view_ok v" and "r \<noteq> []"
  shows "decode crc32c (pack_bytes crc32c v @ r) =
    Some (Inl (TrailingBytes (length (pack_bytes crc32c v)) (length (pack_bytes crc32c v) + length r)))"
proof -
  let ?m = "meta_section v" and ?d = "data_section v" and ?h = "header v"
  have ok: "header_ok ?h" "length ?m < 2 ^ 32" "length ?d < 2 ^ 32" using assms(1) by (auto simp: view_ok_def)
  have "pack_bytes crc32c v @ r = covered_bytes ?h ?m @ u32_to_be (crc32c (covered_bytes ?h ?m)) @
      u32_to_be (word_of_nat (length ?d)) @ ?d @ u32_to_be (crc32c ?d) @ r" by (simp add: pack_as_layout)
  from decode_layout [OF ok(1,2) this, of crc32c] show ?thesis
    using ok(3) assms(2) by (simp add: Let_def length_pack_bytes pack_lens)
qed

lemma pack_damaged_data:
  assumes "view_ok v" and "length d' = length (data_section v)" and "crc32c d' \<noteq> crc32c (data_section v)"
  shows "decode crc32c (covered_bytes (header v) (meta_section v) @
      u32_to_be (crc32c (covered_bytes (header v) (meta_section v))) @ u32_to_be (word_of_nat (length d')) @ d' @
      u32_to_be (crc32c (data_section v))) = Some (Inl (DataCrc (crc32c (data_section v)) (crc32c d')))"
proof -
  have ok: "header_ok (header v)" "length (meta_section v) < 2 ^ 32" "length d' < 2 ^ 32"
    using assms(1,2) by (auto simp: view_ok_def)
  from decode_layout [OF ok(1,2) refl, where crc32c = crc32c and c = "crc32c (covered_bytes (header v) (meta_section v))"
      and dl = "word_of_nat (length d')" and t = "d' @ u32_to_be (crc32c (data_section v))"] show ?thesis
    using ok(3) assms(3) by (simp add: Let_def pack_lens be32.dec_enc)
qed

text \<open>Damage before the data: any bytes in the place of the header and the meta section, the meta length apart.\<close>

lemma kind_unknown: "b \<notin> range kind_byte \<Longrightarrow> kind_try_from b = Inl (UnknownKind b)"
proof (cases "kind_try_from b")
  case (Inl e)
  then show ?thesis unfolding kind_try_from_def by (simp split: option.splits del: map_of.simps fun_upd_apply)
qed (simp add: kind_try_from_Inr)

lemma decode_header_damaged:
  assumes "OVERHEAD \<le> length bytes"
  shows "bytes ! 0 \<noteq> VERSION \<Longrightarrow> decode_header bytes = Some (Inl (UnsupportedVersion (bytes ! 0)))"
    and "bytes ! 0 = VERSION \<Longrightarrow> bytes ! 1 \<notin> range kind_byte \<Longrightarrow> decode_header bytes = Some (Inl (UnknownKind (bytes ! 1)))"
    and "bytes ! 0 = VERSION \<Longrightarrow> bytes ! 1 = kind_byte k \<Longrightarrow> has_reserved_bits (bytes ! 3) \<Longrightarrow>
      decode_header bytes = Some (Inl (ReservedFlags (bytes ! 3)))"
proof -
  have "bytes \<noteq> []" using assms by (auto simp: pack_lens)
  then show "bytes ! 0 \<noteq> VERSION \<Longrightarrow> decode_header bytes = Some (Inl (UnsupportedVersion (bytes ! 0)))"
    and "bytes ! 0 = VERSION \<Longrightarrow> bytes ! 1 \<notin> range kind_byte \<Longrightarrow> decode_header bytes = Some (Inl (UnknownKind (bytes ! 1)))"
    and "bytes ! 0 = VERSION \<Longrightarrow> bytes ! 1 = kind_byte k \<Longrightarrow> has_reserved_bits (bytes ! 3) \<Longrightarrow>
      decode_header bytes = Some (Inl (ReservedFlags (bytes ! 3)))"
    using assms by (simp_all add: decode_header_def Let_def pack_lens kind_unknown)
qed

lemma covered_split:
  assumes "length c = 20 + length m" and "take 4 (drop 16 c) = u32_to_be (word_of_nat (length m))"
    and "c ! 0 = VERSION" and "c ! 1 = kind_byte k" and "\<not> has_reserved_bits (c ! 3)"
  obtains h m' where "header_ok h" and "length m' = length m" and "c = covered_bytes h m'"
proof -
  let ?h = "\<lparr> version = c ! 0, header_kind = k, subtype = c ! 2, header_flags = c ! 3,
    header_id = u64_of_be (take 8 (drop 4 c)), seq = u32_of_be (take 4 (drop 12 c)) \<rparr>"
  have "take 16 c = [c ! 0, c ! 1, c ! 2, c ! 3] @ take 8 (drop 4 c) @ take 4 (drop 12 c)"
  proof -
    have "length ([c ! 0, c ! 1, c ! 2, c ! 3] @ take 8 (drop 4 c) @ take 4 (drop 12 c)) = 16" using assms(1) by simp
    moreover have "c = ([c ! 0, c ! 1, c ! 2, c ! 3] @ take 8 (drop 4 c) @ take 4 (drop 12 c)) @ drop 16 c"
      using split_16 [of c] assms(1) by simp
    ultimately show ?thesis by (metis append_eq_conv_conj)
  qed
  then have "take 16 c = header_bytes ?h"
    using assms(1,4) be64.enc_dec [of "take 8 (drop 4 c)"] be32.enc_dec [of "take 4 (drop 12 c)"] by (simp add: header_bytes_def)
  moreover have "c = take 16 c @ take 4 (drop 16 c) @ drop 20 c"
    using append_take_drop_id [of 16 c] append_take_drop_id [of 4 "drop 16 c"] unfolding drop_drop by simp
  ultimately have "c = covered_bytes ?h (drop 20 c)" using assms(1,2) by (simp add: covered_bytes_def)
  moreover have "header_ok ?h" using assms(3,5) by (simp add: header_ok_def)
  ultimately show thesis using that [of ?h "drop 20 c"] assms(1) by simp
qed

definition damaged_front :: "(byte list \<Rightarrow> u32) \<Rightarrow> pack_view \<Rightarrow> byte list \<Rightarrow> pack_error" where
  "damaged_front crc32c v c =
     (if c ! 0 \<noteq> VERSION then UnsupportedVersion (c ! 0)
      else if c ! 1 \<notin> range kind_byte then UnknownKind (c ! 1)
      else if has_reserved_bits (c ! 3) then ReservedFlags (c ! 3)
      else MetaCrc (crc32c (covered_bytes (header v) (meta_section v))) (crc32c c))"

lemma pack_damaged_front:
  assumes "view_ok v" and "length c = 20 + length (meta_section v)"
    and "take 4 (drop 16 c) = u32_to_be (word_of_nat (length (meta_section v)))"
    and "crc32c c \<noteq> crc32c (covered_bytes (header v) (meta_section v))"
  shows "decode crc32c (c @ drop (20 + length (meta_section v)) (pack_bytes crc32c v)) = Some (Inl (damaged_front crc32c v c))"
proof -
  let ?m = "meta_section v" and ?d = "data_section v" and ?rest = "drop (20 + length (meta_section v)) (pack_bytes crc32c v)"
  have rest: "?rest = u32_to_be (crc32c (covered_bytes (header v) ?m)) @ u32_to_be (word_of_nat (length ?d)) @ ?d @ u32_to_be (crc32c ?d)"
    by (simp add: pack_as_layout)
  have len: "OVERHEAD \<le> length (c @ ?rest)" using assms(2) by (simp add: rest pack_lens)
  have nth: "(c @ ?rest) ! 0 = c ! 0" "(c @ ?rest) ! 1 = c ! 1" "(c @ ?rest) ! 3 = c ! 3"
    using assms(2) by (simp_all add: nth_append)
  note bad = decode_header_damaged [OF len, unfolded nth]
  show ?thesis
  proof (cases "c ! 0 = VERSION \<and> c ! 1 \<in> range kind_byte \<and> \<not> has_reserved_bits (c ! 3)")
    case False
    have "decode_header (c @ ?rest) = Some (Inl (damaged_front crc32c v c))"
    proof -
      consider "c ! 0 \<noteq> VERSION" | "c ! 0 = VERSION" "c ! 1 \<notin> range kind_byte"
        | "c ! 0 = VERSION" "c ! 1 \<in> range kind_byte" "has_reserved_bits (c ! 3)"
        using False by blast
      then show ?thesis
      proof cases
        case 3
        then obtain k where "c ! 1 = kind_byte k" by blast
        then show ?thesis using 3 bad(3) by (simp add: damaged_front_def)
      qed (use bad(1,2) in \<open>simp_all add: damaged_front_def\<close>)
    qed
    then show ?thesis by (simp add: decode_def)
  next
    case True
    then obtain k where "c ! 1 = kind_byte k" by blast
    then obtain h m' where c: "header_ok h" "length m' = length ?m" "c = covered_bytes h m'"
      using covered_split [OF assms(2,3)] True by blast
    have "length m' < 2 ^ 32" using assms(1) c(2) by (simp add: view_ok_def)
    from decode_layout [OF c(1) this refl, where t = "?d @ u32_to_be (crc32c ?d)" and crc32c = crc32c and
        c = "crc32c (covered_bytes (header v) ?m)" and dl = "word_of_nat (length ?d)"]
    have "decode crc32c (c @ ?rest) = Some (Inl (MetaCrc (crc32c (covered_bytes (header v) ?m)) (crc32c c)))"
      using assms(4) unfolding rest c(3) [symmetric] Let_def by simp
    then show ?thesis using True by (simp add: damaged_front_def)
  qed
qed

section \<open>Properties\<close>

text \<open>C23: what the builder is given comes out of the decoder: for every sequence of builder calls that is accepted, the
  finished pack decodes to the header of \<^verbatim>\<open>new\<close>, the last meta section and the data section that were set, whatever the
  checksum function is.\<close>

theorem pack_roundtrip:
  assumes "rfoldM builder_call (builder_new k st fl i sq) calls = Inr b" and "\<not> has_reserved_bits fl"
  shows "decode crc32c (finish crc32c b) = Some (Inr
    \<lparr> header = \<lparr> version = VERSION, header_kind = k, subtype = st, header_flags = fl, header_id = i, seq = sq \<rparr>,
      meta_section = last_or_empty (metas calls), data_section = last_or_empty (datas calls) \<rparr>)"
proof -
  note b = builder_calls_builds [OF assms(1) builder_new_builds]
  have "last_or_empty ([] # metas calls) = last_or_empty (metas calls)" by (simp add: last_or_empty_def)
  with b assms(2) show ?thesis
    unfolding finish_builds [OF b]
    by (subst decode_pack_bytes) (auto simp: builds_def view_ok_def header_ok_def last_or_empty_def split: if_splits)
qed

definition sum_checksum :: "byte list \<Rightarrow> u32" where
  "sum_checksum bytes = word_of_nat (sum_list (map unat bytes))"

theorem pack_roundtrip_witness:
  "\<exists>b. rfoldM builder_call (builder_new Upload 2 WANT_ACK 7 9) [CallMeta [1], CallMeta [123, 125], CallData [5, 6, 7]] = Inr b \<and>
     decode sum_checksum (finish sum_checksum b) = Some (Inr
       \<lparr> header = \<lparr> version = VERSION, header_kind = Upload, subtype = 2, header_flags = WANT_ACK, header_id = 7, seq = 9 \<rparr>,
         meta_section = [123, 125], data_section = [5, 6, 7] \<rparr>)"
proof -
  have "\<not> has_reserved_bits WANT_ACK" by (simp add: has_reserved_bits_def WANT_ACK_def KNOWN_def)
  moreover have "\<exists>b. rfoldM builder_call (builder_new Upload 2 WANT_ACK 7 9)
      [CallMeta [1], CallMeta [123, 125], CallData [5, 6, 7]] = Inr b"
    by (simp add: builder_meta_def builder_data_def data_slot_def u32_try_from_def builder_new_def Let_def)
  ultimately show ?thesis
    using pack_roundtrip [of Upload 2 WANT_ACK 7 9 "[CallMeta [1], CallMeta [123, 125], CallData [5, 6, 7]]" _ sum_checksum]
    by (fastforce simp: last_or_empty_def)
qed

text \<open>C24: decoding never panics, whatever bytes arrive, and accepts exactly the packs: a buffer decodes to a view if and only if
  the view is well-formed and the buffer is its one encoding.\<close>

theorem decode_accepts_exactly_packs:
  "decode crc32c bytes \<noteq> None \<and>
   (decode crc32c bytes = Some (Inr v) \<longleftrightarrow> view_ok v \<and> bytes = pack_bytes crc32c v)"
  using decode_total decode_pack_bytes pack_bytes_decode by blast

text \<open>C25: damage is reported for what it is. A pack cut short is too short or truncated; a pack with bytes behind it has
  trailing bytes; whatever replaces the header and the meta section, the meta length apart, is reported by the first of
  version, kind and flags that is not one of a pack, and otherwise by the two checksums of the front, if they differ; and a
  data section that no longer matches its checksum is reported as such, with both checksums, and not as a broken header.\<close>

theorem pack_damage_reported:
  assumes "view_ok v"
  shows "(n < length (pack_bytes crc32c v) \<longrightarrow>
      decode crc32c (take n (pack_bytes crc32c v)) = Some (Inl (TooShort n)) \<or>
      (\<exists>x. decode crc32c (take n (pack_bytes crc32c v)) = Some (Inl (Truncated x n)))) \<and>
    (r \<noteq> [] \<longrightarrow> decode crc32c (pack_bytes crc32c v @ r) =
      Some (Inl (TrailingBytes (length (pack_bytes crc32c v)) (length (pack_bytes crc32c v) + length r)))) \<and>
    (length c = 20 + length (meta_section v) \<and> take 4 (drop 16 c) = u32_to_be (word_of_nat (length (meta_section v))) \<and>
      crc32c c \<noteq> crc32c (covered_bytes (header v) (meta_section v)) \<longrightarrow>
      decode crc32c (c @ drop (20 + length (meta_section v)) (pack_bytes crc32c v)) =
      Some (Inl (if c ! 0 \<noteq> VERSION then UnsupportedVersion (c ! 0)
        else if c ! 1 \<notin> range kind_byte then UnknownKind (c ! 1)
        else if has_reserved_bits (c ! 3) then ReservedFlags (c ! 3)
        else MetaCrc (crc32c (covered_bytes (header v) (meta_section v))) (crc32c c)))) \<and>
    (length d' = length (data_section v) \<and> crc32c d' \<noteq> crc32c (data_section v) \<longrightarrow>
      decode crc32c (take (28 + length (meta_section v)) (pack_bytes crc32c v) @ d' @ u32_to_be (crc32c (data_section v))) =
      Some (Inl (DataCrc (crc32c (data_section v)) (crc32c d'))))"
proof -
  have "decode crc32c (take (28 + length (meta_section v)) (pack_bytes crc32c v) @ d' @ u32_to_be (crc32c (data_section v))) =
      Some (Inl (DataCrc (crc32c (data_section v)) (crc32c d')))"
    if "length d' = length (data_section v)" "crc32c d' \<noteq> crc32c (data_section v)"
    using pack_damaged_data [OF assms that] that by (simp add: pack_as_layout)
  then show ?thesis
    using pack_prefix [OF assms] pack_trailing [OF assms] pack_damaged_front [OF assms, of c crc32c, unfolded damaged_front_def]
    by blast
qed

definition sample_pack :: pack_view where
  "sample_pack = \<lparr> header = \<lparr> version = VERSION, header_kind = Upload, subtype = 2, header_flags = WANT_ACK, header_id = 7, seq = 9 \<rparr>,
     meta_section = [123, 125], data_section = [5, 6, 7] \<rparr>"

theorem pack_damage_reported_witness:
  "decode sum_checksum (pack_bytes sum_checksum sample_pack @ [0]) = Some (Inl (TrailingBytes 37 38)) \<and>
   decode sum_checksum ([1, 3, 2, 2, 0, 0, 0, 0, 0, 0, 0, 7, 0, 0, 0, 9, 0, 0, 0, 2, 123, 126] @ drop 22 (pack_bytes sum_checksum sample_pack)) =
     Some (Inl (MetaCrc 274 275)) \<and>
   decode sum_checksum (take 30 (pack_bytes sum_checksum sample_pack) @ [5, 9, 7] @ u32_to_be 18) = Some (Inl (DataCrc 18 21))"
proof -
  let ?c = "[1, 3, 2, 2, 0, 0, 0, 0, 0, 0, 0, 7, 0, 0, 0, 9, 0, 0, 0, 2, 123, 126]"
  have "view_ok sample_pack"
    by (simp add: sample_pack_def view_ok_def header_ok_def has_reserved_bits_def WANT_ACK_def KNOWN_def)
  note damage = pack_damage_reported [OF this, of 0 sum_checksum "[0]" ?c "[5, 9, 7]", THEN conjunct2]
  have len: "length (pack_bytes sum_checksum sample_pack) = 37" "length (meta_section sample_pack) = 2" "data_section sample_pack = [5, 6, 7]"
    by (simp_all add: length_pack_bytes sample_pack_def pack_lens)
  have c: "sum_checksum ?c = 275" "sum_checksum (covered_bytes (header sample_pack) (meta_section sample_pack)) = 274"
    "take 4 (drop 16 ?c) = u32_to_be (word_of_nat 2)" "?c ! 1 = kind_byte Upload" "\<not> has_reserved_bits (?c ! 3)" "?c ! 0 = VERSION"
    by code_simp+
  have "?c ! 1 \<in> range kind_byte" using c(4) by (rule range_eqI)
  then have "decode sum_checksum (?c @ drop 22 (pack_bytes sum_checksum sample_pack)) = Some (Inl (MetaCrc 274 275))"
    using damage [THEN conjunct2, THEN conjunct1, unfolded len(2) c(1,2,3), THEN mp] c(5,6) by simp
  moreover have "decode sum_checksum (take 30 (pack_bytes sum_checksum sample_pack) @ [5, 9, 7] @ u32_to_be 18) = Some (Inl (DataCrc 18 21))"
    using damage [THEN conjunct2, THEN conjunct2, unfolded len(2,3), THEN mp] by (simp add: sum_checksum_def)
  ultimately show ?thesis using damage [THEN conjunct1] len(1) by simp
qed

end
