(* ===== verification/Wbf_Vocab.thy ===== *)
theory Wbf_Vocab
  imports Wbf_Pack
begin

text \<open>
  The vocabulary around a pack: the typed identifiers of \<^verbatim>\<open>src/core/wbf/id_type.rs\<close>, the reject codes of
  \<^verbatim>\<open>src/core/wbf/error_code.rs\<close> and the upload description of \<^verbatim>\<open>src/core/wbf/file_info.rs\<close>.
\<close>

section \<open>Typed identifiers\<close>

datatype id_type = IdNone | ClientConversation | EventPosition | UploadId

definition ID_VALUE_BITS :: nat where "ID_VALUE_BITS = 56"
definition ID_VALUE_MAX :: u64 where "ID_VALUE_MAX = push_bit ID_VALUE_BITS 1 - 1"

datatype id_value_refused = TooLargeForSevenBytes u64 | NoneTakesNoValue u64

fun id_byte :: "id_type \<Rightarrow> byte" where
  "id_byte IdNone = 0x00"
| "id_byte ClientConversation = 0x01"
| "id_byte EventPosition = 0x02"
| "id_byte UploadId = 0x03"

fun id_name :: "id_type \<Rightarrow> string" where
  "id_name IdNone = ''none''"
| "id_name ClientConversation = ''a conversation the client named''"
| "id_name EventPosition = ''an event position''"
| "id_name UploadId = ''an upload''"

definition id_type_of :: "u64 \<Rightarrow> id_type option" where
  "id_type_of i =
     (let b = (ucast (drop_bit ID_VALUE_BITS i) :: byte)
      in if b = 0x00 then Some IdNone else if b = 0x01 then Some ClientConversation
         else if b = 0x02 then Some EventPosition else if b = 0x03 then Some UploadId else None)"

definition compose :: "id_type \<Rightarrow> u64 \<Rightarrow> id_value_refused + u64" where
  "compose t v =
     (if v > ID_VALUE_MAX then Inl (TooLargeForSevenBytes v)
      else if t = IdNone \<and> v \<noteq> 0 then Inl (NoneTakesNoValue v)
      else Inr (push_bit ID_VALUE_BITS (ucast (id_byte t)) OR v))"

definition id_value :: "u64 \<Rightarrow> u64" where
  "id_value i = i AND ID_VALUE_MAX"

lemma ID_VALUE_MAX_mask: "ID_VALUE_MAX = mask 56"
  by (simp add: ID_VALUE_MAX_def ID_VALUE_BITS_def mask_eq_exp_minus_1 push_bit_eq_mult)

lemma small_value:
  assumes "v \<le> ID_VALUE_MAX"
  shows "drop_bit 56 v = 0" and "v AND ID_VALUE_MAX = v"
proof -
  have "unat v < 2 ^ 56" using assms by (simp add: ID_VALUE_MAX_def ID_VALUE_BITS_def word_le_nat_alt)
  then have "take_bit 56 v = v" by (simp add: word_unat_eq_iff unsigned_take_bit_eq take_bit_nat_eq_self)
  then show "v AND ID_VALUE_MAX = v" by (simp add: ID_VALUE_MAX_mask take_bit_eq_mask)
  then show "drop_bit 56 v = 0" using \<open>take_bit 56 v = v\<close> by (metis drop_bit_take_bit take_bit_0 diff_self_eq_0)
qed

lemma compose_reads_back:
  assumes "compose t v = Inr i"
  shows "id_type_of i = Some t" and "id_value i = v"
proof -
  have v: "v \<le> ID_VALUE_MAX" and i: "i = push_bit ID_VALUE_BITS (ucast (id_byte t)) OR v"
    using assms by (auto simp: compose_def split: if_splits)
  show "id_type_of i = Some t" using small_value(1) [OF v]
    by (cases t) (simp_all add: i id_type_of_def ID_VALUE_BITS_def drop_bit_or)
  show "id_value i = v" using small_value(2) [OF v]
    by (cases t) (simp_all add: i id_value_def ID_VALUE_BITS_def ID_VALUE_MAX_def bit.conj_disj_distrib2)
qed

lemma id_parts: "push_bit 56 (ucast (ucast (drop_bit 56 i) :: byte)) OR id_value i = i"
proof -
  have "unat (drop_bit 56 i) < 2 ^ 8"
  proof -
    have "unat (drop_bit 56 i) = drop_bit 56 (unat i)"
      unfolding unsigned_drop_bit_eq using unat_less_2p [of i] by (simp add: take_bit_nat_eq_self)
    then show ?thesis using unat_less_2p [of i] by (simp add: drop_bit_eq_div less_mult_imp_div_less)
  qed
  then have "ucast (ucast (drop_bit 56 i) :: byte) = drop_bit 56 i"
    by (simp add: word_unat_eq_iff unsigned_ucast_eq unsigned_take_bit_eq take_bit_nat_eq_self)
  moreover have "push_bit 56 (drop_bit 56 i) OR take_bit 56 i = i" by (rule bit_eqI) (auto simp: bit_simps)
  ultimately show ?thesis by (simp add: id_value_def ID_VALUE_MAX_mask take_bit_eq_mask)
qed

lemma id_type_of_byte: "id_type_of i = Some t \<longleftrightarrow> ucast (drop_bit 56 i) = id_byte t"
  by (cases t) (auto simp: id_type_of_def ID_VALUE_BITS_def Let_def)

lemma id_value_bound: "id_value i \<le> ID_VALUE_MAX"
  unfolding id_value_def by (simp add: word_and_le1)

section \<open>Reject codes\<close>

datatype reject_code = UnsupportedVersion | Corrupt | UnknownKind | Unsupported | TooLarge | InvalidRequest
  | Unauthorized | Forbidden | RateLimited | TooManyConnections | TooManyConnectionsFromAddress | NotFound | Conflict
  | OutOfOrder | Truncated | Superseded | RoomDevicesChanged | Internal

definition CONTROL_ERROR_SUBTYPE :: byte where "CONTROL_ERROR_SUBTYPE = 0x03"

definition reject_ALL :: "reject_code list" where
  "reject_ALL = [UnsupportedVersion, Corrupt, UnknownKind, Unsupported, TooLarge, InvalidRequest, Unauthorized, Forbidden,
     RateLimited, TooManyConnections, TooManyConnectionsFromAddress, NotFound, Conflict, OutOfOrder, Truncated, Superseded,
     RoomDevicesChanged, Internal]"

fun reject_id :: "reject_code \<Rightarrow> nat" where
  "reject_id UnsupportedVersion = 1001"
| "reject_id Corrupt = 1002"
| "reject_id UnknownKind = 1101"
| "reject_id Unsupported = 1102"
| "reject_id TooLarge = 1103"
| "reject_id InvalidRequest = 1201"
| "reject_id Unauthorized = 1301"
| "reject_id Forbidden = 1302"
| "reject_id RateLimited = 1401"
| "reject_id TooManyConnections = 1402"
| "reject_id TooManyConnectionsFromAddress = 1403"
| "reject_id NotFound = 1501"
| "reject_id Conflict = 1502"
| "reject_id OutOfOrder = 1503"
| "reject_id Truncated = 1504"
| "reject_id Superseded = 1505"
| "reject_id RoomDevicesChanged = 1506"
| "reject_id Internal = 1901"

fun reject_name :: "reject_code \<Rightarrow> string" where
  "reject_name UnsupportedVersion = ''UnsupportedVersion''"
| "reject_name Corrupt = ''Corrupt''"
| "reject_name UnknownKind = ''UnknownKind''"
| "reject_name Unsupported = ''Unsupported''"
| "reject_name TooLarge = ''TooLarge''"
| "reject_name InvalidRequest = ''InvalidRequest''"
| "reject_name Unauthorized = ''Unauthorized''"
| "reject_name Forbidden = ''Forbidden''"
| "reject_name RateLimited = ''RateLimited''"
| "reject_name TooManyConnections = ''TooManyConnections''"
| "reject_name TooManyConnectionsFromAddress = ''TooManyConnectionsFromAddress''"
| "reject_name NotFound = ''NotFound''"
| "reject_name Conflict = ''Conflict''"
| "reject_name OutOfOrder = ''OutOfOrder''"
| "reject_name Truncated = ''Truncated''"
| "reject_name Superseded = ''Superseded''"
| "reject_name RoomDevicesChanged = ''RoomDevicesChanged''"
| "reject_name Internal = ''Internal''"

definition for_pack_error :: "pack_error \<Rightarrow> reject_code" where
  "for_pack_error e = (case e of
     pack_error.UnsupportedVersion _ \<Rightarrow> UnsupportedVersion
   | pack_error.UnknownKind _ \<Rightarrow> UnknownKind
   | SectionTooLarge _ \<Rightarrow> TooLarge
   | _ \<Rightarrow> Corrupt)"

definition is_undecodable_frame :: "reject_code \<Rightarrow> bool" where
  "is_undecodable_frame c \<longleftrightarrow> c = Corrupt \<or> c = UnsupportedVersion"

text \<open>The table is complete, and no two codes share a number or a name.\<close>

lemma reject_table:
  "set reject_ALL = UNIV" "inj reject_id" "inj reject_name" "1000 \<le> reject_id c"
proof -
  have "c \<in> set reject_ALL" for c by (cases c) (simp_all add: reject_ALL_def)
  then show all: "set reject_ALL = UNIV" by auto
  have "distinct (map reject_id reject_ALL)" "distinct (map reject_name reject_ALL)" by (simp_all add: reject_ALL_def)
  then show "inj reject_id" "inj reject_name" using all by (simp_all add: distinct_map inj_on_def)
  show "1000 \<le> reject_id c" by (cases c) simp_all
qed

section \<open>The description of an encrypted upload\<close>

record encrypted_file_info =
  file_size :: u64
  chunk_size :: u32
  chunk_count :: u32

definition ENCRYPTED_FILE_INFO_LEN :: nat where "ENCRYPTED_FILE_INFO_LEN = 16"

datatype file_info_error = WrongLength nat

definition encode_file_info :: "encrypted_file_info \<Rightarrow> byte list" where
  "encode_file_info f = u64_to_be (file_size f) @ u32_to_be (chunk_size f) @ u32_to_be (chunk_count f)"

definition decode_file_info :: "byte list \<Rightarrow> file_info_error + encrypted_file_info" where
  "decode_file_info bytes =
     (if length bytes \<noteq> ENCRYPTED_FILE_INFO_LEN then Inl (WrongLength (length bytes))
      else Inr \<lparr> file_size = u64_of_be (take 8 bytes), chunk_size = u32_of_be (take 4 (drop 8 bytes)),
        chunk_count = u32_of_be (take 4 (drop 12 bytes)) \<rparr>)"

lemma decode_file_info_iff: "decode_file_info bytes = Inr f \<longleftrightarrow> bytes = encode_file_info f"
proof
  assume "decode_file_info bytes = Inr f"
  then have len: "length bytes = 16" and f: "f = \<lparr> file_size = u64_of_be (take 8 bytes),
      chunk_size = u32_of_be (take 4 (drop 8 bytes)), chunk_count = u32_of_be (take 4 (drop 12 bytes)) \<rparr>"
    by (auto simp: decode_file_info_def ENCRYPTED_FILE_INFO_LEN_def split: if_splits)
  have "take 4 (drop 8 bytes) @ drop 12 bytes = drop 8 bytes" using append_take_drop_id [of 4 "drop 8 bytes"] by simp
  then show "bytes = encode_file_info f" using len by (simp add: f encode_file_info_def be64.enc_dec be32.enc_dec)
qed (simp add: decode_file_info_def encode_file_info_def ENCRYPTED_FILE_INFO_LEN_def be64.dec_enc be32.dec_enc)

text \<open>A buffer that does not decode is answered with one of three codes, never with the one for sections that are too large;
  and it counts against the health of the connection unless only its kind is unknown, in which case the sender speaks
  the protocol.\<close>

lemma undecodable_frame_iff:
  assumes "decode crc32c bytes = Some (Inl e)"
  shows "for_pack_error e \<in> {UnsupportedVersion, UnknownKind, Corrupt} \<and>
    (is_undecodable_frame (for_pack_error e) \<longleftrightarrow> (\<forall>b. e \<noteq> pack_error.UnknownKind b))"
proof -
  have "e \<noteq> SectionTooLarge n" for n
  proof
    assume "e = SectionTooLarge n"
    moreover have "decode_header bytes \<noteq> Some (Inl (SectionTooLarge n))" for n
      by (auto simp: decode_header_def Let_def refuse_def access_def cbind_def kind_try_from_def split: option.splits if_splits)
    ultimately show False using assms
      by (auto simp: decode_def Let_def refuse_def access_def cbind_def split: option.splits sum.splits if_splits)
  qed
  then show ?thesis by (cases e) (auto simp: for_pack_error_def is_undecodable_frame_def)
qed

section \<open>Properties\<close>

text \<open>C26: a wire id is one type and one value of at most 56 bits, and nothing else: composing a value under a type gives exactly
  the ids that read back as that type and value, and under the type for no conversation only the value 0 is accepted.\<close>

theorem compose_iff_reads_back:
  "compose t v = Inr i \<longleftrightarrow> id_type_of i = Some t \<and> id_value i = v \<and> (t = IdNone \<longrightarrow> v = 0)"
proof
  assume "compose t v = Inr i"
  then show "id_type_of i = Some t \<and> id_value i = v \<and> (t = IdNone \<longrightarrow> v = 0)"
    using compose_reads_back by (auto simp: compose_def split: if_splits)
next
  assume i: "id_type_of i = Some t \<and> id_value i = v \<and> (t = IdNone \<longrightarrow> v = 0)"
  then have "\<not> v > ID_VALUE_MAX" using id_value_bound [of i] by auto
  moreover have "push_bit 56 (ucast (id_byte t)) OR v = i"
    using id_parts [of i] i by (simp add: id_type_of_byte)
  ultimately show "compose t v = Inr i" using i by (simp add: compose_def ID_VALUE_BITS_def)
qed

theorem compose_iff_reads_back_witness:
  "compose EventPosition 123 = Inr 0x020000000000007B \<and> id_type_of 0x020000000000007B = Some EventPosition"
  using compose_iff_reads_back [of EventPosition 123 "0x020000000000007B"]
  by (simp add: compose_def ID_VALUE_MAX_def ID_VALUE_BITS_def)

end
