(* ===== verification/Wbf_Events.thy ===== *)
theory Wbf_Events
  imports Wbf_Pack
begin

text \<open>
  The data section of packs that carry events (\<^verbatim>\<open>src/core/wbf/events.rs\<close>): length-prefixed runs of events, the cut of a run
  into packs, and the budget of a window. The fields of a pending invite (\<^verbatim>\<open>src/core/wbf/invites.rs\<close>) are at the end; the
  JSON parser is a parameter there.
\<close>

section \<open>Length prefixes\<close>

definition EVENT_LEN_PREFIX :: nat where "EVENT_LEN_PREFIX = 4"

fun length_prefixed :: "byte list list \<Rightarrow> pack_error + byte list" where
  "length_prefixed [] = Inr []"
| "length_prefixed (event # events) =
     rbind (u32_try_from (length event)) (\<lambda>len.
     rmap (\<lambda>data. u32_to_be len @ event @ data) (length_prefixed events))"

definition framed_len :: "nat \<Rightarrow> nat" where
  "framed_len event_len = sat_add EVENT_LEN_PREFIX event_len"

text \<open>The loop of \<^verbatim>\<open>split_length_prefixed\<close> from offset \<open>at\<close>.\<close>

function split_from :: "byte list \<Rightarrow> nat \<Rightarrow> pack_error + byte list list" where
  "split_from data at =
     (if at < length data then
        (case range_get data at (at + EVENT_LEN_PREFIX) of
           None \<Rightarrow> Inl (Truncated (at + EVENT_LEN_PREFIX) (length data))
         | Some prefix \<Rightarrow>
             let len = unat (u32_of_be prefix); at' = at + EVENT_LEN_PREFIX in
             (case range_get data at' (at' + len) of
                None \<Rightarrow> Inl (Truncated (at' + len) (length data))
              | Some event \<Rightarrow> rmap (\<lambda>events. event # events) (split_from data (at' + len))))
      else Inr [])"
  by pat_completeness auto
termination
  by (relation "measure (\<lambda>(data, at). length data - at)") (auto simp: EVENT_LEN_PREFIX_def)

declare split_from.simps [simp del]

definition split_length_prefixed :: "byte list \<Rightarrow> pack_error + byte list list" where
  "split_length_prefixed data = split_from data 0"

section \<open>Cutting a run into packs\<close>

record cut =
  ranges :: "(nat \<times> nat) list"
  cut_start :: nat
  cut_count :: nat
  cut_len :: nat

definition cut_step :: "nat \<Rightarrow> nat \<Rightarrow> nat \<times> nat \<Rightarrow> cut \<Rightarrow> cut" where
  "cut_step count_max data_max item c = (case item of (position, event_len) \<Rightarrow>
     let framed = framed_len event_len;
         is_count_full = cut_count c \<ge> count_max;
         is_over_budget = cut_count c > 0 \<and> sat_add (cut_len c) framed > data_max;
         c' = (if is_count_full \<or> is_over_budget
               then \<lparr> ranges = ranges c @ [(cut_start c, position)], cut_start = position, cut_count = 0, cut_len = 0 \<rparr>
               else c)
     in c' \<lparr> cut_len := sat_add (cut_len c') framed, cut_count := cut_count c' + 1 \<rparr>)"

definition list_pack_ranges :: "nat list \<Rightarrow> nat \<Rightarrow> nat \<Rightarrow> (nat \<times> nat) list" where
  "list_pack_ranges event_lens count_max data_max =
     (let c = fold (cut_step (max count_max 1) data_max) (List.enumerate 0 event_lens)
            \<lparr> ranges = [], cut_start = 0, cut_count = 0, cut_len = 0 \<rparr>
      in if cut_count c > 0 then ranges c @ [(cut_start c, cut_start c + cut_count c)] else ranges c)"

section \<open>The budget of a window\<close>

record window_budget =
  count_max :: nat
  bytes_max :: nat
  budget_count :: nat
  budget_bytes :: nat
  is_closed :: bool

definition budget_new :: "nat \<Rightarrow> nat \<Rightarrow> window_budget" where
  "budget_new cm bm = \<lparr> count_max = cm, bytes_max = bm, budget_count = 0, budget_bytes = 0, is_closed = False \<rparr>"

definition is_count_full :: "window_budget \<Rightarrow> bool" where
  "is_count_full w \<longleftrightarrow> budget_count w \<ge> count_max w"

definition try_admit :: "window_budget \<Rightarrow> nat \<Rightarrow> bool \<times> window_budget" where
  "try_admit w event_len =
     (let framed = framed_len event_len;
          is_over_bytes = budget_count w > 0 \<and> sat_add (budget_bytes w) framed > bytes_max w
      in if is_closed w \<or> is_over_bytes \<or> is_count_full w then (False, w \<lparr> is_closed := True \<rparr>)
         else (True, w \<lparr> budget_bytes := sat_add (budget_bytes w) framed, budget_count := sat_add (budget_count w) 1 \<rparr>))"

definition is_cut_short :: "window_budget \<Rightarrow> bool" where
  "is_cut_short w = (if count_max w = 0 then False else is_closed w \<or> is_count_full w)"

section \<open>Pending invites\<close>

datatype json = JNull | JBool bool | JNumber int | JString string | JArray "json list" | JObject "(string \<times> json) list"

fun value_as_str :: "json \<Rightarrow> string option" where
  "value_as_str (JString s) = Some s"
| "value_as_str _ = None"

fun as_bool :: "json \<Rightarrow> bool option" where
  "as_bool (JBool b) = Some b"
| "as_bool _ = None"

fun value_as_object :: "json \<Rightarrow> (string \<times> json) list option" where
  "value_as_object (JObject m) = Some m"
| "value_as_object _ = None"

definition STRIPPED_EVENT_LEN_MAX :: nat where "STRIPPED_EVENT_LEN_MAX = 65536"
definition STRIPPED_EVENT_COUNT_MAX :: nat where "STRIPPED_EVENT_COUNT_MAX = 16"

definition STRIPPED_TYPES_KEPT :: "string list" where
  "STRIPPED_TYPES_KEPT = [''m.room.create'', ''m.room.join_rules'', ''m.room.canonical_alias'', ''m.room.name'',
     ''m.room.avatar'', ''m.room.encryption'', ''m.room.topic'', ''m.room.member'']"

record invite_fields =
  inviter :: "string option"
  is_direct :: bool
  reason :: "string option"

definition get_str :: "(string \<times> json) list \<Rightarrow> string \<Rightarrow> string option" where
  "get_str m k = Option.bind (map_of m k) value_as_str"

definition find_own_member_event ::
  "(byte list \<Rightarrow> json option) \<Rightarrow> byte list list \<Rightarrow> string \<Rightarrow> (string \<times> json) list option" where
  "find_own_member_event from_slice state user =
     (let matching = filter (\<lambda>event. get_str event ''type'' = Some ''m.room.member'' \<and> get_str event ''state_key'' = Some user)
            (List.map_filter value_as_object (List.map_filter from_slice state))
      in if matching = [] then None else Some (last matching))"

definition get_invite_fields :: "(byte list \<Rightarrow> json option) \<Rightarrow> byte list list \<Rightarrow> string \<Rightarrow> invite_fields" where
  "get_invite_fields from_slice state user = (case find_own_member_event from_slice state user of
     None \<Rightarrow> \<lparr> inviter = None, is_direct = False, reason = None \<rparr>
   | Some member \<Rightarrow>
       let content = Option.bind (map_of member ''content'') value_as_object in
       \<lparr> inviter = get_str member ''sender'',
         is_direct = (case Option.bind (Option.bind content (\<lambda>c. map_of c ''is_direct'')) as_bool of None \<Rightarrow> False | Some b \<Rightarrow> b),
         reason = Option.bind (Option.bind content (\<lambda>c. map_of c ''reason'')) value_as_str \<rparr>)"

definition is_stripped_event_kept :: "(byte list \<Rightarrow> json option) \<Rightarrow> byte list \<Rightarrow> bool" where
  "is_stripped_event_kept from_slice event =
     (if length event > STRIPPED_EVENT_LEN_MAX then False
      else case from_slice event of
        Some (JObject e) \<Rightarrow>
          (if get_str e ''state_key'' = None then False
           else case get_str e ''type'' of None \<Rightarrow> False | Some t \<Rightarrow> t \<in> set STRIPPED_TYPES_KEPT)
      | _ \<Rightarrow> False)"


section \<open>Splitting inverts prefixing\<close>

lemma length_prefixed_Cons [simp]:
  "length_prefixed (event # events) = Inr data \<longleftrightarrow> length event < 2 ^ 32 \<and>
     (\<exists>rest. length_prefixed events = Inr rest \<and> data = u32_to_be (word_of_nat (length event)) @ event @ rest)"
  by (auto simp: rbind_def rmap_def u32_try_from_def split: sum.splits)

lemma split_from_prefixed:
  "length_prefixed events = Inr data \<Longrightarrow> split_from (pre @ data) (length pre) = Inr events"
proof (induction events arbitrary: pre data)
  case Nil
  then show ?case by (simp add: split_from.simps)
next
  case (Cons event events)
  then obtain rest where event: "length event < 2 ^ 32" and rest: "length_prefixed events = Inr rest"
      and data: "data = u32_to_be (word_of_nat (length event)) @ event @ rest" by auto
  let ?pre = "pre @ u32_to_be (word_of_nat (length event)) @ event"
  have "split_from (pre @ data) (length ?pre) = Inr events" using Cons.IH [OF rest, of ?pre] by (simp add: data)
  then show ?case using event
    by (subst split_from.simps) (simp add: data EVENT_LEN_PREFIX_def be32.dec_enc add.assoc)
qed

lemma prefixed_split_from:
  "split_from data at = Inr events \<Longrightarrow> at \<le> length data \<Longrightarrow> length_prefixed events = Inr (drop at data)"
proof (induction data at arbitrary: events rule: split_from.induct)
  case (1 data at)
  show ?case
  proof (cases "at < length data")
    case False
    then show ?thesis using "1.prems" by (simp add: split_from.simps)
  next
    case True
    then obtain prefix event rest where prefix: "range_get data at (at + EVENT_LEN_PREFIX) = Some prefix"
        and event: "range_get data (at + EVENT_LEN_PREFIX) (at + EVENT_LEN_PREFIX + unat (u32_of_be prefix)) = Some event"
        and rest: "split_from data (at + EVENT_LEN_PREFIX + unat (u32_of_be prefix)) = Inr rest"
        and events: "events = event # rest"
      using "1.prems"(1) by (subst (asm) split_from.simps) (auto simp: Let_def rmap_def split: option.splits sum.splits)
    let ?at = "at + EVENT_LEN_PREFIX" and ?n = "unat (u32_of_be prefix)"
    have len: "?at + ?n \<le> length data" "length event = ?n" "length prefix = 4"
      using event range_get_Some_length [OF event] range_get_Some_length [OF prefix]
      by (auto simp: range_get_def EVENT_LEN_PREFIX_def split: if_splits)
    have "length_prefixed rest = Inr (drop (?at + ?n) data)"
      by (rule "1.IH" [OF True prefix refl refl event rest len(1)])
    moreover have "drop at data = prefix @ event @ drop (?at + ?n) data"
      using prefix event append_take_drop_id [of 4 "drop at data"] append_take_drop_id [of ?n "drop ?at data"]
      by (auto simp: range_get_def EVENT_LEN_PREFIX_def add.commute split: if_splits)
    moreover have "u32_to_be (word_of_nat (length event)) = prefix" using len(2,3) by (simp add: be32.enc_dec)
    ultimately show ?thesis using unat_less_2p [of "u32_of_be prefix"] len(2) by (simp add: events)
  qed
qed

section \<open>What the cuts are\<close>

text \<open>The bytes the events \<open>a\<close> to \<open>b\<close> take, and the saturated sum the code keeps.\<close>

definition framed_sum :: "nat list \<Rightarrow> nat" where
  "framed_sum lens = (\<Sum>l \<leftarrow> lens. EVENT_LEN_PREFIX + l)"

definition slice :: "'a list \<Rightarrow> nat \<Rightarrow> nat \<Rightarrow> 'a list" where
  "slice xs a b = take (b - a) (drop a xs)"

lemma sat_add_framed: "sat_add (min s usize_max) (framed_len l) = min (s + (EVENT_LEN_PREFIX + l)) usize_max"
  by (simp add: sat_add_def framed_len_def)

lemma framed_sum_simps [simp]:
  "framed_sum [] = 0" "framed_sum (l # ls) = EVENT_LEN_PREFIX + l + framed_sum ls"
  "framed_sum (xs @ ys) = framed_sum xs + framed_sum ys"
  by (simp_all add: framed_sum_def)

lemma slice_snoc:
  "b \<le> length xs \<Longrightarrow> slice (xs @ [x]) a b = slice xs a b"
  "a \<le> length xs \<Longrightarrow> slice (xs @ [x]) a (Suc (length xs)) = slice xs a (length xs) @ [x]"
  by (simp_all add: slice_def Suc_diff_le)

definition range_ok :: "nat \<Rightarrow> nat \<Rightarrow> nat list \<Rightarrow> nat \<times> nat \<Rightarrow> bool" where
  "range_ok most data_max lens r \<longleftrightarrow> (case r of (a, b) \<Rightarrow> a < b \<and> b - a \<le> most \<and>
     (b - a = 1 \<or> framed_sum (slice lens a b) \<le> data_max))"

definition cut_inv :: "nat \<Rightarrow> nat \<Rightarrow> nat list \<Rightarrow> cut \<Rightarrow> bool" where
  "cut_inv most data_max lens c \<longleftrightarrow>
     concat (map (\<lambda>(a, b). [a..<b]) (ranges c)) = [0..<cut_start c] \<and>
     cut_start c + cut_count c = length lens \<and> (lens \<noteq> [] \<longrightarrow> 0 < cut_count c) \<and>
     (\<forall>r \<in> set (ranges c). snd r \<le> cut_start c \<and> range_ok most data_max lens r) \<and>
     cut_count c \<le> most \<and> cut_len c = min (framed_sum (slice lens (cut_start c) (length lens))) usize_max \<and>
     (cut_count c \<le> 1 \<or> cut_len c \<le> data_max)"

lemma cut_step_inv:
  assumes "cut_inv most data_max lens c" and "0 < most" and "data_max < usize_max"
  shows "cut_inv most data_max (lens @ [l]) (cut_step most data_max (length lens, l) c)"
proof -
  let ?new = "cut_count c \<ge> most \<or> cut_count c > 0 \<and> sat_add (cut_len c) (framed_len l) > data_max"
  have c: "cut_start c + cut_count c = length lens" "cut_count c \<le> most" using assms(1) by (auto simp: cut_inv_def)
  have old: "snd r \<le> cut_start c \<and> range_ok most data_max (lens @ [l]) r" if "r \<in> set (ranges c)" for r
  proof -
    have "snd r \<le> length lens" using assms(1) that by (fastforce simp: cut_inv_def)
    then show ?thesis using assms(1) that by (auto simp: cut_inv_def range_ok_def slice_snoc(1))
  qed
  have len: "sat_add (cut_len c) (framed_len l) = min (framed_sum (slice (lens @ [l]) (cut_start c) (Suc (length lens)))) usize_max"
    using assms(1) c(1) slice_snoc(2) [of "cut_start c" lens l] by (simp add: cut_inv_def sat_add_framed)
  show ?thesis
  proof (cases ?new)
    case True
    then have pos: "0 < cut_count c" using assms(2) by auto
    have "range_ok most data_max (lens @ [l]) (cut_start c, length lens)"
      using assms(1,3) pos c by (auto simp: cut_inv_def range_ok_def slice_snoc(1) min_def split: if_splits)
    moreover have "[0..<cut_start c] @ [cut_start c..<length lens] = [0..<length lens]"
      using c(1) upt_add_eq_append [of 0 "cut_start c" "cut_count c"] by simp
    ultimately show ?thesis using True old assms(1,2) pos c sat_add_framed [of 0 l] slice_snoc(2) [of "length lens" lens l]
      by (fastforce simp: cut_inv_def cut_step_def Let_def slice_def)
  next
    case False
    then show ?thesis using old assms(1,2) c len by (auto simp: cut_inv_def cut_step_def Let_def)
  qed
qed


lemma cut_fold_inv:
  assumes "0 < most" and "data_max < usize_max"
  shows "cut_inv most data_max lens (fold (cut_step most data_max) (List.enumerate 0 lens)
    \<lparr> ranges = [], cut_start = 0, cut_count = 0, cut_len = 0 \<rparr>)"
proof (induction lens rule: rev_induct)
  case Nil
  then show ?case by (simp add: cut_inv_def slice_def)
next
  case (snoc l lens)
  then show ?case using cut_step_inv [OF snoc assms] by (simp add: enumerate_append_eq)
qed

section \<open>What a window admits\<close>

definition admit_step :: "nat \<Rightarrow> bool list \<times> window_budget \<Rightarrow> bool list \<times> window_budget" where
  "admit_step l s = (case try_admit (snd s) l of (joined, w) \<Rightarrow> (fst s @ [joined], w))"

definition admit_all :: "window_budget \<Rightarrow> nat list \<Rightarrow> bool list \<times> window_budget" where
  "admit_all w lens = fold admit_step lens ([], w)"

text \<open>After the events \<open>lens\<close>, the first \<open>k\<close> have joined.\<close>

definition window_inv :: "nat \<Rightarrow> nat \<Rightarrow> nat list \<Rightarrow> nat \<Rightarrow> bool list \<times> window_budget \<Rightarrow> bool" where
  "window_inv cm bm lens k s \<longleftrightarrow>
     k \<le> length lens \<and> fst s = replicate k True @ replicate (length lens - k) False \<and>
     count_max (snd s) = cm \<and> bytes_max (snd s) = bm \<and> budget_count (snd s) = k \<and>
     budget_bytes (snd s) = min (framed_sum (take k lens)) usize_max \<and> (is_closed (snd s) \<longleftrightarrow> k < length lens) \<and>
     k \<le> cm \<and> (k \<le> 1 \<or> framed_sum (take k lens) \<le> bm) \<and>
     (k < length lens \<longrightarrow> k = cm \<or> 0 < k \<and> bm < framed_sum (take (Suc k) lens))"

lemma replicate_snoc: "replicate (n - k) x @ [x] = replicate (Suc n - k) x" if "k \<le> n"
  using that by (simp add: Suc_diff_le replicate_append_same)

lemma admit_step_inv:
  assumes "window_inv cm bm lens k s" and "cm \<le> usize_max" and "bm < usize_max"
  shows "\<exists>k'. window_inv cm bm (lens @ [l]) k' (admit_step l s)"
proof (cases "k < length lens")
  case True
  then have "admit_step l s = (fst s @ [False], (snd s) \<lparr> is_closed := True \<rparr>)"
    using assms(1) by (simp add: window_inv_def admit_step_def try_admit_def Let_def)
  then have "window_inv cm bm (lens @ [l]) k (admit_step l s)"
    using assms(1) True replicate_snoc [of k "length lens" False] by (auto simp: window_inv_def)
  then show ?thesis by blast
next
  case False
  then have k: "k = length lens" using assms(1) by (simp add: window_inv_def)
  have bytes: "sat_add (budget_bytes (snd s)) (framed_len l) = min (framed_sum (lens @ [l])) usize_max"
    using assms(1) k by (simp add: window_inv_def sat_add_framed)
  show ?thesis
  proof (cases "0 < k \<and> sat_add (budget_bytes (snd s)) (framed_len l) > bm \<or> k = cm")
    case True
    then have "admit_step l s = (fst s @ [False], (snd s) \<lparr> is_closed := True \<rparr>)"
      using assms(1) by (auto simp: window_inv_def admit_step_def try_admit_def is_count_full_def Let_def)
    then have "window_inv cm bm (lens @ [l]) k (admit_step l s)"
      using assms(1,3) True k bytes by (auto simp: window_inv_def)
    then show ?thesis by blast
  next
    case False
    then have "admit_step l s = (fst s @ [True], (snd s) \<lparr> budget_bytes := min (framed_sum (lens @ [l])) usize_max,
        budget_count := Suc k \<rparr>)"
      using assms(1,2) k bytes by (auto simp: window_inv_def admit_step_def try_admit_def is_count_full_def Let_def sat_add_def)
    then have "window_inv cm bm (lens @ [l]) (Suc k) (admit_step l s)"
      using assms False k bytes by (auto simp: window_inv_def replicate_append_same)
    then show ?thesis by blast
  qed
qed

lemma admit_all_inv:
  assumes "cm \<le> usize_max" and "bm < usize_max"
  shows "\<exists>k. window_inv cm bm lens k (admit_all (budget_new cm bm) lens)"
proof (induction lens rule: rev_induct)
  case Nil
  then show ?case by (simp add: window_inv_def admit_all_def budget_new_def)
next
  case (snoc l lens)
  then obtain k where "window_inv cm bm lens k (admit_all (budget_new cm bm) lens)" ..
  from admit_step_inv [OF this assms] show ?case by (simp add: admit_all_def)
qed

section \<open>Properties\<close>

text \<open>C27: splitting a data section is the inverse of prefixing events: it yields a list of events exactly when the section is
  the prefixed form of that list.\<close>

theorem split_length_prefixed_iff:
  "split_length_prefixed data = Inr events \<longleftrightarrow> length_prefixed events = Inr data"
  using split_from_prefixed [of events data "[]"] prefixed_split_from [of data 0 events]
  by (auto simp: split_length_prefixed_def)

text \<open>C28: the cut of a run of events into packs covers every event exactly once and in order, and every pack is not empty, holds
  at most \<open>count_max\<close> events (at least one is allowed), and stays within \<open>data_max\<close> bytes unless it holds a single event.\<close>

theorem list_pack_ranges_spec:
  assumes "data_max < usize_max"
  shows "concat (map (\<lambda>(a, b). [a..<b]) (list_pack_ranges lens cm data_max)) = [0..<length lens] \<and>
    (\<forall>(a, b) \<in> set (list_pack_ranges lens cm data_max).
       a < b \<and> b - a \<le> max cm 1 \<and> (b - a = 1 \<or> framed_sum (slice lens a b) \<le> data_max))"
proof -
  define c where "c = fold (cut_step (max cm 1) data_max) (List.enumerate 0 lens)
    \<lparr> ranges = [], cut_start = 0, cut_count = 0, cut_len = 0 \<rparr>"
  have inv: "cut_inv (max cm 1) data_max lens c" unfolding c_def by (rule cut_fold_inv) (use assms in auto)
  have out: "list_pack_ranges lens cm data_max =
      (if cut_count c > 0 then ranges c @ [(cut_start c, cut_start c + cut_count c)] else ranges c)"
    by (simp add: list_pack_ranges_def c_def Let_def)
  have "[0..<cut_start c] @ [cut_start c..<length lens] = [0..<length lens]"
    using inv upt_add_eq_append [of 0 "cut_start c" "cut_count c"] by (auto simp: cut_inv_def)
  moreover have "range_ok (max cm 1) data_max lens (cut_start c, length lens)" if "0 < cut_count c"
    using inv that assms by (auto simp: cut_inv_def range_ok_def min_def split: if_splits)
  ultimately show ?thesis using inv unfolding out
    by (auto simp: cut_inv_def range_ok_def)
qed

theorem list_pack_ranges_spec_witness:
  "list_pack_ranges [7, 4096, 9, 9, 9] 2 4000 = [(0, 1), (1, 2), (2, 4), (4, 5)] \<and>
   framed_sum (slice [7, 4096, 9, 9, 9] 2 4) \<le> 4000"
proof -
  have run: "list_pack_ranges [7, 4096, 9, 9, 9] 2 4000 = [(0, 1), (1, 2), (2, 4), (4, 5)]"
    by (simp add: list_pack_ranges_def cut_step_def framed_len_def sat_add_def usize_max_def EVENT_LEN_PREFIX_def)
  have "(4000 :: nat) < usize_max" by (simp add: usize_max_def)
  from list_pack_ranges_spec [OF this, of "[7, 4096, 9, 9, 9]" 2] run show ?thesis by auto
qed

text \<open>A window admits a prefix of the events and nothing behind it: at most \<open>count_max\<close> of them, within \<open>bytes_max\<close> bytes
  unless it is a single one, no fewer than fit, and at least one if any is asked for; and it reports that it was cut
  short exactly when it was asked for some events and either refused one or is full.\<close>

lemma window_admits_prefix:
  assumes "cm \<le> usize_max" and "bm < usize_max" and "admit_all (budget_new cm bm) lens = (joined, w)"
  shows "\<exists>k \<le> length lens. joined = replicate k True @ replicate (length lens - k) False \<and>
    k \<le> cm \<and> (k \<le> 1 \<or> framed_sum (take k lens) \<le> bm) \<and>
    (k < length lens \<longrightarrow> k = cm \<or> 0 < k \<and> bm < framed_sum (take (Suc k) lens)) \<and>
    (is_cut_short w \<longleftrightarrow> 0 < cm \<and> (k < length lens \<or> k = cm))"
proof -
  obtain k where "window_inv cm bm lens k (joined, w)" using admit_all_inv [OF assms(1,2), of lens] assms(3) by auto
  then show ?thesis by (intro exI [of _ k]) (auto simp: window_inv_def is_cut_short_def is_count_full_def)
qed

end
