(* ===== verification/Two_Phase_Counter.thy ===== *)
theory Two_Phase_Counter
  imports Ordered
begin

text \<open>
  The counter that hands out sequence numbers and tells readers up to which number every write is visible:
  \<^verbatim>\<open>src/core/utils/two_phase_counter.rs\<close>. A \<^verbatim>\<open>u64\<close> is a natural number up to \<open>usize_max\<close>, which is the same bound. The
  callback \<^verbatim>\<open>commit\<close> is a parameter that says which numbers it persists; the calls of \<^verbatim>\<open>release\<close>, whose result is only
  logged, are kept in a history. The lock makes \<^verbatim>\<open>next\<close> and the drop of a permit steps of one state machine; the
  poisoned lock is ignored by the code, and debug assertions are left out.
\<close>

section \<open>The counter\<close>

record counter =
  dispatched :: nat
  pending :: "nat list"
  releases :: "nat list"

record permit =
  permit_retired :: nat
  permit_id :: nat

datatype 'e counter_error = Overflow | CommitFailed 'e

definition counter_new :: "nat \<Rightarrow> counter" where
  "counter_new init = \<lparr> dispatched = init, pending = [], releases = [] \<rparr>"

definition retired :: "counter \<Rightarrow> nat" where
  "retired c = (case pending c of [] \<Rightarrow> dispatched c | val # _ \<Rightarrow> val - 1)"

definition pending_index :: "counter \<Rightarrow> nat \<Rightarrow> nat option" where
  "pending_index c i = (case binary_search (pending c) i of Inr index \<Rightarrow> Some index | Inl _ \<Rightarrow> None)"

definition state_dispatch :: "(nat \<Rightarrow> 'e + unit) \<Rightarrow> counter \<Rightarrow> ('e counter_error + nat \<times> nat) \<times> counter" where
  "state_dispatch commit c =
     (case checked_add (dispatched c) 1 of
        None \<Rightarrow> (Inl Overflow, c)
      | Some n \<Rightarrow> (case commit n of
          Inl e \<Rightarrow> (Inl (CommitFailed e), c)
        | Inr _ \<Rightarrow> (Inr (retired c, n), c \<lparr> pending := pending c @ [n], dispatched := n \<rparr>)))"

text \<open>\<^verbatim>\<open>VecDeque::remove\<close>\<close>

definition remove_at :: "nat \<Rightarrow> 'a list \<Rightarrow> 'a list" where
  "remove_at k xs = take k xs @ drop (Suc k) xs"

definition retire :: "nat \<Rightarrow> counter \<Rightarrow> counter" where
  "retire i c = (case pending_index c i of
     None \<Rightarrow> c
   | Some index \<Rightarrow>
       let c' = c \<lparr> pending := remove_at index (pending c) \<rparr>
       in if index \<noteq> 0 then c'
          else c' \<lparr> releases := releases c' @ [if pending c' = [] then dispatched c' else i] \<rparr>)"

definition next_permit :: "(nat \<Rightarrow> 'e + unit) \<Rightarrow> counter \<Rightarrow> ('e counter_error + permit) \<times> counter" where
  "next_permit commit c = (case state_dispatch commit c of
     (r, c') \<Rightarrow> (rmap (\<lambda>(ret, n). \<lparr> permit_retired = ret, permit_id = n \<rparr>) r, c'))"

definition drop_permit :: "permit \<Rightarrow> counter \<Rightarrow> counter" where
  "drop_permit p c = retire (permit_id p) c"

definition current :: "counter \<Rightarrow> nat" where
  "current c = retired c"

definition counter_range :: "counter \<Rightarrow> nat \<times> nat" where
  "counter_range c = (retired c, dispatched c)"

section \<open>Runs\<close>

text \<open>
  The counter with the permits that are held. Any holder may drop its permit at any time, and a permit can be drawn at
  any time; drawing fails at the end of the number range or when \<^verbatim>\<open>commit\<close> does.
\<close>

record system =
  counter_of :: counter
  held :: "permit list"

inductive counter_step :: "(nat \<Rightarrow> 'e + unit) \<Rightarrow> system \<Rightarrow> system \<Rightarrow> bool" for commit where
  draw: "next_permit commit (counter_of s) = (Inr p, c') \<Longrightarrow>
    counter_step commit s \<lparr> counter_of = c', held = held s @ [p] \<rparr>"
| draw_fails: "next_permit commit (counter_of s) = (Inl e, c') \<Longrightarrow>
    counter_step commit s \<lparr> counter_of = c', held = held s \<rparr>"
| drops: "p \<in> set (held s) \<Longrightarrow>
    counter_step commit s \<lparr> counter_of = drop_permit p (counter_of s), held = remove1 p (held s) \<rparr>"

definition system_new :: "nat \<Rightarrow> system" where
  "system_new init = \<lparr> counter_of = counter_new init, held = [] \<rparr>"

inductive_cases counter_stepE: "counter_step commit s s'"

section \<open>The invariant\<close>

definition check_pending :: "counter \<Rightarrow> nat \<Rightarrow> bool" where
  "check_pending c i \<longleftrightarrow> list_ex ((=) i) (pending c)"

definition counter_ok :: "nat \<Rightarrow> counter \<Rightarrow> bool" where
  "counter_ok start c \<longleftrightarrow>
     sorted_wrt (<) (pending c) \<and> start \<le> dispatched c \<and> dispatched c \<le> usize_max \<and>
     (\<forall>n \<in> set (pending c). start < n \<and> n \<le> dispatched c) \<and>
     (\<forall>r \<in> set (releases c). r \<le> retired c)"

definition system_ok :: "nat \<Rightarrow> system \<Rightarrow> bool" where
  "system_ok start s \<longleftrightarrow>
     counter_ok start (counter_of s) \<and> distinct (map permit_id (held s)) \<and>
     set (pending (counter_of s)) = permit_id ` set (held s)"

lemma remove_at_distinct: "distinct xs \<Longrightarrow> k < length xs \<Longrightarrow> remove_at k xs = remove1 (xs ! k) xs"
proof (induction xs arbitrary: k)
  case (Cons x xs)
  then show ?case by (cases k) (auto simp: remove_at_def)
qed simp

lemma pending_index_iff:
  assumes "sorted_wrt (<) (pending c)"
  shows "pending_index c i = Some k \<longleftrightarrow> k < length (pending c) \<and> pending c ! k = i"
proof -
  have "sorted (pending c)" "distinct (pending c)"
    using assms strict_sorted_iff by blast+
  then show ?thesis
    using binary_search_Inr_iff [of "pending c" i k]
    by (auto simp: pending_index_def split: sum.splits)
qed

lemma pending_index_None:
  "sorted_wrt (<) (pending c) \<Longrightarrow> pending_index c i = None \<longleftrightarrow> i \<notin> set (pending c)"
  using pending_index_iff [of c i] by (metis in_set_conv_nth not_Some_eq)

text \<open>What \<^const>\<open>retire\<close> comes to: the number leaves the list, and the oldest one is announced.\<close>

lemma retire_eq:
  assumes "sorted_wrt (<) (pending c)"
  shows "retire i c = c \<lparr> pending := remove1 i (pending c),
    releases := releases c @ (if pending c \<noteq> [] \<and> hd (pending c) = i
      then [if tl (pending c) = [] then dispatched c else i] else []) \<rparr>"
proof (cases "pending_index c i")
  case None
  then have "i \<notin> set (pending c)" using pending_index_None [OF assms] by blast
  then show ?thesis using None by (auto simp: retire_def remove1_idem)
next
  case (Some k)
  then have k: "k < length (pending c)" "pending c ! k = i" using pending_index_iff [OF assms] by auto
  have d: "distinct (pending c)" using assms strict_sorted_iff by blast
  have r: "remove_at k (pending c) = remove1 i (pending c)" using remove_at_distinct [OF d k(1)] k(2) by simp
  have ne: "pending c \<noteq> []" using k by auto
  have hd: "hd (pending c) = i \<longleftrightarrow> k = 0"
    using k d ne nth_eq_iff_index_eq [of "pending c" k 0] by (auto simp: hd_conv_nth)
  have "k = 0 \<Longrightarrow> remove1 i (pending c) = tl (pending c)"
    using hd ne by (cases "pending c") auto
  then show ?thesis using Some r hd ne by (auto simp: retire_def)
qed

lemma retire_fields:
  assumes "sorted_wrt (<) (pending c)"
  shows "pending (retire i c) = remove1 i (pending c)" and "dispatched (retire i c) = dispatched c"
  by (simp_all add: retire_eq [OF assms])

lemma sorted_remove1: "sorted_wrt (<) xs \<Longrightarrow> sorted_wrt (<) (remove1 x (xs :: nat list))"
  by (induction xs) (auto dest: notin_set_remove1 [rotated] set_mp [OF set_remove1_subset])

lemma retire_retired_mono:
  assumes "counter_ok start c"
  shows "retired c \<le> retired (retire i c)"
proof (cases "pending c")
  case Nil
  then show ?thesis using assms by (simp add: retire_eq counter_ok_def retired_def)
next
  case (Cons x xs)
  then have "\<forall>y \<in> set xs. x < y" "x \<le> dispatched c" "sorted_wrt (<) (pending c)"
    using assms by (auto simp: counter_ok_def)
  then show ?thesis using Cons
    by (cases xs) (auto simp: retire_eq retired_def)
qed

lemma retire_ok:
  assumes ok: "counter_ok start c"
  shows "counter_ok start (retire i c)"
proof -
  have s: "sorted_wrt (<) (pending c)" using ok by (simp add: counter_ok_def)
  have old: "\<forall>r \<in> set (releases c). r \<le> retired (retire i c)"
    using ok retire_retired_mono [OF ok, of i] by (auto simp: counter_ok_def)
  have new: "(if tl (pending c) = [] then dispatched c else i) \<le> retired (retire i c)"
    if first: "pending c \<noteq> []" "hd (pending c) = i"
  proof -
    obtain xs where "pending c = i # xs" using first by (cases "pending c") auto
    then show ?thesis using s by (cases xs) (auto simp: retire_eq [OF s] retired_def)
  qed
  have "\<forall>r \<in> set (releases (retire i c)). r \<le> retired (retire i c)"
    using old new by (auto simp: retire_eq [OF s])
  then show ?thesis
    using ok sorted_remove1 [OF s] notin_set_remove1 [of _ "pending c" i]
    by (auto simp: counter_ok_def retire_fields [OF s])
qed

lemma dispatch_Inr:
  assumes "state_dispatch commit c = (Inr (r, n), c')"
  shows "n = dispatched c + 1" "n \<le> usize_max" "r = retired c" "is_ok (commit n)"
    "c' = c \<lparr> pending := pending c @ [n], dispatched := n \<rparr>"
  using assms by (auto simp: state_dispatch_def checked_add_def split: option.splits sum.splits if_splits)

lemma dispatch_Inl: "state_dispatch commit c = (Inl e, c') \<Longrightarrow> c' = c"
  by (auto simp: state_dispatch_def split: option.splits sum.splits)

lemma dispatch_retired:
  assumes "counter_ok start c" "state_dispatch commit c = (Inr (r, n), c')"
  shows "retired c' = retired c"
  using dispatch_Inr [OF assms(2)] by (cases "pending c") (auto simp: retired_def)

lemma dispatch_ok:
  assumes "counter_ok start c" "state_dispatch commit c = (Inr (r, n), c')"
  shows "counter_ok start c'"
  using assms(1) dispatch_Inr [OF assms(2)] dispatch_retired [OF assms]
  by (auto simp: counter_ok_def sorted_wrt_append)

lemma next_permit_Inr:
  "next_permit commit c = (Inr p, c') \<longleftrightarrow> state_dispatch commit c = (Inr (permit_retired p, permit_id p), c')"
  by (cases p) (auto simp: next_permit_def rmap_def split: prod.splits sum.splits)

lemma next_permit_Inl:
  "next_permit commit c = (Inl e, c') \<longleftrightarrow> state_dispatch commit c = (Inl e, c')"
  by (auto simp: next_permit_def rmap_def split: prod.splits sum.splits)

lemma system_new_ok: "start \<le> usize_max \<Longrightarrow> system_ok start (system_new start)"
  by (simp add: system_ok_def counter_ok_def system_new_def counter_new_def)

lemma remove1_held:
  "distinct (map permit_id ps) \<Longrightarrow> p \<in> set ps \<Longrightarrow>
   permit_id ` set (remove1 p ps) = permit_id ` set ps - {permit_id p}"
  by (induction ps) (auto simp: image_iff)

lemma system_step_ok:
  assumes "counter_step commit s s'" and ok: "system_ok start s"
  shows "system_ok start s'"
  using assms(1)
proof cases
  case (draw p c')
  note d = draw(2) [unfolded next_permit_Inr]
  have "permit_id p \<notin> set (pending (counter_of s))"
    using ok dispatch_Inr(1) [OF d] by (fastforce simp: system_ok_def counter_ok_def)
  then show ?thesis
    using ok draw(1) dispatch_ok [OF _ d, of start] dispatch_Inr [OF d]
    by (auto simp: system_ok_def)
next
  case (draw_fails e c')
  then have "c' = counter_of s" using dispatch_Inl [of commit "counter_of s" e c'] by (simp add: next_permit_Inl)
  then show ?thesis using ok draw_fails(1) by (simp add: system_ok_def)
next
  case (drops p)
  have s: "sorted_wrt (<) (pending (counter_of s))" and d: "distinct (pending (counter_of s))"
    using ok strict_sorted_iff by (auto simp: system_ok_def counter_ok_def)
  have "distinct (map permit_id (remove1 p (held s)))"
    using ok by (auto simp: system_ok_def distinct_map intro: inj_on_subset)
  then show ?thesis
    using ok drops retire_ok remove1_held [of "held s" p]
    by (auto simp: system_ok_def drop_permit_def retire_fields [OF s] set_remove1_eq [OF d])
qed

lemma system_reachable_ok:
  assumes "(counter_step commit)\<^sup>*\<^sup>* s s'" and "system_ok start s"
  shows "system_ok start s'"
  using assms by (induction rule: rtranclp_induct) (auto intro: system_step_ok)

lemma system_step_mono:
  assumes "counter_step commit s s'" and ok: "system_ok start s"
  shows "retired (counter_of s) \<le> retired (counter_of s')"
  using assms(1)
proof cases
  case (draw p c')
  then show ?thesis
    using ok dispatch_retired [of start "counter_of s"] by (fastforce simp: next_permit_Inr system_ok_def)
next
  case (draw_fails e c')
  then show ?thesis using dispatch_Inl [of commit "counter_of s" e c'] by (simp add: next_permit_Inl)
next
  case (drops p)
  then show ?thesis using ok retire_retired_mono by (auto simp: drop_permit_def system_ok_def)
qed

lemma system_reachable_mono:
  assumes "(counter_step commit)\<^sup>*\<^sup>* s s'" and "system_ok start s"
  shows "retired (counter_of s) \<le> retired (counter_of s')"
  using assms
proof (induction rule: rtranclp_induct)
  case (step y z)
  then show ?case using system_step_mono system_reachable_ok by (meson order_trans)
qed simp

lemma retired_below_pending:
  assumes "counter_ok start c" "n \<le> retired c"
  shows "n \<notin> set (pending c)"
  using assms by (cases "pending c") (auto simp: counter_ok_def retired_def)

lemma retired_between: "counter_ok start c \<Longrightarrow> start \<le> retired c \<and> retired c \<le> dispatched c"
  by (cases "pending c") (auto simp: counter_ok_def retired_def)

lemma retired_next_pending:
  assumes "counter_ok start c" "retired c < dispatched c"
  shows "retired c + 1 \<in> set (pending c)"
  using assms by (cases "pending c") (auto simp: counter_ok_def retired_def)

lemma fold_drop_permit:
  assumes "counter_ok start c" "distinct (map permit_id ps)" "set (pending c) = permit_id ` set ps"
  shows "pending (fold drop_permit ps c) = [] \<and> dispatched (fold drop_permit ps c) = dispatched c \<and>
    (ps \<noteq> [] \<longrightarrow> last (releases (fold drop_permit ps c)) = dispatched c)"
  using assms
proof (induction ps arbitrary: c)
  case (Cons p ps)
  let ?c = "retire (permit_id p) c"
  have s: "sorted_wrt (<) (pending c)" using Cons.prems(1) by (simp add: counter_ok_def)
  have d: "distinct (pending c)" using s strict_sorted_iff by blast
  have "set (pending ?c) = permit_id ` set ps"
    using Cons.prems by (auto simp: retire_fields [OF s] set_remove1_eq [OF d])
  then have IH: "pending (fold drop_permit ps ?c) = [] \<and> dispatched (fold drop_permit ps ?c) = dispatched ?c \<and>
      (ps \<noteq> [] \<longrightarrow> last (releases (fold drop_permit ps ?c)) = dispatched ?c)"
    using Cons.IH [OF retire_ok [OF Cons.prems(1)]] Cons.prems(2) by simp
  have "pending c = [permit_id p]" if "ps = []"
    using Cons.prems(3) d that by (cases "pending c") (auto simp: subset_singleton_iff)
  then have "last (releases ?c) = dispatched c" if "ps = []" using that by (simp add: retire_eq [OF s])
  moreover have "drop_permit p c = ?c" by (simp add: drop_permit_def)
  ultimately show ?case using IH by (cases "ps = []") (simp_all add: retire_fields [OF s])
qed simp

text \<open>
  The assertions of debug builds hold in every state a run reaches: the pending list is sorted, the number drawn next is
  not pending, and a dropped permit's number is pending and is the one removed.
\<close>

lemma debug_assertions_hold:
  assumes "start \<le> usize_max" and "(counter_step commit)\<^sup>*\<^sup>* (system_new start) s"
  shows "sorted (pending (counter_of s))" and "\<not> check_pending (counter_of s) (dispatched (counter_of s) + 1)"
    and "p \<in> set (held s) \<Longrightarrow> check_pending (counter_of s) (permit_id p) \<and>
      (\<exists>k. pending_index (counter_of s) (permit_id p) = Some k \<and> pending (counter_of s) ! k = permit_id p)"
proof -
  have ok: "system_ok start s" using system_reachable_ok assms system_new_ok by blast
  then have s: "sorted_wrt (<) (pending (counter_of s))" by (simp add: system_ok_def counter_ok_def)
  then show "sorted (pending (counter_of s))" using strict_sorted_iff by blast
  show "\<not> check_pending (counter_of s) (dispatched (counter_of s) + 1)"
    using ok by (fastforce simp: system_ok_def counter_ok_def check_pending_def list_ex_iff)
  show "check_pending (counter_of s) (permit_id p) \<and>
      (\<exists>k. pending_index (counter_of s) (permit_id p) = Some k \<and> pending (counter_of s) ! k = permit_id p)"
    if "p \<in> set (held s)"
  proof -
    have "permit_id p \<in> set (pending (counter_of s))" using ok that by (simp add: system_ok_def)
    then show ?thesis
      by (auto simp: pending_index_iff [OF s] check_pending_def list_ex_iff in_set_conv_nth)
  qed
qed

text \<open>A draw fails exactly at the end of the numbers or when the number cannot be persisted; nothing has changed then.\<close>

lemma dispatch_fails_iff:
  "is_ok (fst (state_dispatch commit c)) \<longleftrightarrow> dispatched c < usize_max \<and> is_ok (commit (dispatched c + 1))"
  "\<not> is_ok (fst (state_dispatch commit c)) \<Longrightarrow> snd (state_dispatch commit c) = c"
  by (auto simp: state_dispatch_def checked_add_def split: option.splits sum.splits)

text \<open>A run: three permits are drawn, and the second one is dropped.\<close>

definition persists :: "nat \<Rightarrow> unit + unit" where
  "persists n = Inr ()"

definition three_drawn :: counter where
  "three_drawn = ((\<lambda>c. snd (state_dispatch persists c)) ^^ 3) (counter_new 0)"

definition sample_permit :: "nat \<Rightarrow> permit" where
  "sample_permit n = \<lparr> permit_retired = 0, permit_id = n \<rparr>"

definition sample_system :: system where
  "sample_system = \<lparr> counter_of = retire 2 three_drawn, held = [sample_permit 1, sample_permit 3] \<rparr>"

lemma draw_sample: "n < usize_max \<Longrightarrow> ns = [1..<n + 1] \<Longrightarrow>
  next_permit persists \<lparr> dispatched = n, pending = ns, releases = [] \<rparr> =
    (Inr (sample_permit (n + 1)), \<lparr> dispatched = n + 1, pending = ns @ [n + 1], releases = [] \<rparr>)"
  by (cases "n = 0") (simp_all add: next_permit_def state_dispatch_def checked_add_def persists_def sample_permit_def
      retired_def upt_conv_Cons rmap_def del: upt_Suc)

lemma three_drawn_eq: "three_drawn = \<lparr> dispatched = 3, pending = [1, 2, 3], releases = [] \<rparr>"
  by (simp add: three_drawn_def numeral_3_eq_3 counter_new_def state_dispatch_def checked_add_def persists_def usize_max_def)

lemma sample_reached: "(counter_step persists)\<^sup>*\<^sup>* (system_new 0) sample_system"
proof -
  let ?c = "\<lambda>n ns. \<lparr> dispatched = n, pending = ns, releases = [] \<rparr>"
  have big: "2 < usize_max" by (simp add: usize_max_def)
  have h1: "counter_step persists (system_new 0) \<lparr> counter_of = ?c 1 [1], held = [sample_permit 1] \<rparr>"
    using draw [of persists "system_new 0"] draw_sample [of 0 "[]"] big by (simp add: system_new_def counter_new_def)
  have h2: "counter_step persists \<lparr> counter_of = ?c 1 [1], held = [sample_permit 1] \<rparr>
      \<lparr> counter_of = ?c 2 [1, 2], held = [sample_permit 1, sample_permit 2] \<rparr>"
    using draw [of persists "\<lparr> counter_of = ?c 1 [1], held = [sample_permit 1] \<rparr>"] draw_sample [of 1 "[1]"] big
    by (simp add: numeral_2_eq_2)
  have h3: "counter_step persists \<lparr> counter_of = ?c 2 [1, 2], held = [sample_permit 1, sample_permit 2] \<rparr>
      \<lparr> counter_of = ?c 3 [1, 2, 3], held = [sample_permit 1, sample_permit 2, sample_permit 3] \<rparr>"
    using draw [of persists "\<lparr> counter_of = ?c 2 [1, 2], held = [sample_permit 1, sample_permit 2] \<rparr>"]
      draw_sample [of 2 "[1, 2]"] big by (simp add: upt_rec)
  have h4: "counter_step persists
      \<lparr> counter_of = ?c 3 [1, 2, 3], held = [sample_permit 1, sample_permit 2, sample_permit 3] \<rparr> sample_system"
    using drops [of "sample_permit 2" "\<lparr> counter_of = ?c 3 [1, 2, 3], held = [sample_permit 1, sample_permit 2, sample_permit 3] \<rparr>" persists]
    by (simp add: sample_system_def three_drawn_eq drop_permit_def sample_permit_def)
  show ?thesis
    by (rule rtranclp.rtrancl_into_rtrancl [OF rtranclp.rtrancl_into_rtrancl [OF rtranclp.rtrancl_into_rtrancl
          [OF r_into_rtranclp [of "counter_step persists", OF h1] h2] h3] h4])
qed

text \<open>
  The value announced is not always the frontier: when 2 is retired before 1, retiring 1 announces 1 while every write
  up to 2 is visible. The notification is late, never early (\<^const>\<open>counter_ok\<close>).
\<close>

lemma release_not_maximum:
  "releases (retire 1 (retire 2 three_drawn)) = [1] \<and> current (retire 1 (retire 2 three_drawn)) = 2"
  by (simp add: three_drawn_eq retire_eq current_def retired_def)

section \<open>Properties\<close>

text \<open>C19: The number that readers are given is a frontier. Take any run of draws, failed draws and drops from a fresh counter,
  and a later point of the same run: no permit held then has a number up to the frontier read before (so no write below
  it is still in flight or will ever be started), the frontier has not moved back, the permits held have distinct
  numbers, and the frontier is as high as it can be: it is the last number drawn, or the next number is still held.
\<close>

theorem frontier_is_final:
  assumes "start \<le> usize_max"
    and "(counter_step commit)\<^sup>*\<^sup>* (system_new start) s" and "(counter_step commit)\<^sup>*\<^sup>* s s'"
  shows "(\<forall>p \<in> set (held s'). current (counter_of s) < permit_id p) \<and>
    current (counter_of s) \<le> current (counter_of s') \<and>
    distinct (map permit_id (held s')) \<and>
    (current (counter_of s) = dispatched (counter_of s) \<or>
     (\<exists>p \<in> set (held s). permit_id p = current (counter_of s) + 1))"
proof -
  have ok: "system_ok start s" and ok': "system_ok start s'"
    using system_reachable_ok assms system_new_ok by blast+
  have mono: "retired (counter_of s) \<le> retired (counter_of s')"
    by (rule system_reachable_mono [OF assms(3) ok])
  have above: "retired (counter_of s') < permit_id p" if "p \<in> set (held s')" for p
    using ok' that retired_below_pending [of start "counter_of s'" "permit_id p"]
    by (force simp: system_ok_def)
  have "retired (counter_of s) = dispatched (counter_of s) \<or> retired (counter_of s) + 1 \<in> permit_id ` set (held s)"
    using ok retired_between [of start "counter_of s"] retired_next_pending [of start "counter_of s"]
    unfolding system_ok_def by (metis le_neq_implies_less)
  then have high: "retired (counter_of s) = dispatched (counter_of s) \<or>
      (\<exists>p \<in> set (held s). permit_id p = retired (counter_of s) + 1)" by auto
  have "\<forall>p \<in> set (held s'). retired (counter_of s) < permit_id p"
    using mono above le_less_trans by blast
  then show ?thesis
    using mono ok' high by (simp add: current_def system_ok_def)
qed

theorem frontier_is_final_witness:
  "sample_permit 1 \<in> set (held sample_system) \<and> current (counter_of sample_system) < permit_id (sample_permit 1)"
proof -
  have p: "sample_permit 1 \<in> set (held sample_system)" by (simp add: sample_system_def)
  then show ?thesis using frontier_is_final [of 0 persists sample_system sample_system] sample_reached by simp
qed

text \<open>C20: Once the permits held at some point of a run are dropped, in whatever order, the frontier is the last number drawn,
  the range of numbers in flight is empty, and the last announcement was that number (if there was a permit to drop).
\<close>

theorem frontier_catches_up:
  assumes "start \<le> usize_max"
    and "(counter_step commit)\<^sup>*\<^sup>* (system_new start) s" and "mset ps = mset (held s)"
  shows "counter_range (fold drop_permit ps (counter_of s)) = (dispatched (counter_of s), dispatched (counter_of s)) \<and>
    (ps \<noteq> [] \<longrightarrow> last (releases (fold drop_permit ps (counter_of s))) = dispatched (counter_of s))"
proof -
  have ok: "system_ok start s" using system_reachable_ok assms system_new_ok by blast
  have "set ps = set (held s)" "distinct (map permit_id ps)"
    using ok assms(3) mset_eq_setD [OF assms(3)]
    by (auto simp: system_ok_def distinct_map mset_eq_imp_distinct_iff [OF assms(3)])
  then show ?thesis
    using fold_drop_permit [of start "counter_of s" ps] ok
    by (auto simp: system_ok_def counter_range_def retired_def)
qed

theorem frontier_catches_up_witness:
  "counter_range (fold drop_permit [sample_permit 3, sample_permit 1] (counter_of sample_system)) = (3, 3)"
  using frontier_catches_up [of 0 persists sample_system "[sample_permit 3, sample_permit 1]"] sample_reached
  by (simp add: sample_system_def three_drawn_eq retire_eq)

end
