(* ===== verification/Pdu_Position.thy ===== *)
theory Pdu_Position
  imports Codec Ordered
begin

text \<open>
  Where an event stands in a room's timeline, and the scans that read it: \<^verbatim>\<open>src/core/matrix/pdu/count.rs\<close>,
  \<^verbatim>\<open>raw_id.rs\<close>, \<^verbatim>\<open>id.rs\<close> and the streams of \<^verbatim>\<open>src/service/rooms/timeline/pdus.rs\<close> with \<^verbatim>\<open>pdu_count_to_id\<close>
  of its \<^verbatim>\<open>mod.rs\<close>. The ordered key-value table is a parameter: what it streams from a key on. Reading an event out of
  its stored bytes is another. An \<^verbatim>\<open>i64\<close> is its 64 bits, read through \<open>sint\<close>. The model is of release builds: the
  assertion \<^verbatim>\<open>debug_assert_valid\<close>, which a debug build runs on the position it builds, is left out.
\<close>

section \<open>Signed integers and byte order\<close>

lemma sint_eq: "sint (w :: i64) = (if uint w < 2 ^ 63 then uint w else uint w - 2 ^ 64)"
proof -
  have u: "uint w < 2 ^ 64" "0 \<le> uint w" using uint_lt2p [of w] by simp_all
  have s: "sint w = (uint w + 2 ^ 63) mod 2 ^ 64 - 2 ^ 63"
    by (simp add: sint_uint signed_take_bit_eq_take_bit_shift take_bit_eq_mod)
  show ?thesis
  proof (cases "uint w < 2 ^ 63")
    case True
    then have "(uint w + 2 ^ 63) mod 2 ^ 64 = uint w + 2 ^ 63" using u by (intro mod_pos_pos_trivial) auto
    then show ?thesis using s True by simp
  next
    case False
    have "(uint w + 2 ^ 63) mod 2 ^ 64 = (uint w + 2 ^ 63 - 2 ^ 64) mod 2 ^ 64"
      using minus_mod_self2 [of "uint w + 2 ^ 63" "2 ^ 64"] by simp
    also have "\<dots> = uint w + 2 ^ 63 - 2 ^ 64" using u False by (intro mod_pos_pos_trivial) auto
    finally show ?thesis using s False by simp
  qed
qed

lemma uint_less_64: "uint (w :: i64) < 2 ^ 64"
  using uint_lt2p [of w] by simp

lemma uint_nat_64: "\<exists>k. uint (w :: i64) = int k \<and> k < 2 ^ 64"
  using unat_less_2p [of w] by (intro exI [of _ "unat w"]) simp

lemma uint_inc: "uint (a + 1 :: i64) = (if uint a = 2 ^ 64 - 1 then 0 else uint a + 1)"
  using uint_nat_64 [of a] by (auto simp: uint_word_ariths)

lemma uint_dec: "uint (a - 1 :: i64) = (if uint a = 0 then 2 ^ 64 - 1 else uint a - 1)"
  using uint_nat_64 [of a] by (auto simp: uint_word_ariths)

lemma sint_range: "sint (a :: i64) < 2 ^ 63" "- (2 ^ 63) \<le> sint (a :: i64)"
  using signed_take_bit_int_less_exp [of 63 "uint a"] signed_take_bit_int_greater_eq_minus_exp [of 63 "uint a"]
  by (simp_all add: sint_uint)

lemma sint_inc: "sint (a + 1 :: i64) = (if sint a = 2 ^ 63 - 1 then - (2 ^ 63) else sint a + 1)"
  using uint_nat_64 [of a] by (auto simp: sint_eq uint_inc)

lemma sint_dec: "sint (a - 1 :: i64) = (if sint a = - (2 ^ 63) then 2 ^ 63 - 1 else sint a - 1)"
  using uint_nat_64 [of a] by (auto simp: sint_eq uint_dec)

lemma lex_append_same: "p @ x < p @ y \<longleftrightarrow> x < (y :: 'a::linorder list)"
  by (induction p) auto

lemma lex_append_diff: "length p = length q \<Longrightarrow> p \<noteq> q \<Longrightarrow> p @ x < q @ y \<longleftrightarrow> p < (q :: 'a::linorder list)"
  by (induction p q rule: list_induct2) auto

lemma lex_take_mono: "x \<le> y \<Longrightarrow> take n x \<le> take n (y :: 'a::linorder list)"
proof (induction n arbitrary: x y)
  case (Suc n)
  then show ?case by (cases x; cases y) auto
qed simp
definition i64_MIN :: i64 where
  "i64_MIN = 0x8000000000000000"

definition i64_MAX :: i64 where
  "i64_MAX = 0x7FFFFFFFFFFFFFFF"

text \<open>\<^verbatim>\<open>checked_add\<close>, \<^verbatim>\<open>checked_sub\<close>, \<^verbatim>\<open>saturating_add\<close> and \<^verbatim>\<open>saturating_sub\<close> of \<^verbatim>\<open>u64\<close> and \<^verbatim>\<open>i64\<close>\<close>

definition u64_checked_add :: "u64 \<Rightarrow> u64 \<Rightarrow> u64 option" where
  "u64_checked_add a b = (if unat a + unat b < 2 ^ 64 then Some (a + b) else None)"

definition u64_checked_sub :: "u64 \<Rightarrow> u64 \<Rightarrow> u64 option" where
  "u64_checked_sub a b = (if b \<le> a then Some (a - b) else None)"

definition i64_checked_add :: "i64 \<Rightarrow> i64 \<Rightarrow> i64 option" where
  "i64_checked_add a b = (if - (2 ^ 63) \<le> sint a + sint b \<and> sint a + sint b < 2 ^ 63 then Some (a + b) else None)"

definition i64_checked_sub :: "i64 \<Rightarrow> i64 \<Rightarrow> i64 option" where
  "i64_checked_sub a b = (if - (2 ^ 63) \<le> sint a - sint b \<and> sint a - sint b < 2 ^ 63 then Some (a - b) else None)"

definition u64_saturating_add :: "u64 \<Rightarrow> u64 \<Rightarrow> u64" where
  "u64_saturating_add a b = (case u64_checked_add a b of Some c \<Rightarrow> c | None \<Rightarrow> - 1)"

definition u64_saturating_sub :: "u64 \<Rightarrow> u64 \<Rightarrow> u64" where
  "u64_saturating_sub a b = (case u64_checked_sub a b of Some c \<Rightarrow> c | None \<Rightarrow> 0)"

definition i64_saturating_add :: "i64 \<Rightarrow> i64 \<Rightarrow> i64" where
  "i64_saturating_add a b = (case i64_checked_add a b of
     Some c \<Rightarrow> c | None \<Rightarrow> if 0 \<le> sint b then i64_MAX else i64_MIN)"

definition i64_saturating_sub :: "i64 \<Rightarrow> i64 \<Rightarrow> i64" where
  "i64_saturating_sub a b = (case i64_checked_sub a b of
     Some c \<Rightarrow> c | None \<Rightarrow> if 0 \<le> sint b then i64_MIN else i64_MAX)"

section \<open>Counts\<close>

datatype direction = Forward | Backward

datatype pdu_count = Normal u64 | Backfilled i64

datatype count_error = NormalOverflow | BackfilledOverflow | NormalUnderflow | BackfilledUnderflow

definition from_signed :: "i64 \<Rightarrow> pdu_count" where
  "from_signed n = (if sint n \<le> 0 then Backfilled n else Normal n)"

definition from_unsigned :: "u64 \<Rightarrow> pdu_count" where
  "from_unsigned n = from_signed n"

fun into_unsigned :: "pdu_count \<Rightarrow> u64" where
  "into_unsigned (Normal i) = i"
| "into_unsigned (Backfilled i) = i"

fun into_signed :: "pdu_count \<Rightarrow> i64" where
  "into_signed (Normal i) = i"
| "into_signed (Backfilled i) = i"

fun into_normal :: "pdu_count \<Rightarrow> pdu_count" where
  "into_normal (Normal i) = Normal i"
| "into_normal (Backfilled _) = Normal 0"

definition count_to_be_bytes :: "pdu_count \<Rightarrow> byte list" where
  "count_to_be_bytes c = u64_to_be (into_unsigned c)"

fun count_checked_add :: "pdu_count \<Rightarrow> u64 \<Rightarrow> count_error + pdu_count" where
  "count_checked_add (Normal i) add = (case u64_checked_add i add of None \<Rightarrow> Inl NormalOverflow | Some n \<Rightarrow> Inr (Normal n))"
| "count_checked_add (Backfilled i) add = (case i64_checked_add i add of None \<Rightarrow> Inl BackfilledOverflow | Some n \<Rightarrow> Inr (Backfilled n))"

fun count_checked_sub :: "pdu_count \<Rightarrow> u64 \<Rightarrow> count_error + pdu_count" where
  "count_checked_sub (Normal i) sub = (case u64_checked_sub i sub of None \<Rightarrow> Inl NormalUnderflow | Some n \<Rightarrow> Inr (Normal n))"
| "count_checked_sub (Backfilled i) sub = (case i64_checked_sub i sub of None \<Rightarrow> Inl BackfilledUnderflow | Some n \<Rightarrow> Inr (Backfilled n))"

fun checked_inc :: "pdu_count \<Rightarrow> direction \<Rightarrow> count_error + pdu_count" where
  "checked_inc c Forward = count_checked_add c 1"
| "checked_inc c Backward = count_checked_sub c 1"

fun count_saturating_add :: "pdu_count \<Rightarrow> u64 \<Rightarrow> pdu_count" where
  "count_saturating_add (Normal i) add = Normal (u64_saturating_add i add)"
| "count_saturating_add (Backfilled i) add = Backfilled (i64_saturating_add i add)"

fun count_saturating_sub :: "pdu_count \<Rightarrow> u64 \<Rightarrow> pdu_count" where
  "count_saturating_sub (Normal i) sub = Normal (u64_saturating_sub i sub)"
| "count_saturating_sub (Backfilled i) sub = Backfilled (i64_saturating_sub i sub)"

fun saturating_inc :: "pdu_count \<Rightarrow> direction \<Rightarrow> pdu_count" where
  "saturating_inc c Forward = count_saturating_add c 1"
| "saturating_inc c Backward = count_saturating_sub c 1"

definition count_min :: pdu_count where
  "count_min = Backfilled i64_MIN"

definition count_max :: pdu_count where
  "count_max = Normal i64_MAX"

definition count_cmp :: "pdu_count \<Rightarrow> pdu_count \<Rightarrow> ordering" where
  "count_cmp c d = cmp_of (sint (into_signed c)) (sint (into_signed d))"

definition count_default :: pdu_count where
  "count_default = Normal 0"

section \<open>Database keys\<close>

record pdu_id =
  id_shortroomid :: u64
  id_count :: pdu_count

datatype raw_id = RawNormal "byte list" | RawBackfilled "byte list"

definition INT_LEN :: nat where "INT_LEN = 8"
definition BACKFILLED_LEN :: nat where "BACKFILLED_LEN = 8 + INT_LEN + 8"
definition NORMAL_LEN :: nat where "NORMAL_LEN = 8 + 8"

fun as_bytes :: "raw_id \<Rightarrow> byte list" where
  "as_bytes (RawNormal raw) = raw"
| "as_bytes (RawBackfilled raw) = raw"

fun raw_shortroomid :: "raw_id \<Rightarrow> byte list" where
  "raw_shortroomid (RawNormal raw) = take INT_LEN raw"
| "raw_shortroomid (RawBackfilled raw) = take INT_LEN raw"

fun raw_count :: "raw_id \<Rightarrow> byte list" where
  "raw_count (RawNormal raw) = take INT_LEN (drop INT_LEN raw)"
| "raw_count (RawBackfilled raw) = take INT_LEN (drop (INT_LEN * 2) raw)"

definition id_of_raw :: "raw_id \<Rightarrow> pdu_id" where
  "id_of_raw raw = \<lparr> id_shortroomid = u64_of_be (raw_shortroomid raw), id_count = from_unsigned (u64_of_be (raw_count raw)) \<rparr>"

definition raw_pdu_count :: "raw_id \<Rightarrow> pdu_count" where
  "raw_pdu_count raw = id_count (id_of_raw raw)"

definition is_room_eq :: "raw_id \<Rightarrow> raw_id \<Rightarrow> bool" where
  "is_room_eq a b \<longleftrightarrow> raw_shortroomid a = raw_shortroomid b"

definition raw_of_id :: "pdu_id \<Rightarrow> raw_id" where
  "raw_of_id i = (case id_count i of
     Normal n \<Rightarrow> RawNormal (u64_to_be (id_shortroomid i) @ u64_to_be n)
   | Backfilled n \<Rightarrow> RawBackfilled (u64_to_be (id_shortroomid i) @ u64_to_be 0 @ u64_to_be n))"

text \<open>Another length is the panic \<^verbatim>\<open>unimplemented!\<close>.\<close>

definition raw_of_bytes :: "byte list \<Rightarrow> raw_id option" where
  "raw_of_bytes bs =
     (if length bs = NORMAL_LEN then Some (RawNormal bs)
      else if length bs = BACKFILLED_LEN then Some (RawBackfilled bs)
      else None)"

definition bias_count :: "byte list \<Rightarrow> u64" where
  "bias_count n = u64_of_be n - i64_MIN"

section \<open>Scanning a room's timeline\<close>

definition pdu_count_to_id :: "u64 \<Rightarrow> pdu_count \<Rightarrow> direction \<Rightarrow> raw_id" where
  "pdu_count_to_id shortroomid n dir =
     raw_of_id \<lparr> id_shortroomid = shortroomid, id_count = saturating_inc n dir \<rparr>"

definition count_to_id :: "('r \<Rightarrow> 'e + u64) \<Rightarrow> 'r \<Rightarrow> pdu_count \<Rightarrow> direction \<Rightarrow> 'e + raw_id" where
  "count_to_id get_shortroomid room_id n dir =
     rmap (\<lambda>shortroomid. pdu_count_to_id shortroomid n dir) (get_shortroomid room_id)"

definition each_slice :: "('v \<Rightarrow> 'e + 'p) \<Rightarrow> byte list \<times> 'v \<Rightarrow> ('e + pdu_count \<times> 'p) option" where
  "each_slice read_pdu kv = (case raw_of_bytes (fst kv) of
     None \<Rightarrow> None
   | Some pdu_id \<Rightarrow> Some (rmap (\<lambda>pdu. (raw_pdu_count pdu_id, pdu)) (read_pdu (snd kv))))"

definition scan_from ::
  "('r \<Rightarrow> 'e + u64) \<Rightarrow> (byte list \<Rightarrow> (byte list \<times> 'v) list) \<Rightarrow> ('v \<Rightarrow> 'e + 'p) \<Rightarrow> 'r \<Rightarrow> pdu_count \<Rightarrow> direction \<Rightarrow>
   ('e + pdu_count \<times> 'p) list option" where
  "scan_from get_shortroomid stream read_pdu room_id start dir =
     (case count_to_id get_shortroomid room_id start dir of
        Inl e \<Rightarrow> Some [Inl e]
      | Inr current \<Rightarrow>
          (let prefix = raw_shortroomid current
           in those (map (each_slice read_pdu)
                (takeWhile (\<lambda>kv. starts_with (fst kv) prefix) (stream (as_bytes current))))))"

definition pdus ::
  "('r \<Rightarrow> 'e + u64) \<Rightarrow> (byte list \<Rightarrow> (byte list \<times> 'v) list) \<Rightarrow> ('v \<Rightarrow> 'e + 'p) \<Rightarrow> 'r \<Rightarrow> pdu_count option \<Rightarrow>
   ('e + pdu_count \<times> 'p) list option" where
  "pdus get_shortroomid raw_stream_from read_pdu room_id start =
     scan_from get_shortroomid raw_stream_from read_pdu room_id
       (case start of Some c \<Rightarrow> c | None \<Rightarrow> count_min) Forward"

definition pdus_rev ::
  "('r \<Rightarrow> 'e + u64) \<Rightarrow> (byte list \<Rightarrow> (byte list \<times> 'v) list) \<Rightarrow> ('v \<Rightarrow> 'e + 'p) \<Rightarrow> 'r \<Rightarrow> pdu_count option \<Rightarrow>
   ('e + pdu_count \<times> 'p) list option" where
  "pdus_rev get_shortroomid rev_raw_stream_from read_pdu room_id until =
     scan_from get_shortroomid rev_raw_stream_from read_pdu room_id
       (case until of Some c \<Rightarrow> c | None \<Rightarrow> count_max) Backward"

text \<open>The position next to one in a room, given by its key; a key of another length is a panic.\<close>

datatype timeline_error = NoEarlierPdu | NoMorePdu

definition adjacent_count ::
  "(byte list \<Rightarrow> byte list list) \<Rightarrow> timeline_error \<Rightarrow> raw_id \<Rightarrow> (timeline_error + pdu_count) option" where
  "adjacent_count keys_from e current = (case keys_from (as_bytes current) of
     [] \<Rightarrow> Some (Inl e)
   | key # _ \<Rightarrow> (case raw_of_bytes key of
       None \<Rightarrow> None
     | Some raw \<Rightarrow> Some (if is_room_eq raw current then Inr (raw_pdu_count raw) else Inl e)))"

definition next_timeline_count :: "(byte list \<Rightarrow> byte list list) \<Rightarrow> pdu_id \<Rightarrow> (timeline_error + pdu_count) option" where
  "next_timeline_count keys_raw_from after =
     adjacent_count keys_raw_from NoMorePdu (pdu_count_to_id (id_shortroomid after) (id_count after) Forward)"

definition prev_timeline_count :: "(byte list \<Rightarrow> byte list list) \<Rightarrow> pdu_id \<Rightarrow> (timeline_error + pdu_count) option" where
  "prev_timeline_count rev_keys_raw_from before =
     adjacent_count rev_keys_raw_from NoEarlierPdu (pdu_count_to_id (id_shortroomid before) (id_count before) Backward)"

section \<open>Keys: round trip and order\<close>

text \<open>
  The counts the server stores: a normal one is positive, a backfilled one negative, and both have the
  other's magnitude range. A position may also be zero.
\<close>

fun count_valid :: "pdu_count \<Rightarrow> bool" where
  "count_valid (Normal i) \<longleftrightarrow> 0 \<le> sint i"
| "count_valid (Backfilled i) \<longleftrightarrow> sint i \<le> 0"

fun count_stored :: "pdu_count \<Rightarrow> bool" where
  "count_stored (Normal i) \<longleftrightarrow> 0 < sint i"
| "count_stored (Backfilled i) \<longleftrightarrow> sint i < 0 \<and> - (2 ^ 63) < sint i"

definition count_less :: "pdu_count \<Rightarrow> pdu_count \<Rightarrow> bool" where
  "count_less c d \<longleftrightarrow> count_cmp c d = Less"

definition key :: "u64 \<Rightarrow> pdu_count \<Rightarrow> byte list" where
  "key room c = as_bytes (raw_of_id \<lparr> id_shortroomid = room, id_count = c \<rparr>)"

fun key_tail :: "pdu_count \<Rightarrow> byte list" where
  "key_tail (Normal i) = u64_to_be i"
| "key_tail (Backfilled i) = u64_to_be 0 @ u64_to_be i"

lemma count_less_iff: "count_less c d \<longleftrightarrow> sint (into_signed c) < sint (into_signed d)"
  by (simp add: count_less_def count_cmp_def)

lemma key_eq: "key room c = u64_to_be room @ key_tail c"
  by (cases c) (simp_all add: key_def raw_of_id_def)

lemma raw_lengths: "length (as_bytes (raw_of_id i)) \<in> {NORMAL_LEN, BACKFILLED_LEN}"
  by (cases "id_count i") (simp_all add: raw_of_id_def NORMAL_LEN_def BACKFILLED_LEN_def INT_LEN_def)

lemma raw_of_bytes_id: "raw_of_bytes (as_bytes (raw_of_id i)) = Some (raw_of_id i)"
  by (cases "id_count i")
    (simp_all add: raw_of_bytes_def raw_of_id_def NORMAL_LEN_def BACKFILLED_LEN_def INT_LEN_def)

lemma id_of_raw_of_id:
  "id_of_raw (raw_of_id i) = i \<lparr> id_count := from_signed (into_signed (id_count i)) \<rparr>"
  by (cases "id_count i"; cases i)
    (simp_all add: id_of_raw_def raw_of_id_def INT_LEN_def be64.dec_enc from_unsigned_def)

text \<open>An identifier comes back from its key as it was, but for the normal position 0, which comes back backfilled.\<close>

lemma key_round_trip:
  "map_option id_of_raw (raw_of_bytes (as_bytes (raw_of_id i))) = Some i \<longleftrightarrow>
   (case id_count i of Normal n \<Rightarrow> 0 < sint n | Backfilled n \<Rightarrow> sint n \<le> 0)"
  by (cases i) (auto simp: raw_of_bytes_id id_of_raw_of_id from_signed_def split: pdu_count.splits)

lemma stored_round_trip: "count_stored c \<Longrightarrow> from_signed (into_signed c) = c"
  by (cases c) (auto simp: from_signed_def)

lemma raw_of_bytes_key: "raw_of_bytes (key room c) = Some (raw_of_id \<lparr> id_shortroomid = room, id_count = c \<rparr>)"
  by (simp add: key_def raw_of_bytes_id)

lemma raw_pdu_count_key:
  "count_stored c \<Longrightarrow> raw_pdu_count (raw_of_id \<lparr> id_shortroomid = room, id_count = c \<rparr>) = c"
  by (simp add: raw_pdu_count_def id_of_raw_of_id stored_round_trip)

lemma key_less_same_room: "key room c < key room d \<longleftrightarrow> key_tail c < key_tail d"
  by (simp add: key_eq lex_append_same)

lemma key_inject: "key room c = key room' d \<longleftrightarrow> room = room' \<and> key_tail c = key_tail d"
  by (simp add: key_eq be64.enc_append_inject)

lemma be_tail_less:
  "u64_to_be a @ x < u64_to_be b @ y \<longleftrightarrow> a < b \<or> a = b \<and> x < y"
proof (cases "a = b")
  case False
  then have "u64_to_be a @ x < u64_to_be b @ y \<longleftrightarrow> u64_to_be a < u64_to_be b"
    by (intro lex_append_diff) (simp_all add: be64.enc_inject)
  then show ?thesis using False by (simp add: u64_to_be_less)
qed (simp add: lex_append_same)

lemma u64_to_be_nonempty [simp]: "[] < u64_to_be a"
  using be64.enc_length [of a] by (cases "u64_to_be a") auto

text \<open>How the part of the key after the room compares\<close>

lemma key_tail_less [simp]:
  "key_tail (Normal a) < key_tail (Normal b) \<longleftrightarrow> a < b"
  "key_tail (Backfilled a) < key_tail (Backfilled b) \<longleftrightarrow> a < b"
  "key_tail (Backfilled a) < key_tail (Normal b) \<longleftrightarrow> 0 < b"
  "key_tail (Normal a) < key_tail (Backfilled b) \<longleftrightarrow> a = 0"
  using be_tail_less [of 0 "u64_to_be a" b "[]"] be_tail_less [of a "[]" 0 "u64_to_be b"]
  by (auto simp: u64_to_be_less lex_append_same dest: arg_cong [of _ _ length])

lemma word_less_sint:
  assumes "sint (a :: i64) < 0 \<longleftrightarrow> sint b < 0"
  shows "a < b \<longleftrightarrow> sint a < sint b"
  using assms uint_less_64 [of a] uint_less_64 [of b]
  by (simp add: word_less_def sint_eq split: if_splits)

text \<open>On the counts stored, the order of keys is the order of counts.\<close>

lemma key_order: "count_stored c \<Longrightarrow> count_stored d \<Longrightarrow> key room c < key room d \<longleftrightarrow> count_less c d"
  by (cases c; cases d)
    (auto simp: key_less_same_room count_less_iff word_less_sint word_gt_0 simp del: key_tail.simps)

section \<open>A scan returns what lies beyond its position\<close>

text \<open>
  A table of events: its keys ascend, and each is the key of a stored count. The table streams the entries from a key
  on, or backwards from a key down.
\<close>

definition timeline_table :: "(byte list \<times> 'v) list \<Rightarrow> bool" where
  "timeline_table tbl \<longleftrightarrow> sorted_wrt (<) (map fst tbl) \<and>
     (\<forall>(k, v) \<in> set tbl. \<exists>room c. count_stored c \<and> k = key room c)"

definition streams_from :: "(byte list \<times> 'v) list \<Rightarrow> (byte list \<Rightarrow> (byte list \<times> 'v) list) \<Rightarrow> bool" where
  "streams_from tbl stream \<longleftrightarrow> (\<forall>k. stream k = filter (\<lambda>kv. k \<le> fst kv) tbl)"

definition streams_down_from :: "(byte list \<times> 'v) list \<Rightarrow> (byte list \<Rightarrow> (byte list \<times> 'v) list) \<Rightarrow> bool" where
  "streams_down_from tbl stream \<longleftrightarrow> (\<forall>k. stream k = rev (filter (\<lambda>kv. fst kv \<le> k) tbl))"

definition room_entries :: "(byte list \<times> 'v) list \<Rightarrow> u64 \<Rightarrow> (byte list \<times> 'v) list" where
  "room_entries tbl room = filter (\<lambda>kv. starts_with (fst kv) (u64_to_be room)) tbl"

text \<open>The count of a key\<close>

definition count_of_key :: "byte list \<Rightarrow> pdu_count" where
  "count_of_key k = (case raw_of_bytes k of Some raw \<Rightarrow> raw_pdu_count raw | None \<Rightarrow> count_default)"

lemma count_of_key [simp]: "count_stored c \<Longrightarrow> count_of_key (key room c) = c"
  by (simp add: count_of_key_def raw_of_bytes_key raw_pdu_count_key)

lemma starts_with_key [simp]: "starts_with (key room c) (u64_to_be room') \<longleftrightarrow> room = room'"
  by (auto simp: starts_with_def key_eq be64.enc_inject)

lemma key_prefix_mono: "k \<le> k' \<Longrightarrow> take 8 k \<le> take 8 (k' :: byte list)"
  by (rule lex_take_mono)

lemma seek_prefix: "raw_shortroomid (pdu_count_to_id room c dir) = u64_to_be room"
  by (cases "saturating_inc c dir") (simp_all add: pdu_count_to_id_def raw_of_id_def INT_LEN_def)

lemma seek_bytes: "as_bytes (pdu_count_to_id room c dir) = key room (saturating_inc c dir)"
  by (simp add: pdu_count_to_id_def key_def)

text \<open>The scan takes every entry of the room on its side of the key it seeks: the room's keys are one block.\<close>

lemma scan_block_forward:
  assumes "timeline_table tbl" "streams_from tbl stream"
  shows "takeWhile (\<lambda>kv. starts_with (fst kv) (u64_to_be room)) (stream (key room s)) =
    filter (\<lambda>kv. key room s \<le> fst kv) (room_entries tbl room)"
proof -
  have "takeWhile (\<lambda>kv. starts_with (fst kv) (u64_to_be room)) (stream (key room s)) =
      filter (\<lambda>kv. starts_with (fst kv) (u64_to_be room)) (stream (key room s))"
  proof (rule takeWhile_block [where R = "\<lambda>x y. fst x < fst y"])
    show "sorted_wrt (\<lambda>x y. fst x < fst y) (stream (key room s))"
      using assms by (simp add: streams_from_def timeline_table_def sorted_wrt_map sorted_wrt_filter)
    fix x y
    assume x: "x \<in> set (stream (key room s))" "fst x < fst y" "starts_with (fst y) (u64_to_be room)"
    have "take 8 (key room s) \<le> take 8 (fst x)" "take 8 (fst x) \<le> take 8 (fst y)"
      using assms(2) x by (auto simp: streams_from_def intro!: key_prefix_mono)
    then have "take 8 (fst x) = u64_to_be room"
      using x(3) by (simp add: starts_with_def key_eq)
    then show "starts_with (fst x) (u64_to_be room)" by (simp add: starts_with_def)
  qed
  then show ?thesis using assms(2) by (simp add: streams_from_def room_entries_def conj_commute)
qed

lemma scan_block_backward:
  assumes "timeline_table tbl" "streams_down_from tbl stream"
  shows "takeWhile (\<lambda>kv. starts_with (fst kv) (u64_to_be room)) (stream (key room s)) =
    rev (filter (\<lambda>kv. fst kv \<le> key room s) (room_entries tbl room))"
proof -
  have "takeWhile (\<lambda>kv. starts_with (fst kv) (u64_to_be room)) (stream (key room s)) =
      filter (\<lambda>kv. starts_with (fst kv) (u64_to_be room)) (stream (key room s))"
  proof (rule takeWhile_block [where R = "\<lambda>x y. fst y < fst x"])
    show "sorted_wrt (\<lambda>x y. fst y < fst x) (stream (key room s))"
      using assms by (simp add: streams_down_from_def timeline_table_def sorted_wrt_map sorted_wrt_rev sorted_wrt_filter)
    fix x y
    assume x: "x \<in> set (stream (key room s))" "fst y < fst x" "starts_with (fst y) (u64_to_be room)"
    have "take 8 (fst x) \<le> take 8 (key room s)" "take 8 (fst y) \<le> take 8 (fst x)"
      using assms(2) x by (auto simp: streams_down_from_def intro!: key_prefix_mono)
    then have "take 8 (fst x) = u64_to_be room"
      using x(3) by (simp add: starts_with_def key_eq)
    then show "starts_with (fst x) (u64_to_be room)" by (simp add: starts_with_def)
  qed
  then show ?thesis using assms(2) by (simp add: streams_down_from_def room_entries_def rev_filter conj_commute)
qed

text \<open>
  Which stored counts a scan finds. Forward it must not start at the backfilled positions 0 and -1: the next backfilled
  position, 0 or 1, has a key below those of all negative counts. Backward it must not start at the normal positions 0
  and 1: the key of normal position 0 lies below all backfilled keys.
\<close>

definition forward_start :: "pdu_count \<Rightarrow> bool" where
  "forward_start c \<longleftrightarrow> count_valid c \<and> c \<noteq> Backfilled 0 \<and> c \<noteq> Backfilled (- 1)"

definition backward_start :: "pdu_count \<Rightarrow> bool" where
  "backward_start c \<longleftrightarrow> count_valid c \<and> c \<noteq> Normal 0 \<and> c \<noteq> Normal 1"

lemma sint_eq_iff: "sint (a :: i64) = sint b \<longleftrightarrow> a = b"
  by (metis signed_word_eqI)

lemma i64_of_sint:
  "sint (a :: i64) = 0 \<longleftrightarrow> a = 0" "sint (a :: i64) = - 1 \<longleftrightarrow> a = - 1" "sint (a :: i64) = 1 \<longleftrightarrow> a = 1"
  "sint (a :: i64) = - (2 ^ 63) \<longleftrightarrow> a = i64_MIN"
proof -
  have "sint i64_MIN = - (2 ^ 63)" by (simp add: i64_MIN_def)
  then show "sint (a :: i64) = - (2 ^ 63) \<longleftrightarrow> a = i64_MIN" using sint_eq_iff [of a i64_MIN] by simp
qed (use sint_eq_iff [of a 0] sint_eq_iff [of a "- 1"] sint_eq_iff [of a 1] in simp_all)

lemma u64_inc:
  assumes "0 \<le> sint a"
  shows "u64_saturating_add a 1 = a + 1"
proof -
  have "uint a < 2 ^ 63" using assms uint_less_64 [of a] by (auto simp: sint_eq split: if_splits)
  then have "nat (uint a) < nat (2 ^ 63)" by (simp only: zless_nat_conj) simp
  then have "unat a < 2 ^ 63" by simp
  then show ?thesis by (simp add: u64_saturating_add_def u64_checked_add_def)
qed

lemma u64_dec: "a \<noteq> 0 \<Longrightarrow> u64_saturating_sub a 1 = a - 1"
  by (simp add: u64_saturating_sub_def u64_checked_sub_def word_le_nat_alt unat_gt_0 Suc_le_eq)

lemma i64_inc: "sint a \<le> 0 \<Longrightarrow> i64_saturating_add a 1 = a + 1"
  using sint_range [of a] by (simp add: i64_saturating_add_def i64_checked_add_def)

lemma i64_dec: "sint a \<le> 0 \<Longrightarrow> i64_saturating_sub a 1 = (if a = i64_MIN then a else a - 1)"
  using sint_range [of a] i64_of_sint(4) [of a]
  by (auto simp: i64_saturating_sub_def i64_checked_sub_def)

lemma start_sint [simp]:
  "forward_start (Normal n) \<longleftrightarrow> 0 \<le> sint n" "forward_start (Backfilled n) \<longleftrightarrow> sint n < - 1"
  "backward_start (Normal n) \<longleftrightarrow> 1 < sint n" "backward_start (Backfilled n) \<longleftrightarrow> sint n \<le> 0"
  using i64_of_sint [of n] by (auto simp: forward_start_def backward_start_def)

declare key_tail.simps [simp del]

lemma seek_forward:
  assumes "forward_start c" "count_stored d"
  shows "key room (saturating_inc c Forward) \<le> key room d \<longleftrightarrow> count_less c d"
proof -
  have "\<not> key_tail d < key_tail (saturating_inc c Forward) \<longleftrightarrow> sint (into_signed c) < sint (into_signed d)"
  proof (cases c; cases d)
    fix a b assume [simp]: "c = Normal a" "d = Normal b"
    show ?thesis using assms uint_less_64 [of a] uint_less_64 [of b]
      by (auto simp: u64_inc word_less_def uint_inc sint_eq split: if_splits)
  next
    fix a b assume [simp]: "c = Normal a" "d = Backfilled b"
    show ?thesis using assms by (auto simp: u64_inc word_gt_0 i64_of_sint [symmetric] sint_inc)
  next
    fix a b assume [simp]: "c = Backfilled a" "d = Normal b"
    show ?thesis using assms by (auto simp: i64_inc)
  next
    fix a b assume [simp]: "c = Backfilled a" "d = Backfilled b"
    show ?thesis using assms by (auto simp: i64_inc word_less_sint sint_inc)
  qed
  then show ?thesis by (simp add: key_less_same_room count_less_iff flip: linorder_not_less)
qed

lemma seek_backward:
  assumes "backward_start c" "count_stored d"
  shows "key room d \<le> key room (saturating_inc c Backward) \<longleftrightarrow> count_less d c"
proof -
  have "\<not> key_tail (saturating_inc c Backward) < key_tail d \<longleftrightarrow> sint (into_signed d) < sint (into_signed c)"
  proof (cases c; cases d)
    fix a b assume [simp]: "c = Normal a" "d = Normal b"
    show ?thesis using assms by (auto simp: u64_dec i64_of_sint [symmetric] word_less_sint sint_dec)
  next
    fix a b assume [simp]: "c = Normal a" "d = Backfilled b"
    show ?thesis using assms by (auto simp: u64_dec i64_of_sint [symmetric] sint_dec)
  next
    fix a b assume [simp]: "c = Backfilled a" "d = Normal b"
    show ?thesis using assms by (auto simp: i64_dec word_gt_0)
  next
    fix a b assume [simp]: "c = Backfilled a" "d = Backfilled b"
    show ?thesis using assms sint_range [of a] i64_of_sint(4) [of a]
      by (auto simp: i64_dec word_less_sint sint_dec)
  qed
  then show ?thesis by (simp add: key_less_same_room count_less_iff flip: linorder_not_less)
qed

lemma room_entry:
  assumes "timeline_table tbl" "kv \<in> set (room_entries tbl room)"
  obtains c where "count_stored c" "fst kv = key room c"
proof -
  obtain room' c where "count_stored c" "fst kv = key room' c"
    using assms by (fastforce simp: timeline_table_def room_entries_def)
  moreover have "room' = room" using assms(2) calculation(2) by (simp add: room_entries_def)
  ultimately show ?thesis using that by simp
qed

lemma each_slice_entry:
  assumes "timeline_table tbl" "kv \<in> set (room_entries tbl room)"
  shows "each_slice read_pdu kv = Some (rmap (Pair (count_of_key (fst kv))) (read_pdu (snd kv)))"
proof -
  obtain c where "count_stored c" "fst kv = key room c" by (rule room_entry [OF assms])
  then show ?thesis by (simp add: each_slice_def raw_of_bytes_key raw_pdu_count_key)
qed

lemma scan_forward:
  assumes "timeline_table tbl" "streams_from tbl stream" "forward_start c" "get room_id = Inr room"
  shows "scan_from get stream read_pdu room_id c Forward =
    Some (map (\<lambda>kv. rmap (Pair (count_of_key (fst kv))) (read_pdu (snd kv)))
      (filter (\<lambda>kv. count_less c (count_of_key (fst kv))) (room_entries tbl room)))"
proof -
  have "filter (\<lambda>kv. key room (saturating_inc c Forward) \<le> fst kv) (room_entries tbl room) =
      filter (\<lambda>kv. count_less c (count_of_key (fst kv))) (room_entries tbl room)"
    using assms(1) seek_forward [OF assms(3)] by (intro filter_cong) (auto elim!: room_entry [of tbl])
  then show ?thesis
    using each_slice_entry [OF assms(1), of _ room read_pdu]
    by (simp add: scan_from_def count_to_id_def assms(4) seek_prefix seek_bytes
        scan_block_forward [OF assms(1,2)] those_map_Some [where g = "\<lambda>kv. rmap (Pair (count_of_key (fst kv))) (read_pdu (snd kv))"])
qed

lemma scan_backward:
  assumes "timeline_table tbl" "streams_down_from tbl stream" "backward_start c" "get room_id = Inr room"
  shows "scan_from get stream read_pdu room_id c Backward =
    Some (map (\<lambda>kv. rmap (Pair (count_of_key (fst kv))) (read_pdu (snd kv)))
      (rev (filter (\<lambda>kv. count_less (count_of_key (fst kv)) c) (room_entries tbl room))))"
proof -
  have "filter (\<lambda>kv. fst kv \<le> key room (saturating_inc c Backward)) (room_entries tbl room) =
      filter (\<lambda>kv. count_less (count_of_key (fst kv)) c) (room_entries tbl room)"
    using assms(1) seek_backward [OF assms(3)] by (intro filter_cong) (auto elim!: room_entry [of tbl])
  then show ?thesis
    using each_slice_entry [OF assms(1), of _ room read_pdu]
    by (simp add: scan_from_def count_to_id_def assms(4) seek_prefix seek_bytes
        scan_block_backward [OF assms(1,2)] those_map_Some [where g = "\<lambda>kv. rmap (Pair (count_of_key (fst kv))) (read_pdu (snd kv))"])
qed

lemma room_entries_ascend:
  assumes "timeline_table tbl"
  shows "sorted_wrt (\<lambda>x y. count_less (count_of_key (fst x)) (count_of_key (fst y))) (room_entries tbl room)"
proof -
  have "sorted_wrt (\<lambda>x y. fst x < fst y) (room_entries tbl room)"
    using assms by (simp add: timeline_table_def room_entries_def sorted_wrt_map sorted_wrt_filter)
  then show ?thesis
  proof (rule sorted_wrt_mono_rel [rotated])
    fix x y assume xy: "x \<in> set (room_entries tbl room)" "y \<in> set (room_entries tbl room)" "fst x < fst y"
    obtain c d where "count_stored c" "fst x = key room c" "count_stored d" "fst y = key room d"
      using xy(1,2) by (metis room_entry [OF assms])
    then show "count_less (count_of_key (fst x)) (count_of_key (fst y))" using xy(3) by (simp add: key_order)
  qed
qed

text \<open>
  \<open>yields tbl read_pdu room P R items\<close>: the items are the events of the room whose counts satisfy \<open>P\<close>, each once, in the
  order \<open>R\<close> of their counts, each with what reading its bytes gives.
\<close>

definition yields :: "(byte list \<times> 'v) list \<Rightarrow> ('v \<Rightarrow> 'e + 'p) \<Rightarrow> u64 \<Rightarrow> (pdu_count \<Rightarrow> bool) \<Rightarrow>
    (pdu_count \<Rightarrow> pdu_count \<Rightarrow> bool) \<Rightarrow> ('e + pdu_count \<times> 'p) list option \<Rightarrow> bool" where
  "yields tbl read_pdu room P R items \<longleftrightarrow>
     (\<exists>sel. items = Some (map (\<lambda>(c, v). rmap (Pair c) (read_pdu v)) sel) \<and> sorted_wrt R (map fst sel) \<and>
        (\<forall>c v. (c, v) \<in> set sel \<longleftrightarrow> count_stored c \<and> P c \<and> (key room c, v) \<in> set tbl))"

lemma selection_set:
  assumes "timeline_table tbl"
  shows "(c, v) \<in> (\<lambda>kv. (count_of_key (fst kv), snd kv)) ` {kv \<in> set (room_entries tbl room). P (count_of_key (fst kv))}
    \<longleftrightarrow> count_stored c \<and> P c \<and> (key room c, v) \<in> set tbl"
proof
  assume "(c, v) \<in> (\<lambda>kv. (count_of_key (fst kv), snd kv)) ` {kv \<in> set (room_entries tbl room). P (count_of_key (fst kv))}"
  then obtain k where k: "(k, v) \<in> set (room_entries tbl room)" "P (count_of_key k)" "c = count_of_key k" by auto
  obtain d where "count_stored d" "k = key room d" using room_entry [OF assms k(1)] by auto
  then show "count_stored c \<and> P c \<and> (key room c, v) \<in> set tbl" using k by (auto simp: room_entries_def)
next
  assume "count_stored c \<and> P c \<and> (key room c, v) \<in> set tbl"
  then show "(c, v) \<in> (\<lambda>kv. (count_of_key (fst kv), snd kv)) ` {kv \<in> set (room_entries tbl room). P (count_of_key (fst kv))}"
    by (intro image_eqI [of _ _ "(key room c, v)"]) (auto simp: room_entries_def)
qed

lemma yields_filter:
  assumes "timeline_table tbl"
  shows "yields tbl read_pdu room P count_less
      (Some (map (\<lambda>kv. rmap (Pair (count_of_key (fst kv))) (read_pdu (snd kv)))
        (filter (\<lambda>kv. P (count_of_key (fst kv))) (room_entries tbl room))))"
    and "yields tbl read_pdu room P (\<lambda>c d. count_less d c)
      (Some (map (\<lambda>kv. rmap (Pair (count_of_key (fst kv))) (read_pdu (snd kv)))
        (rev (filter (\<lambda>kv. P (count_of_key (fst kv))) (room_entries tbl room)))))"
proof -
  let ?sel = "map (\<lambda>kv. (count_of_key (fst kv), snd kv)) (filter (\<lambda>kv. P (count_of_key (fst kv))) (room_entries tbl room))"
  have sel: "(c, v) \<in> set ?sel \<longleftrightarrow> count_stored c \<and> P c \<and> (key room c, v) \<in> set tbl" for c v
    using selection_set [OF assms, of c v room P] by simp
  have sorted: "sorted_wrt count_less (map fst ?sel)"
    using room_entries_ascend [OF assms, of room] by (simp add: sorted_wrt_map sorted_wrt_filter)
  show "yields tbl read_pdu room P count_less
      (Some (map (\<lambda>kv. rmap (Pair (count_of_key (fst kv))) (read_pdu (snd kv)))
        (filter (\<lambda>kv. P (count_of_key (fst kv))) (room_entries tbl room))))"
    unfolding yields_def using sel sorted by (intro exI [of _ ?sel] conjI) simp_all
  show "yields tbl read_pdu room P (\<lambda>c d. count_less d c)
      (Some (map (\<lambda>kv. rmap (Pair (count_of_key (fst kv))) (read_pdu (snd kv)))
        (rev (filter (\<lambda>kv. P (count_of_key (fst kv))) (room_entries tbl room)))))"
    unfolding yields_def using sel sorted
    by (intro exI [of _ "rev ?sel"] conjI) (simp_all add: rev_map sorted_wrt_rev sorted_wrt_map)
qed

text \<open>
  At the positions excluded, a scan does not return what lies beyond its position: forward from backfilled 0 or -1 it
  returns every event of the room, and backward from normal 0 or 1 it returns none, not even the backfilled events.
\<close>

lemma seek_forward_edge:
  assumes "c = Backfilled 0 \<or> c = Backfilled (- 1)" "count_stored d"
  shows "key room (saturating_inc c Forward) \<le> key room d"
proof -
  have "i64_saturating_add 0 1 = 1" "i64_saturating_add (- 1) 1 = 0" by (simp_all add: i64_inc)
  then have "\<not> key_tail d < key_tail (saturating_inc c Forward)"
    using assms uint_less_64 [of "into_signed d"]
    by (cases d) (auto simp: word_less_def sint_eq split: if_splits)
  then show ?thesis by (simp add: key_less_same_room flip: linorder_not_less)
qed

lemma seek_backward_edge:
  assumes "c = Normal 0 \<or> c = Normal 1" "count_stored d"
  shows "\<not> key room d \<le> key room (saturating_inc c Backward)"
proof -
  have "u64_saturating_sub 0 1 = 0" "u64_saturating_sub 1 1 = 0"
    by (simp_all add: u64_saturating_sub_def u64_checked_sub_def)
  then have "key_tail (saturating_inc c Backward) < key_tail d"
    using assms by (cases d) (auto simp: word_gt_0)
  then show ?thesis by (simp add: key_less_same_room flip: linorder_not_less)
qed

lemma sint_i64_MIN: "sint i64_MIN = - (2 ^ 63)"
  by (simp add: i64_MIN_def)

lemma forward_min: "forward_start count_min"
  by (simp add: count_min_def sint_i64_MIN)

lemma min_before_stored: "count_stored d \<Longrightarrow> count_less count_min d"
  by (cases d) (simp_all add: count_min_def count_less_iff sint_i64_MIN)

lemma forward_from_zero_restarts:
  assumes "timeline_table tbl" "streams_from tbl stream" "get room_id = Inr room"
    and "c = Backfilled 0 \<or> c = Backfilled (- 1)"
  shows "pdus get stream read_pdu room_id (Some c) = pdus get stream read_pdu room_id None"
proof -
  have "filter (\<lambda>kv. key room (saturating_inc c Forward) \<le> fst kv) (room_entries tbl room) = room_entries tbl room"
    using seek_forward_edge [OF assms(4)] by (auto simp: filter_id_conv elim!: room_entry [OF assms(1)])
  moreover have "filter (\<lambda>kv. key room (saturating_inc count_min Forward) \<le> fst kv) (room_entries tbl room) = room_entries tbl room"
    using seek_forward [OF forward_min] min_before_stored
    by (auto simp: filter_id_conv elim!: room_entry [OF assms(1)])
  ultimately show ?thesis
    by (simp add: pdus_def scan_from_def count_to_id_def assms(3) seek_prefix seek_bytes scan_block_forward [OF assms(1,2)])
qed

lemma backward_from_one_empty:
  assumes "timeline_table tbl" "streams_down_from tbl stream" "get room_id = Inr room"
    and "c = Normal 0 \<or> c = Normal 1"
  shows "pdus_rev get stream read_pdu room_id (Some c) = Some []"
proof -
  have "filter (\<lambda>kv. fst kv \<le> key room (saturating_inc c Backward)) (room_entries tbl room) = []"
    using seek_backward_edge [OF assms(4)] by (auto simp: filter_empty_conv elim!: room_entry [OF assms(1)])
  then show ?thesis
    by (simp add: pdus_rev_def scan_from_def count_to_id_def assms(3) seek_prefix seek_bytes
        scan_block_backward [OF assms(1,2)])
qed

text \<open>\<^verbatim>\<open>bias_count\<close> orders all signed counts as numbers.\<close>

lemma bias_count_mono: "bias_count (u64_to_be a) < bias_count (u64_to_be b) \<longleftrightarrow> sint a < sint b"
proof -
  have "uint (a - i64_MIN) = (if uint a < 2 ^ 63 then uint a + 2 ^ 63 else uint a - 2 ^ 63)" for a :: i64
  proof -
    obtain k where "uint a = int k" "k < 2 ^ 64" using uint_nat_64 by blast
    then show ?thesis using mod_add_self2 [of "int k - 2 ^ 63" "2 ^ 64"]
      by (cases "k < 2 ^ 63") (auto simp: uint_word_ariths i64_MIN_def mod_pos_pos_trivial)
  qed
  then show ?thesis
    using uint_less_64 [of a] uint_less_64 [of b] uint_nat_64 [of a] uint_nat_64 [of b]
    by (auto simp: bias_count_def be64.dec_enc word_less_def sint_eq)
qed

section \<open>Property\<close>

text \<open>C21: Reading a room's timeline. Over a table whose keys ascend and are keys of stored counts, and which streams its
  entries from a key on and backwards, \<^verbatim>\<open>pdus\<close> from a position returns exactly the room's events after it, each once, in
  timeline order; without a position it returns all of the room's events; \<^verbatim>\<open>pdus_rev\<close> returns exactly the events before
  its position, newest first. Forward positions exclude backfilled 0 and -1, backward ones normal 0 and 1. Backfilled
  counts come before normal ones although their keys are longer and their bytes are those of negative numbers. An
  unknown room gives the one error.
\<close>

theorem timeline_scan:
  assumes "timeline_table tbl" "streams_from tbl raw_stream_from" "streams_down_from tbl rev_raw_stream_from"
    and "get_shortroomid room_id = Inr room"
  shows "(forward_start c \<longrightarrow> yields tbl read_pdu room (count_less c) count_less
        (pdus get_shortroomid raw_stream_from read_pdu room_id (Some c))) \<and>
    yields tbl read_pdu room (\<lambda>_. True) count_less (pdus get_shortroomid raw_stream_from read_pdu room_id None) \<and>
    (backward_start c \<longrightarrow> yields tbl read_pdu room (\<lambda>d. count_less d c) (\<lambda>x y. count_less y x)
        (pdus_rev get_shortroomid rev_raw_stream_from read_pdu room_id (Some c))) \<and>
    (get_shortroomid other = Inl e \<longrightarrow>
      pdus get_shortroomid raw_stream_from read_pdu other (Some c) = Some [Inl e] \<and>
      pdus_rev get_shortroomid rev_raw_stream_from read_pdu other (Some c) = Some [Inl e])"
proof (intro conjI impI)
  assume "forward_start c"
  then show "yields tbl read_pdu room (count_less c) count_less
      (pdus get_shortroomid raw_stream_from read_pdu room_id (Some c))"
    using scan_forward [of tbl raw_stream_from c get_shortroomid room_id room read_pdu, OF assms(1,2) _ assms(4)] yields_filter(1) [OF assms(1), of read_pdu room "count_less c"]
    by (simp add: pdus_def)
next
  have "filter (\<lambda>kv. count_less count_min (count_of_key (fst kv))) (room_entries tbl room) =
      filter (\<lambda>kv. True) (room_entries tbl room)"
    using min_before_stored by (intro filter_cong) (auto elim!: room_entry [OF assms(1)])
  then show "yields tbl read_pdu room (\<lambda>_. True) count_less (pdus get_shortroomid raw_stream_from read_pdu room_id None)"
    using scan_forward [of tbl raw_stream_from count_min get_shortroomid room_id room read_pdu, OF assms(1,2) forward_min assms(4)]
      yields_filter(1) [OF assms(1), of read_pdu room "\<lambda>_. True"]
    by (simp add: pdus_def)
next
  assume "backward_start c"
  then show "yields tbl read_pdu room (\<lambda>d. count_less d c) (\<lambda>x y. count_less y x)
      (pdus_rev get_shortroomid rev_raw_stream_from read_pdu room_id (Some c))"
    using scan_backward [of tbl rev_raw_stream_from c get_shortroomid room_id room read_pdu, OF assms(1,3) _ assms(4)] yields_filter(2) [OF assms(1), of read_pdu room "\<lambda>d. count_less d c"]
    by (simp add: pdus_rev_def)
qed (simp_all add: pdus_def pdus_rev_def scan_from_def count_to_id_def)

definition sample_table :: "(byte list \<times> nat) list" where
  "sample_table = [(key 7 (Backfilled (- 3)), 10), (key 7 (Normal 5), 20), (key 8 (Normal 6), 30)]"

definition sample_rooms :: "string \<Rightarrow> unit + u64" where
  "sample_rooms room = (if room = ''!a'' then Inr 7 else if room = ''!b'' then Inr 8 else Inl ())"

lemma sample_timeline: "timeline_table sample_table"
proof -
  have "key 7 c < key 8 d" for c d by (simp add: key_eq be_tail_less)
  moreover have "key 7 (Backfilled (- 3)) < key 7 (Normal 5)" by (simp add: key_less_same_room)
  ultimately have "sorted_wrt (<) (map fst sample_table)" by (simp add: sample_table_def)
  moreover have "count_stored (Backfilled (- 3))" "count_stored (Normal 5)" "count_stored (Normal 6)" by simp_all
  then have "\<forall>(k, v) \<in> set sample_table. \<exists>room c. count_stored c \<and> k = key room c"
    unfolding sample_table_def by (simp del: count_stored.simps) blast
  ultimately show ?thesis by (simp add: timeline_table_def)
qed

theorem timeline_scan_witness:
  "yields sample_table (Inr :: nat \<Rightarrow> unit + nat) 7 (count_less (Backfilled (- 3))) count_less
     (pdus sample_rooms (\<lambda>k. filter (\<lambda>kv. k \<le> fst kv) sample_table) Inr ''!a'' (Some (Backfilled (- 3))))"
  using timeline_scan [OF sample_timeline, of "\<lambda>k. filter (\<lambda>kv. k \<le> fst kv) sample_table"
      "\<lambda>k. rev (filter (\<lambda>kv. fst kv \<le> k) sample_table)" sample_rooms "''!a''" 7 "Backfilled (- 3)" Inr]
  by (simp add: streams_from_def streams_down_from_def sample_rooms_def)

text \<open>C22: At the positions that \<open>timeline_scan\<close> leaves out a scan does not return what lies beyond its position. Forward from
  backfilled 0 or -1 it returns all events of the room, as without a position; backward from normal 0 or 1 it returns
  nothing, although backfilled events lie before.
\<close>

theorem timeline_scan_edges:
  assumes "timeline_table tbl" "streams_from tbl raw_stream_from" "streams_down_from tbl rev_raw_stream_from"
    and "get_shortroomid room_id = Inr room"
  shows "(c \<in> {Backfilled 0, Backfilled (- 1)} \<longrightarrow>
      pdus get_shortroomid raw_stream_from read_pdu room_id (Some c) =
      pdus get_shortroomid raw_stream_from read_pdu room_id None) \<and>
    (c \<in> {Normal 0, Normal 1} \<longrightarrow> pdus_rev get_shortroomid rev_raw_stream_from read_pdu room_id (Some c) = Some [])"
  using forward_from_zero_restarts [of tbl raw_stream_from get_shortroomid room_id room c read_pdu]
    backward_from_one_empty [of tbl rev_raw_stream_from get_shortroomid room_id room c read_pdu] assms
  by simp

theorem timeline_scan_edges_witness:
  "pdus_rev sample_rooms (\<lambda>k. rev (filter (\<lambda>kv. fst kv \<le> k) sample_table)) (Inr :: nat \<Rightarrow> unit + nat) ''!a'' (Some (Normal 1)) = Some [] \<and>
   (key 7 (Backfilled (- 3)), 10) \<in> set sample_table \<and> count_less (Backfilled (- 3)) (Normal 1)"
  using timeline_scan_edges [OF sample_timeline, of "\<lambda>k. filter (\<lambda>kv. k \<le> fst kv) sample_table"
      "\<lambda>k. rev (filter (\<lambda>kv. fst kv \<le> k) sample_table)" sample_rooms "''!a''" 7 "Normal 1" Inr]
  by (simp add: streams_from_def streams_down_from_def sample_rooms_def sample_table_def count_less_iff)

end
