(* ===== verification/Pdu_Seq.thy ===== *)
theory Pdu_Seq
  imports Pdu_Position Room_Events
begin

text \<open>
  The numbering of a room's events and the positions written into stored events: \<^verbatim>\<open>src/core/matrix/pdu/seq.rs\<close>.
\<close>

section \<open>Sequence bounds of a room\<close>

record seq_bounds =
  last_forward :: i64
  next_backfilled :: i64

definition seq_default :: seq_bounds where
  "seq_default = \<lparr> last_forward = 0, next_backfilled = 0 \<rparr>"

definition ENCODED_LEN :: nat where "ENCODED_LEN = 16"

definition take_forward :: "seq_bounds \<Rightarrow> i64 \<times> seq_bounds" where
  "take_forward b = (let b' = b \<lparr> last_forward := i64_saturating_add (last_forward b) 1 \<rparr> in (last_forward b', b'))"

definition take_backfilled :: "seq_bounds \<Rightarrow> i64 \<times> seq_bounds" where
  "take_backfilled b = (let seq = next_backfilled b in (seq, b \<lparr> next_backfilled := i64_saturating_sub seq 1 \<rparr>))"

definition encode_bounds :: "seq_bounds \<Rightarrow> byte list" where
  "encode_bounds b = u64_to_be (last_forward b) @ u64_to_be (next_backfilled b)"

definition decode_bounds :: "byte list \<Rightarrow> nat + seq_bounds" where
  "decode_bounds bytes = (if length bytes \<noteq> ENCODED_LEN then Inl (length bytes)
     else Inr \<lparr> last_forward = u64_of_be (take 8 bytes), next_backfilled = u64_of_be (drop 8 bytes) \<rparr>)"

lemma decode_bounds_iff: "decode_bounds bytes = Inr b \<longleftrightarrow> bytes = encode_bounds b"
proof -
  have "encode_bounds b = u64_to_be (fst (last_forward b, next_backfilled b)) @ u64_to_be (snd (last_forward b, next_backfilled b))"
    by (simp add: encode_bounds_def)
  then show ?thesis
    using be64_pair.pair.enc_dec [of bytes] be64_pair.pair.dec_enc [of "(last_forward b, next_backfilled b)"]
    by (cases b) (auto simp: decode_bounds_def encode_bounds_def ENCODED_LEN_def)
qed

text \<open>Forward numbers of a room are 1, 2, 3 and backfilled ones 0, -1, -2, without a gap, whatever the interleaving.\<close>

fun take_seq :: "direction \<Rightarrow> seq_bounds \<Rightarrow> i64 \<times> seq_bounds" where
  "take_seq Forward b = take_forward b"
| "take_seq Backward b = take_backfilled b"

fun take_seqs :: "direction list \<Rightarrow> seq_bounds \<Rightarrow> i64 list \<times> seq_bounds" where
  "take_seqs [] b = ([], b)"
| "take_seqs (d # ds) b = (let (seq, b') = take_seq d b; (seqs, b'') = take_seqs ds b' in (seq # seqs, b''))"

definition of_direction :: "direction \<Rightarrow> direction list \<Rightarrow> 'a list \<Rightarrow> 'a list" where
  "of_direction d ds xs = map snd (filter (\<lambda>p. fst p = d) (zip ds xs))"

lemma take_seq_sint:
  "sint (last_forward b) < 2 ^ 63 - 1 \<Longrightarrow> take_seq Forward b = (seq, b') \<Longrightarrow>
     sint seq = sint (last_forward b) + 1 \<and> last_forward b' = seq \<and> next_backfilled b' = next_backfilled b"
  "- (2 ^ 63) < sint (next_backfilled b) \<Longrightarrow> take_seq Backward b = (seq, b') \<Longrightarrow>
     seq = next_backfilled b \<and> last_forward b' = last_forward b \<and> sint (next_backfilled b') = sint seq - 1"
  using sint_range [of "last_forward b"] sint_range [of "next_backfilled b"]
  by (auto simp: take_forward_def take_backfilled_def Let_def i64_saturating_add_def i64_saturating_sub_def
      i64_checked_add_def i64_checked_sub_def sint_inc sint_dec)

lemma fst_take_seqs: "take_seq d b = (seq, b') \<Longrightarrow> fst (take_seqs (d # ds) b) = seq # fst (take_seqs ds b')"
  by (simp add: split_beta Let_def)

lemma of_direction_simps [simp]:
  "of_direction e [] xs = []"
  "of_direction e (d # ds) (x # xs) = (if d = e then x # of_direction e ds xs else of_direction e ds xs)"
  by (simp_all add: of_direction_def)

lemma map_upt_shift: "map f [0..<Suc n] = f 0 # map (\<lambda>i. f (Suc i)) [0..<n]"
  by (simp add: upt_conv_Cons map_Suc_upt [symmetric] del: upt_Suc map_map) simp

lemma take_seqs_contiguous:
  assumes "sint (last_forward b) + int (length ds) < 2 ^ 63" "- (2 ^ 63) < sint (next_backfilled b) - int (length ds)"
  shows "map sint (of_direction Forward ds (fst (take_seqs ds b))) =
      map (\<lambda>i. sint (last_forward b) + 1 + int i) [0..<length (filter ((=) Forward) ds)]"
    and "map sint (of_direction Backward ds (fst (take_seqs ds b))) =
      map (\<lambda>i. sint (next_backfilled b) - int i) [0..<length (filter ((=) Backward) ds)]"
  using assms
proof (induction ds arbitrary: b)
  case (Cons d ds)
  {
    case 1
    obtain seq b' where t: "take_seq d b = (seq, b')" by (cases "take_seq d b")
    show ?case
      unfolding fst_take_seqs [OF t] using 1 Cons.IH(1) [of b'] take_seq_sint [of b seq b'] t
      by (cases d) (simp_all add: map_upt_shift add.assoc del: upt_Suc)
  next
    case 2
    obtain seq b' where t: "take_seq d b = (seq, b')" by (cases "take_seq d b")
    show ?case
      unfolding fst_take_seqs [OF t] using 2 Cons.IH(2) [of b'] take_seq_sint [of b seq b'] t
      by (cases d) (simp_all add: map_upt_shift del: upt_Suc)
  }
qed simp_all

section \<open>Positions in the stored event\<close>

text \<open>\<^verbatim>\<open>ruma::Int::new_saturating\<close> is a parameter.\<close>

definition R_SEQ_KEY :: string where "R_SEQ_KEY = ''org.wbftw.wbfuwunel.r_seq''"
definition G_SEQ_KEY :: string where "G_SEQ_KEY = ''org.wbftw.wbfuwunel.g_seq''"

record positions =
  r_seq :: i64
  g_seq :: i64

definition get_unsigned_integer :: "canonical_object \<Rightarrow> string \<Rightarrow> i64 option" where
  "get_unsigned_integer js k = (case map_of js ''unsigned'' of
     Some (CObject obj) \<Rightarrow> (case map_of obj k of Some (CInteger n) \<Rightarrow> Some (word_of_int n) | _ \<Rightarrow> None)
   | _ \<Rightarrow> None)"

definition get_json_positions :: "canonical_object \<Rightarrow> positions option" where
  "get_json_positions js = (case get_unsigned_integer js R_SEQ_KEY of
     None \<Rightarrow> None
   | Some r \<Rightarrow> (case get_unsigned_integer js G_SEQ_KEY of
       None \<Rightarrow> None
     | Some g \<Rightarrow> Some \<lparr> r_seq = r, g_seq = g \<rparr>))"

definition set_json_positions :: "(i64 \<Rightarrow> int) \<Rightarrow> canonical_object \<Rightarrow> positions \<Rightarrow> canonical_object" where
  "set_json_positions new_saturating js p =
     upsert ''unsigned'' (CObject []) (\<lambda>uns.
       let obj = (case uns of CObject obj \<Rightarrow> obj | _ \<Rightarrow> [])
       in CObject (map_insert G_SEQ_KEY (CInteger (new_saturating (g_seq p)))
            (map_insert R_SEQ_KEY (CInteger (new_saturating (r_seq p))) obj))) js"

definition strip_positions :: "canonical_json \<Rightarrow> canonical_json" where
  "strip_positions v = (case v of
     CObject obj \<Rightarrow> CObject (filter (\<lambda>(k, _). k \<noteq> R_SEQ_KEY \<and> k \<noteq> G_SEQ_KEY) obj)
   | _ \<Rightarrow> v)"

definition remove_json_positions :: "canonical_object \<Rightarrow> canonical_object" where
  "remove_json_positions js = map (\<lambda>(k, v). (k, if k = ''unsigned'' then strip_positions v else v)) js"

lemma seq_keys_differ [simp]: "R_SEQ_KEY \<noteq> G_SEQ_KEY"
  by (simp add: R_SEQ_KEY_def G_SEQ_KEY_def)

text \<open>
  What is written is read back when the integers fit, every other member of the event survives, and a copy that leaves
  the server carries neither number.
\<close>

lemma positions_round_trip:
  assumes "new_saturating (r_seq p) = sint (r_seq p)" "new_saturating (g_seq p) = sint (g_seq p)"
  shows "get_json_positions (set_json_positions new_saturating js p) = Some p"
  using assms
  by (simp add: get_json_positions_def get_unsigned_integer_def set_json_positions_def map_of_upsert Let_def map_insert_def)

lemma positions_frame:
  "k \<noteq> ''unsigned'' \<Longrightarrow> map_of (set_json_positions new_saturating js p) k = map_of js k"
  "map_of js ''unsigned'' = Some (CObject obj) \<Longrightarrow> k \<noteq> R_SEQ_KEY \<Longrightarrow> k \<noteq> G_SEQ_KEY \<Longrightarrow>
   (\<exists>obj'. map_of (set_json_positions new_saturating js p) ''unsigned'' = Some (CObject obj') \<and> map_of obj' k = map_of obj k)"
  by (auto simp: set_json_positions_def map_of_upsert Let_def map_insert_def)

lemma map_of_remove_positions:
  "map_of (remove_json_positions js) k =
   map_option (\<lambda>v. if k = ''unsigned'' then strip_positions v else v) (map_of js k)"
  by (induction js) (auto simp: remove_json_positions_def)

lemma positions_removed: "get_json_positions (remove_json_positions js) = None"
proof -
  have "map_of (filter (\<lambda>(k, _). k \<noteq> R_SEQ_KEY \<and> k \<noteq> G_SEQ_KEY) obj) R_SEQ_KEY = None" for obj :: canonical_object
    by (auto simp: map_of_eq_None_iff)
  then have "get_unsigned_integer (remove_json_positions js) R_SEQ_KEY = None"
    by (simp add: get_unsigned_integer_def map_of_remove_positions strip_positions_def split: option.splits canonical_json.splits)
  then show ?thesis by (simp add: get_json_positions_def)
qed

end
