(* ===== verification/State_Compressor.thy ===== *)
theory State_Compressor
  imports Codec
begin

text \<open>
  Room states as layers of differences: \<^verbatim>\<open>src/service/rooms/state_compressor/mod.rs\<close>, with the short ids of states
  created by \<^verbatim>\<open>src/service/rooms/short/mod.rs\<close>. A \<^verbatim>\<open>BTreeSet\<close> is a finite set, iterated in the order of its elements.
  The tables are maps. Parameters are the SHA-256 digest of the crypto library, the LRU cache, and the number drawn from the counter.
  Loading follows parents as rows name them and so may not end on a bad table: it is a partial function.
\<close>

section \<open>Data\<close>

type_synonym short_id = u64
type_synonym compressed_event = "byte list"
type_synonym compressed_state = "compressed_event set"

record state_diff =
  sd_parent :: "short_id option"
  sd_added :: compressed_state
  sd_removed :: compressed_state

record state_info =
  si_shortstatehash :: short_id
  si_full_state :: compressed_state
  si_added :: compressed_state
  si_removed :: compressed_state

type_synonym info_stack = "state_info list"

datatype compressor_error = NoStateDiff short_id | Arithmetic

text \<open>The LRU cache: what it holds for a key, and the cache after a lookup and after an insertion.\<close>

record 'c lru =
  lru_find :: "'c \<Rightarrow> short_id \<Rightarrow> info_stack option"
  lru_touch :: "'c \<Rightarrow> short_id \<Rightarrow> 'c"
  lru_put :: "'c \<Rightarrow> short_id \<Rightarrow> info_stack \<Rightarrow> 'c"

record ('h, 'c) store =
  statehash_shortstatehash :: "'h \<Rightarrow> short_id option"
  shortstatehash_statediff :: "short_id \<Rightarrow> byte list option"
  stateinfo_cache :: 'c

section \<open>Entries and rows\<close>

definition compress_state_event :: "short_id \<Rightarrow> short_id \<Rightarrow> compressed_event" where
  "compress_state_event shortstatekey shorteventid = u64_to_be shortstatekey @ u64_to_be shorteventid"

definition parse_compressed_state_event :: "compressed_event \<Rightarrow> short_id \<times> short_id" where
  "parse_compressed_state_event ev = (u64_of_be (take 8 ev), u64_of_be (drop 8 ev))"

definition statediff_row :: "state_diff \<Rightarrow> byte list" where
  "statediff_row diff =
     u64_to_be (case sd_parent diff of Some p \<Rightarrow> p | None \<Rightarrow> 0) @
     concat (sorted_list_of_set (sd_added diff)) @
     (if sd_removed diff = {} then [] else u64_to_be 0 @ concat (sorted_list_of_set (sd_removed diff)))"

definition save_statediff ::
  "(short_id \<times> byte list) list \<Rightarrow> short_id \<Rightarrow> state_diff \<Rightarrow> (short_id \<times> byte list) list" where
  "save_statediff txn shortstatehash diff = txn @ [(shortstatehash, statediff_row diff)]"

text \<open>The loop over a row, from the bytes left to read\<close>

function read_entries ::
  "byte list \<Rightarrow> bool \<Rightarrow> compressed_state \<Rightarrow> compressed_state \<Rightarrow> compressed_state \<times> compressed_state" where
  "read_entries rest add_mode added removed =
     (if length rest < 16 then (added, removed)
      else let v = take 16 rest in
        if add_mode \<and> take 8 v = u64_to_be 0 then read_entries (drop 8 rest) False added removed
        else if add_mode then read_entries (drop 16 rest) add_mode (insert v added) removed
        else read_entries (drop 16 rest) add_mode added (insert v removed))"
  by pat_completeness auto
termination
  by (relation "measure (\<lambda>(rest, _). length rest)") auto

declare read_entries.simps [simp del]

text \<open>A row of less than eight bytes is a panic.\<close>

definition get_statediff :: "('h, 'c) store \<Rightarrow> short_id \<Rightarrow> (compressor_error + state_diff) option" where
  "get_statediff st shortstatehash = (case shortstatehash_statediff st shortstatehash of
     None \<Rightarrow> Some (Inl (NoStateDiff shortstatehash))
   | Some row \<Rightarrow>
       (case range_get row 0 8 of
          None \<Rightarrow> None
        | Some first \<Rightarrow>
            (let parent = (case u64_from_bytes first of None \<Rightarrow> None | Some p \<Rightarrow> if p = 0 then None else Some p);
                 (added, removed) = read_entries (drop 8 row) True {} {}
             in Some (Inr \<lparr> sd_parent = parent, sd_added = added, sd_removed = removed \<rparr>))))"

section \<open>Loading a state\<close>

definition base_info :: "short_id \<Rightarrow> state_diff \<Rightarrow> state_info" where
  "base_info h diff = \<lparr> si_shortstatehash = h, si_full_state = sd_added diff,
     si_added = sd_added diff, si_removed = sd_removed diff \<rparr>"

definition layer_info :: "short_id \<Rightarrow> state_diff \<Rightarrow> compressed_state \<Rightarrow> state_info" where
  "layer_info h diff parent_full = \<lparr> si_shortstatehash = h,
     si_full_state = (parent_full \<union> sd_added diff) - sd_removed diff,
     si_added = sd_added diff, si_removed = sd_removed diff \<rparr>"

definition cache_shortstatehash_info ::
  "'c lru \<Rightarrow> ('h, 'c) store \<Rightarrow> short_id \<Rightarrow> info_stack \<Rightarrow> ('h, 'c) store" where
  "cache_shortstatehash_info L st h stack = st \<lparr> stateinfo_cache := lru_put L (stateinfo_cache st) h stack \<rparr>"

definition touch_cache :: "'c lru \<Rightarrow> ('h, 'c) store \<Rightarrow> short_id \<Rightarrow> ('h, 'c) store" where
  "touch_cache L st h = st \<lparr> stateinfo_cache := lru_touch L (stateinfo_cache st) h \<rparr>"

text \<open>
  \<^verbatim>\<open>load_shortstatehash_info\<close>, with the body of \<^verbatim>\<open>new_shortstatehash_info\<close> in place. An empty stack of a parent would be
  the panic of \<^verbatim>\<open>expect\<close>.
\<close>

partial_function (option) load_shortstatehash_info ::
  "'c lru \<Rightarrow> ('h, 'c) store \<Rightarrow> short_id \<Rightarrow> ((compressor_error + info_stack) \<times> ('h, 'c) store) option" where
  "load_shortstatehash_info L st h =
     (case lru_find L (stateinfo_cache st) h of
        Some stack \<Rightarrow> Some (Inr stack, touch_cache L st h)
      | None \<Rightarrow>
          Option.bind (get_statediff st h) (\<lambda>r. case r of
            Inl e \<Rightarrow> Some (Inl e, touch_cache L st h)
          | Inr diff \<Rightarrow>
              (case sd_parent diff of
                 None \<Rightarrow> Some (Inr [base_info h diff],
                   cache_shortstatehash_info L (touch_cache L st h) h [base_info h diff])
               | Some parent \<Rightarrow>
                   Option.bind (load_shortstatehash_info L (touch_cache L st h) parent) (\<lambda>(r', st').
                     case r' of
                       Inl e \<Rightarrow> Some (Inl e, st')
                     | Inr stack \<Rightarrow>
                         if stack = [] then None
                         else (let stack' = stack @ [layer_info h diff (si_full_state (last stack))]
                               in Some (Inr stack', cache_shortstatehash_info L st' h stack'))))))"

declare load_shortstatehash_info.simps [code]

section \<open>Saving a state\<close>

definition forget_removed :: "compressed_event \<Rightarrow> compressed_state \<times> compressed_state \<Rightarrow> compressed_state \<times> compressed_state" where
  "forget_removed r acc = (case acc of (parent_new, parent_removed) \<Rightarrow>
     if r \<in> parent_new then (parent_new - {r}, parent_removed) else (parent_new, insert r parent_removed))"

definition forget_new :: "compressed_event \<Rightarrow> compressed_state \<times> compressed_state \<Rightarrow> compressed_state \<times> compressed_state" where
  "forget_new n acc = (case acc of (parent_new, parent_removed) \<Rightarrow>
     if n \<in> parent_removed then (parent_new, parent_removed - {n}) else (insert n parent_new, parent_removed))"

text \<open>The two loops that fold a difference into the one of the layer above\<close>

definition merge_into_parent :: "state_info \<Rightarrow> compressed_state \<Rightarrow> compressed_state \<Rightarrow> compressed_state \<times> compressed_state" where
  "merge_into_parent parent statediffnew statediffremoved =
     fold forget_new (sorted_list_of_set statediffnew)
       (fold forget_removed (sorted_list_of_set statediffremoved) (si_added parent, si_removed parent))"

function save_state_from_diff ::
  "(short_id \<times> byte list) list \<Rightarrow> short_id \<Rightarrow> compressed_state \<Rightarrow> compressed_state \<Rightarrow> nat \<Rightarrow> info_stack \<Rightarrow>
   compressor_error + (short_id \<times> byte list) list" where
  "save_state_from_diff txn h statediffnew statediffremoved diff_to_sibling parent_states =
     (case checked_add (card statediffnew) (card statediffremoved) of
        None \<Rightarrow> Inl Arithmetic
      | Some diffsum \<Rightarrow>
          if length parent_states > 3 then
            (case merge_into_parent (last parent_states) statediffnew statediffremoved of (parent_new, parent_removed) \<Rightarrow>
               save_state_from_diff txn h parent_new parent_removed diffsum (butlast parent_states))
          else if parent_states = [] then
            Inr (save_statediff txn h \<lparr> sd_parent = None, sd_added = statediffnew, sd_removed = statediffremoved \<rparr>)
          else
            (let parent = last parent_states in
             case checked_add (card (si_added parent)) (card (si_removed parent)) of
               None \<Rightarrow> Inl Arithmetic
             | Some parent_diff \<Rightarrow>
                 (case (checked_mul diffsum diffsum, Option.bind (checked_mul 2 diff_to_sibling) (\<lambda>d. checked_mul d parent_diff)) of
                    (Some square, Some bound) \<Rightarrow>
                      if square \<ge> bound then
                        (case merge_into_parent parent statediffnew statediffremoved of (parent_new, parent_removed) \<Rightarrow>
                           save_state_from_diff txn h parent_new parent_removed diffsum (butlast parent_states))
                      else
                        Inr (save_statediff txn h \<lparr> sd_parent = Some (si_shortstatehash parent),
                               sd_added = statediffnew, sd_removed = statediffremoved \<rparr>)
                  | _ \<Rightarrow> Inl Arithmetic)))"
  by pat_completeness auto
termination
  by (relation "measure (\<lambda>(_, _, _, _, _, parents). length parents)") (auto split: if_splits)

declare save_state_from_diff.simps [simp del]

text \<open>
  \<^verbatim>\<open>get_or_create_shortstatehash\<close> with \<^verbatim>\<open>create_shortstatehash\<close>: the writes of the transaction are applied together, and not
  at all when writing the difference fails. The number drawn from the counter is an argument.
\<close>

definition create_shortstatehash ::
  "('h, 'c) store \<Rightarrow> 'h \<Rightarrow> short_id \<Rightarrow>
   ((short_id \<times> byte list) list \<Rightarrow> short_id \<Rightarrow> compressor_error + (short_id \<times> byte list) list) \<Rightarrow>
   (compressor_error + short_id \<times> bool) \<times> ('h, 'c) store" where
  "create_shortstatehash st state_hash next_count write_statediff =
     (case statehash_shortstatehash st state_hash of
        Some h \<Rightarrow> (Inr (h, True), st)
      | None \<Rightarrow> (case write_statediff [] next_count of
          Inl e \<Rightarrow> (Inl e, st)
        | Inr txn \<Rightarrow> (Inr (next_count, False),
            st \<lparr> statehash_shortstatehash := (statehash_shortstatehash st)(state_hash \<mapsto> next_count),
                 shortstatehash_statediff := fold (\<lambda>(k, v) m. m(k \<mapsto> v)) txn (shortstatehash_statediff st) \<rparr>)))"

definition get_or_create_shortstatehash ::
  "('h, 'c) store \<Rightarrow> 'h \<Rightarrow> short_id \<Rightarrow>
   ((short_id \<times> byte list) list \<Rightarrow> short_id \<Rightarrow> compressor_error + (short_id \<times> byte list) list) \<Rightarrow>
   (compressor_error + short_id \<times> bool) \<times> ('h, 'c) store" where
  "get_or_create_shortstatehash st state_hash next_count write_statediff =
     (case statehash_shortstatehash st state_hash of
        Some h \<Rightarrow> (Inr (h, True), st)
      | None \<Rightarrow> create_shortstatehash st state_hash next_count write_statediff)"

record state_change =
  sc_shortstatehash :: short_id
  sc_added :: compressed_state
  sc_removed :: compressed_state

definition load_parents ::
  "'c lru \<Rightarrow> ('h, 'c) store \<Rightarrow> short_id option \<Rightarrow> (info_stack \<times> ('h, 'c) store) option" where
  "load_parents L st previous = (case previous of
     None \<Rightarrow> Some ([], st)
   | Some p \<Rightarrow> map_option (\<lambda>(r, st'). (case r of Inr stack \<Rightarrow> stack | Inl _ \<Rightarrow> [], st')) (load_shortstatehash_info L st p))"

definition diff_to_parent :: "info_stack \<Rightarrow> compressed_state \<Rightarrow> compressed_state \<times> compressed_state" where
  "diff_to_parent states_parents new_state =
     (if states_parents = [] then (new_state, {})
      else (new_state - si_full_state (last states_parents), si_full_state (last states_parents) - new_state))"

text \<open>\<^verbatim>\<open>utils::calculate_hash\<close>, that is \<^verbatim>\<open>hash::sha256::delimited\<close>: the digest of the inputs joined by \<^verbatim>\<open>0xFF\<close> bytes.\<close>

definition sha256_delimited :: "(byte list \<Rightarrow> 'h) \<Rightarrow> byte list list \<Rightarrow> 'h" where
  "sha256_delimited sha256 inputs = sha256 (case inputs of [] \<Rightarrow> [] | input # rest \<Rightarrow> input @ concat (map (\<lambda>input. 0xFF # input) rest))"

definition calculate_hash :: "(byte list \<Rightarrow> 'h) \<Rightarrow> compressed_state \<Rightarrow> 'h" where
  "calculate_hash sha256 new_state = sha256_delimited sha256 (sorted_list_of_set new_state)"

definition save_state ::
  "'c lru \<Rightarrow> (byte list \<Rightarrow> 'h) \<Rightarrow> ('h, 'c) store \<Rightarrow> short_id option \<Rightarrow> compressed_state \<Rightarrow> short_id \<Rightarrow>
   ((compressor_error + state_change) \<times> ('h, 'c) store) option" where
  "save_state L sha256 st previous new_state next_count =
     (let state_hash = calculate_hash sha256 new_state;
          existing = statehash_shortstatehash st state_hash
      in if existing \<noteq> None \<and> previous = existing
         then Some (Inr \<lparr> sc_shortstatehash = the existing, sc_added = {}, sc_removed = {} \<rparr>, st)
         else Option.bind (load_parents L st previous) (\<lambda>(states_parents, st').
           let (statediffnew, statediffremoved) = diff_to_parent states_parents new_state
           in case existing of
                Some h \<Rightarrow> Some (Inr \<lparr> sc_shortstatehash = h, sc_added = statediffnew, sc_removed = statediffremoved \<rparr>, st')
              | None \<Rightarrow>
                  (case get_or_create_shortstatehash st' state_hash next_count
                     (\<lambda>txn h. save_state_from_diff txn h statediffnew statediffremoved 2 states_parents) of
                     (Inl e, st'') \<Rightarrow> Some (Inl e, st'')
                   | (Inr (h, _), st'') \<Rightarrow>
                       Some (Inr \<lparr> sc_shortstatehash = h, sc_added = statediffnew, sc_removed = statediffremoved \<rparr>, st''))))"

section \<open>Rows round trip\<close>

lemma parse_compress: "parse_compressed_state_event (compress_state_event k e) = (k, e)"
  using be64_pair.pair.dec_enc [of "(k, e)"] by (simp add: parse_compressed_state_event_def compress_state_event_def)

lemma compress_parse:
  "length ev = 16 \<Longrightarrow> compress_state_event (fst (parse_compressed_state_event ev)) (snd (parse_compressed_state_event ev)) = ev"
  using be64_pair.pair.enc_dec [of ev] by (simp add: parse_compressed_state_event_def compress_state_event_def)

text \<open>An entry is sixteen bytes, and its state key is not 0: the numbers of the counter start at 1.\<close>

definition entry_ok :: "compressed_event \<Rightarrow> bool" where
  "entry_ok ev \<longleftrightarrow> length ev = 16 \<and> take 8 ev \<noteq> u64_to_be 0"

definition entries_ok :: "compressed_state \<Rightarrow> bool" where
  "entries_ok X \<longleftrightarrow> finite X \<and> (\<forall>ev \<in> X. entry_ok ev)"

definition diff_ok :: "state_diff \<Rightarrow> bool" where
  "diff_ok d \<longleftrightarrow> entries_ok (sd_added d) \<and> entries_ok (sd_removed d) \<and> sd_parent d \<noteq> Some 0"

lemma entry_ok_compress: "entry_ok (compress_state_event k e) \<longleftrightarrow> k \<noteq> 0"
  by (simp add: entry_ok_def compress_state_event_def be64.enc_inject)

lemma read_removed:
  "\<forall>ev \<in> set xs. length ev = 16 \<Longrightarrow> read_entries (concat xs) False A R = (A, R \<union> set xs)"
  by (induction xs arbitrary: R) (auto simp: read_entries.simps)

lemma read_added:
  "\<forall>ev \<in> set xs. entry_ok ev \<Longrightarrow> read_entries (concat xs @ tail) True A R = read_entries tail True (A \<union> set xs) R"
proof (induction xs arbitrary: A)
  case (Cons ev xs)
  then have "length ev = 16" "take 8 ev \<noteq> u64_to_be 0" by (auto simp: entry_ok_def)
  then have "read_entries (concat (ev # xs) @ tail) True A R = read_entries (concat xs @ tail) True (insert ev A) R"
    by (subst read_entries.simps) (simp add: Let_def)
  then show ?case using Cons by simp
qed simp

lemma read_separator:
  "xs \<noteq> [] \<Longrightarrow> \<forall>ev \<in> set xs. length ev = 16 \<Longrightarrow> read_entries (u64_to_be 0 @ concat xs) True A R = (A, R \<union> set xs)"
proof -
  assume xs: "xs \<noteq> []" "\<forall>ev \<in> set xs. length ev = 16"
  then have "16 \<le> length (concat xs)" by (cases xs) auto
  then have "read_entries (u64_to_be 0 @ concat xs) True A R = read_entries (concat xs) False A R"
    by (subst read_entries.simps) (simp add: Let_def)
  then show ?thesis using read_removed [OF xs(2)] by simp
qed

lemma statediff_round_trip:
  assumes "diff_ok d" "shortstatehash_statediff st h = Some (statediff_row d)"
  shows "get_statediff st h = Some (Inr d)"
proof -
  let ?a = "sorted_list_of_set (sd_added d)" and ?r = "sorted_list_of_set (sd_removed d)"
  have a: "set ?a = sd_added d" "\<forall>ev \<in> set ?a. entry_ok ev" and r: "set ?r = sd_removed d" "\<forall>ev \<in> set ?r. length ev = 16"
    using assms(1) by (auto simp: diff_ok_def entries_ok_def entry_ok_def)
  define body where "body = concat ?a @ (if sd_removed d = {} then [] else u64_to_be 0 @ concat ?r)"
  have "read_entries body True {} {} = (sd_added d, sd_removed d)"
  proof (cases "sd_removed d = {}")
    case True
    then show ?thesis using read_added [OF a(2), of "[]"] a(1) by (simp add: read_entries.simps body_def)
  next
    case False
    then have "?r \<noteq> []" using r(1) by auto
    then show ?thesis using read_added [OF a(2)] read_separator [OF _ r(2)] a(1) r(1) False by (simp add: body_def)
  qed
  moreover have "statediff_row d = u64_to_be (case sd_parent d of Some p \<Rightarrow> p | None \<Rightarrow> 0) @ body"
    by (simp add: statediff_row_def body_def)
  ultimately show ?thesis
    using assms by (cases "sd_parent d") (auto simp: get_statediff_def diff_ok_def intro: state_diff.equality)
qed

section \<open>Merging differences\<close>

lemma fold_forget_removed:
  "distinct xs \<Longrightarrow> fold forget_removed xs (A, R) = (A - set xs, R \<union> (set xs - A))"
  by (induction xs arbitrary: A R) (auto simp: forget_removed_def)

lemma fold_forget_new:
  "distinct xs \<Longrightarrow> fold forget_new xs (A, R) = (A \<union> (set xs - R), R - set xs)"
  by (induction xs arbitrary: A R) (auto simp: forget_new_def)

lemma merge_into_parent_eq:
  "finite N \<Longrightarrow> finite D \<Longrightarrow> merge_into_parent p N D =
     ((si_added p - D) \<union> (N - (si_removed p \<union> (D - si_added p))), (si_removed p \<union> (D - si_added p)) - N)"
  by (simp add: merge_into_parent_def fold_forget_removed fold_forget_new)

text \<open>\<open>exact A R F\<close>: the difference adds what the state does not hold and removes what it holds.\<close>

definition exact :: "compressed_state \<Rightarrow> compressed_state \<Rightarrow> compressed_state \<Rightarrow> bool" where
  "exact A R F \<longleftrightarrow> A \<inter> F = {} \<and> R \<subseteq> F"

lemma merge_exact:
  assumes "exact A R G" "exact N D ((G \<union> A) - R)"
    and "A' = (A - D) \<union> (N - (R \<union> (D - A)))" "R' = (R \<union> (D - A)) - N"
  shows "exact A' R' G" and "(G \<union> A') - R' = (((G \<union> A) - R) \<union> N) - D"
  using assms by (auto simp: exact_def)

section \<open>What the tables hold\<close>

text \<open>
  \<open>layered rows h stack\<close>: the row of \<open>h\<close> and of each parent it leads to is a well-formed difference, exact for the state
  below it; \<open>stack\<close> is what they stand for, the bottom layer first.
\<close>

inductive layered :: "(short_id \<Rightarrow> byte list option) \<Rightarrow> short_id \<Rightarrow> info_stack \<Rightarrow> bool" for rows where
  bottom: "rows h = Some (statediff_row d) \<Longrightarrow> diff_ok d \<Longrightarrow> h \<noteq> 0 \<Longrightarrow> sd_parent d = None \<Longrightarrow> sd_removed d = {} \<Longrightarrow>
    layered rows h [base_info h d]"
| layer: "rows h = Some (statediff_row d) \<Longrightarrow> diff_ok d \<Longrightarrow> h \<noteq> 0 \<Longrightarrow> sd_parent d = Some p \<Longrightarrow> layered rows p stack \<Longrightarrow>
    exact (sd_added d) (sd_removed d) (si_full_state (last stack)) \<Longrightarrow>
    layered rows h (stack @ [layer_info h d (si_full_state (last stack))])"

definition full_of :: "info_stack \<Rightarrow> compressed_state" where
  "full_of stack = (if stack = [] then {} else si_full_state (last stack))"

lemma chain_nonempty: "layered rows h stack \<Longrightarrow> stack \<noteq> []"
  by (induction rule: layered.induct) auto

lemma chain_last:
  assumes "layered rows h stack"
  shows "si_shortstatehash (last stack) = h" and "h \<noteq> 0" and "rows h \<noteq> None"
    and "butlast stack \<noteq> [] \<Longrightarrow> layered rows (si_shortstatehash (last (butlast stack))) (butlast stack)"
    and "exact (si_added (last stack)) (si_removed (last stack)) (full_of (butlast stack))"
    and "si_full_state (last stack) = (full_of (butlast stack) \<union> si_added (last stack)) - si_removed (last stack)"
    and "entries_ok (si_added (last stack))" and "entries_ok (si_removed (last stack))"
  using assms
  by (induction rule: layered.induct)
    (auto simp: base_info_def layer_info_def full_of_def exact_def diff_ok_def dest: chain_nonempty)

lemma entries_ok_set: "entries_ok A \<Longrightarrow> entries_ok B \<Longrightarrow> entries_ok (A \<union> B)" "entries_ok A \<Longrightarrow> entries_ok (A - C)"
  by (auto simp: entries_ok_def)

lemma chain_full_ok: "layered rows h stack \<Longrightarrow> entries_ok (si_full_state (last stack))"
  by (induction rule: layered.induct) (auto simp: base_info_def layer_info_def diff_ok_def intro!: entries_ok_set)

lemma chain_update:
  "layered rows h stack \<Longrightarrow> rows fresh = None \<Longrightarrow> layered (rows(fresh \<mapsto> v)) h stack"
proof (induction rule: layered.induct)
  case (bottom h d)
  then show ?case by (intro layered.bottom) auto
next
  case (layer h d p stack)
  then show ?case by (intro layered.layer) auto
qed

lemma statediff_row_inject:
  assumes "diff_ok d" "diff_ok d'" "statediff_row d = statediff_row d'"
  shows "d = d'"
proof -
  let ?st = "\<lparr> statehash_shortstatehash = (\<lambda>_ :: unit. None), shortstatehash_statediff = (\<lambda>_. Some (statediff_row d)),
    stateinfo_cache = () \<rparr>"
  have "get_statediff ?st 0 = Some (Inr d)" "get_statediff ?st 0 = Some (Inr d')"
    using assms by (intro statediff_round_trip; simp)+
  then show ?thesis by simp
qed

lemma chain_row:
  assumes "layered rows h stack" "rows h = Some (statediff_row d)" "diff_ok d"
  shows "sd_parent d = None \<Longrightarrow> stack = [base_info h d]"
    and "sd_parent d = Some p \<Longrightarrow>
      \<exists>below. layered rows p below \<and> stack = below @ [layer_info h d (si_full_state (last below))]"
proof -
  have "(sd_parent d = None \<and> stack = [base_info h d]) \<or>
    (\<exists>p below. sd_parent d = Some p \<and> layered rows p below \<and> stack = below @ [layer_info h d (si_full_state (last below))])"
    using assms(1)
  proof cases
    case (bottom d')
    have "statediff_row d' = statediff_row d" using bottom(2) assms(2) by simp
    then have "d' = d" by (rule statediff_row_inject [OF bottom(3) assms(3)])
    then show ?thesis using bottom(1,5) by simp
  next
    case (layer d' p below)
    have "statediff_row d' = statediff_row d" using layer(2) assms(2) by simp
    then have "d' = d" by (rule statediff_row_inject [OF layer(3) assms(3)])
    then show ?thesis using layer(1,5,6) by auto
  qed
  then show "sd_parent d = None \<Longrightarrow> stack = [base_info h d]"
    and "sd_parent d = Some p \<Longrightarrow>
      \<exists>below. layered rows p below \<and> stack = below @ [layer_info h d (si_full_state (last below))]"
    by auto
qed

lemma chain_functional: "layered rows h stack \<Longrightarrow> layered rows h stack' \<Longrightarrow> stack = stack'"
proof (induction arbitrary: stack' rule: layered.induct)
  case (bottom h d)
  show ?case using chain_row(1) [OF bottom.prems bottom.hyps(1,2,4)] by simp
next
  case (layer h d p stack)
  obtain below where "layered rows p below" "stack' = below @ [layer_info h d (si_full_state (last below))]"
    using chain_row(2) [OF layer.prems layer.hyps(1,2,4)] by blast
  moreover have "stack = below" using layer.IH calculation(1) .
  ultimately show ?case by simp
qed

text \<open>What the code relies on in the cache: a lookup changes nothing found, an insertion changes only its own key, and either may drop entries.\<close>

definition lru_lawful :: "'c lru \<Rightarrow> bool" where
  "lru_lawful L \<longleftrightarrow>
     (\<forall>c k k' v. lru_find L (lru_touch L c k) k' = Some v \<longrightarrow> lru_find L c k' = Some v) \<and>
     (\<forall>c k stack k' v. lru_find L (lru_put L c k stack) k' = Some v \<longrightarrow>
        (if k' = k then v = stack else lru_find L c k' = Some v))"

definition compressor_ok :: "'c lru \<Rightarrow> (compressed_state \<Rightarrow> 'h) \<Rightarrow> ('h, 'c) store \<Rightarrow> bool" where
  "compressor_ok L f st \<longleftrightarrow>
     (\<forall>h. shortstatehash_statediff st h \<noteq> None \<longrightarrow>
        (\<exists>stack. layered (shortstatehash_statediff st) h stack \<and> length stack \<le> 4)) \<and>
     (\<forall>h stack. lru_find L (stateinfo_cache st) h = Some stack \<longrightarrow> layered (shortstatehash_statediff st) h stack) \<and>
     (\<forall>x h. statehash_shortstatehash st x = Some h \<longrightarrow>
        (\<exists>stack. layered (shortstatehash_statediff st) h stack \<and> f (si_full_state (last stack)) = x))"

text \<open>No state held has the hash of the state to be saved, unless it is that state.\<close>

definition collision_free :: "(compressed_state \<Rightarrow> 'h) \<Rightarrow> ('h, 'c) store \<Rightarrow> compressed_state \<Rightarrow> bool" where
  "collision_free f st new_state \<longleftrightarrow> (\<forall>h stack. layered (shortstatehash_statediff st) h stack \<and>
     f (si_full_state (last stack)) = f new_state \<longrightarrow> si_full_state (last stack) = new_state)"

definition same_tables :: "('h, 'c) store \<Rightarrow> ('h, 'c) store \<Rightarrow> bool" where
  "same_tables st st' \<longleftrightarrow> shortstatehash_statediff st' = shortstatehash_statediff st \<and>
     statehash_shortstatehash st' = statehash_shortstatehash st"

lemma lru_touch_find: "lru_lawful L \<Longrightarrow> lru_find L (lru_touch L c k) k' = Some v \<Longrightarrow> lru_find L c k' = Some v"
  unfolding lru_lawful_def by blast

lemma lru_put_find:
  "lru_lawful L \<Longrightarrow> lru_find L (lru_put L c k stack) k' = Some v \<Longrightarrow> if k' = k then v = stack else lru_find L c k' = Some v"
  unfolding lru_lawful_def by blast

lemma compressor_ok_cache:
  assumes "compressor_ok L f st"
    and "\<And>h stack. lru_find L c h = Some stack \<Longrightarrow> layered (shortstatehash_statediff st) h stack"
  shows "compressor_ok L f (st \<lparr> stateinfo_cache := c \<rparr>)"
  using assms(1) unfolding compressor_ok_def by (simp add: assms(2))

lemma compressor_ok_cached:
  "compressor_ok L f st \<Longrightarrow> lru_find L (stateinfo_cache st) h = Some stack \<Longrightarrow> layered (shortstatehash_statediff st) h stack"
  unfolding compressor_ok_def by blast

lemma touch_ok:
  assumes "lru_lawful L" "compressor_ok L f st"
  shows "compressor_ok L f (touch_cache L st h)" and "same_tables st (touch_cache L st h)"
  unfolding touch_cache_def same_tables_def
  by (rule compressor_ok_cache [OF assms(2)], erule compressor_ok_cached [OF assms(2) lru_touch_find [OF assms(1)]]) simp

lemma cache_ok:
  assumes "lru_lawful L" "compressor_ok L f st" "layered (shortstatehash_statediff st) h stack"
  shows "compressor_ok L f (cache_shortstatehash_info L st h stack)" and "same_tables st (cache_shortstatehash_info L st h stack)"
proof -
  have "layered (shortstatehash_statediff st) k v" if "lru_find L (lru_put L (stateinfo_cache st) h stack) k = Some v" for k v
    using lru_put_find [OF assms(1) that] compressor_ok_cached [OF assms(2), of k v] assms(3) by (cases "k = h") simp_all
  then show "compressor_ok L f (cache_shortstatehash_info L st h stack)"
    unfolding cache_shortstatehash_info_def by (rule compressor_ok_cache [OF assms(2)])
  show "same_tables st (cache_shortstatehash_info L st h stack)"
    by (simp add: same_tables_def cache_shortstatehash_info_def)
qed

lemma load_chain:
  assumes "layered rows h stack" and L: "lru_lawful L"
    and "shortstatehash_statediff st = rows" "compressor_ok L f st"
  shows "\<exists>st'. load_shortstatehash_info L st h = Some (Inr stack, st') \<and> compressor_ok L f st' \<and> same_tables st st'"
  using assms(1,3,4)
proof (induction arbitrary: st rule: layered.induct)
  case (bottom h d)
  note c = layered.bottom [of rows h d, OF bottom.hyps]
  note t = touch_ok [OF L bottom.prems(2), of h]
  show ?case
  proof (cases "lru_find L (stateinfo_cache st) h")
    case None
    have g: "get_statediff st h = Some (Inr d)"
      using statediff_round_trip [OF bottom.hyps(2), of st h] bottom by simp
    have "layered (shortstatehash_statediff (touch_cache L st h)) h [base_info h d]"
      using c bottom.prems(1) t(2) by (simp add: same_tables_def)
    note k = cache_ok [OF L t(1) this]
    show ?thesis
      using k t(2) bottom.hyps(4) None g
      by (subst load_shortstatehash_info.simps) (simp add: same_tables_def)
  next
    case (Some s)
    then have "layered rows h s" using compressor_ok_cached [OF bottom.prems(2)] bottom.prems(1) by simp
    then have "s = [base_info h d]" using c by (rule chain_functional)
    then show ?thesis using Some t by (subst load_shortstatehash_info.simps) simp
  qed
next
  case (layer h d p stack)
  let ?stack = "stack @ [layer_info h d (si_full_state (last stack))]"
  note c = layered.layer [of rows h d p stack, OF layer.hyps]
  note t = touch_ok [OF L layer.prems(2), of h]
  show ?case
  proof (cases "lru_find L (stateinfo_cache st) h")
    case None
    have g: "get_statediff st h = Some (Inr d)"
      using statediff_round_trip [OF layer.hyps(2), of st h] layer by simp
    obtain st' where st': "load_shortstatehash_info L (touch_cache L st h) p = Some (Inr stack, st')" "compressor_ok L f st'"
        "same_tables (touch_cache L st h) st'"
      using layer.IH [of "touch_cache L st h"] t layer.prems(1) by (auto simp: same_tables_def)
    have "layered (shortstatehash_statediff st') h ?stack"
      using c layer.prems(1) t(2) st'(3) by (simp add: same_tables_def)
    note k = cache_ok [OF L st'(2) this]
    have "stack \<noteq> []" using chain_nonempty layer.hyps(5) by blast
    then show ?thesis
      using k t(2) layer.hyps(4) None g st'
      by (subst load_shortstatehash_info.simps) (simp add: same_tables_def Let_def)
  next
    case (Some s)
    then have "layered rows h s" using compressor_ok_cached [OF layer.prems(2)] layer.prems(1) by simp
    then have "s = ?stack" using c by (rule chain_functional)
    then show ?thesis using Some t by (subst load_shortstatehash_info.simps) simp
  qed
qed

lemma load_missing:
  assumes L: "lru_lawful L" "compressor_ok L f st" and "shortstatehash_statediff st h = None"
  shows "load_shortstatehash_info L st h = Some (Inl (NoStateDiff h), touch_cache L st h)"
proof -
  have "lru_find L (stateinfo_cache st) h = None"
  proof (cases "lru_find L (stateinfo_cache st) h")
    case (Some s)
    then show ?thesis using chain_last(3) [OF compressor_ok_cached [OF L(2) Some]] assms(3) by simp
  qed
  then show ?thesis using assms(3) by (subst load_shortstatehash_info.simps) (simp add: get_statediff_def)
qed

section \<open>Saving a state keeps the tables\<close>

text \<open>A stack to save on: none, or the layers of a state held.\<close>

definition stack_ok :: "(short_id \<Rightarrow> byte list option) \<Rightarrow> info_stack \<Rightarrow> bool" where
  "stack_ok rows stack \<longleftrightarrow> stack = [] \<or> layered rows (si_shortstatehash (last stack)) stack"

text \<open>\<open>row_for rows d F\<close>: a row with the difference \<open>d\<close> would stand for the state \<open>F\<close>, in at most four layers.\<close>

definition row_for :: "(short_id \<Rightarrow> byte list option) \<Rightarrow> state_diff \<Rightarrow> compressed_state \<Rightarrow> bool" where
  "row_for rows d F \<longleftrightarrow> diff_ok d \<and>
     (case sd_parent d of
        None \<Rightarrow> sd_removed d = {} \<and> sd_added d = F
      | Some p \<Rightarrow> \<exists>stack. layered rows p stack \<and> length stack \<le> 3 \<and>
          exact (sd_added d) (sd_removed d) (si_full_state (last stack)) \<and>
          F = (si_full_state (last stack) \<union> sd_added d) - sd_removed d)"

lemma stack_ok_butlast: "stack_ok rows stack \<Longrightarrow> stack_ok rows (butlast stack)"
  using chain_last(4) by (auto simp: stack_ok_def)

lemma merge_stack:
  assumes "stack_ok rows stack" "stack \<noteq> []" "entries_ok N" "entries_ok D" "exact N D (full_of stack)"
    and "merge_into_parent (last stack) N D = (N', D')"
  shows "entries_ok N'" "entries_ok D'" "exact N' D' (full_of (butlast stack))"
    "(full_of (butlast stack) \<union> N') - D' = (full_of stack \<union> N) - D"
proof -
  let ?p = "last stack"
  have c: "layered rows (si_shortstatehash ?p) stack" using assms(1,2) by (simp add: stack_ok_def)
  have m: "N' = (si_added ?p - D) \<union> (N - (si_removed ?p \<union> (D - si_added ?p)))"
      "D' = (si_removed ?p \<union> (D - si_added ?p)) - N"
    using assms(3,4,6) merge_into_parent_eq [of N D ?p] by (auto simp: entries_ok_def)
  have full: "full_of stack = (full_of (butlast stack) \<union> si_added ?p) - si_removed ?p"
    using chain_last(6) [OF c] assms(2) by (simp add: full_of_def)
  show "entries_ok N'" "entries_ok D'"
    unfolding m using chain_last(7,8) [OF c] assms(3,4) by (auto intro!: entries_ok_set)
  show "exact N' D' (full_of (butlast stack))" "(full_of (butlast stack) \<union> N') - D' = (full_of stack \<union> N) - D"
    using merge_exact [OF chain_last(5) [OF c] assms(5) [unfolded full] m] unfolding full by simp_all
qed

lemma save_state_from_diff_row:
  assumes "stack_ok rows stack" "entries_ok N" "entries_ok D" "exact N D (full_of stack)"
    and "save_state_from_diff txn h N D sibling stack = Inr txn'"
  shows "\<exists>d. txn' = txn @ [(h, statediff_row d)] \<and> row_for rows d ((full_of stack \<union> N) - D)"
  using assms
proof (induction "length stack" arbitrary: N D sibling stack rule: less_induct)
  case less
  obtain N' D' where m: "merge_into_parent (last stack) N D = (N', D')" by (cases "merge_into_parent (last stack) N D")
  have merged: ?case if "stack \<noteq> []" "save_state_from_diff txn h N' D' s (butlast stack) = Inr txn'" for s
    using less.hyps [OF _ stack_ok_butlast [OF less.prems(1)] _ _ _ that(2)] that(1)
      merge_stack [OF less.prems(1) that(1) less.prems(2-4) m] by simp
  have deep: ?case if "3 < length stack" "save_state_from_diff txn h N' D' s (butlast stack) = Inr txn'" for s
    using merged [OF _ that(2)] that(1) by (cases stack) auto
  have top: "row_for rows \<lparr> sd_parent = Some (si_shortstatehash (last stack)), sd_added = N, sd_removed = D \<rparr>
      ((full_of stack \<union> N) - D)" if "stack \<noteq> []" "length stack \<le> 3"
    using that less.prems(1-4) chain_last(2) [of rows _ stack]
    by (auto simp: row_for_def diff_ok_def stack_ok_def full_of_def)
  have bottom: "row_for rows \<lparr> sd_parent = None, sd_added = N, sd_removed = D \<rparr> ((full_of stack \<union> N) - D)" if "stack = []"
    using that less.prems(2-4) by (auto simp: row_for_def diff_ok_def full_of_def exact_def)
  show ?case
    using less.prems(5) merged deep top bottom
    by (subst (asm) save_state_from_diff.simps)
      (auto simp: m Let_def save_statediff_def split: option.splits if_splits)
qed

lemma save_state_from_diff_error:
  "save_state_from_diff txn h N D sibling stack = Inl e \<Longrightarrow> e = Arithmetic"
proof (induction "length stack" arbitrary: N D sibling stack rule: less_induct)
  case less
  show ?case
    using less.prems less.hyps [of "butlast stack"]
    by (subst (asm) save_state_from_diff.simps)
      (fastforce simp: Let_def split: option.splits if_splits prod.splits)
qed

lemma row_for_chain:
  assumes "row_for rows d F" "rows fresh = None" "fresh \<noteq> 0"
  shows "\<exists>stack. layered (rows(fresh \<mapsto> statediff_row d)) fresh stack \<and> si_full_state (last stack) = F \<and> length stack \<le> 4"
proof (cases "sd_parent d")
  case None
  then show ?thesis
    using assms layered.bottom [of "rows(fresh \<mapsto> statediff_row d)" fresh d]
    by (auto simp: row_for_def base_info_def)
next
  case (Some p)
  then obtain stack where stack: "layered rows p stack" "length stack \<le> 3"
      "exact (sd_added d) (sd_removed d) (si_full_state (last stack))"
      "F = (si_full_state (last stack) \<union> sd_added d) - sd_removed d"
    using assms(1) by (auto simp: row_for_def)
  have "layered (rows(fresh \<mapsto> statediff_row d)) fresh (stack @ [layer_info fresh d (si_full_state (last stack))])"
    using layered.layer [OF _ _ assms(3) Some chain_update [OF stack(1) assms(2)] stack(3)] assms(1)
    by (simp add: row_for_def)
  then show ?thesis using stack by (intro exI conjI) (auto simp: layer_info_def)
qed

text \<open>
  The products do not overflow while everything on the stack and in the difference counts at most $2^{31}$ entries. The
  bound on the sibling holds as well: it is 2 at first, and a sum of the difference after that.
\<close>

definition stack_size :: "info_stack \<Rightarrow> nat" where
  "stack_size stack = (\<Sum>i \<leftarrow> stack. card (si_added i) + card (si_removed i))"

lemma merge_card:
  assumes "finite N" "finite D" "finite (si_added p)" "finite (si_removed p)" "merge_into_parent p N D = (N', D')"
  shows "card N' + card D' \<le> card (si_added p) + card (si_removed p) + card N + card D"
proof -
  have m: "N' = (si_added p - D) \<union> (N - (si_removed p \<union> (D - si_added p)))" "D' = (si_removed p \<union> (D - si_added p)) - N"
    using merge_into_parent_eq [OF assms(1,2), of p] assms(5) by auto
  have "card N' \<le> card (si_added p) + card N"
    unfolding m using card_Un_le [of "si_added p - D" "N - (si_removed p \<union> (D - si_added p))"]
      card_mono [OF assms(3), of "si_added p - D"] card_mono [OF assms(1), of "N - (si_removed p \<union> (D - si_added p))"]
    by force
  moreover have "card D' \<le> card (si_removed p) + card D"
    unfolding m using card_mono [of "si_removed p \<union> D" "(si_removed p \<union> (D - si_added p)) - N"]
      card_Un_le [of "si_removed p" D] assms(2,4) by force
  ultimately show ?thesis by simp
qed

lemma stack_size_split: "stack \<noteq> [] \<Longrightarrow>
  stack_size stack = stack_size (butlast stack) + card (si_added (last stack)) + card (si_removed (last stack))"
  by (subst append_butlast_last_id [symmetric]) (auto simp: stack_size_def simp del: append_butlast_last_id)

lemma checked_small:
  "a \<le> 2 ^ 31 \<Longrightarrow> b \<le> 2 ^ 31 \<Longrightarrow> checked_mul a b = Some (a * b) \<and> checked_mul 2 a = Some (2 * a) \<and>
   checked_mul (2 * a) b = Some (2 * a * b) \<and> checked_add a b = Some (a + b)"
  using mult_le_mono [of a "2 ^ 31" b "2 ^ 31"] by (simp add: usize_max_def)

lemma save_state_from_diff_succeeds:
  assumes "stack_ok rows stack" "entries_ok N" "entries_ok D" "exact N D (full_of stack)"
    and "card N + card D + stack_size stack \<le> 2 ^ 31" "sibling \<le> 2 ^ 31"
  shows "is_ok (save_state_from_diff txn h N D sibling stack)"
  using assms
proof (induction "length stack" arbitrary: N D sibling stack rule: less_induct)
  case less
  obtain N' D' where m: "merge_into_parent (last stack) N D = (N', D')" by (cases "merge_into_parent (last stack) N D")
  have merged: "is_ok (save_state_from_diff txn h N' D' (card N + card D) (butlast stack))" if ne: "stack \<noteq> []"
  proof (rule less.hyps [OF _ stack_ok_butlast [OF less.prems(1)]])
    show "length (butlast stack) < length stack" using ne by simp
    note merge = merge_stack [OF less.prems(1) ne less.prems(2-4) m]
    show "entries_ok N'" "entries_ok D'" "exact N' D' (full_of (butlast stack))" by (rule merge)+
    have "layered rows (si_shortstatehash (last stack)) stack" using less.prems(1) ne by (simp add: stack_ok_def)
    then have "finite (si_added (last stack))" "finite (si_removed (last stack))"
      using chain_last(7,8) by (auto simp: entries_ok_def)
    then show "card N' + card D' + stack_size (butlast stack) \<le> 2 ^ 31"
      using merge_card [OF _ _ _ _ m] less.prems(2,3,5) stack_size_split [OF ne] by (simp add: entries_ok_def)
    show "card N + card D \<le> 2 ^ 31" using less.prems(5) by simp
  qed
  have parent: "card (si_added (last stack)) + card (si_removed (last stack)) \<le> 2 ^ 31" if "stack \<noteq> []"
    using less.prems(5) stack_size_split [OF that] by simp
  have diff: "card N + card D \<le> 2 ^ 31" using less.prems(5) by simp
  have long: "3 < length stack \<Longrightarrow> stack \<noteq> []" by auto
  have sums: "checked_add (card N) (card D) = Some (card N + card D)"
    using checked_small [of "card N" "card D"] diff by simp
  have parent_sum: "checked_add (card (si_added (last stack))) (card (si_removed (last stack))) =
      Some (card (si_added (last stack)) + card (si_removed (last stack)))" if "stack \<noteq> []"
    using parent [OF that] by (simp add: usize_max_def)
  have products: "checked_mul (card N + card D) (card N + card D) = Some ((card N + card D) * (card N + card D))"
      "checked_mul 2 sibling = Some (2 * sibling)"
    using checked_small [OF diff diff] checked_small [OF less.prems(6) diff] by simp_all
  have bound: "checked_mul (2 * sibling) (card (si_added (last stack)) + card (si_removed (last stack))) =
      Some (2 * sibling * (card (si_added (last stack)) + card (si_removed (last stack))))" if "stack \<noteq> []"
    using checked_small [OF less.prems(6) parent [OF that]] by simp
  show ?case
    using merged long parent_sum bound
    by (subst save_state_from_diff.simps) (auto simp: m Let_def sums products simp del: checked_add_Some checked_mul_Some)
qed

lemma compressor_ok_row:
  assumes "compressor_ok L f st" "layered (shortstatehash_statediff st) h stack"
  shows "length stack \<le> 4"
proof -
  have "shortstatehash_statediff st h \<noteq> None" by (rule chain_last(3) [OF assms(2)])
  then obtain stack' where "layered (shortstatehash_statediff st) h stack'" "length stack' \<le> 4"
    using assms(1) unfolding compressor_ok_def by blast
  then show ?thesis using chain_functional [OF assms(2)] by blast
qed

text \<open>A state loads exactly when its row is there, as the stack its rows stand for.\<close>

lemma load_iff_chain:
  assumes "lru_lawful L" "compressor_ok L f st"
  shows "(\<exists>st'. load_shortstatehash_info L st h = Some (Inr stack, st')) \<longleftrightarrow> layered (shortstatehash_statediff st) h stack"
proof
  assume "\<exists>st'. load_shortstatehash_info L st h = Some (Inr stack, st')"
  then obtain st' where l: "load_shortstatehash_info L st h = Some (Inr stack, st')" by blast
  then have "shortstatehash_statediff st h \<noteq> None" using load_missing [OF assms, of h] by auto
  then obtain stack' where c: "layered (shortstatehash_statediff st) h stack'"
    using assms(2) unfolding compressor_ok_def by blast
  then have "stack' = stack" using load_chain [OF c assms(1) refl assms(2)] l by auto
  then show "layered (shortstatehash_statediff st) h stack" using c by simp
next
  assume "layered (shortstatehash_statediff st) h stack"
  then show "\<exists>st'. load_shortstatehash_info L st h = Some (Inr stack, st')"
    using load_chain [OF _ assms(1) refl assms(2)] by blast
qed

lemma existing_state:
  assumes "compressor_ok L f st" "collision_free f st new" "statehash_shortstatehash st (f new) = Some h"
  shows "\<exists>stack. layered (shortstatehash_statediff st) h stack \<and> si_full_state (last stack) = new \<and> length stack \<le> 4"
proof -
  obtain stack where c: "layered (shortstatehash_statediff st) h stack" "f (si_full_state (last stack)) = f new"
    using assms(1,3) unfolding compressor_ok_def by blast
  have "si_full_state (last stack) = new" using assms(2) c unfolding collision_free_def by blast
  then show ?thesis using c(1) compressor_ok_row [OF assms(1) c(1)] by blast
qed

lemma load_parents_ok:
  assumes "lru_lawful L" "compressor_ok L f st"
  shows "\<exists>stack st'. load_parents L st previous = Some (stack, st') \<and> compressor_ok L f st' \<and> same_tables st st' \<and>
    stack_ok (shortstatehash_statediff st) stack \<and>
    (\<forall>p s. previous = Some p \<and> layered (shortstatehash_statediff st) p s \<longrightarrow> stack = s)"
proof (cases previous)
  case None
  then show ?thesis using assms(2) by (simp add: load_parents_def same_tables_def stack_ok_def)
next
  case (Some p)
  show ?thesis
  proof (cases "shortstatehash_statediff st p = None")
    case True
    then have "\<not> layered (shortstatehash_statediff st) p s" for s using chain_last(3) by blast
    then show ?thesis
      using Some load_missing [OF assms True] touch_ok [OF assms, of p]
      by (simp add: load_parents_def stack_ok_def)
  next
    case False
    then obtain s where c: "layered (shortstatehash_statediff st) p s" using assms(2) unfolding compressor_ok_def by blast
    obtain st' where "load_shortstatehash_info L st p = Some (Inr s, st')" "compressor_ok L f st'" "same_tables st st'"
      using load_chain [OF c assms(1) refl assms(2)] by blast
    moreover have "stack_ok (shortstatehash_statediff st) s" using c chain_last(1) [OF c] by (simp add: stack_ok_def)
    ultimately show ?thesis using Some c chain_functional by (auto simp: load_parents_def)
  qed
qed

lemma diff_to_parent_exact:
  assumes "stack_ok rows stack" "entries_ok new" "diff_to_parent stack new = (N, D)"
  shows "entries_ok N" "entries_ok D" "exact N D (full_of stack)" "(full_of stack \<union> N) - D = new"
proof -
  have "entries_ok (full_of stack)"
    using assms(1) chain_full_ok by (auto simp: stack_ok_def full_of_def entries_ok_def)
  moreover have "N = new - full_of stack" "D = full_of stack - new"
    using assms(3) by (auto simp: diff_to_parent_def full_of_def split: if_splits)
  ultimately show "entries_ok N" "entries_ok D" "exact N D (full_of stack)" "(full_of stack \<union> N) - D = new"
    using assms(2) by (auto simp: exact_def intro: entries_ok_set)
qed

lemma create_ok:
  assumes st: "compressor_ok L f st" and d: "row_for (shortstatehash_statediff st) d new"
    and fresh: "shortstatehash_statediff st fresh = None" "fresh \<noteq> 0"
    and st': "st' = st \<lparr> statehash_shortstatehash := (statehash_shortstatehash st)(f new \<mapsto> fresh),
      shortstatehash_statediff := (shortstatehash_statediff st)(fresh \<mapsto> statediff_row d) \<rparr>"
  shows "compressor_ok L f st'" "\<exists>stack. layered (shortstatehash_statediff st') fresh stack \<and> si_full_state (last stack) = new"
proof -
  let ?rows = "shortstatehash_statediff st" and ?rows' = "(shortstatehash_statediff st)(fresh \<mapsto> statediff_row d)"
  obtain stack where stack: "layered ?rows' fresh stack" "si_full_state (last stack) = new" "length stack \<le> 4"
    using row_for_chain [OF d fresh] by blast
  then show "\<exists>stack. layered (shortstatehash_statediff st') fresh stack \<and> si_full_state (last stack) = new"
    by (auto simp: st')
  have old: "layered ?rows' h s" if "layered ?rows h s" for h s by (rule chain_update [OF that fresh(1)])
  have rows: "\<exists>s. layered ?rows' h s \<and> length s \<le> 4" if "?rows' h \<noteq> None" for h
  proof (cases "h = fresh")
    case False
    then have "\<exists>s. layered ?rows h s \<and> length s \<le> 4" using that st unfolding compressor_ok_def by simp
    then show ?thesis using old by blast
  qed (use stack in blast)
  have hashes: "\<exists>s. layered ?rows' h s \<and> f (si_full_state (last s)) = x"
    if "((statehash_shortstatehash st)(f new \<mapsto> fresh)) x = Some h" for x h
  proof (cases "x = f new")
    case True
    then show ?thesis using that stack by auto
  next
    case False
    then have "\<exists>s. layered ?rows h s \<and> f (si_full_state (last s)) = x" using that st unfolding compressor_ok_def by simp
    then show ?thesis using old by blast
  qed
  have cached: "layered ?rows' h s" if "lru_find L (stateinfo_cache st) h = Some s" for h s
    using old compressor_ok_cached [OF st that] by blast
  show "compressor_ok L f st'"
    unfolding compressor_ok_def using rows hashes cached by (simp add: st' del: fun_upd_apply)
qed

text \<open>The part of a save after the shortcut for an unchanged state\<close>

lemma save_state_step:
  assumes "lru_lawful L" "compressor_ok L (calculate_hash sha256) st" "collision_free (calculate_hash sha256) st new" "entries_ok new"
    and fresh: "shortstatehash_statediff st fresh = None" "fresh \<noteq> 0"
    and "\<not> (statehash_shortstatehash st (calculate_hash sha256 new) \<noteq> None \<and> previous = statehash_shortstatehash st (calculate_hash sha256 new))"
  shows "\<exists>r st' stack N D. save_state L sha256 st previous new fresh = Some (r, st') \<and> compressor_ok L (calculate_hash sha256) st' \<and>
    (\<forall>h s. layered (shortstatehash_statediff st) h s \<longrightarrow> layered (shortstatehash_statediff st') h s) \<and>
    (\<forall>p s. previous = Some p \<and> layered (shortstatehash_statediff st) p s \<longrightarrow> stack = s) \<and>
    stack_ok (shortstatehash_statediff st) stack \<and> diff_to_parent stack new = (N, D) \<and>
    (case r of
       Inl e \<Rightarrow> e = Arithmetic \<and> same_tables st st'
     | Inr ch \<Rightarrow> sc_added ch = N \<and> sc_removed ch = D \<and>
         (\<exists>s. layered (shortstatehash_statediff st') (sc_shortstatehash ch) s \<and> si_full_state (last s) = new))"
proof -
  obtain stack st1 where l: "load_parents L st previous = Some (stack, st1)" "compressor_ok L (calculate_hash sha256) st1" "same_tables st st1"
      "stack_ok (shortstatehash_statediff st) stack"
      "\<forall>p s. previous = Some p \<and> layered (shortstatehash_statediff st) p s \<longrightarrow> stack = s"
    using load_parents_ok [OF assms(1,2), of previous] by blast
  obtain N D where nd: "diff_to_parent stack new = (N, D)" by (cases "diff_to_parent stack new")
  note ex = diff_to_parent_exact [OF l(4) assms(4) nd]
  have tables: "shortstatehash_statediff st1 = shortstatehash_statediff st"
      "statehash_shortstatehash st1 = statehash_shortstatehash st"
    using l(3) by (simp_all add: same_tables_def)
  show ?thesis
  proof (cases "statehash_shortstatehash st (calculate_hash sha256 new)")
    case (Some h)
    then have "save_state L sha256 st previous new fresh =
        Some (Inr \<lparr> sc_shortstatehash = h, sc_added = N, sc_removed = D \<rparr>, st1)"
      using assms(7) by (simp add: save_state_def Let_def l(1) nd)
    then show ?thesis
      using l nd tables existing_state [OF assms(2,3) Some] by (intro exI conjI) auto
  next
    case None
    show ?thesis
    proof (cases "save_state_from_diff [] fresh N D 2 stack")
      case (Inl e)
      then have "save_state L sha256 st previous new fresh = Some (Inl e, st1)"
        using None by (simp add: save_state_def Let_def l(1) nd tables get_or_create_shortstatehash_def create_shortstatehash_def)
      then show ?thesis
        using l nd tables save_state_from_diff_error [OF Inl] by (intro exI conjI) auto
    next
      case (Inr txn)
      obtain d where d: "txn = [(fresh, statediff_row d)]" "row_for (shortstatehash_statediff st) d new"
        using save_state_from_diff_row [OF l(4) ex(1-3) Inr] ex(4) by auto
      define st2 where "st2 = st1 \<lparr> statehash_shortstatehash := (statehash_shortstatehash st1)(calculate_hash sha256 new \<mapsto> fresh),
        shortstatehash_statediff := (shortstatehash_statediff st1)(fresh \<mapsto> statediff_row d) \<rparr>"
      have "save_state L sha256 st previous new fresh =
          Some (Inr \<lparr> sc_shortstatehash = fresh, sc_added = N, sc_removed = D \<rparr>, st2)"
        using None Inr d(1)
        by (simp add: save_state_def Let_def l(1) nd tables get_or_create_shortstatehash_def create_shortstatehash_def st2_def)
      moreover note create_ok [OF l(2) _ _ fresh(2) st2_def, unfolded tables, OF d(2) fresh(1)]
      moreover have "\<forall>h s. layered (shortstatehash_statediff st) h s \<longrightarrow> layered (shortstatehash_statediff st2) h s"
        using chain_update [of "shortstatehash_statediff st" _ _ fresh, OF _ fresh(1)] by (simp add: st2_def tables)
      ultimately show ?thesis using l nd by (intro exI conjI) auto
    qed
  qed
qed

section \<open>Property\<close>

text \<open>C18: Saving a state. Over tables and a cache that hold well-formed rows, with a lawful cache, no state held that collides
  with the one saved under the hash, and a fresh number, \<^verbatim>\<open>save_state\<close> always returns and leaves such tables. When it succeeds, loading the
  returned number gives a stack of at most four layers whose top is the state saved, and if the room's previous state
  loads, the reported difference adds only entries it lacks, removes only entries it has, and leads from it to the
  state saved. A state that loaded before loads as the same stack after. The one error is the overflow of a count, and
  then the tables are as before.
\<close>

theorem save_state_loads_back:
  assumes "lru_lawful L" "compressor_ok L (calculate_hash sha256) st" "collision_free (calculate_hash sha256) st new_state" "entries_ok new_state"
    and "shortstatehash_statediff st next_count = None" "next_count \<noteq> 0"
  shows "\<exists>r st'. save_state L sha256 st previous new_state next_count = Some (r, st') \<and> compressor_ok L (calculate_hash sha256) st' \<and>
    (\<forall>h stack st1. load_shortstatehash_info L st h = Some (Inr stack, st1) \<longrightarrow>
      (\<exists>st2. load_shortstatehash_info L st' h = Some (Inr stack, st2))) \<and>
    (case r of
       Inl e \<Rightarrow> e = Arithmetic \<and> same_tables st st'
     | Inr ch \<Rightarrow>
         (\<exists>stack st2. load_shortstatehash_info L st' (sc_shortstatehash ch) = Some (Inr stack, st2) \<and>
            si_full_state (last stack) = new_state \<and> length stack \<le> 4) \<and>
         (\<forall>p stack st1. previous = Some p \<and> load_shortstatehash_info L st p = Some (Inr stack, st1) \<longrightarrow>
            exact (sc_added ch) (sc_removed ch) (si_full_state (last stack)) \<and>
            (si_full_state (last stack) \<union> sc_added ch) - sc_removed ch = new_state))"
proof (cases "statehash_shortstatehash st (calculate_hash sha256 new_state) \<noteq> None \<and>
    previous = statehash_shortstatehash st (calculate_hash sha256 new_state)")
  case True
  then obtain h where h: "statehash_shortstatehash st (calculate_hash sha256 new_state) = Some h" "previous = Some h" by auto
  obtain stack where stack: "layered (shortstatehash_statediff st) h stack" "si_full_state (last stack) = new_state" "length stack \<le> 4"
    using existing_state [OF assms(2,3) h(1)] by blast
  have "save_state L sha256 st previous new_state next_count =
      Some (Inr \<lparr> sc_shortstatehash = h, sc_added = {}, sc_removed = {} \<rparr>, st)"
    using h by (simp add: save_state_def Let_def)
  moreover obtain st2 where l: "load_shortstatehash_info L st h = Some (Inr stack, st2)"
    using load_iff_chain [OF assms(1,2)] stack(1) by blast
  ultimately show ?thesis
    using assms(2) h stack by (intro exI conjI) (auto simp: exact_def)
next
  case False
  obtain r st' stack N D where s: "save_state L sha256 st previous new_state next_count = Some (r, st')"
      and ok: "compressor_ok L (calculate_hash sha256) st'"
      and keep: "\<forall>h s. layered (shortstatehash_statediff st) h s \<longrightarrow> layered (shortstatehash_statediff st') h s"
      and prev: "\<forall>p s. previous = Some p \<and> layered (shortstatehash_statediff st) p s \<longrightarrow> stack = s"
      and nd: "stack_ok (shortstatehash_statediff st) stack" "diff_to_parent stack new_state = (N, D)"
      and r: "case r of Inl e \<Rightarrow> e = Arithmetic \<and> same_tables st st'
        | Inr ch \<Rightarrow> sc_added ch = N \<and> sc_removed ch = D \<and>
            (\<exists>s. layered (shortstatehash_statediff st') (sc_shortstatehash ch) s \<and> si_full_state (last s) = new_state)"
    using save_state_step [OF assms False] by blast
  note loads = load_iff_chain [OF assms(1,2)] load_iff_chain [OF assms(1) ok]
  have kept: "\<forall>h stack st1. load_shortstatehash_info L st h = Some (Inr stack, st1) \<longrightarrow>
      (\<exists>st2. load_shortstatehash_info L st' h = Some (Inr stack, st2))"
    using loads keep by blast
  have diff: "exact N D (si_full_state (last s)) \<and> (si_full_state (last s) \<union> N) - D = new_state"
    if "previous = Some p" "load_shortstatehash_info L st p = Some (Inr s, st1)" for p s st1
  proof -
    have c: "layered (shortstatehash_statediff st) p s" using loads(1) that(2) by blast
    then have "stack = s" "full_of stack = si_full_state (last s)"
      using prev that(1) chain_nonempty [OF c] by (auto simp: full_of_def)
    then show ?thesis using diff_to_parent_exact(3,4) [OF nd(1) assms(4) nd(2)] by simp
  qed
  have top: "\<exists>stack st2. load_shortstatehash_info L st' h = Some (Inr stack, st2) \<and>
      si_full_state (last stack) = new_state \<and> length stack \<le> 4"
    if "layered (shortstatehash_statediff st') h s" "si_full_state (last s) = new_state" for h s
    using that loads(2) compressor_ok_row [OF ok that(1)] by blast
  show ?thesis
  proof (cases r)
    case (Inl e)
    then show ?thesis using s ok r kept by simp
  next
    case (Inr ch)
    then have "sc_added ch = N" "sc_removed ch = D" using r by simp_all
    moreover obtain top_stack where "layered (shortstatehash_statediff st') (sc_shortstatehash ch) top_stack"
        "si_full_state (last top_stack) = new_state"
      using r Inr by auto
    ultimately show ?thesis using s [unfolded Inr] ok kept diff top by simp
  qed
qed

definition map_cache :: "(short_id \<Rightarrow> info_stack option) lru" where
  "map_cache = \<lparr> lru_find = (\<lambda>c k. c k), lru_touch = (\<lambda>c k. c), lru_put = (\<lambda>c k stack. c(k \<mapsto> stack)) \<rparr>"

definition sample_diff :: state_diff where
  "sample_diff = \<lparr> sd_parent = None, sd_added = {compress_state_event 1 2}, sd_removed = {} \<rparr>"

definition sample_store :: "(byte list, short_id \<Rightarrow> info_stack option) store" where
  "sample_store = \<lparr> statehash_shortstatehash = [compress_state_event 1 2 \<mapsto> 5],
     shortstatehash_statediff = [5 \<mapsto> statediff_row sample_diff], stateinfo_cache = (\<lambda>_. None) \<rparr>"

lemma map_cache_lawful: "lru_lawful map_cache"
  by (simp add: lru_lawful_def map_cache_def)

lemma sample_hash: "calculate_hash (\<lambda>bytes. bytes) {ev} = ev"
  by (simp add: calculate_hash_def sha256_delimited_def)

lemma sample_layered:
  "layered (shortstatehash_statediff sample_store) h stack \<longleftrightarrow> h = 5 \<and> stack = [base_info 5 sample_diff]"
proof -
  have "diff_ok sample_diff" by (simp add: diff_ok_def entries_ok_def sample_diff_def entry_ok_compress)
  then have five: "layered (shortstatehash_statediff sample_store) 5 [base_info 5 sample_diff]"
    by (intro layered.bottom) (simp_all add: sample_store_def sample_diff_def)
  have "h = 5" if "layered (shortstatehash_statediff sample_store) h stack"
    using chain_last(3) [OF that] by (simp add: sample_store_def split: if_splits)
  then show ?thesis using five chain_functional [OF five] by blast
qed

lemma sample_store_ok: "compressor_ok map_cache (calculate_hash (\<lambda>bytes. bytes)) sample_store"
  unfolding compressor_ok_def sample_layered
  by (auto simp: sample_store_def map_cache_def base_info_def sample_diff_def sample_hash split: if_splits)

theorem save_state_loads_back_witness:
  "\<exists>r st'. save_state map_cache (\<lambda>bytes. bytes) sample_store (Some 5) {compress_state_event 1 3, compress_state_event 4 6} 9 =
     Some (r, st') \<and> compressor_ok map_cache (calculate_hash (\<lambda>bytes. bytes)) st'"
proof -
  let ?new = "{compress_state_event 1 3, compress_state_event 4 6}"
  have "length (calculate_hash (\<lambda>bytes. bytes) ?new) = 33" by code_simp
  moreover have "length (calculate_hash (\<lambda>bytes. bytes) {compress_state_event 1 2}) = 16"
    by (simp add: sample_hash compress_state_event_def)
  ultimately have "collision_free (calculate_hash (\<lambda>bytes. bytes)) sample_store ?new"
    unfolding collision_free_def sample_layered by (auto simp: base_info_def sample_diff_def)
  then show ?thesis
    using save_state_loads_back [OF map_cache_lawful sample_store_ok, of ?new 9 "Some 5"]
    by (auto simp: entries_ok_def entry_ok_compress sample_store_def)
qed

end
