(* ===== verification/Record_Codec.thy ===== *)
theory Record_Codec
  imports Codec
begin

text \<open>
  The compact record format of database keys and values: \<^verbatim>\<open>src/database/ser.rs\<close> and \<^verbatim>\<open>src/database/de.rs\<close>.
  A value is what a type's \<^verbatim>\<open>Serialize\<close> asks of the serializer, a shape what its
  \<^verbatim>\<open>Deserialize\<close> asks of the deserializer. JSON and CBOR are arguments. An operation of the data model that the code
  marks as unhandled is \<open>None\<close>, as is a slice out of range. The model is of release builds: the depth, the finalization
  flag and the other assertions of debug builds are left out, apart from the check that the input was consumed; so is the
  assertion that sequences are not nested, and a tuple inside a tuple is read as a release build reads it.
\<close>

section \<open>UTF-8\<close>

text \<open>
  \<^verbatim>\<open>str::from_utf8\<close> accepts the well-formed sequences of the Unicode standard: the first byte says how many follow and
  in which range the second one lies.
\<close>

definition utf8_lead :: "byte \<Rightarrow> (nat \<times> byte \<times> byte) option" where
  "utf8_lead a =
     (if a \<le> 0x7F then Some (0, 0, 0)
      else if 0xC2 \<le> a \<and> a \<le> 0xDF then Some (1, 0x80, 0xBF)
      else if a = 0xE0 then Some (2, 0xA0, 0xBF)
      else if a = 0xED then Some (2, 0x80, 0x9F)
      else if 0xE1 \<le> a \<and> a \<le> 0xEF then Some (2, 0x80, 0xBF)
      else if a = 0xF0 then Some (3, 0x90, 0xBF)
      else if 0xF1 \<le> a \<and> a \<le> 0xF3 then Some (3, 0x80, 0xBF)
      else if a = 0xF4 then Some (3, 0x80, 0x8F)
      else None)"

fun utf8_tail :: "nat \<Rightarrow> byte \<Rightarrow> byte \<Rightarrow> byte list \<Rightarrow> bool" where
  "utf8_tail 0 lo hi bs = True"
| "utf8_tail (Suc n) lo hi [] = False"
| "utf8_tail (Suc n) lo hi (b # bs) \<longleftrightarrow> lo \<le> b \<and> b \<le> hi \<and> utf8_tail n 0x80 0xBF bs"

function utf8_ok :: "byte list \<Rightarrow> bool" where
  "utf8_ok [] = True"
| "utf8_ok (a # bs) = (case utf8_lead a of
     None \<Rightarrow> False
   | Some (n, lo, hi) \<Rightarrow> utf8_tail n lo hi bs \<and> utf8_ok (drop n bs))"
  by pat_completeness auto
termination
  by (relation "measure length") auto

section \<open>Serializing\<close>

definition SEP :: byte where "SEP = 0xFF"

text \<open>What a type can ask of the serializer. A character is written as the string of its UTF-8 bytes.\<close>

datatype 'j ser_value =
    VU64 u64 | VI64 i64 | VU32 u32 | VI32 u32 | VU8 byte
  | VStr "byte list" | VBytes "byte list"
  | VNone | VSome "'j ser_value"
  | VTuple "'j ser_value list" | VSeq "'j ser_value list"
  | VJson 'j | VCbor 'j
  | VInterfix | VSeparator | VUnhandled

text \<open>The formats that JSON and CBOR values are delegated to\<close>

record ('j, 'e) formats =
  to_json :: "'j \<Rightarrow> 'e + byte list"
  of_json :: "byte list \<Rightarrow> 'e + 'j"
  to_cbor :: "'j \<Rightarrow> 'e + byte list"
  of_cbor :: "byte list \<Rightarrow> 'e + 'j"

record serializer =
  ser_out :: "byte list"
  ser_sep :: bool

definition ser_write :: "byte list \<Rightarrow> serializer \<Rightarrow> serializer" where
  "ser_write bytes w = w \<lparr> ser_out := ser_out w @ bytes \<rparr>"

definition ser_separator :: "serializer \<Rightarrow> serializer" where
  "ser_separator w = ser_write [SEP] w"

definition set_sep :: "bool \<Rightarrow> serializer \<Rightarrow> serializer" where
  "set_sep b w = w \<lparr> ser_sep := b \<rparr>"

definition ser_record_start :: "serializer \<Rightarrow> serializer" where
  "ser_record_start w = (if ser_sep w then ser_separator (set_sep True w) else set_sep True w)"

fun serialize_value :: "('j, 'e) formats \<Rightarrow> 'j ser_value \<Rightarrow> serializer \<Rightarrow> ('e, serializer) comp"
  and serialize_elements :: "('j, 'e) formats \<Rightarrow> bool \<Rightarrow> 'j ser_value list \<Rightarrow> serializer \<Rightarrow> ('e, serializer) comp" where
  "serialize_value F (VU64 n) w = Some (Inr (set_sep False (ser_write (u64_to_be n) w)))"
| "serialize_value F (VI64 n) w = Some (Inr (set_sep False (ser_write (u64_to_be n) w)))"
| "serialize_value F (VU32 n) w = Some (Inr (set_sep False (ser_write (u32_to_be n) w)))"
| "serialize_value F (VI32 n) w = Some (Inr (set_sep False (ser_write (u32_to_be n) w)))"
| "serialize_value F (VU8 n) w = Some (Inr (set_sep False (ser_write [n] w)))"
| "serialize_value F (VStr s) w = Some (Inr (set_sep True (ser_write s w)))"
| "serialize_value F (VBytes s) w = Some (Inr (set_sep True (ser_write s w)))"
| "serialize_value F VNone w = Some (Inr w)"
| "serialize_value F (VSome v) w = serialize_value F v w"
| "serialize_value F (VTuple vs) w =
     cbind (serialize_elements F True vs (set_sep False w)) (\<lambda>w'. Some (Inr (set_sep False w')))"
| "serialize_value F (VSeq vs) w =
     cbind (serialize_elements F False vs (set_sep False w)) (\<lambda>w'. Some (Inr (set_sep False w')))"
| "serialize_value F (VJson j) w = Some (rmap (\<lambda>bytes. ser_write bytes w) (to_json F j))"
| "serialize_value F (VCbor j) w = Some (rmap (\<lambda>bytes. ser_write bytes w) (to_cbor F j))"
| "serialize_value F VInterfix w = Some (Inr w)"
| "serialize_value F VSeparator w = Some (Inr (ser_separator w))"
| "serialize_value F VUnhandled w = None"
| "serialize_elements F is_tuple [] w = Some (Inr w)"
| "serialize_elements F is_tuple (v # vs) w =
     cbind (serialize_value F v (ser_record_start w))
       (\<lambda>w'. serialize_elements F is_tuple vs (if is_tuple then set_sep True w' else w'))"

definition serialize :: "('j, 'e) formats \<Rightarrow> 'j ser_value \<Rightarrow> ('e, byte list) comp" where
  "serialize F v = cbind (serialize_value F v \<lparr> ser_out = [], ser_sep = False \<rparr>) (\<lambda>w. Some (Inr (ser_out w)))"

section \<open>Deserializing\<close>

datatype shape =
    SU64 | SI64 | SStr | SBytes | SOption shape | STuple "shape list" | SNewtype shape
  | SJson | SCbor | SMap | SAny | SIgnore | SIgnoreAll | SUnhandled

datatype 'j de_value =
    RU64 u64 | RI64 i64 | RStr "byte list" | RBytes "byte list" | RNone | RSome "'j de_value"
  | RTuple "'j de_value list" | RNewtype "'j de_value" | RDelegated 'j | RUnit

datatype 'e de_error = Underflow | BadUtf8 | InvalidLength nat | BadFormat 'e

record deserializer =
  de_pos :: nat
  de_rec :: nat
  de_seq :: nat

definition inc_pos :: "nat \<Rightarrow> deserializer \<Rightarrow> deserializer" where
  "inc_pos n r = r \<lparr> de_pos := sat_add (de_pos r) n \<rparr>"

definition inc_rec :: "nat \<Rightarrow> deserializer \<Rightarrow> deserializer" where
  "inc_rec n r = r \<lparr> de_rec := sat_add (de_rec r) n \<rparr>"

definition de_sequence_start :: "nat \<Rightarrow> deserializer \<Rightarrow> deserializer" where
  "de_sequence_start len r = r \<lparr> de_seq := len \<rparr>"

definition record_next :: "byte list \<Rightarrow> deserializer \<Rightarrow> (byte list \<times> deserializer) option" where
  "record_next buf r = map_option (\<lambda>rest.
     let rcd = takeWhile (\<lambda>b. b \<noteq> SEP) rest in (rcd, inc_pos (length rcd) r)) (range_get buf (de_pos r) (length buf))"

definition record_trail :: "byte list \<Rightarrow> deserializer \<Rightarrow> (byte list \<times> deserializer) option" where
  "record_trail buf r = map_option (\<lambda>rcd. (rcd, inc_pos (length rcd) r)) (range_get buf (de_pos r) (length buf))"

definition record_ignore :: "byte list \<Rightarrow> deserializer \<Rightarrow> (byte list \<times> deserializer) option" where
  "record_ignore buf r = (if de_seq r > 0 then record_next buf r else record_trail buf r)"

definition record_peek_byte :: "byte list \<Rightarrow> deserializer \<Rightarrow> byte option option" where
  "record_peek_byte buf r = map_option (\<lambda>rest. idx rest (if de_pos r \<noteq> 0 \<or> de_rec r > 0 then 1 else 0))
     (range_get buf (de_pos r) (length buf))"

definition de_record_start :: "byte list \<Rightarrow> deserializer \<Rightarrow> deserializer" where
  "de_record_start buf r =
     (let started = de_pos r \<noteq> 0 \<or> de_rec r > 0;
          input_done = de_pos r \<ge> length buf;
          output_done = de_rec r \<ge> de_seq r;
          incomplete = input_done \<and> \<not> output_done;
          inc = started \<and> \<not> incomplete
      in inc_rec 1 (inc_pos (if inc then 1 else 0) r))"

definition finished :: "byte list \<Rightarrow> deserializer \<Rightarrow> bool" where
  "finished buf r \<longleftrightarrow> de_pos r = length buf \<or>
     (de_pos r + 1 = length buf \<and> buf ! de_pos r = SEP)"

definition deserialize_u64 :: "byte list \<Rightarrow> deserializer \<Rightarrow> ('e de_error, u64 \<times> deserializer) comp" where
  "deserialize_u64 buf r =
     (case range_get buf (de_pos r) (min (sat_add (de_pos r) 8) (length buf)) of
        None \<Rightarrow> None
      | Some bytes \<Rightarrow> (case u64_from_bytes bytes of
          None \<Rightarrow> Some (Inl Underflow)
        | Some n \<Rightarrow> Some (Inr (n, inc_pos 8 r))))"

definition with_record :: "(byte list \<times> deserializer) option \<Rightarrow> (byte list \<Rightarrow> 'e de_error + 'v) \<Rightarrow>
    ('e de_error, 'v \<times> deserializer) comp" where
  "with_record record f = map_option (\<lambda>(input, r). rmap (\<lambda>v. (v, r)) (f input)) record"

definition deserialize_str :: "byte list \<Rightarrow> deserializer \<Rightarrow> ('e de_error, 'j de_value \<times> deserializer) comp" where
  "deserialize_str buf r =
     with_record (record_next buf r) (\<lambda>input. if utf8_ok input then Inr (RStr input) else Inl BadUtf8)"

definition deserialize_map :: "('j, 'e) formats \<Rightarrow> byte list \<Rightarrow> deserializer \<Rightarrow> ('e de_error, 'j de_value \<times> deserializer) comp" where
  "deserialize_map F buf r =
     with_record (record_next buf r) (\<lambda>input. rmap_err BadFormat (rmap RDelegated (of_json F input)))"

text \<open>A JSON value is told by its first byte: an opening brace, an opening bracket, or else a string.\<close>

definition deserialize_any :: "('j, 'e) formats \<Rightarrow> byte list \<Rightarrow> deserializer \<Rightarrow> ('e de_error, 'j de_value \<times> deserializer) comp" where
  "deserialize_any F buf r = (case record_peek_byte buf r of
     None \<Rightarrow> None
   | Some b \<Rightarrow> if b = Some 0x7B then deserialize_map F buf r
       else if b = Some 0x5B then
         with_record (record_next buf r) (\<lambda>input. rmap_err BadFormat (rmap RDelegated (of_json F input)))
       else deserialize_str buf r)"

text \<open>The loop over the fields is that of serde's visitor for tuples, which refuses a tuple that ends early.\<close>

fun deserialize_value ::
    "('j, 'e) formats \<Rightarrow> byte list \<Rightarrow> shape \<Rightarrow> deserializer \<Rightarrow> ('e de_error, 'j de_value \<times> deserializer) comp"
  and deserialize_fields ::
    "('j, 'e) formats \<Rightarrow> byte list \<Rightarrow> nat \<Rightarrow> shape list \<Rightarrow> deserializer \<Rightarrow> ('e de_error, 'j de_value list \<times> deserializer) comp" where
  "deserialize_value F buf SU64 r = cbind (deserialize_u64 buf r) (\<lambda>(n, r'). Some (Inr (RU64 n, r')))"
| "deserialize_value F buf SI64 r = cbind (deserialize_u64 buf r) (\<lambda>(n, r'). Some (Inr (RI64 n, r')))"
| "deserialize_value F buf SStr r = deserialize_str buf r"
| "deserialize_value F buf SBytes r = with_record (record_trail buf r) (\<lambda>input. Inr (RBytes input))"
| "deserialize_value F buf (SOption s) r =
     (if de_pos r \<ge> length buf \<or> buf ! de_pos r = SEP then Some (Inr (RNone, r))
      else cbind (deserialize_value F buf s r) (\<lambda>(v, r'). Some (Inr (RSome v, r'))))"
| "deserialize_value F buf (STuple ss) r =
     cbind (deserialize_fields F buf 0 ss (de_sequence_start (length ss) r)) (\<lambda>(vs, r'). Some (Inr (RTuple vs, r')))"
| "deserialize_value F buf (SNewtype s) r = cbind (deserialize_value F buf s r) (\<lambda>(v, r'). Some (Inr (RNewtype v, r')))"
| "deserialize_value F buf SJson r = with_record (record_trail buf r) (\<lambda>input. rmap_err BadFormat (rmap RDelegated (of_json F input)))"
| "deserialize_value F buf SCbor r = with_record (record_trail buf r) (\<lambda>input. rmap_err BadFormat (rmap RDelegated (of_cbor F input)))"
| "deserialize_value F buf SMap r = deserialize_map F buf r"
| "deserialize_value F buf SAny r = deserialize_any F buf r"
| "deserialize_value F buf SIgnore r = with_record (record_ignore buf r) (\<lambda>_. Inr RUnit)"
| "deserialize_value F buf SIgnoreAll r = with_record (record_trail buf r) (\<lambda>_. Inr RUnit)"
| "deserialize_value F buf SUnhandled r = None"
| "deserialize_fields F buf i [] r = Some (Inr ([], r))"
| "deserialize_fields F buf i (s # ss) r =
     (if de_pos r \<ge> length buf \<and> de_rec r \<ge> de_seq r then Some (Inl (InvalidLength i))
      else cbind (deserialize_value F buf s (de_record_start buf r)) (\<lambda>(v, r').
        cbind (deserialize_fields F buf (i + 1) ss r') (\<lambda>(vs, r''). Some (Inr (v # vs, r'')))))"

definition de_start :: deserializer where
  "de_start = \<lparr> de_pos = 0, de_rec = 0, de_seq = 0 \<rparr>"

definition from_slice :: "('j, 'e) formats \<Rightarrow> byte list \<Rightarrow> shape \<Rightarrow> ('e de_error, 'j de_value) comp" where
  "from_slice F buf s = cbind (deserialize_value F buf s de_start) (\<lambda>(v, r). Some (Inr v))"

text \<open>A sequence of any length announces one record, and its visitor asks for elements until there is none.\<close>

partial_function (option) deserialize_elements ::
    "('j, 'e) formats \<Rightarrow> byte list \<Rightarrow> shape \<Rightarrow> 'j de_value list \<Rightarrow> deserializer \<Rightarrow> ('e de_error, 'j de_value list \<times> deserializer) comp" where
  "deserialize_elements F buf s vs r =
     (if de_pos r \<ge> length buf \<and> de_rec r \<ge> de_seq r then Some (Inr (vs, r))
      else case deserialize_value F buf s (de_record_start buf r) of
          None \<Rightarrow> None
        | Some (Inl e) \<Rightarrow> Some (Inl e)
        | Some (Inr (v, r')) \<Rightarrow> deserialize_elements F buf s (vs @ [v]) r')"

declare deserialize_elements.simps [code]

definition deserialize_seq :: "('j, 'e) formats \<Rightarrow> byte list \<Rightarrow> shape \<Rightarrow> deserializer \<Rightarrow> ('e de_error, 'j de_value list \<times> deserializer) comp" where
  "deserialize_seq F buf s r = deserialize_elements F buf s [] (de_sequence_start 1 r)"

definition seq_from_slice :: "('j, 'e) formats \<Rightarrow> byte list \<Rightarrow> shape \<Rightarrow> ('e de_error, 'j de_value list) comp" where
  "seq_from_slice F buf s = cbind (deserialize_seq F buf s de_start) (\<lambda>(vs, r). Some (Inr vs))"

section \<open>Text holds no separator\<close>

lemma utf8_lead_no_sep: "utf8_lead a = Some (n, lo, hi) \<Longrightarrow> a \<noteq> SEP \<and> hi < SEP"
  by (auto simp: utf8_lead_def SEP_def split: if_splits)

lemma utf8_tail_no_sep: "utf8_tail n lo hi bs \<Longrightarrow> hi < SEP \<Longrightarrow> SEP \<notin> set (take n bs)"
proof (induction n lo hi bs rule: utf8_tail.induct)
  case (3 n lo hi b bs)
  then show ?case by (auto simp: SEP_def)
qed simp_all

lemma utf8_no_sep: "utf8_ok bs \<Longrightarrow> SEP \<notin> set bs"
proof (induction bs rule: utf8_ok.induct)
  case (2 a bs)
  then obtain n lo hi where l: "utf8_lead a = Some (n, lo, hi)" "utf8_tail n lo hi bs" "utf8_ok (drop n bs)"
    by (auto split: option.splits)
  then have "SEP \<notin> set (drop n bs)" using 2 by simp
  moreover have "SEP \<notin> set (take n bs)" "a \<noteq> SEP"
    using utf8_tail_no_sep [OF l(2)] utf8_lead_no_sep [OF l(1)] by auto
  moreover have "set bs = set (take n bs) \<union> set (drop n bs)" by (metis append_take_drop_id set_append)
  ultimately show ?case by auto
qed simp

lemma takeWhile_sep: "SEP \<notin> set x \<Longrightarrow> takeWhile (\<lambda>b. b \<noteq> SEP) (x @ SEP # y) = x" "SEP \<notin> set x \<Longrightarrow> takeWhile (\<lambda>b. b \<noteq> SEP) x = x"
  by (induction x) auto

section \<open>What a tuple is written as\<close>

text \<open>The bytes of a field, and the values that are fields\<close>

fun field_bytes :: "('j, 'e) formats \<Rightarrow> 'j ser_value \<Rightarrow> byte list" where
  "field_bytes F (VU64 n) = u64_to_be n"
| "field_bytes F (VI64 n) = u64_to_be n"
| "field_bytes F (VStr s) = s"
| "field_bytes F (VBytes s) = s"
| "field_bytes F (VSome v) = field_bytes F v"
| "field_bytes F (VJson j) = (case to_json F j of Inr bytes \<Rightarrow> bytes | Inl _ \<Rightarrow> [])"
| "field_bytes F (VCbor j) = (case to_cbor F j of Inr bytes \<Rightarrow> bytes | Inl _ \<Rightarrow> [])"
| "field_bytes F _ = []"

fun is_field :: "('j, 'e) formats \<Rightarrow> 'j ser_value \<Rightarrow> bool" where
  "is_field F (VSome v) = is_field F v"
| "is_field F (VJson j) = is_ok (to_json F j)"
| "is_field F (VCbor j) = is_ok (to_cbor F j)"
| "is_field F v = (case v of VU64 _ \<Rightarrow> True | VI64 _ \<Rightarrow> True | VStr _ \<Rightarrow> True | VBytes _ \<Rightarrow> True | VNone \<Rightarrow> True
     | VInterfix \<Rightarrow> True | _ \<Rightarrow> False)"

definition sep_fields :: "('j, 'e) formats \<Rightarrow> 'j ser_value list \<Rightarrow> byte list" where
  "sep_fields F vs = concat (map (\<lambda>v. SEP # field_bytes F v) vs)"

definition tuple_bytes :: "('j, 'e) formats \<Rightarrow> 'j ser_value list \<Rightarrow> byte list" where
  "tuple_bytes F vs = tl (sep_fields F vs)"

lemma sep_fields_simps [simp]:
  "sep_fields F [] = []" "sep_fields F (v # vs) = SEP # field_bytes F v @ sep_fields F vs"
  "sep_fields F (us @ vs) = sep_fields F us @ sep_fields F vs"
  by (simp_all add: sep_fields_def)

lemma tuple_bytes_Cons: "tuple_bytes F (v # vs) = field_bytes F v @ sep_fields F vs"
  by (simp add: tuple_bytes_def)

lemma serialize_field:
  "is_field F v \<Longrightarrow> \<exists>b. serialize_value F v w = Some (Inr (set_sep b (ser_write (field_bytes F v) w)))"
proof (induction v)
  case VNone
  show ?case by (intro exI [of _ "ser_sep w"]) (simp add: set_sep_def ser_write_def)
next
  case VInterfix
  show ?case by (intro exI [of _ "ser_sep w"]) (simp add: set_sep_def ser_write_def)
next
  case (VJson j)
  then show ?case by (cases "to_json F j") (auto intro!: exI [of _ "ser_sep w"] simp: set_sep_def ser_write_def)
next
  case (VCbor j)
  then show ?case by (cases "to_cbor F j") (auto intro!: exI [of _ "ser_sep w"] simp: set_sep_def ser_write_def)
qed auto

lemma serialize_fields_sep:
  assumes "list_all (is_field F) vs" "ser_sep w"
  shows "serialize_elements F True vs w = Some (Inr (ser_write (sep_fields F vs) w))"
  using assms
proof (induction vs arbitrary: w)
  case Nil
  then show ?case by (simp add: ser_write_def)
next
  case (Cons v vs)
  let ?w = "ser_write (SEP # field_bytes F v) w"
  have "ser_record_start w = ser_write [SEP] w"
    using Cons.prems(2) by (simp add: ser_record_start_def ser_separator_def set_sep_def ser_write_def)
  moreover obtain b where "serialize_value F v (ser_write [SEP] w) = Some (Inr (set_sep b (ser_write (field_bytes F v) (ser_write [SEP] w))))"
    using serialize_field [of F v "ser_write [SEP] w"] Cons.prems(1) by auto
  moreover have "set_sep True (set_sep b (ser_write (field_bytes F v) (ser_write [SEP] w))) = ?w"
    using Cons.prems(2) by (simp add: set_sep_def ser_write_def)
  moreover have "serialize_elements F True vs ?w = Some (Inr (ser_write (sep_fields F vs) ?w))"
    using Cons by (simp add: ser_write_def)
  ultimately show ?case by (simp add: ser_write_def)
qed

lemma serialize_tuple:
  assumes "list_all (is_field F) vs"
  shows "serialize F (VTuple vs) = Some (Inr (tuple_bytes F vs))"
proof (cases vs)
  case Nil
  then show ?thesis by (simp add: serialize_def set_sep_def tuple_bytes_def)
next
  case (Cons v us)
  let ?w = "\<lparr> ser_out = [], ser_sep = True \<rparr>"
  obtain b where "serialize_value F v ?w = Some (Inr (set_sep b (ser_write (field_bytes F v) ?w)))"
    using serialize_field [of F v ?w] assms Cons by auto
  moreover have "set_sep True (set_sep b (ser_write (field_bytes F v) ?w)) = ser_write (field_bytes F v) ?w"
    by (simp add: set_sep_def ser_write_def)
  ultimately show ?thesis
    using assms Cons serialize_fields_sep [of F us "ser_write (field_bytes F v) ?w"]
    by (simp add: serialize_def ser_record_start_def set_sep_def ser_write_def tuple_bytes_def)
qed

section \<open>What is read back\<close>

text \<open>
  \<open>delimited v s r\<close>: a field written as \<open>v\<close> is read under the shape \<open>s\<close> as \<open>r\<close> wherever it stands in a tuple. Text must be
  UTF-8. A present option must not look absent: its bytes are not empty and do not begin with the separator.
\<close>

fun delimited :: "('j, 'e) formats \<Rightarrow> 'j ser_value \<Rightarrow> shape \<Rightarrow> 'j de_value \<Rightarrow> bool" where
  "delimited F v SU64 r \<longleftrightarrow> (\<exists>n. v = VU64 n \<and> r = RU64 n)"
| "delimited F v SI64 r \<longleftrightarrow> (\<exists>n. v = VI64 n \<and> r = RI64 n)"
| "delimited F v SStr r \<longleftrightarrow> (\<exists>t. v = VStr t \<and> utf8_ok t \<and> r = RStr t)"
| "delimited F v SIgnore r \<longleftrightarrow> (\<exists>t. v = VStr t \<and> utf8_ok t \<and> r = RUnit)"
| "delimited F v (SOption s) r \<longleftrightarrow> v = VNone \<and> r = RNone \<or>
     (\<exists>v' r'. v = VSome v' \<and> r = RSome r' \<and> delimited F v' s r' \<and>
        field_bytes F v' \<noteq> [] \<and> hd (field_bytes F v') \<noteq> SEP)"
| "delimited F v (SNewtype s) r \<longleftrightarrow> (\<exists>r'. r = RNewtype r' \<and> delimited F v s r')"
| "delimited F v _ r \<longleftrightarrow> False"

text \<open>\<open>trailing v s r\<close>: the last field of a tuple may also be read to the end of the input.\<close>

fun trailing :: "('j, 'e) formats \<Rightarrow> 'j ser_value \<Rightarrow> shape \<Rightarrow> 'j de_value \<Rightarrow> bool" where
  "trailing F v SBytes r \<longleftrightarrow> (\<exists>b. (v = VBytes b \<or> v = VStr b) \<and> r = RBytes b)"
| "trailing F v SJson r \<longleftrightarrow> (\<exists>j bytes. v = VJson j \<and> to_json F j = Inr bytes \<and> of_json F bytes = Inr j \<and> r = RDelegated j)"
| "trailing F v SCbor r \<longleftrightarrow> (\<exists>j bytes. v = VCbor j \<and> to_cbor F j = Inr bytes \<and> of_cbor F bytes = Inr j \<and> r = RDelegated j)"
| "trailing F v SIgnoreAll r \<longleftrightarrow> is_field F v \<and> r = RUnit"
| "trailing F v _ r \<longleftrightarrow> False"

lemma delimited_is_field: "delimited F v s r \<Longrightarrow> is_field F v"
  by (induction F v s r rule: delimited.induct) auto

lemma trailing_is_field: "trailing F v s r \<Longrightarrow> is_field F v"
  by (induction F v s r rule: trailing.induct) auto

definition at :: "nat \<Rightarrow> deserializer \<Rightarrow> deserializer" where
  "at p r = r \<lparr> de_pos := p \<rparr>"

lemma at_simps [simp]: "de_pos (at p r) = p" "de_rec (at p r) = de_rec r" "de_seq (at p r) = de_seq r"
  by (simp_all add: at_def)

lemma inc_pos_at: "de_pos r + n \<le> usize_max \<Longrightarrow> inc_pos n r = at (de_pos r + n) r"
  by (simp add: inc_pos_def at_def sat_add_def)

lemma split_at_pos:
  assumes "drop p buf = x @ rest" "p \<le> length buf"
  shows "p + length x \<le> length buf" "drop (p + length x) buf = rest"
proof -
  have "length buf - p = length x + length rest" using arg_cong [OF assms(1), of length] by simp
  then show "p + length x \<le> length buf" using assms(2) by simp
  show "drop (p + length x) buf = rest" using assms(1) by (metis add.commute append_eq_conv_conj drop_drop)
qed

lemma read_u64:
  assumes "drop (de_pos r) buf = u64_to_be n @ rest" "de_pos r \<le> length buf" "length buf < usize_max"
  shows "deserialize_u64 buf r = Some (Inr (n, at (de_pos r + 8) r))"
proof -
  have p: "de_pos r + 8 \<le> length buf" using split_at_pos [OF assms(1,2)] by simp
  then have "min (sat_add (de_pos r) 8) (length buf) = de_pos r + 8" using assms(3) by (simp add: sat_add_def)
  moreover have "take 8 (drop (de_pos r) buf) = u64_to_be n" by (simp add: assms(1))
  ultimately show ?thesis using p assms(3) by (simp add: deserialize_u64_def inc_pos_at)
qed

lemma range_get_rest: "p \<le> length buf \<Longrightarrow> range_get buf p (length buf) = Some (drop p buf)"
  by (simp add: range_get_def)

lemma read_record:
  assumes "drop (de_pos r) buf = x @ rest" "de_pos r \<le> length buf" "length buf < usize_max" "SEP \<notin> set x"
    and "rest = [] \<or> (\<exists>more. rest = SEP # more)"
  shows "record_next buf r = Some (x, at (de_pos r + length x) r)"
proof -
  have "takeWhile (\<lambda>b. b \<noteq> SEP) (x @ rest) = x" using assms(5) takeWhile_sep [OF assms(4)] by auto
  then show ?thesis
    using split_at_pos(1) [OF assms(1,2)] assms(3)
    by (simp add: record_next_def range_get_rest [OF assms(2)] assms(1) Let_def inc_pos_at del: takeWhile_append)
qed

lemma read_trail:
  assumes "drop (de_pos r) buf = x" "de_pos r \<le> length buf" "length buf < usize_max"
  shows "record_trail buf r = Some (x, at (de_pos r + length x) r)"
  using split_at_pos(1) [of "de_pos r" buf x "[]"] assms
  by (simp add: record_trail_def range_get_rest [OF assms(2)] inc_pos_at)

lemma read_delimited:
  assumes "delimited F v s val" "drop (de_pos r) buf = field_bytes F v @ rest" "de_pos r \<le> length buf"
    and "length buf < usize_max" "rest = [] \<or> (\<exists>more. rest = SEP # more)" "de_seq r > 0"
  shows "deserialize_value F buf s r = Some (Inr (val, at (de_pos r + length (field_bytes F v)) r))"
  using assms
proof (induction F v s val arbitrary: r rule: delimited.induct)
  case (1 F v val)
  then obtain n where "v = VU64 n" "val = RU64 n" by auto
  then show ?case using 1 read_u64 [of r buf n rest] by simp
next
  case (2 F v val)
  then obtain n where "v = VI64 n" "val = RI64 n" by auto
  then show ?case using 2 read_u64 [of r buf n rest] by simp
next
  case (3 F v val)
  then obtain t where "v = VStr t" "utf8_ok t" "val = RStr t" by auto
  then show ?case using 3 read_record [of r buf t rest] utf8_no_sep [of t] by (simp add: deserialize_str_def with_record_def)
next
  case (4 F v val)
  then obtain t where "v = VStr t" "utf8_ok t" "val = RUnit" by auto
  then show ?case using 4 read_record [of r buf t rest] utf8_no_sep [of t] by (simp add: with_record_def record_ignore_def)
next
  case (5 F v s val)
  have here: "drop (de_pos r) buf = buf ! de_pos r # drop (Suc (de_pos r)) buf" if "de_pos r < length buf"
    using that by (rule Cons_nth_drop_Suc [symmetric])
  show ?case
  proof (cases "v = VNone")
    case True
    have "de_pos r \<ge> length buf \<or> buf ! de_pos r = SEP"
      using "5.prems"(2,5) True here by (cases "de_pos r < length buf") auto
    then show ?thesis using True "5.prems"(1) by (simp add: at_def)
  next
    case False
    then obtain v' r' where v': "v = VSome v'" "val = RSome r'" "delimited F v' s r'"
        "field_bytes F v' \<noteq> []" "hd (field_bytes F v') \<noteq> SEP"
      using "5.prems"(1) by auto
    then have "\<not> length buf \<le> de_pos r" "buf ! de_pos r \<noteq> SEP"
      using "5.prems"(2,3) here by (cases "de_pos r < length buf"; cases "field_bytes F v'"; auto)+
    then show ?thesis using "5.IH" [OF v'(3)] "5.prems" v' by simp
  qed
next
  case (6 F v s val)
  then show ?case by auto
qed auto

lemma read_trailing:
  assumes "trailing F v s val" "drop (de_pos r) buf = field_bytes F v" "de_pos r \<le> length buf" "length buf < usize_max"
  shows "deserialize_value F buf s r = Some (Inr (val, at (de_pos r + length (field_bytes F v)) r))"
  using assms(1) read_trail [OF assms(2-4)]
  by (cases s) (auto simp: with_record_def)

text \<open>\<open>tuple_ok vs ss rs\<close>: the fields \<open>vs\<close> are read under the shapes \<open>ss\<close> as \<open>rs\<close>.\<close>

inductive tuple_ok :: "('j, 'e) formats \<Rightarrow> 'j ser_value list \<Rightarrow> shape list \<Rightarrow> 'j de_value list \<Rightarrow> bool" for F where
  tuple_nil: "tuple_ok F [] [] []"
| tuple_last: "trailing F v s r \<Longrightarrow> tuple_ok F [v] [s] [r]"
| tuple_more: "delimited F v s r \<Longrightarrow> tuple_ok F vs ss rs \<Longrightarrow> tuple_ok F (v # vs) (s # ss) (r # rs)"

lemma tuple_ok_fields: "tuple_ok F vs ss rs \<Longrightarrow> list_all (is_field F) vs \<and> length ss = length vs \<and> length rs = length vs"
  by (induction rule: tuple_ok.induct) (auto intro: delimited_is_field trailing_is_field)

lemma record_start_reads:
  assumes "drop (de_pos r) buf = (if de_rec r = 0 then tuple_bytes F (v # vs) else sep_fields F (v # vs))"
    and "de_rec r = 0 \<longrightarrow> de_pos r = 0" "de_pos r \<le> length buf" "length buf < usize_max" "de_rec r < usize_max"
    and "r1 = de_record_start buf r"
  shows "drop (de_pos r1) buf = field_bytes F v @ sep_fields F vs" "de_rec r1 = de_rec r + 1" "de_seq r1 = de_seq r"
    "de_pos r1 \<le> length buf"
proof -
  show "de_rec r1 = de_rec r + 1" "de_seq r1 = de_seq r"
    using assms(5,6) by (auto simp: de_record_start_def Let_def inc_rec_def inc_pos_def sat_add_def)
  have "drop (de_pos r1) buf = field_bytes F v @ sep_fields F vs \<and> de_pos r1 \<le> length buf"
  proof (cases "de_rec r = 0")
    case True
    then have "de_pos r1 = de_pos r"
      using assms(2,6) by (simp add: de_record_start_def Let_def inc_rec_def inc_pos_def sat_add_def)
    then show ?thesis using assms(1,3) True by (simp add: tuple_bytes_def)
  next
    case False
    then have d: "drop (de_pos r) buf = SEP # field_bytes F v @ sep_fields F vs" using assms(1) by simp
    then have lt: "de_pos r < length buf" using assms(3) by (cases "de_pos r < length buf") auto
    then have "de_pos r1 = de_pos r + 1"
      using False assms(4,6) by (simp add: de_record_start_def Let_def inc_rec_def inc_pos_def sat_add_def)
    then show ?thesis using split_at_pos [of "de_pos r" buf "[SEP]"] d assms(3) by simp
  qed
  then show "drop (de_pos r1) buf = field_bytes F v @ sep_fields F vs" "de_pos r1 \<le> length buf" by auto
qed

lemma read_fields:
  assumes "tuple_ok F vs ss rs"
    and "drop (de_pos r) buf = (if de_rec r = 0 then tuple_bytes F vs else sep_fields F vs)"
    and "de_rec r = 0 \<longrightarrow> de_pos r = 0" "de_pos r \<le> length buf" "length buf < usize_max"
    and "de_seq r = de_rec r + length vs" "de_rec r + length vs \<le> usize_max"
  shows "\<exists>r'. deserialize_fields F buf i ss r = Some (Inr (rs, r')) \<and> de_pos r' = length buf"
  using assms
proof (induction arbitrary: r i rule: tuple_ok.induct)
  case tuple_nil
  then show ?case by (cases "de_rec r = 0") (simp_all add: tuple_bytes_def)
next
  case (tuple_last v s val)
  define r1 where "r1 = de_record_start buf r"
  note s = record_start_reads [OF tuple_last.prems(1-4) _ r1_def]
  have "de_rec r < usize_max" using tuple_last.prems(6) by simp
  note s = s [OF this]
  have "deserialize_value F buf s r1 = Some (Inr (val, at (de_pos r1 + length (field_bytes F v)) r1))"
    using read_trailing [OF tuple_last.hyps _ s(4) tuple_last.prems(4)] s(1) by simp
  moreover have "de_pos r1 + length (field_bytes F v) = length buf"
    using s(4) length_drop [of "de_pos r1" buf] unfolding s(1) by simp
  ultimately show ?case using tuple_last.prems(5) by (simp add: r1_def [symmetric])
next
  case (tuple_more v s val vs ss rs)
  define r1 where "r1 = de_record_start buf r"
  have "de_rec r < usize_max" using tuple_more.prems(6) by simp
  note s = record_start_reads [OF tuple_more.prems(1-4) this r1_def]
  let ?r2 = "at (de_pos r1 + length (field_bytes F v)) r1"
  have sep: "sep_fields F vs = [] \<or> (\<exists>more. sep_fields F vs = SEP # more)" by (cases vs) auto
  have seq: "0 < de_seq r1" using s(3) tuple_more.prems(5) by simp
  have v: "deserialize_value F buf s r1 = Some (Inr (val, ?r2))"
    by (rule read_delimited [OF tuple_more.hyps(1) s(1,4) tuple_more.prems(4) sep seq])
  note p = split_at_pos [OF s(1,4)]
  obtain r' where r': "deserialize_fields F buf (i + 1) ss ?r2 = Some (Inr (rs, r'))" "de_pos r' = length buf"
    using tuple_more.IH [of ?r2 "i + 1"] p s(2,3) tuple_more.prems(4-6) by auto
  show ?case using v r' tuple_more.prems(5) by (simp add: r1_def [symmetric])
qed

lemma fields_le_bytes: "length vs \<le> length (tuple_bytes F vs) + 1"
proof -
  have "length vs \<le> length (sep_fields F vs)" by (induction vs) auto
  then show ?thesis by (simp add: tuple_bytes_def)
qed

lemma read_tuple:
  assumes "tuple_ok F vs ss rs" "length (tuple_bytes F vs) < usize_max"
  shows "\<exists>r. deserialize_value F (tuple_bytes F vs) (STuple ss) de_start = Some (Inr (RTuple rs, r)) \<and>
    finished (tuple_bytes F vs) r"
proof -
  have "length vs \<le> usize_max" using fields_le_bytes [of vs F] assms(2) by simp
  then obtain r where "deserialize_fields F (tuple_bytes F vs) 0 ss (de_sequence_start (length ss) de_start) = Some (Inr (rs, r))"
      "de_pos r = length (tuple_bytes F vs)"
    using read_fields [OF assms(1), of "de_sequence_start (length ss) de_start" "tuple_bytes F vs" 0] assms(2)
      tuple_ok_fields [OF assms(1)]
    by (auto simp: de_sequence_start_def de_start_def)
  then show ?thesis by (simp add: finished_def)
qed

section \<open>Older, shorter tuples\<close>

text \<open>A tuple whose type has grown a last field that accepts empty input: the stored form without it reads as the empty one.\<close>

fun empty_tail :: "shape \<Rightarrow> 'j de_value option" where
  "empty_tail SStr = Some (RStr [])"
| "empty_tail SBytes = Some (RBytes [])"
| "empty_tail (SOption s) = Some RNone"
| "empty_tail _ = None"

lemma read_missing_tail:
  assumes "empty_tail t = Some e" "de_pos r = length buf" "de_rec r > 0" "de_seq r = de_rec r + 1" "length buf < usize_max"
  shows "\<exists>r'. deserialize_fields F buf i [t] r = Some (Inr ([e], r')) \<and> de_pos r' = length buf"
proof -
  have pos: "de_pos (de_record_start buf r) = length buf"
    using assms by (simp add: de_record_start_def Let_def inc_rec_def inc_pos_def sat_add_def)
  have n: "record_next buf (de_record_start buf r) = Some ([], at (length buf) (de_record_start buf r))"
    using read_record [of "de_record_start buf r" buf "[]" "[]"] pos assms(5) by simp
  have t: "record_trail buf (de_record_start buf r) = Some ([], at (length buf) (de_record_start buf r))"
    using read_trail [of "de_record_start buf r" buf "[]"] pos assms(5) by simp
  show ?thesis using assms pos n t by (cases t) (auto simp: with_record_def deserialize_str_def)
qed

lemma read_fields_then:
  assumes "length vs = length ss" "length ss = length rs" "\<forall>i < length vs. delimited F (vs ! i) (ss ! i) (rs ! i)"
    and "drop (de_pos r) buf = (if de_rec r = 0 then tuple_bytes F vs else sep_fields F vs)" "vs \<noteq> []"
    and "de_rec r = 0 \<longrightarrow> de_pos r = 0" "de_pos r \<le> length buf" "length buf < usize_max"
    and "de_seq r = de_rec r + length vs + k" "de_rec r + length vs \<le> usize_max"
  shows "\<exists>r'. deserialize_fields F buf i (ss @ ts) r =
      cbind (deserialize_fields F buf (i + length ss) ts r') (\<lambda>(us, r''). Some (Inr (rs @ us, r''))) \<and>
    de_pos r' = length buf \<and> de_rec r' = de_rec r + length vs \<and> de_seq r' = de_seq r"
  using assms
proof (induction vs ss rs arbitrary: r i rule: list_induct3)
  case (Cons v vs s ss val rs)
  define r1 where "r1 = de_record_start buf r"
  have d: "delimited F v s val" using Cons.prems(1) by force
  have ds: "\<forall>i < length vs. delimited F (vs ! i) (ss ! i) (rs ! i)" using Cons.prems(1) by force
  have "de_rec r < usize_max" using Cons.prems(8) by simp
  note st = record_start_reads [OF Cons.prems(2,4,5,6) this r1_def]
  let ?r2 = "at (de_pos r1 + length (field_bytes F v)) r1"
  have sep: "sep_fields F vs = [] \<or> (\<exists>more. sep_fields F vs = SEP # more)" by (cases vs) auto
  have seq: "0 < de_seq r1" using st(3) Cons.prems(7) by simp
  have v: "deserialize_value F buf s r1 = Some (Inr (val, ?r2))"
    by (rule read_delimited [OF d st(1,4) Cons.prems(6) sep seq])
  note p = split_at_pos [OF st(1,4)]
  have go: "deserialize_fields F buf i ((s # ss) @ ts) r =
      cbind (deserialize_fields F buf (i + 1) (ss @ ts) ?r2) (\<lambda>(us, r''). Some (Inr (val # us, r'')))"
    using v Cons.prems(7) by (simp add: r1_def [symmetric])
  show ?case
  proof (cases "vs = []")
    case True
    then have "ss = []" "rs = []" using Cons.hyps by simp_all
    moreover have "de_pos ?r2 = length buf" using p True length_drop [of "de_pos ?r2" buf] by simp
    ultimately show ?thesis using go st(2,3) True by (intro exI [of _ ?r2]) simp
  next
    case False
    have inv: "drop (de_pos ?r2) buf = (if de_rec ?r2 = 0 then tuple_bytes F vs else sep_fields F vs)"
        "de_rec ?r2 = 0 \<longrightarrow> de_pos ?r2 = 0" "de_pos ?r2 \<le> length buf" "de_seq ?r2 = de_rec ?r2 + length vs + k"
        "de_rec ?r2 + length vs \<le> usize_max"
      using p st(2,3) Cons.prems(7,8) by simp_all
    obtain r' where "deserialize_fields F buf (i + 1) (ss @ ts) ?r2 =
        cbind (deserialize_fields F buf (i + 1 + length ss) ts r') (\<lambda>(us, r''). Some (Inr (rs @ us, r'')))"
        "de_pos r' = length buf" "de_rec r' = de_rec ?r2 + length vs" "de_seq r' = de_seq ?r2"
      using Cons.IH [OF ds inv(1) False inv(2,3) Cons.prems(6) inv(4,5), of "i + 1"] by blast
    then show ?thesis
      using go st(2,3)
      by (intro exI [of _ r']) (auto simp: cbind_def split: option.splits sum.splits prod.splits)
  qed
qed simp

lemma short_tuple_reads:
  assumes "length vs = length ss" "length ss = length rs" "\<forall>i < length vs. delimited F (vs ! i) (ss ! i) (rs ! i)"
    and "vs \<noteq> []" "empty_tail t = Some e" "length (tuple_bytes F vs) < usize_max"
  shows "from_slice F (tuple_bytes F vs) (STuple (ss @ [t])) = Some (Inr (RTuple (rs @ [e])))"
proof -
  let ?buf = "tuple_bytes F vs" and ?r = "de_sequence_start (length (ss @ [t])) de_start"
  have "length vs \<le> usize_max" using fields_le_bytes [of vs F] assms(6) by simp
  then obtain r' where r': "deserialize_fields F ?buf 0 (ss @ [t]) ?r =
      cbind (deserialize_fields F ?buf (0 + length ss) [t] r') (\<lambda>(us, r''). Some (Inr (rs @ us, r'')))"
      "de_pos r' = length ?buf" "de_rec r' = de_rec ?r + length vs" "de_seq r' = de_seq ?r"
    using read_fields_then [OF assms(1-3), of ?r ?buf 1 0 "[t]"] assms(1,4,6)
    by (auto simp: de_sequence_start_def de_start_def)
  moreover have "ss \<noteq> []" using assms(1,4) by auto
  moreover obtain r'' where "deserialize_fields F ?buf (0 + length ss) [t] r' = Some (Inr ([e], r''))"
    using read_missing_tail [OF assms(5) r'(2) _ _ assms(6), of F "0 + length ss"] r'(3,4) assms(1) calculation(5)
    by (auto simp: de_sequence_start_def de_start_def)
  ultimately show ?thesis by (simp add: from_slice_def)
qed

section \<open>Lists of strings\<close>

lemma serialize_strings_sep:
  "ser_sep w \<Longrightarrow> serialize_elements F False (map VStr ts) w = Some (Inr (ser_write (sep_fields F (map VStr ts)) w))"
proof (induction ts arbitrary: w)
  case (Cons t ts)
  let ?w = "ser_write (SEP # t) w"
  have "set_sep True (ser_write t (ser_record_start w)) = ?w"
    using Cons.prems by (simp add: ser_record_start_def ser_separator_def set_sep_def ser_write_def)
  moreover have "ser_sep ?w" using Cons.prems by (simp add: ser_write_def)
  ultimately show ?case using Cons.IH [of ?w] by (simp add: ser_write_def)
qed (simp add: ser_write_def)

lemma serialize_strings: "serialize F (VSeq (map VStr ts)) = Some (Inr (tuple_bytes F (map VStr ts)))"
proof (cases ts)
  case (Cons t us)
  let ?w = "\<lparr> ser_out = t, ser_sep = True \<rparr>"
  have "set_sep True (ser_write t (ser_record_start \<lparr> ser_out = [], ser_sep = False \<rparr>)) = ?w"
    by (simp add: ser_record_start_def set_sep_def ser_write_def)
  then show ?thesis
    using Cons serialize_strings_sep [of ?w F us] by (simp add: serialize_def set_sep_def ser_write_def tuple_bytes_def)
qed (simp add: serialize_def set_sep_def tuple_bytes_def)

lemma read_strings:
  assumes "list_all utf8_ok ts" "length buf < usize_max" "de_pos r \<le> length buf"
    and "drop (de_pos r) buf = (if de_rec r = 0 then tuple_bytes F (map VStr ts) else sep_fields F (map VStr ts))"
    and "de_rec r = 0 \<longrightarrow> de_pos r = 0 \<and> ts \<noteq> []" "de_seq r = 1" "de_rec r + length ts \<le> usize_max"
  shows "\<exists>r'. deserialize_elements F buf SStr vs r = Some (Inr (vs @ map RStr ts, r')) \<and> de_pos r' = length buf"
  using assms
proof (induction ts arbitrary: vs r)
  case Nil
  then show ?case by (auto simp: deserialize_elements.simps)
next
  case (Cons t ts)
  define r1 where "r1 = de_record_start buf r"
  have d: "drop (de_pos r) buf =
      (if de_rec r = 0 then tuple_bytes F (VStr t # map VStr ts) else sep_fields F (VStr t # map VStr ts))"
    "de_rec r = 0 \<longrightarrow> de_pos r = 0" "de_rec r < usize_max"
    using Cons.prems by auto
  note s = record_start_reads [OF d(1,2) Cons.prems(3,2) d(3) r1_def]
  let ?r2 = "at (de_pos r1 + length t) r1"
  have sep: "sep_fields F (map VStr ts) = [] \<or> (\<exists>more. sep_fields F (map VStr ts) = SEP # more)" by (cases ts) auto
  have v: "deserialize_value F buf SStr r1 = Some (Inr (RStr t, ?r2))"
    using read_delimited [of F "VStr t" SStr "RStr t" r1 buf, OF _ s(1,4) Cons.prems(2) sep] s(3) Cons.prems(1,6) by simp
  have p: "de_pos ?r2 \<le> length buf" "drop (de_pos ?r2) buf = sep_fields F (map VStr ts)"
    using split_at_pos [OF s(1,4)] by simp_all
  have more: "\<not> (length buf \<le> de_pos r \<and> de_seq r \<le> de_rec r)"
    using d(1) Cons.prems(6) by (cases "de_rec r = 0") auto
  obtain r' where "deserialize_elements F buf SStr (vs @ [RStr t]) ?r2 = Some (Inr ((vs @ [RStr t]) @ map RStr ts, r'))"
      "de_pos r' = length buf"
    using Cons.IH [of ?r2 "vs @ [RStr t]"] Cons.prems(1,2,6,7) p s(2,3) by auto
  then show ?case using v more by (subst deserialize_elements.simps) (simp add: r1_def [symmetric])
qed

lemma read_no_string: "seq_from_slice F [] SStr = Some (Inr [RStr []])"
proof -
  let ?r = "\<lparr> de_pos = 0, de_rec = 1, de_seq = 1 \<rparr>"
  have "deserialize_elements F [] SStr [] \<lparr> de_pos = 0, de_rec = 0, de_seq = 1 \<rparr> = deserialize_elements F [] SStr [RStr []] ?r"
    by (subst deserialize_elements.simps)
      (simp add: de_record_start_def inc_rec_def inc_pos_def sat_add_def usize_max_def deserialize_str_def with_record_def
        record_next_def range_get_rest)
  also have "\<dots> = Some (Inr ([RStr []], ?r))" by (subst deserialize_elements.simps) simp
  finally show ?thesis by (simp add: seq_from_slice_def deserialize_seq_def de_sequence_start_def de_start_def)
qed

section \<open>Prefixes\<close>

text \<open>A field that is followed by the separator is determined by the bytes: fields of one shape cannot run into each other.\<close>

lemma sep_free_unique:
  assumes "SEP \<notin> set x" "SEP \<notin> set y" "x @ SEP # a = y @ SEP # b"
  shows "x = y \<and> a = b"
proof -
  have "x = y" using takeWhile_sep(1) [OF assms(1), of a] takeWhile_sep(1) [OF assms(2), of b] assms(3) by simp
  then show ?thesis using assms(3) by simp
qed

lemma field_unique:
  assumes "delimited F v s r" "delimited F w s q" "field_bytes F v @ SEP # a = field_bytes F w @ SEP # b"
  shows "v = w \<and> a = b"
  using assms
proof (induction F v s r arbitrary: w q rule: delimited.induct)
  case (1 F v r)
  then show ?case by (auto simp: be64.enc_append_inject)
next
  case (2 F v r)
  then show ?case by (auto simp: be64.enc_append_inject)
next
  case (3 F v r)
  then obtain t u where "v = VStr t" "w = VStr u" "utf8_ok t" "utf8_ok u" by auto
  then show ?case using 3 sep_free_unique [of t u a b] utf8_no_sep by auto
next
  case (4 F v r)
  then obtain t u where "v = VStr t" "w = VStr u" "utf8_ok t" "utf8_ok u" by auto
  then show ?case using 4 sep_free_unique [of t u a b] utf8_no_sep by auto
next
  case (5 F v s r)
  have hd: "hd (field_bytes F u) = SEP \<or> field_bytes F u = []" if "SEP # c = field_bytes F u @ SEP # d" for u c d
    using that by (cases "field_bytes F u") auto
  show ?case
  proof (cases "v = VNone")
    case True
    then show ?thesis using 5 hd by fastforce
  next
    case False
    then obtain v' r' where v': "v = VSome v'" "delimited F v' s r'" "field_bytes F v' \<noteq> []" "hd (field_bytes F v') \<noteq> SEP"
      using "5.prems"(1) by auto
    have "w \<noteq> VNone" using "5.prems"(3) v' hd [of b v' a] by auto
    then obtain w' q' where "w = VSome w'" "delimited F w' s q'" using "5.prems"(2) by auto
    then show ?thesis using "5.IH" [OF v'(2), of w' q'] "5.prems"(3) v'(1) by simp
  qed
next
  case (6 F v s r)
  then show ?case by auto
qed auto

definition conforms :: "('j, 'e) formats \<Rightarrow> 'j ser_value \<Rightarrow> shape \<Rightarrow> bool" where
  "conforms F v s \<longleftrightarrow> (\<exists>r. delimited F v s r)"

lemma fields_prefix_unique:
  assumes "length xs = length ss" "length ys = length ss"
    and "list_all2 (conforms F) xs ss" "list_all2 (conforms F) ys ss"
    and "concat (map (\<lambda>v. field_bytes F v @ [SEP]) xs) @ a = concat (map (\<lambda>v. field_bytes F v @ [SEP]) ys) @ b"
  shows "xs = ys \<and> a = b"
  using assms(3,4,1,2,5)
proof (induction ss arbitrary: xs ys rule: list.induct)
  case (Cons s ss)
  then obtain x xs' y ys' where l: "xs = x # xs'" "ys = y # ys'" by (cases xs; cases ys) auto
  obtain r q where "delimited F x s r" "delimited F y s q" using Cons.prems l by (auto simp: conforms_def)
  then have "x = y \<and> concat (map (\<lambda>v. field_bytes F v @ [SEP]) xs') @ a = concat (map (\<lambda>v. field_bytes F v @ [SEP]) ys') @ b"
    using field_unique [of F x s r y q] Cons.prems(5) l by simp
  then show ?case using Cons.IH [of xs' ys'] Cons.prems l by simp
qed simp

lemma sep_fields_shift: "sep_fields F vs @ [SEP] = SEP # concat (map (\<lambda>v. field_bytes F v @ [SEP]) vs)"
  by (induction vs) auto

lemma tuple_bytes_interfix:
  "xs \<noteq> [] \<Longrightarrow> tuple_bytes F (xs @ [VInterfix]) = concat (map (\<lambda>v. field_bytes F v @ [SEP]) xs)"
  using sep_fields_shift [of F xs] by (simp add: tuple_bytes_def)

lemma tuple_bytes_split:
  "xs \<noteq> [] \<Longrightarrow> y # ys = zs \<Longrightarrow>
   tuple_bytes F (xs @ zs) = concat (map (\<lambda>v. field_bytes F v @ [SEP]) xs) @ field_bytes F y @ sep_fields F ys"
  using sep_fields_shift [of F xs] arg_cong [of _ _ "\<lambda>l. tl l @ field_bytes F y @ sep_fields F ys", OF sep_fields_shift [of F xs]]
  by (cases xs) (auto simp: tuple_bytes_def)

section \<open>No slice is out of range\<close>

fun handled :: "shape \<Rightarrow> bool" where
  "handled SUnhandled = False"
| "handled (SOption s) = handled s"
| "handled (SNewtype s) = handled s"
| "handled (STuple ss) = list_all handled ss"
| "handled _ = True"

definition in_range :: "byte list \<Rightarrow> deserializer \<Rightarrow> bool" where
  "in_range buf r \<longleftrightarrow> de_pos r \<le> length buf"

definition stays_in_range :: "byte list \<Rightarrow> ('e, 'v \<times> deserializer) comp \<Rightarrow> bool" where
  "stays_in_range buf m \<longleftrightarrow> (case m of None \<Rightarrow> False | Some (Inl e) \<Rightarrow> True | Some (Inr (v, r)) \<Rightarrow> in_range buf r)"

lemma stays_cbind:
  assumes "stays_in_range buf m" "\<And>v r. in_range buf r \<Longrightarrow> stays_in_range buf (f (v, r))"
  shows "stays_in_range buf (cbind m f)"
proof (cases "\<exists>v r. m = Some (Inr (v, r))")
  case True
  then show ?thesis using assms by (auto simp: stays_in_range_def [of buf m])
next
  case False
  then show ?thesis using assms(1) by (auto simp: stays_in_range_def cbind_def split: option.splits sum.splits)
qed

lemma stays_with_record:
  "(case rcd of None \<Rightarrow> False | Some (input, r) \<Rightarrow> in_range buf r) \<Longrightarrow> stays_in_range buf (with_record rcd f)"
  by (cases rcd; cases "f (fst (the rcd))") (auto simp: stays_in_range_def with_record_def rmap_def split: sum.splits)

lemma records_in_range:
  assumes "in_range buf r" "length buf < usize_max"
  shows "case record_next buf r of None \<Rightarrow> False | Some (input, r) \<Rightarrow> in_range buf r"
    and "case record_trail buf r of None \<Rightarrow> False | Some (input, r) \<Rightarrow> in_range buf r"
    and "case record_ignore buf r of None \<Rightarrow> False | Some (input, r) \<Rightarrow> in_range buf r"
proof -
  have "length (takeWhile (\<lambda>b. b \<noteq> SEP) (drop (de_pos r) buf)) \<le> length buf - de_pos r"
    using length_takeWhile_le [of "\<lambda>b. b \<noteq> SEP" "drop (de_pos r) buf"] by simp
  then show n: "case record_next buf r of None \<Rightarrow> False | Some (input, r) \<Rightarrow> in_range buf r"
    using assms by (simp add: record_next_def in_range_def range_get_rest Let_def inc_pos_def sat_add_def)
  show t: "case record_trail buf r of None \<Rightarrow> False | Some (input, r) \<Rightarrow> in_range buf r"
    using assms by (simp add: record_trail_def in_range_def range_get_rest inc_pos_def sat_add_def)
  show "case record_ignore buf r of None \<Rightarrow> False | Some (input, r) \<Rightarrow> in_range buf r"
    using n t by (simp add: record_ignore_def)
qed

lemma u64_in_range:
  assumes "in_range buf r" "length buf < usize_max"
  shows "stays_in_range buf (deserialize_u64 buf r)"
proof (cases "de_pos r + 8 \<le> length buf")
  case True
  then show ?thesis
    using assms
    by (auto simp: deserialize_u64_def stays_in_range_def in_range_def inc_pos_def sat_add_def range_get_def
        split: option.splits)
next
  case False
  then have "min (sat_add (de_pos r) 8) (length buf) = length buf" using assms(2) by (auto simp: sat_add_def min_def)
  moreover have "u64_from_bytes (drop (de_pos r) buf) = None" using False by (simp add: u64_from_bytes_def)
  ultimately show ?thesis using assms by (simp add: deserialize_u64_def stays_in_range_def in_range_def range_get_rest)
qed

lemma strings_in_range:
  assumes "in_range buf r" "length buf < usize_max"
  shows "stays_in_range buf (deserialize_str buf r)"
    and "stays_in_range buf (deserialize_map F buf r)"
    and "stays_in_range buf (deserialize_any F buf r)"
proof -
  note n = records_in_range(1) [OF assms]
  show s: "stays_in_range buf (deserialize_str buf r)"
    unfolding deserialize_str_def by (intro stays_with_record n)
  show m: "stays_in_range buf (deserialize_map F buf r)"
    unfolding deserialize_map_def by (intro stays_with_record n)
  show "stays_in_range buf (deserialize_any F buf r)"
    using s m stays_with_record [OF n] assms(1) unfolding deserialize_any_def
    by (auto simp: record_peek_byte_def in_range_def range_get_rest)
qed

lemma start_in_range:
  assumes "in_range buf r" "length buf < usize_max" "\<not> (de_pos r \<ge> length buf \<and> de_rec r \<ge> de_seq r)"
  shows "in_range buf (de_record_start buf r)"
  using assms by (auto simp: in_range_def de_record_start_def Let_def inc_rec_def inc_pos_def sat_add_def)

lemma deserialize_in_range:
  "handled s \<Longrightarrow> length buf < usize_max \<Longrightarrow> in_range buf r \<Longrightarrow> stays_in_range buf (deserialize_value F buf s r)"
  "list_all handled ss \<Longrightarrow> length buf < usize_max \<Longrightarrow> in_range buf r \<Longrightarrow> stays_in_range buf (deserialize_fields F buf i ss r)"
proof (induction F buf s r and F buf i ss r rule: deserialize_value_deserialize_fields.induct)
  case (16 F buf i s ss r)
  show ?case
  proof (cases "de_pos r \<ge> length buf \<and> de_rec r \<ge> de_seq r")
    case False
    then show ?thesis
      using 16 start_in_range [OF "16.prems"(3,2) False]
      by (auto intro!: stays_cbind simp: stays_in_range_def [of _ "Some _"])
  qed (simp add: stays_in_range_def)
qed (auto intro!: stays_cbind stays_with_record u64_in_range records_in_range strings_in_range
      simp: stays_in_range_def [of _ "Some _"] de_sequence_start_def in_range_def)


lemma tuple_ok_conforms: "tuple_ok F ys ss rs \<Longrightarrow> n < length ys \<Longrightarrow> list_all2 (conforms F) (take n ys) (take n ss)"
proof (induction arbitrary: n rule: tuple_ok.induct)
  case (tuple_more v s r vs ss rs)
  then show ?case by (cases n) (auto simp: conforms_def)
qed simp_all

lemma conforms_is_field: "list_all2 (conforms F) xs ss \<Longrightarrow> list_all (is_field F) xs"
  by (induction rule: list_all2_induct) (auto simp: conforms_def intro: delimited_is_field)

lemma key_prefix_bytes:
  assumes "tuple_ok F ys ss rs" "xs \<noteq> []" "length xs < length ys" "list_all2 (conforms F) xs (take (length xs) ss)"
  shows "starts_with (tuple_bytes F ys) (tuple_bytes F (xs @ [VInterfix])) \<longleftrightarrow> take (length xs) ys = xs"
proof -
  let ?n = "length xs"
  let ?b = "\<lambda>vs. concat (map (\<lambda>v. field_bytes F v @ [SEP]) vs)"
  obtain y ys' where y: "drop ?n ys = y # ys'" using assms(3) by (cases "drop ?n ys") auto
  have "take ?n ys \<noteq> []" using assms(2,3) by auto
  then have ys: "tuple_bytes F ys = ?b (take ?n ys) @ field_bytes F y @ sep_fields F ys'"
    using tuple_bytes_split [of "take ?n ys" y ys' "drop ?n ys" F] y append_take_drop_id [of ?n ys] by (simp del: append_take_drop_id)
  have c: "list_all2 (conforms F) (take ?n ys) (take ?n ss)" by (rule tuple_ok_conforms [OF assms(1,3)])
  show ?thesis
    unfolding starts_with_iff tuple_bytes_interfix [OF assms(2)] ys
    using fields_prefix_unique [OF _ _ c assms(4)] list_all2_lengthD [OF c] list_all2_lengthD [OF assms(4)]
    by (metis append.assoc)
qed

section \<open>The properties of the codec\<close>

text \<open>C29: A tuple that the database writes is read back. When every field is one that its shape reads - integers, UTF-8 text,
  absent options, present options that do not look absent, and, in the last place, raw bytes, JSON or CBOR - then
  \<open>serialize\<close> succeeds, \<open>from_slice\<close> on its output returns the fields, and the deserializer has consumed the input.
\<close>

theorem record_round_trip:
  assumes "tuple_ok F vs ss rs" "length (tuple_bytes F vs) < usize_max"
  shows "\<exists>b r. serialize F (VTuple vs) = Some (Inr b) \<and> from_slice F b (STuple ss) = Some (Inr (RTuple rs)) \<and>
    deserialize_value F b (STuple ss) de_start = Some (Inr (RTuple rs, r)) \<and> finished b r"
  using serialize_tuple [of F vs] tuple_ok_fields [OF assms(1)] read_tuple [OF assms] by (auto simp: from_slice_def)

text \<open>Formats for the examples: the bytes of a byte list are itself\<close>

definition plain_formats :: "(byte list, unit) formats" where
  "plain_formats = \<lparr> to_json = Inr, of_json = Inr, to_cbor = Inr, of_cbor = Inr \<rparr>"

theorem record_round_trip_witness:
  "\<exists>b r. serialize plain_formats (VTuple [VStr [0x61], VNone, VU64 7, VBytes [0xFF]]) = Some (Inr b) \<and>
    from_slice plain_formats b (STuple [SStr, SOption SU64, SU64, SBytes]) =
      Some (Inr (RTuple [RStr [0x61], RNone, RU64 7, RBytes [0xFF]])) \<and>
    deserialize_value plain_formats b (STuple [SStr, SOption SU64, SU64, SBytes]) de_start =
      Some (Inr (RTuple [RStr [0x61], RNone, RU64 7, RBytes [0xFF]], r)) \<and> finished b r"
proof (rule record_round_trip)
  show "tuple_ok plain_formats [VStr [0x61], VNone, VU64 7, VBytes [0xFF]] [SStr, SOption SU64, SU64, SBytes]
      [RStr [0x61], RNone, RU64 7, RBytes [0xFF]]"
    by (intro tuple_more tuple_last) (simp_all add: utf8_lead_def)
  show "length (tuple_bytes plain_formats [VStr [0x61], VNone, VU64 7, VBytes [0xFF]]) < usize_max"
    by (simp add: tuple_bytes_def usize_max_def)
qed

text \<open>C30: A scan by a key prefix finds the rows it means. For a stored tuple key and the leading fields of a query followed by
  \<open>Interfix\<close>, the bytes of the query are a prefix of the bytes of the key exactly if the key begins with those fields: no
  other key, such as one with a longer text in the last queried field, is caught by the scan.
\<close>

theorem key_prefix_exact:
  assumes "tuple_ok F ys ss rs" "xs \<noteq> []" "length xs < length ys" "list_all2 (conforms F) xs (take (length xs) ss)"
  shows "\<exists>p k. serialize F (VTuple (xs @ [VInterfix])) = Some (Inr p) \<and> serialize F (VTuple ys) = Some (Inr k) \<and>
    (starts_with k p \<longleftrightarrow> take (length xs) ys = xs)"
  using key_prefix_bytes [OF assms] serialize_tuple [of F "xs @ [VInterfix]"] serialize_tuple [of F ys]
    tuple_ok_fields [OF assms(1)] conforms_is_field [OF assms(4)]
  by simp

theorem key_prefix_exact_witness:
  "\<exists>p k. serialize plain_formats (VTuple ([VStr [0x61]] @ [VInterfix])) = Some (Inr p) \<and>
    serialize plain_formats (VTuple [VStr [0x61, 0x62], VU64 1]) = Some (Inr k) \<and>
    (starts_with k p \<longleftrightarrow> take (length [VStr [0x61]]) [VStr [0x61, 0x62], VU64 1] = [VStr [0x61] :: byte list ser_value])"
proof -
  have "tuple_ok plain_formats [VStr [0x61, 0x62], VU64 1] [SStr, SU64] [RStr [0x61, 0x62], RU64 1]"
    by (intro tuple_more tuple_nil) (simp_all add: utf8_lead_def)
  then show ?thesis
    using key_prefix_exact [of plain_formats "[VStr [0x61, 0x62], VU64 1]" "[SStr, SU64]" _ "[VStr [0x61]]"]
    by (simp add: conforms_def utf8_lead_def)
qed

text \<open>C31: Reading never panics on what is stored. Whatever the bytes, and whatever supported shape a caller asks for,
  \<open>from_slice\<close> returns a value or an error: no slice is out of range and the position stays inside the input.
\<close>

theorem from_slice_total:
  assumes "handled s" "length buf < usize_max"
  shows "from_slice F buf s \<noteq> None"
proof -
  have "in_range buf de_start" by (simp add: in_range_def de_start_def)
  then have "stays_in_range buf (deserialize_value F buf s de_start)" by (rule deserialize_in_range(1) [OF assms])
  then show ?thesis unfolding from_slice_def by (intro cbind_not_None) (auto simp: stays_in_range_def split: option.splits)
qed

theorem from_slice_total_witness:
  "from_slice plain_formats [0xFF, 0x00, 0x01] (STuple [SOption SU64, SStr, SU64]) \<noteq> None"
  by (rule from_slice_total) (simp_all add: usize_max_def)

text \<open>A stored tuple that lacks its last field is read as if the field were empty. This is how a key gains a field without
  a migration: text and bytes read as empty and an option as absent.
\<close>

lemma missing_tail_is_empty:
  assumes "length vs = length ss" "length ss = length rs" "\<forall>i < length vs. delimited F (vs ! i) (ss ! i) (rs ! i)"
    and "vs \<noteq> []" "empty_tail t = Some e" "length (tuple_bytes F vs) < usize_max"
  shows "\<exists>b. serialize F (VTuple vs) = Some (Inr b) \<and> from_slice F b (STuple (ss @ [t])) = Some (Inr (RTuple (rs @ [e])))"
proof -
  have "list_all (is_field F) vs" using assms(3) by (auto simp: list_all_length intro: delimited_is_field)
  then show ?thesis using short_tuple_reads [OF assms] serialize_tuple [of F vs] by simp
qed

text \<open>C32: A list of strings is read back, the empty list apart: it is written as no bytes at all, and no bytes are read as a list
  of one empty string.
\<close>

theorem string_list_round_trip:
  assumes "list_all utf8_ok ts" "length (tuple_bytes F (map VStr ts)) < usize_max"
  shows "\<exists>b. serialize F (VSeq (map VStr ts)) = Some (Inr b) \<and>
    seq_from_slice F b SStr = Some (Inr (if ts = [] then [RStr []] else map RStr ts))"
proof (cases "ts = []")
  case True
  then show ?thesis using serialize_strings [of F ts] read_no_string [of F] by (simp add: tuple_bytes_def)
next
  case False
  have "length ts \<le> usize_max" using fields_le_bytes [of "map VStr ts" F] assms(2) by simp
  then have "\<exists>r'. deserialize_elements F (tuple_bytes F (map VStr ts)) SStr [] (de_sequence_start 1 de_start) =
      Some (Inr ([] @ map RStr ts, r')) \<and> de_pos r' = length (tuple_bytes F (map VStr ts))"
    using read_strings [OF assms, of "de_sequence_start 1 de_start" F "[]"] False
    by (simp add: de_sequence_start_def de_start_def)
  then show ?thesis using False serialize_strings [of F ts] by (auto simp: seq_from_slice_def deserialize_seq_def)
qed

theorem string_list_round_trip_witness:
  "\<exists>b. serialize plain_formats (VSeq (map VStr [[0x61], []])) = Some (Inr b) \<and>
    seq_from_slice plain_formats b SStr = Some (Inr (if [[0x61 :: byte], []] = [] then [RStr []] else map RStr [[0x61], []]))"
  by (rule string_list_round_trip) (simp_all add: utf8_lead_def tuple_bytes_def usize_max_def)

end
