(* ===== verification/Db_Watch.thy ===== *)
theory Db_Watch
  imports Codec Ordered
begin

text \<open>
  The watchers of a database table: \<^verbatim>\<open>src/database/map/watch.rs\<close>. A table keeps one sender per watched key prefix in an
  ordered map, here an association list with ascending keys; a write notifies the senders of the prefixes of its key. The
  channels are those of an asynchronous runtime and are an argument. Each operation runs under the lock of the ordered
  map and is one step. The theory shows which prefixes a notification reaches, that a waiting subscription stays
  registered in every run, and that it is woken.
\<close>

section \<open>Subscriptions and notifications\<close>

text \<open>A channel's operations; the type \<open>'h\<close> is the state of all channels.\<close>

record ('tx, 'rx, 'h) channels =
  ch_new :: "'h \<Rightarrow> 'tx \<times> 'rx \<times> 'h"
  ch_subscribe :: "'tx \<Rightarrow> 'h \<Rightarrow> 'rx \<times> 'h"
  ch_send :: "'tx \<Rightarrow> 'h \<Rightarrow> bool \<times> 'h"
  ch_receiver_count :: "'tx \<Rightarrow> 'h \<Rightarrow> nat"
  ch_drop :: "'rx \<Rightarrow> 'h \<Rightarrow> 'h"

type_synonym 'tx watchers = "(byte list \<times> 'tx) list"

definition subscribe :: "('tx, 'rx, 'h) channels \<Rightarrow> byte list \<Rightarrow> 'tx watchers \<Rightarrow> 'h \<Rightarrow> 'rx \<times> 'tx watchers \<times> 'h" where
  "subscribe C key ws h = (case map_of ws key of
     Some tx \<Rightarrow> (let (rx, h') = ch_subscribe C tx h in (rx, ws, h'))
   | None \<Rightarrow> (let (tx, rx, h') = ch_new C h in (rx, btree_insert key tx ws, h')))"

text \<open>The walk goes down from the changed key and ends at the first prefix that does not match.\<close>

definition candidates :: "'tx watchers \<Rightarrow> byte list \<Rightarrow> 'tx watchers" where
  "candidates ws key = takeWhile (\<lambda>e. starts_with key (fst e)) (rev (filter (\<lambda>e. fst e \<le> key) ws))"

fun send_each :: "('tx, 'rx, 'h) channels \<Rightarrow> 'tx watchers \<Rightarrow> 'h \<Rightarrow> byte list list \<times> 'h" where
  "send_each C [] h = ([], h)"
| "send_each C ((k, tx) # es) h =
     (let (ok, h') = ch_send C tx h; (closed, h'') = send_each C es h'
      in (if ok then closed else k # closed, h''))"

definition notify :: "('tx, 'rx, 'h) channels \<Rightarrow> byte list \<Rightarrow> 'tx watchers \<Rightarrow> 'h \<Rightarrow> 'tx watchers \<times> 'h" where
  "notify C key ws h = (let (closed, h') = send_each C (candidates ws key) h in (fold btree_remove closed ws, h'))"

text \<open>The guard that a one-time watcher runs when it ends, while it still counts as a receiver\<close>

definition once_guard :: "('tx, 'rx, 'h) channels \<Rightarrow> byte list \<Rightarrow> 'tx watchers \<Rightarrow> 'h \<Rightarrow> 'tx watchers" where
  "once_guard C key ws h = (case map_of ws key of
     Some tx \<Rightarrow> if ch_receiver_count C tx h = 1 then btree_remove key ws else ws
   | None \<Rightarrow> ws)"

section \<open>Which prefixes a notification reaches\<close>

lemma takeWhile_sorted_mem:
  assumes "sorted_wrt (\<lambda>x y. fst y < fst x) xs"
  shows "x \<in> set (takeWhile P xs) \<longleftrightarrow> x \<in> set xs \<and> (\<forall>y \<in> set xs. fst x \<le> (fst y :: 'k::linorder) \<longrightarrow> P y)"
  using assms
proof (induction xs)
  case (Cons a xs)
  then have lt: "\<forall>y \<in> set xs. fst y < fst a" by simp
  show ?case
  proof (cases "x = a")
    case True
    then show ?thesis using lt by (auto dest: leD)
  next
    case False
    then show ?thesis using lt Cons by (auto dest: less_imp_le)
  qed
qed simp

lemma candidates_iff:
  assumes "btree ws"
  shows "e \<in> set (candidates ws key) \<longleftrightarrow> e \<in> set ws \<and> starts_with key (fst e) \<and>
    (\<forall>e' \<in> set ws. fst e \<le> fst e' \<and> fst e' \<le> key \<longrightarrow> starts_with key (fst e'))"
proof -
  have "sorted_wrt (\<lambda>x y. fst y < fst x) (rev (filter (\<lambda>e. fst e \<le> key) ws))"
    using assms by (simp add: btree_def sorted_wrt_rev sorted_wrt_filter)
  then show ?thesis
    using starts_with_le [of key "fst e"] unfolding candidates_def by (subst takeWhile_sorted_mem) (assumption, cases e, auto)
qed

definition prefix_free :: "'a list list \<Rightarrow> bool" where
  "prefix_free ps \<longleftrightarrow> (\<forall>p \<in> set ps. \<forall>q \<in> set ps. starts_with q p \<longrightarrow> q = p)"

lemma candidates_prefix_free:
  assumes "btree ws" "prefix_free (map fst ws)"
  shows "set (candidates ws key) = {e \<in> set ws. starts_with key (fst e)}"
proof -
  have "starts_with key (fst e')" if "e \<in> set ws" "e' \<in> set ws" "starts_with key (fst e)" "fst e \<le> fst e'" "fst e' \<le> key" for e e'
  proof -
    have "fst e' = fst e" using assms(2) starts_with_between [OF that(3-5)] that(1,2) by (auto simp: prefix_free_def)
    then show ?thesis using that(3) by simp
  qed
  then show ?thesis using candidates_iff [OF assms(1), of _ key] by blast
qed

lemma candidates_keys:
  assumes "btree ws" "p \<in> fst ` set ws"
  shows "p \<in> fst ` set (candidates ws key) \<longleftrightarrow>
      starts_with key p \<and> (\<forall>q \<in> fst ` set ws. p \<le> q \<and> q \<le> key \<longrightarrow> starts_with key q)"
    and "prefix_free (map fst ws) \<Longrightarrow> p \<in> fst ` set (candidates ws key) \<longleftrightarrow> starts_with key p"
proof -
  obtain tx where tx: "(p, tx) \<in> set ws" using assms(2) by auto
  have "p \<in> fst ` set (candidates ws key) \<longleftrightarrow> (\<exists>tx. (p, tx) \<in> set (candidates ws key))" by force
  then show "p \<in> fst ` set (candidates ws key) \<longleftrightarrow>
      starts_with key p \<and> (\<forall>q \<in> fst ` set ws. p \<le> q \<and> q \<le> key \<longrightarrow> starts_with key q)"
    unfolding candidates_iff [OF assms(1)] using tx by auto
  show "p \<in> fst ` set (candidates ws key) \<longleftrightarrow> starts_with key p" if "prefix_free (map fst ws)"
    unfolding candidates_prefix_free [OF assms(1) that] using tx by force
qed

lemma candidates_sub: "e \<in> set (candidates ws key) \<Longrightarrow> e \<in> set ws"
  by (auto simp: candidates_def dest: set_takeWhileD)

section \<open>Runs\<close>

text \<open>
  What the table relies on of the channels. \<open>live h\<close> holds the receivers with their senders, \<open>changed h\<close> the receivers that
  have a value to see, \<open>known h\<close> the senders made so far. A send fails exactly when there is no receiver.
\<close>

definition channels_ok ::
    "('tx, 'rx, 'h) channels \<Rightarrow> ('h \<Rightarrow> ('rx \<times> 'tx) set) \<Rightarrow> ('h \<Rightarrow> 'rx set) \<Rightarrow> ('h \<Rightarrow> 'tx set) \<Rightarrow> bool" where
  "channels_ok C live changed known \<longleftrightarrow>
     (\<forall>h. finite (live h) \<and> snd ` live h \<subseteq> known h \<and> single_valued (live h)) \<and>
     (\<forall>h tx rx h'. ch_new C h = (tx, rx, h') \<longrightarrow> tx \<notin> known h \<and> rx \<notin> fst ` live h \<and>
        live h' = insert (rx, tx) (live h) \<and> known h' = insert tx (known h) \<and> changed h' = changed h - {rx}) \<and>
     (\<forall>h tx rx h'. ch_subscribe C tx h = (rx, h') \<longrightarrow> rx \<notin> fst ` live h \<and>
        live h' = insert (rx, tx) (live h) \<and> known h' = insert tx (known h) \<and> changed h' = changed h - {rx}) \<and>
     (\<forall>h tx ok h'. ch_send C tx h = (ok, h') \<longrightarrow> (ok \<longleftrightarrow> tx \<in> snd ` live h) \<and>
        live h' = live h \<and> known h' = known h \<and> changed h' = changed h \<union> {rx. (rx, tx) \<in> live h}) \<and>
     (\<forall>h tx. ch_receiver_count C tx h = card {rx. (rx, tx) \<in> live h}) \<and>
     (\<forall>h rx. live (ch_drop C rx h) = {e \<in> live h. fst e \<noteq> rx} \<and> known (ch_drop C rx h) = known h)"

text \<open>
  The steps of a table in use: the watchers, the channels, and the futures that wait, each with its prefix. A future stops
  waiting when it completes or is dropped, a one-time one runs its guard, and then its receiver is released.
\<close>

inductive watch_step :: "('tx, 'rx, 'h) channels \<Rightarrow> 'tx watchers \<times> 'h \<times> ('rx \<times> byte list) set \<Rightarrow>
    'tx watchers \<times> 'h \<times> ('rx \<times> byte list) set \<Rightarrow> bool" for C where
  step_subscribe: "subscribe C p ws h = (rx, ws', h') \<Longrightarrow> watch_step C (ws, h, W) (ws', h', insert (rx, p) W)"
| step_notify: "notify C key ws h = (ws', h') \<Longrightarrow> watch_step C (ws, h, W) (ws', h', W)"
| step_stop: "watch_step C (ws, h, W) (ws, h, W - {(rx, p)})"
| step_once: "(rx, p) \<in> W \<Longrightarrow> watch_step C (ws, h, W) (once_guard C p ws h, h, W - {(rx, p)})"
| step_release: "rx \<notin> fst ` W \<Longrightarrow> watch_step C (ws, h, W) (ws, ch_drop C rx h, W)"

inductive watch_reachable :: "('tx, 'rx, 'h) channels \<Rightarrow> 'tx watchers \<times> 'h \<times> ('rx \<times> byte list) set \<Rightarrow> bool" for C where
  start: "watch_reachable C ([], h, {})"
| more: "watch_reachable C s \<Longrightarrow> watch_step C s s' \<Longrightarrow> watch_reachable C s'"

inductive_cases watch_stepE: "watch_step C (ws, h, W) s'"

text \<open>The invariant: every future that waits is a receiver of the sender stored under its prefix.\<close>

definition registered :: "'tx watchers \<Rightarrow> ('rx \<times> 'tx) set \<Rightarrow> 'rx \<times> byte list \<Rightarrow> bool" where
  "registered ws lv w \<longleftrightarrow> (\<exists>tx. (snd w, tx) \<in> set ws \<and> (fst w, tx) \<in> lv)"

definition watch_inv :: "('h \<Rightarrow> ('rx \<times> 'tx) set) \<Rightarrow> ('h \<Rightarrow> 'tx set) \<Rightarrow> 'tx watchers \<times> 'h \<times> ('rx \<times> byte list) set \<Rightarrow> bool" where
  "watch_inv live known s \<longleftrightarrow> (case s of (ws, h, W) \<Rightarrow>
     btree ws \<and> snd ` set ws \<subseteq> known h \<and> inj_on snd (set ws) \<and> (\<forall>w \<in> W. registered ws (live h) w))"

lemma channels_new:
  assumes "channels_ok C live changed known" "ch_new C h = (tx, rx, h')"
  shows "tx \<notin> known h" "live h' = insert (rx, tx) (live h)" "known h' = insert tx (known h)"
proof -
  have "\<forall>h tx rx h'. ch_new C h = (tx, rx, h') \<longrightarrow> tx \<notin> known h \<and> rx \<notin> fst ` live h \<and>
        live h' = insert (rx, tx) (live h) \<and> known h' = insert tx (known h) \<and> changed h' = changed h - {rx}"
    using assms(1) unfolding channels_ok_def by (elim conjE)
  then show "tx \<notin> known h" "live h' = insert (rx, tx) (live h)" "known h' = insert tx (known h)"
    using assms(2) by metis+
qed

lemma channels_subscribe:
  assumes "channels_ok C live changed known" "ch_subscribe C tx h = (rx, h')"
  shows "live h' = insert (rx, tx) (live h)" "known h' = insert tx (known h)"
proof -
  have "\<forall>h tx rx h'. ch_subscribe C tx h = (rx, h') \<longrightarrow> rx \<notin> fst ` live h \<and>
        live h' = insert (rx, tx) (live h) \<and> known h' = insert tx (known h) \<and> changed h' = changed h - {rx}"
    using assms(1) unfolding channels_ok_def by (elim conjE)
  then show "live h' = insert (rx, tx) (live h)" "known h' = insert tx (known h)" using assms(2) by metis+
qed

lemma channels_send:
  assumes "channels_ok C live changed known" "ch_send C tx h = (ok, h')"
  shows "ok \<longleftrightarrow> tx \<in> snd ` live h" "live h' = live h" "known h' = known h" "changed h' = changed h \<union> {rx. (rx, tx) \<in> live h}"
proof -
  have "\<forall>h tx ok h'. ch_send C tx h = (ok, h') \<longrightarrow> (ok \<longleftrightarrow> tx \<in> snd ` live h) \<and>
        live h' = live h \<and> known h' = known h \<and> changed h' = changed h \<union> {rx. (rx, tx) \<in> live h}"
    using assms(1) unfolding channels_ok_def by (elim conjE)
  then show "ok \<longleftrightarrow> tx \<in> snd ` live h" "live h' = live h" "known h' = known h" "changed h' = changed h \<union> {rx. (rx, tx) \<in> live h}"
    using assms(2) by metis+
qed

lemma channels_drop:
  assumes "channels_ok C live changed known"
  shows "live (ch_drop C rx h) = {e \<in> live h. fst e \<noteq> rx}" "known (ch_drop C rx h) = known h"
  using assms unfolding channels_ok_def by (elim conjE, metis)+

lemma channels_count: "channels_ok C live changed known \<Longrightarrow> ch_receiver_count C tx h = card {rx. (rx, tx) \<in> live h}"
  unfolding channels_ok_def by (elim conjE, metis)

lemma send_each_spec:
  assumes "channels_ok C live changed known" "send_each C es h = (closed, h')"
  shows "live h' = live h \<and> known h' = known h \<and> changed h' = changed h \<union> {rx. \<exists>e \<in> set es. (rx, snd e) \<in> live h} \<and>
    set closed = {k. \<exists>tx. (k, tx) \<in> set es \<and> tx \<notin> snd ` live h}"
  using assms(2)
proof (induction es arbitrary: h closed)
  case (Cons e es)
  obtain k tx where e: "e = (k, tx)" by fastforce
  obtain ok h1 where 1: "ch_send C tx h = (ok, h1)" by fastforce
  obtain cl h2 where 2: "send_each C es h1 = (cl, h2)" by fastforce
  note h1 = channels_send [OF assms(1) 1]
  have "h' = h2" "closed = (if ok then cl else k # cl)" using Cons.prems e 1 2 by auto
  then show ?case using Cons.IH [of h1 cl] 2 h1 e by auto
qed simp

lemma registered_mono: "registered ws lv w \<Longrightarrow> set ws \<subseteq> set ws' \<Longrightarrow> lv \<subseteq> lv' \<Longrightarrow> registered ws' lv' w"
  unfolding registered_def by blast

lemma subscribe_inv:
  assumes "channels_ok C live changed known" "watch_inv live known (ws, h, W)" "subscribe C p ws h = (rx, ws', h')"
  shows "watch_inv live known (ws', h', insert (rx, p) W)"
proof -
  have "\<exists>tx. live h' = insert (rx, tx) (live h) \<and> known h' = insert tx (known h) \<and> set ws' = insert (p, tx) (set ws) \<and>
      btree ws' \<and> inj_on snd (set ws')"
  proof (cases "map_of ws p")
    case None
    obtain tx rx' h2 where n: "ch_new C h = (tx, rx', h2)" by (cases "ch_new C h") auto
    then have eq: "rx' = rx" "h2 = h'" "ws' = btree_insert p tx ws" using assms(3) None by (simp_all add: subscribe_def)
    note h' = channels_new [OF assms(1) n, unfolded eq(1,2)]
    have "p \<notin> fst ` set ws" using None by (simp add: map_of_eq_None_iff)
    then have ws': "set ws' = insert (p, tx) (set ws)" unfolding eq(3) set_btree_insert by force
    have "tx \<notin> snd ` set ws" using h'(1) assms(2) by (auto simp: watch_inv_def)
    then have "inj_on snd (set ws')" using assms(2) unfolding ws' by (simp add: watch_inv_def) blast
    then show ?thesis using h' ws' eq(3) assms(2) by (auto simp: watch_inv_def)
  next
    case (Some tx)
    obtain rx' h2 where n: "ch_subscribe C tx h = (rx', h2)" by (cases "ch_subscribe C tx h") auto
    then have eq: "rx' = rx" "h2 = h'" "ws' = ws" using assms(3) Some by (simp_all add: subscribe_def)
    note h' = channels_subscribe [OF assms(1) n, unfolded eq(1,2)]
    have "set ws' = insert (p, tx) (set ws)" using map_of_SomeD [OF Some] eq(3) by auto
    then show ?thesis using h' eq(3) assms(2) by (auto simp: watch_inv_def)
  qed
  then obtain tx where h': "live h' = insert (rx, tx) (live h)" "known h' = insert tx (known h)"
      "set ws' = insert (p, tx) (set ws)" "btree ws'" "inj_on snd (set ws')" by blast
  have "registered ws' (live h') w" if "w \<in> W" for w
    using that assms(2) h'(1,3) by (auto simp: watch_inv_def intro: registered_mono)
  moreover have "registered ws' (live h') (rx, p)" using h'(1,3) by (auto simp: registered_def)
  ultimately show ?thesis using assms(2) h'(2-5) by (auto simp: watch_inv_def)
qed

lemma watch_inv_shrink:
  assumes "watch_inv live known (ws, h, W)" "set ws' \<subseteq> set ws" "btree ws'" "known h' = known h"
    and "\<And>w. w \<in> W' \<Longrightarrow> registered ws' (live h') w"
  shows "watch_inv live known (ws', h', W')"
  unfolding watch_inv_def prod.case
proof (intro conjI ballI)
  show "snd ` set ws' \<subseteq> known h'" using assms(1,2,4) by (auto simp: watch_inv_def)
  show "inj_on snd (set ws')" using assms(1) inj_on_subset [of snd, OF _ assms(2)] by (simp add: watch_inv_def)
qed (use assms(3,5) in auto)

lemma notify_inv:
  assumes "channels_ok C live changed known" "watch_inv live known (ws, h, W)" "notify C key ws h = (ws', h')"
  shows "watch_inv live known (ws', h', W)"
proof -
  obtain closed where c: "send_each C (candidates ws key) h = (closed, h')" "ws' = fold btree_remove closed ws"
    using assms(3) by (auto simp: notify_def split: prod.splits)
  note s = send_each_spec [OF assms(1) c(1)]
  have keep: "k \<notin> set closed" if "(k, tx) \<in> set ws" "(rx, tx) \<in> live h" for k tx rx
  proof
    assume "k \<in> set closed"
    then obtain tx' where "(k, tx') \<in> set ws" "tx' \<notin> snd ` live h" using s by (auto dest: candidates_sub)
    moreover have "tx' = tx" using assms(2) that(1) calculation(1) by (auto simp: watch_inv_def simp flip: btree_lookup)
    ultimately show False using that(2) by force
  qed
  have sub: "set ws' \<subseteq> set ws" by (auto simp: c(2) fold_btree_remove)
  have "registered ws' (live h') w" if "w \<in> W" for w
    using that assms(2) keep s unfolding watch_inv_def registered_def c(2) fold_btree_remove by fastforce
  then show ?thesis using assms(2) sub s by (intro watch_inv_shrink [OF assms(2)]) (auto simp: c(2) watch_inv_def)
qed

lemma once_guard_inv:
  assumes "channels_ok C live changed known" "watch_inv live known (ws, h, W)" "(rx, p) \<in> W"
  shows "watch_inv live known (once_guard C p ws h, h, W - {(rx, p)})"
proof -
  obtain tx where tx: "(p, tx) \<in> set ws" "(rx, tx) \<in> live h" "btree ws"
    using assms(2,3) by (auto simp: watch_inv_def registered_def)
  then have m: "map_of ws p = Some tx" by (simp add: btree_lookup)
  have "registered (once_guard C p ws h) (live h) w" if w: "w \<in> W - {(rx, p)}" for w
  proof -
    obtain tx' where tx': "(snd w, tx') \<in> set ws" "(fst w, tx') \<in> live h" using w assms(2) by (auto simp: watch_inv_def registered_def)
    have "snd w \<noteq> p" if one: "ch_receiver_count C tx h = 1"
    proof
      assume "snd w = p"
      then have "tx' = tx" using tx' m tx(3) by (simp add: btree_lookup [symmetric])
      moreover have "fst w \<noteq> rx" using w \<open>snd w = p\<close> by (cases w) auto
      moreover have "card {rx. (rx, tx) \<in> live h} = 1" using channels_count [OF assms(1)] one by simp
      ultimately show False using tx'(2) tx(2) by (metis card_1_singletonE mem_Collect_eq singletonD)
    qed
    then show ?thesis using tx' m by (auto simp: once_guard_def btree_remove_def registered_def)
  qed
  moreover have "set (once_guard C p ws h) \<subseteq> set ws" by (auto simp: once_guard_def btree_remove_def split: option.splits)
  moreover have "btree (once_guard C p ws h)" using tx(3) by (auto simp: once_guard_def split: option.splits)
  ultimately show ?thesis by (intro watch_inv_shrink [OF assms(2)]) auto
qed

lemma release_inv:
  assumes "channels_ok C live changed known" "watch_inv live known (ws, h, W)" "rx \<notin> fst ` W"
  shows "watch_inv live known (ws, ch_drop C rx h, W)"
proof -
  have "registered ws {e \<in> live h. fst e \<noteq> rx} w" if "w \<in> W" for w
  proof -
    have "fst w \<noteq> rx" using that assms(3) by auto
    then show ?thesis using that assms(2) unfolding watch_inv_def registered_def by auto
  qed
  then show ?thesis
    using assms(2) by (intro watch_inv_shrink [OF assms(2)]) (auto simp: watch_inv_def channels_drop [OF assms(1)])
qed

lemma reachable_inv:
  assumes "channels_ok C live changed known" "watch_reachable C s"
  shows "watch_inv live known s"
  using assms(2)
proof induction
  case (start h)
  show ?case by (simp add: watch_inv_def btree_def)
next
  case (more s s')
  from more.hyps(2) show ?case
  proof cases
    case (step_subscribe p ws h rx ws' h' W)
    with more.IH show ?thesis by (simp add: subscribe_inv [OF assms(1)])
  next
    case (step_notify key ws h ws' h' W)
    with more.IH show ?thesis by (simp add: notify_inv [OF assms(1)])
  next
    case (step_stop ws h W rx p)
    with more.IH show ?thesis by (auto simp: watch_inv_def)
  next
    case (step_once rx p W ws h)
    with more.IH show ?thesis by (simp add: once_guard_inv [OF assms(1)])
  next
    case (step_release rx W ws h)
    with more.IH show ?thesis by (simp add: release_inv [OF assms(1)])
  qed
qed

lemma notify_changed:
  assumes "channels_ok C live changed known" "watch_inv live known (ws, h, W)" "(rx, p) \<in> W" "notify C key ws h = (ws', h')"
  shows "rx \<in> changed h' \<longleftrightarrow> rx \<in> changed h \<or> p \<in> fst ` set (candidates ws key)"
proof -
  obtain closed where "send_each C (candidates ws key) h = (closed, h')"
    using assms(4) by (auto simp: notify_def split: prod.splits)
  note s = send_each_spec [OF assms(1) this]
  obtain tx where tx: "(p, tx) \<in> set ws" "(rx, tx) \<in> live h" using assms(2,3) by (auto simp: watch_inv_def registered_def)
  have "single_valued (live h)" using assms(1) by (simp add: channels_ok_def)
  then have "(rx, tx') \<in> live h \<longleftrightarrow> tx' = tx" for tx' using tx(2) by (auto dest: single_valuedD)
  then have "(\<exists>e \<in> set (candidates ws key). (rx, snd e) \<in> live h) \<longleftrightarrow> (\<exists>q. (q, tx) \<in> set (candidates ws key))" by force
  moreover have "q = p" if "(q, tx) \<in> set (candidates ws key)" for q
    using candidates_sub [OF that] tx(1) assms(2) by (auto simp: watch_inv_def dest: inj_onD [of snd _ "(q, tx)" "(p, tx)"])
  then have "(\<exists>q. (q, tx) \<in> set (candidates ws key)) \<longleftrightarrow> (p, tx) \<in> set (candidates ws key)" by blast
  moreover have "(p, tx) \<in> set (candidates ws key) \<longleftrightarrow> p \<in> fst ` set (candidates ws key)"
  proof
    assume "p \<in> fst ` set (candidates ws key)"
    then obtain tx' where "(p, tx') \<in> set (candidates ws key)" by auto
    moreover have "btree ws" using assms(2) by (simp add: watch_inv_def)
    then have "tx' = tx" using btree_lookup [of ws p tx'] btree_lookup [of ws p tx] tx(1) candidates_sub [OF calculation] by simp
    ultimately show "(p, tx) \<in> set (candidates ws key)" by simp
  qed force
  ultimately show ?thesis using s by simp
qed

section \<open>Properties\<close>

text \<open>Channels for the examples: the senders made, the sender of each receiver until it is dropped, the receivers with a value to see\<close>

type_synonym sample_heap = "nat list \<times> nat option list \<times> nat list"

definition sample_channels :: "(nat, nat, sample_heap) channels" where
  "sample_channels = \<lparr>
     ch_new = (\<lambda>(ss, rs, cs).
       let tx = Suc (sum_list ss + sum_list (map (case_option 0 id) rs))
       in (tx, length rs, (tx # ss, rs @ [Some tx], filter (\<lambda>rx. rx \<noteq> length rs) cs))),
     ch_subscribe = (\<lambda>tx (ss, rs, cs). (length rs, (tx # ss, rs @ [Some tx], filter (\<lambda>rx. rx \<noteq> length rs) cs))),
     ch_send = (\<lambda>tx (ss, rs, cs).
       (Some tx \<in> set rs, (ss, rs, cs @ filter (\<lambda>rx. rs ! rx = Some tx) [0..<length rs]))),
     ch_receiver_count = (\<lambda>tx (ss, rs, cs). length (filter (\<lambda>rx. rs ! rx = Some tx) [0..<length rs])),
     ch_drop = (\<lambda>rx (ss, rs, cs). (ss @ map the (filter (\<lambda>r. r \<noteq> None) rs), rs[rx := None], cs)) \<rparr>"

definition sample_live :: "sample_heap \<Rightarrow> (nat \<times> nat) set" where
  "sample_live h = (case h of (ss, rs, cs) \<Rightarrow> {(rx, tx). rx < length rs \<and> rs ! rx = Some tx})"

definition sample_changed :: "sample_heap \<Rightarrow> nat set" where
  "sample_changed h = (case h of (ss, rs, cs) \<Rightarrow> set cs)"

definition sample_known :: "sample_heap \<Rightarrow> nat set" where
  "sample_known h = (case h of (ss, rs, cs) \<Rightarrow> set ss \<union> {tx. Some tx \<in> set rs})"

lemma sample_senders: "snd ` sample_live (ss, rs, cs) = {tx. Some tx \<in> set rs}"
  by (force simp: sample_live_def in_set_conv_nth)

lemma sample_fresh: "tx \<in> sample_known (ss, rs, cs) \<Longrightarrow> tx \<le> sum_list ss + sum_list (map (case_option 0 id) rs)"
proof -
  have "tx \<le> sum_list (map (case_option 0 id) rs)" if "Some tx \<in> set rs"
    using member_le_sum_list [of tx "map (case_option 0 id) rs"] that by force
  then show "tx \<in> sample_known (ss, rs, cs) \<Longrightarrow> ?thesis"
    using member_le_sum_list [of tx ss] by (auto simp: sample_known_def intro: trans_le_add1 trans_le_add2)
qed

lemma sample_finite: "finite (sample_live h)"
proof -
  obtain ss rs cs where h: "h = (ss, rs, cs)" by (cases h)
  have "sample_live h \<subseteq> (\<lambda>rx. (rx, the (rs ! rx))) ` {..<length rs}" by (force simp: h sample_live_def)
  then show ?thesis by (rule finite_subset) simp
qed

lemma sample_count: "length (filter (\<lambda>rx. rs ! rx = Some tx) [0..<length rs]) = card {rx. (rx, tx) \<in> sample_live (ss, rs, cs)}"
proof -
  have "{rx. (rx, tx) \<in> sample_live (ss, rs, cs)} = set (filter (\<lambda>rx. rs ! rx = Some tx) [0..<length rs])"
    by (auto simp: sample_live_def)
  then show ?thesis by (metis distinct_card distinct_filter distinct_upt)
qed

text \<open>Opening a receiver of \<open>tx\<close>\<close>

lemma sample_opened:
  assumes "h = (ss, rs, cs)" "h' = (tx # ss, rs @ [Some tx], filter (\<lambda>rx. rx \<noteq> length rs) cs)"
  shows "length rs \<notin> fst ` sample_live h \<and> sample_live h' = insert (length rs, tx) (sample_live h) \<and>
    sample_known h' = insert tx (sample_known h) \<and> sample_changed h' = sample_changed h - {length rs}"
  unfolding assms by (auto simp: sample_changed_def sample_known_def sample_live_def nth_append less_Suc_eq)

lemma sample_new:
  assumes "ch_new sample_channels h = (tx, rx, h')"
  shows "tx \<notin> sample_known h \<and> rx \<notin> fst ` sample_live h \<and> sample_live h' = insert (rx, tx) (sample_live h) \<and>
    sample_known h' = insert tx (sample_known h) \<and> sample_changed h' = sample_changed h - {rx}"
proof -
  obtain ss rs cs where h: "h = (ss, rs, cs)" by (cases h)
  have eq: "tx = Suc (sum_list ss + sum_list (map (case_option 0 id) rs))" "rx = length rs"
      "h' = (tx # ss, rs @ [Some tx], filter (\<lambda>rx. rx \<noteq> length rs) cs)"
    using assms by (auto simp: sample_channels_def Let_def h)
  have "tx \<notin> sample_known h" using sample_fresh [of tx ss rs cs] eq(1) h by auto
  then show ?thesis using sample_opened [OF h eq(3)] eq(2) by simp
qed

lemma sample_subscribe:
  assumes "ch_subscribe sample_channels tx h = (rx, h')"
  shows "rx \<notin> fst ` sample_live h \<and> sample_live h' = insert (rx, tx) (sample_live h) \<and>
    sample_known h' = insert tx (sample_known h) \<and> sample_changed h' = sample_changed h - {rx}"
proof -
  obtain ss rs cs where h: "h = (ss, rs, cs)" by (cases h)
  have "rx = length rs" "h' = (tx # ss, rs @ [Some tx], filter (\<lambda>rx. rx \<noteq> length rs) cs)"
    using assms by (auto simp: sample_channels_def h)
  then show ?thesis using sample_opened [OF h] by simp
qed

lemma sample_send:
  assumes "ch_send sample_channels tx h = (ok, h')"
  shows "(ok \<longleftrightarrow> tx \<in> snd ` sample_live h) \<and> sample_live h' = sample_live h \<and> sample_known h' = sample_known h \<and>
    sample_changed h' = sample_changed h \<union> {rx. (rx, tx) \<in> sample_live h}"
proof -
  obtain ss rs cs where h: "h = (ss, rs, cs)" by (cases h)
  have "ok \<longleftrightarrow> Some tx \<in> set rs" "h' = (ss, rs, cs @ filter (\<lambda>rx. rs ! rx = Some tx) [0..<length rs])"
    using assms by (auto simp: sample_channels_def h)
  then show ?thesis
    unfolding h sample_senders by (auto simp: sample_live_def sample_known_def sample_changed_def)
qed

lemma sample_drop:
  "sample_live (ch_drop sample_channels rx h) = {e \<in> sample_live h. fst e \<noteq> rx} \<and>
   sample_known (ch_drop sample_channels rx h) = sample_known h"
proof -
  obtain ss rs cs where h: "h = (ss, rs, cs)" by (cases h)
  let ?h = "(ss @ map the (filter (\<lambda>r. r \<noteq> None) rs), rs[rx := None], cs)"
  have live: "sample_live ?h = {e \<in> sample_live h. fst e \<noteq> rx}"
  proof -
    have "rs[rx := None] ! i = Some t \<longleftrightarrow> rs ! i = Some t \<and> i \<noteq> rx" if "i < length rs" for i t
      using that by (cases "i = rx") auto
    then show ?thesis unfolding h sample_live_def prod.case by auto
  qed
  have "Some tx \<in> set (rs[rx := None]) \<Longrightarrow> Some tx \<in> set rs" for tx
    using set_update_subset_insert [of rs rx None] by auto
  moreover have "set (map the (filter (\<lambda>r. r \<noteq> None) rs)) = {tx. Some tx \<in> set rs}" by (auto simp: image_iff) (metis option.sel)
  ultimately have "sample_known ?h = sample_known h" unfolding h sample_known_def prod.case set_append by blast
  then show ?thesis using live by (simp add: h sample_channels_def)
qed

lemma sample_channels_ok: "channels_ok sample_channels sample_live sample_changed sample_known"
  unfolding channels_ok_def
proof (intro conjI [OF _ conjI [OF _ conjI [OF _ conjI [OF _ conjI]]]] allI impI)
  fix h :: sample_heap and rx tx
  show "finite (sample_live h) \<and> snd ` sample_live h \<subseteq> sample_known h \<and> single_valued (sample_live h)"
  proof (intro conjI sample_finite)
    show "snd ` sample_live h \<subseteq> sample_known h" by (cases h) (simp add: sample_senders sample_known_def)
    show "single_valued (sample_live h)" by (cases h) (auto simp: single_valued_def sample_live_def)
  qed
  show "ch_receiver_count sample_channels tx h = card {rx. (rx, tx) \<in> sample_live h}"
    by (cases h) (simp add: sample_channels_def sample_count)
qed (rule sample_new sample_subscribe sample_send sample_drop; assumption?)+

text \<open>Two futures wait, one for keys that begin with \<open>a\<close> and one for keys that begin with \<open>ab\<close>.\<close>

definition nested_watchers :: "nat watchers" where
  "nested_watchers = [([0x61], 1), ([0x61, 0x62], 3)]"

definition nested_heap :: sample_heap where
  "nested_heap = ([3, 1], [Some 1, Some 3], [])"

lemma nested_reachable: "watch_reachable sample_channels (nested_watchers, nested_heap, {(1, [0x61, 0x62]), (0, [0x61])})"
proof -
  have a: "subscribe sample_channels [0x61] [] ([], [], []) = (0, [([0x61], 1)], ([1], [Some 1], []))"
    by (simp add: subscribe_def sample_channels_def btree_insert_def)
  have r: "watch_reachable sample_channels ([([0x61], 1)], ([1], [Some 1], []), {(0, [0x61])})"
    by (rule more [OF start step_subscribe [OF a]])
  have b: "subscribe sample_channels [0x61, 0x62] [([0x61], 1)] ([1], [Some 1], []) = (1, nested_watchers, nested_heap)"
    by (simp add: subscribe_def sample_channels_def btree_insert_def nested_watchers_def nested_heap_def)
  show ?thesis by (rule more [OF r step_subscribe [OF b]])
qed


text \<open>C38: No subscription is lost. In every run of subscriptions, notifications, one-time watchers that end and receivers that
  are released, each future that still waits is a receiver of the sender that the table stores under its prefix: neither
  the removal of closed senders in a notification nor the guard of a one-time watcher takes it away.
\<close>

theorem waiting_stays_registered:
  assumes "channels_ok C live changed known" "watch_reachable C (ws, h, W)" "(rx, p) \<in> W"
  shows "\<exists>tx. map_of ws p = Some tx \<and> (rx, tx) \<in> live h"
proof -
  have inv: "watch_inv live known (ws, h, W)" by (rule reachable_inv [OF assms(1,2)])
  then have "registered ws (live h) (rx, p)" using assms(3) by (simp add: watch_inv_def)
  then show ?thesis using inv btree_lookup [of ws p] by (auto simp: registered_def watch_inv_def)
qed

theorem waiting_stays_registered_witness:
  "\<exists>tx. map_of nested_watchers [0x61] = Some tx \<and> (0, tx) \<in> sample_live nested_heap"
  by (rule waiting_stays_registered [OF sample_channels_ok nested_reachable]) simp

text \<open>C39: Which futures a write wakes. In every reachable state a notification of \<open>key\<close> gives a value to a waiting future
  exactly if its prefix is a prefix of \<open>key\<close> and every watched prefix between the two in the byte order is one as well.
  Where no watched prefix extends another these are all the futures whose prefix matches; otherwise a matching future
  stays asleep when a longer watched prefix that does not match sorts in between.
\<close>

theorem notification_wakes_exactly:
  assumes "channels_ok C live changed known" "watch_reachable C (ws, h, W)" "(rx, p) \<in> W" "notify C key ws h = (ws', h')"
  shows "(rx \<in> changed h' \<longleftrightarrow> rx \<in> changed h \<or> starts_with key p \<and>
      (\<forall>q \<in> fst ` set ws. p \<le> q \<and> q \<le> key \<longrightarrow> starts_with key q)) \<and>
    (prefix_free (map fst ws) \<longrightarrow> (rx \<in> changed h' \<longleftrightarrow> rx \<in> changed h \<or> starts_with key p))"
proof -
  have inv: "watch_inv live known (ws, h, W)" by (rule reachable_inv [OF assms(1,2)])
  then have "registered ws (live h) (rx, p)" "btree ws" using assms(3) by (simp_all add: watch_inv_def)
  then have "p \<in> fst ` set ws" by (force simp: registered_def)
  note reach = candidates_keys [OF \<open>btree ws\<close> this, of key]
  show ?thesis
  proof (intro conjI impI)
    show "rx \<in> changed h' \<longleftrightarrow> rx \<in> changed h \<or> starts_with key p \<and>
        (\<forall>q \<in> fst ` set ws. p \<le> q \<and> q \<le> key \<longrightarrow> starts_with key q)"
      unfolding notify_changed [OF assms(1) inv assms(3,4)] reach(1) by (rule refl)
    show "rx \<in> changed h' \<longleftrightarrow> rx \<in> changed h \<or> starts_with key p" if "prefix_free (map fst ws)"
      unfolding notify_changed [OF assms(1) inv assms(3,4)] reach(2) [OF that] by (rule refl)
  qed
qed

text \<open>A write to \<open>ac\<close> does not wake the future that waits for keys that begin with \<open>a\<close>.\<close>

theorem notification_wakes_exactly_witness:
  "0 \<notin> sample_changed (snd (notify sample_channels [0x61, 0x63] nested_watchers nested_heap)) \<and> starts_with [0x61, 0x63] [0x61 :: byte]"
proof -
  let ?n = "notify sample_channels [0x61, 0x63] nested_watchers nested_heap"
  have "0 \<notin> sample_changed nested_heap" by (simp add: nested_heap_def sample_changed_def)
  moreover have "\<not> (\<forall>q \<in> fst ` set nested_watchers. [0x61] \<le> q \<and> q \<le> [0x61, 0x63] \<longrightarrow> starts_with [0x61, 0x63] q)"
    by (simp add: starts_with_def nested_watchers_def)
  ultimately show ?thesis
    using notification_wakes_exactly [OF sample_channels_ok nested_reachable, of 0 "[0x61]" "[0x61, 0x63]" "fst ?n" "snd ?n"]
    by (simp del: image_iff add: starts_with_def [of "[0x61, 0x63]" "[0x61]"])
qed

end
