(* ===== verification/Db_Cursor.thy ===== *)
theory Db_Cursor
  imports Record_Codec Ordered
begin

text \<open>
  Reading tables of the database: \<^verbatim>\<open>src/database/stream.rs\<close> with the four cursors of \<^verbatim>\<open>stream/\<close>, and the scans and point
  queries of \<^verbatim>\<open>map/\<close>. RocksDB is an argument: a table \<open>'d\<close>, its raw iterators \<open>'i\<close> and point reads. A stream is polled with
  its state and is drained to the list of its items; one that never ends, and a panic, is \<open>None\<close>. The theory shows that the
  scans return exactly the rows from a key on, before a key, or under a prefix, and that a point query returns the stored
  value whether or not the cache holds it, over a store whose reads do not fail; the items of a stream that carry an error of
  RocksDB are modelled, but nothing is proved of them.
\<close>

section \<open>Errors\<close>

text \<open>The kinds of errors of RocksDB and what \<^verbatim>\<open>util.rs\<close> makes of them\<close>

datatype rocks_kind =
    RkNotFound | RkCorruption | RkInvalidArgument | RkAborted | RkNotSupported | RkCompactionTooLarge
  | RkMergeInProgress | RkBusy | RkExpired | RkTimedOut | RkIncomplete | RkTryAgain
  | RkColumnFamilyDropped | RkShutdownInProgress | RkIOError | RkUnknown

datatype io_kind =
    IoNotFound | IoInvalidData | IoInvalidInput | IoInterrupted | IoUnsupported | IoFileTooLarge | IoResourceBusy
  | IoTimedOut | IoWouldBlock | IoOther

type_synonym rocks_error = "rocks_kind \<times> string"

datatype 'e db_error = IoError io_kind string | NotFound | CodecError "'e de_error"

fun io_error_kind :: "rocks_kind \<Rightarrow> io_kind" where
  "io_error_kind RkNotFound = IoNotFound"
| "io_error_kind RkCorruption = IoInvalidData"
| "io_error_kind RkInvalidArgument = IoInvalidInput"
| "io_error_kind RkAborted = IoInterrupted"
| "io_error_kind RkNotSupported = IoUnsupported"
| "io_error_kind RkCompactionTooLarge = IoFileTooLarge"
| "io_error_kind RkMergeInProgress = IoResourceBusy"
| "io_error_kind RkBusy = IoResourceBusy"
| "io_error_kind RkExpired = IoTimedOut"
| "io_error_kind RkTimedOut = IoTimedOut"
| "io_error_kind RkIncomplete = IoWouldBlock"
| "io_error_kind RkTryAgain = IoWouldBlock"
| "io_error_kind RkColumnFamilyDropped = IoOther"
| "io_error_kind RkShutdownInProgress = IoOther"
| "io_error_kind RkIOError = IoOther"
| "io_error_kind RkUnknown = IoOther"

definition map_err :: "rocks_error \<Rightarrow> 'e db_error" where
  "map_err e = IoError (io_error_kind (fst e)) (snd e)"

definition is_incomplete :: "rocks_error \<Rightarrow> bool" where
  "is_incomplete e \<longleftrightarrow> fst e = RkIncomplete"

section \<open>Cursors\<close>

type_synonym row = "byte list \<times> byte list"

datatype tier = AllTiers | CacheOnly

datatype scan_dir = ScanForward | ScanReverse

text \<open>The raw iterators and point reads of RocksDB\<close>

record ('d, 'i) rocks =
  it_open :: "tier \<Rightarrow> 'd \<Rightarrow> 'i"
  it_seek :: "byte list \<Rightarrow> 'i \<Rightarrow> 'i"
  it_seek_for_prev :: "byte list \<Rightarrow> 'i \<Rightarrow> 'i"
  it_seek_to_first :: "'i \<Rightarrow> 'i"
  it_seek_to_last :: "'i \<Rightarrow> 'i"
  it_next :: "'i \<Rightarrow> 'i"
  it_prev :: "'i \<Rightarrow> 'i"
  it_item :: "'i \<Rightarrow> row option"
  it_status :: "'i \<Rightarrow> rocks_error option"
  db_get :: "tier \<Rightarrow> byte list \<Rightarrow> 'd \<Rightarrow> rocks_error + byte list option"

record 'i cursor =
  cur_inner :: 'i
  cur_seek :: bool
  cur_init :: bool

definition state_new :: "('d, 'i) rocks \<Rightarrow> tier \<Rightarrow> 'd \<Rightarrow> 'i cursor" where
  "state_new R t d = \<lparr> cur_inner = it_open R t d, cur_seek = False, cur_init = True \<rparr>"

definition init_fwd :: "('d, 'i) rocks \<Rightarrow> byte list option \<Rightarrow> 'i cursor \<Rightarrow> 'i cursor" where
  "init_fwd R from c = c \<lparr> cur_inner := (case from of
     Some key \<Rightarrow> it_seek R key (cur_inner c) | None \<Rightarrow> it_seek_to_first R (cur_inner c)), cur_seek := True \<rparr>"

definition init_rev :: "('d, 'i) rocks \<Rightarrow> byte list option \<Rightarrow> 'i cursor \<Rightarrow> 'i cursor" where
  "init_rev R from c = c \<lparr> cur_inner := (case from of
     Some key \<Rightarrow> it_seek_for_prev R key (cur_inner c) | None \<Rightarrow> it_seek_to_last R (cur_inner c)), cur_seek := True \<rparr>"

definition seek_fwd :: "('d, 'i) rocks \<Rightarrow> 'i cursor \<Rightarrow> 'i cursor" where
  "seek_fwd R c = (if \<not> cur_init c then c \<lparr> cur_inner := it_next R (cur_inner c), cur_init := False \<rparr>
     else if \<not> cur_seek c then c \<lparr> cur_inner := it_seek_to_first R (cur_inner c), cur_init := False \<rparr>
     else c \<lparr> cur_init := False \<rparr>)"

definition seek_rev :: "('d, 'i) rocks \<Rightarrow> 'i cursor \<Rightarrow> 'i cursor" where
  "seek_rev R c = (if \<not> cur_init c then c \<lparr> cur_inner := it_prev R (cur_inner c), cur_init := False \<rparr>
     else if \<not> cur_seek c then c \<lparr> cur_inner := it_seek_to_last R (cur_inner c), cur_init := False \<rparr>
     else c \<lparr> cur_init := False \<rparr>)"

definition cur_fetch :: "('d, 'i) rocks \<Rightarrow> 'i cursor \<Rightarrow> row option" where
  "cur_fetch R c = it_item R (cur_inner c)"

definition cur_fetch_key :: "('d, 'i) rocks \<Rightarrow> 'i cursor \<Rightarrow> byte list option" where
  "cur_fetch_key R c = map_option fst (it_item R (cur_inner c))"

definition cur_incomplete :: "('d, 'i) rocks \<Rightarrow> 'i cursor \<Rightarrow> bool" where
  "cur_incomplete R c = (case it_status R (cur_inner c) of Some e \<Rightarrow> is_incomplete e | None \<Rightarrow> False)"

text \<open>An item, or the error the iterator reports, or the end\<close>

definition cur_get :: "('d, 'i) rocks \<Rightarrow> 'x option \<Rightarrow> 'i cursor \<Rightarrow> ('e db_error + 'x) option" where
  "cur_get R fetched c = (case fetched of
     Some x \<Rightarrow> Some (Inr x)
   | None \<Rightarrow> map_option (\<lambda>e. Inl (map_err e)) (it_status R (cur_inner c)))"

type_synonym ('s, 'x) poll = "'s \<Rightarrow> 'x option \<times> 's"

definition poll_items :: "('d, 'i) rocks \<Rightarrow> ('i cursor, 'e db_error + row) poll" where
  "poll_items R c = (let c' = seek_fwd R c in (cur_get R (cur_fetch R c') c', c'))"

definition poll_items_rev :: "('d, 'i) rocks \<Rightarrow> ('i cursor, 'e db_error + row) poll" where
  "poll_items_rev R c = (let c' = seek_rev R c in (cur_get R (cur_fetch R c') c', c'))"

definition poll_keys :: "('d, 'i) rocks \<Rightarrow> ('i cursor, 'e db_error + byte list) poll" where
  "poll_keys R c = (let c' = seek_fwd R c in (cur_get R (cur_fetch_key R c') c', c'))"

definition poll_keys_rev :: "('d, 'i) rocks \<Rightarrow> ('i cursor, 'e db_error + byte list) poll" where
  "poll_keys_rev R c = (let c' = seek_rev R c in (cur_get R (cur_fetch_key R c') c', c'))"

text \<open>
  A stream of a table starts inline when a seek that may only use the cache is not left incomplete, and otherwise on a
  thread of the pool, which positions the iterator the same way.
\<close>

definition seek_init :: "('d, 'i) rocks \<Rightarrow> scan_dir \<Rightarrow> byte list option \<Rightarrow> 'i cursor \<Rightarrow> 'i cursor" where
  "seek_init R dir from c = (case dir of ScanForward \<Rightarrow> init_fwd R from c | ScanReverse \<Rightarrow> init_rev R from c)"

definition is_cached :: "('d, 'i) rocks \<Rightarrow> 'd \<Rightarrow> scan_dir \<Rightarrow> byte list option \<Rightarrow> bool" where
  "is_cached R d dir from \<longleftrightarrow> \<not> cur_incomplete R (seek_init R dir from (state_new R CacheOnly d))"

definition handle_iter :: "('d, 'i) rocks \<Rightarrow> scan_dir \<Rightarrow> byte list option \<Rightarrow> 'i cursor \<Rightarrow> 'i cursor" where
  "handle_iter R dir from c = (case dir of ScanForward \<Rightarrow> init_fwd R from c | ScanReverse \<Rightarrow> init_rev R from c)"

definition seek_stream :: "('d, 'i) rocks \<Rightarrow> 'd \<Rightarrow> scan_dir \<Rightarrow> byte list option \<Rightarrow> 'i cursor" where
  "seek_stream R d dir from =
     (let c = state_new R AllTiers d
      in if is_cached R d dir from then seek_init R dir from c else handle_iter R dir from c)"

section \<open>Streams\<close>

partial_function (option) drain :: "('s, 'x) poll \<Rightarrow> 'x list \<Rightarrow> 's \<Rightarrow> 'x list option" where
  "drain p xs s = (case p s of (None, s') \<Rightarrow> Some xs | (Some x, s') \<Rightarrow> drain p (xs @ [x]) s')"

declare drain.simps [code]

text \<open>Taking while a condition holds ends at the first item that fails it and passes errors on.\<close>

definition try_take_while :: "('x \<Rightarrow> bool) \<Rightarrow> ('s, 'e + 'x) poll \<Rightarrow> ('s \<times> bool, 'e + 'x) poll" where
  "try_take_while P p s = (if snd s then (None, s)
     else case p (fst s) of
       (None, s') \<Rightarrow> (None, (s', False))
     | (Some (Inl e), s') \<Rightarrow> (Some (Inl e), (s', False))
     | (Some (Inr x), s') \<Rightarrow> if P x then (Some (Inr x), (s', False)) else (None, (s', True)))"

section \<open>Scans\<close>

text \<open>The adapters of \<^verbatim>\<open>keyval.rs\<close>. A key that cannot be serialized is a panic.\<close>

definition with_key :: "('j, 'e) formats \<Rightarrow> 'j ser_value \<Rightarrow> (byte list \<Rightarrow> 'r option) \<Rightarrow> 'r option" where
  "with_key F v f = (case serialize F v of Some (Inr key) \<Rightarrow> f key | _ \<Rightarrow> None)"

definition deserialize_key :: "('j, 'e) formats \<Rightarrow> shape \<Rightarrow> byte list \<Rightarrow> ('e db_error, 'j de_value) comp" where
  "deserialize_key F s key = map_option (rmap_err CodecError) (from_slice F key s)"

definition deserialize_val :: "('j, 'e) formats \<Rightarrow> shape \<Rightarrow> byte list \<Rightarrow> ('e db_error, 'j de_value) comp" where
  "deserialize_val F s val = map_option (rmap_err CodecError) (from_slice F val s)"

definition result_deserialize_key :: "('j, 'e) formats \<Rightarrow> shape \<Rightarrow> 'e db_error + byte list \<Rightarrow> ('e db_error, 'j de_value) comp" where
  "result_deserialize_key F s item = cbind (Some item) (deserialize_key F s)"

definition result_deserialize ::
    "('j, 'e) formats \<Rightarrow> shape \<Rightarrow> shape \<Rightarrow> 'e db_error + row \<Rightarrow> ('e db_error, 'j de_value \<times> 'j de_value) comp" where
  "result_deserialize F ks vs item = cbind (Some item) (\<lambda>(k, v).
     cbind (deserialize_key F ks k) (\<lambda>k'. cbind (deserialize_val F vs v) (\<lambda>v'. Some (Inr (k', v')))))"

definition typed_items ::
    "('j, 'e) formats \<Rightarrow> shape \<Rightarrow> shape \<Rightarrow> ('e db_error + row) list option \<Rightarrow> ('e db_error + 'j de_value \<times> 'j de_value) list option" where
  "typed_items F ks vs items = Option.bind items (\<lambda>xs. those (map (result_deserialize F ks vs) xs))"

definition typed_keys ::
    "('j, 'e) formats \<Rightarrow> shape \<Rightarrow> ('e db_error + byte list) list option \<Rightarrow> ('e db_error + 'j de_value) list option" where
  "typed_keys F ks items = Option.bind items (\<lambda>xs. those (map (result_deserialize_key F ks) xs))"

text \<open>Scans upwards from the beginning or from a lower bound\<close>

definition raw_stream :: "('d, 'i) rocks \<Rightarrow> 'd \<Rightarrow> ('e db_error + row) list option" where
  "raw_stream R d = drain (poll_items R) [] (seek_stream R d ScanForward None)"

definition stream :: "('j, 'e) formats \<Rightarrow> ('d, 'i) rocks \<Rightarrow> 'd \<Rightarrow> shape \<Rightarrow> shape \<Rightarrow> ('e db_error + 'j de_value \<times> 'j de_value) list option" where
  "stream F R d ks vs = typed_items F ks vs (raw_stream R d)"

definition raw_keys :: "('d, 'i) rocks \<Rightarrow> 'd \<Rightarrow> ('e db_error + byte list) list option" where
  "raw_keys R d = drain (poll_keys R) [] (seek_stream R d ScanForward None)"

definition keys_of :: "('j, 'e) formats \<Rightarrow> ('d, 'i) rocks \<Rightarrow> 'd \<Rightarrow> shape \<Rightarrow> ('e db_error + 'j de_value) list option" where
  "keys_of F R d ks = typed_keys F ks (raw_keys R d)"

definition raw_stream_from :: "('d, 'i) rocks \<Rightarrow> 'd \<Rightarrow> byte list \<Rightarrow> ('e db_error + row) list option" where
  "raw_stream_from R d from = drain (poll_items R) [] (seek_stream R d ScanForward (Some from))"

definition stream_from_raw :: "('j, 'e) formats \<Rightarrow> ('d, 'i) rocks \<Rightarrow> 'd \<Rightarrow> 'j ser_value \<Rightarrow> ('e db_error + row) list option" where
  "stream_from_raw F R d from = with_key F from (raw_stream_from R d)"

definition stream_raw_from :: "('j, 'e) formats \<Rightarrow> ('d, 'i) rocks \<Rightarrow> 'd \<Rightarrow> byte list \<Rightarrow> shape \<Rightarrow> shape \<Rightarrow> ('e db_error + 'j de_value \<times> 'j de_value) list option" where
  "stream_raw_from F R d from ks vs = typed_items F ks vs (raw_stream_from R d from)"

definition stream_from :: "('j, 'e) formats \<Rightarrow> ('d, 'i) rocks \<Rightarrow> 'd \<Rightarrow> 'j ser_value \<Rightarrow> shape \<Rightarrow> shape \<Rightarrow> ('e db_error + 'j de_value \<times> 'j de_value) list option" where
  "stream_from F R d from ks vs = typed_items F ks vs (stream_from_raw F R d from)"

definition raw_keys_from :: "('d, 'i) rocks \<Rightarrow> 'd \<Rightarrow> byte list \<Rightarrow> ('e db_error + byte list) list option" where
  "raw_keys_from R d from = drain (poll_keys R) [] (seek_stream R d ScanForward (Some from))"

definition keys_from_raw :: "('j, 'e) formats \<Rightarrow> ('d, 'i) rocks \<Rightarrow> 'd \<Rightarrow> 'j ser_value \<Rightarrow> ('e db_error + byte list) list option" where
  "keys_from_raw F R d from = with_key F from (raw_keys_from R d)"

definition keys_raw_from :: "('j, 'e) formats \<Rightarrow> ('d, 'i) rocks \<Rightarrow> 'd \<Rightarrow> byte list \<Rightarrow> shape \<Rightarrow> ('e db_error + 'j de_value) list option" where
  "keys_raw_from F R d from ks = typed_keys F ks (raw_keys_from R d from)"

definition keys_from :: "('j, 'e) formats \<Rightarrow> ('d, 'i) rocks \<Rightarrow> 'd \<Rightarrow> 'j ser_value \<Rightarrow> shape \<Rightarrow> ('e db_error + 'j de_value) list option" where
  "keys_from F R d from ks = typed_keys F ks (keys_from_raw F R d from)"

text \<open>Scans upwards from a prefix while it matches\<close>

definition raw_stream_prefix :: "('d, 'i) rocks \<Rightarrow> 'd \<Rightarrow> byte list \<Rightarrow> ('e db_error + row) list option" where
  "raw_stream_prefix R d prefix =
     drain (try_take_while (\<lambda>kv. starts_with (fst kv) prefix) (poll_items R)) [] (seek_stream R d ScanForward (Some prefix), False)"

definition stream_prefix_raw :: "('j, 'e) formats \<Rightarrow> ('d, 'i) rocks \<Rightarrow> 'd \<Rightarrow> 'j ser_value \<Rightarrow> ('e db_error + row) list option" where
  "stream_prefix_raw F R d prefix = with_key F prefix (raw_stream_prefix R d)"

definition stream_raw_prefix :: "('j, 'e) formats \<Rightarrow> ('d, 'i) rocks \<Rightarrow> 'd \<Rightarrow> byte list \<Rightarrow> shape \<Rightarrow> shape \<Rightarrow> ('e db_error + 'j de_value \<times> 'j de_value) list option" where
  "stream_raw_prefix F R d prefix ks vs = typed_items F ks vs (raw_stream_prefix R d prefix)"

definition stream_prefix :: "('j, 'e) formats \<Rightarrow> ('d, 'i) rocks \<Rightarrow> 'd \<Rightarrow> 'j ser_value \<Rightarrow> shape \<Rightarrow> shape \<Rightarrow> ('e db_error + 'j de_value \<times> 'j de_value) list option" where
  "stream_prefix F R d prefix ks vs = typed_items F ks vs (stream_prefix_raw F R d prefix)"

definition raw_keys_prefix :: "('d, 'i) rocks \<Rightarrow> 'd \<Rightarrow> byte list \<Rightarrow> ('e db_error + byte list) list option" where
  "raw_keys_prefix R d prefix =
     drain (try_take_while (\<lambda>k. starts_with k prefix) (poll_keys R)) [] (seek_stream R d ScanForward (Some prefix), False)"

definition keys_prefix_raw :: "('j, 'e) formats \<Rightarrow> ('d, 'i) rocks \<Rightarrow> 'd \<Rightarrow> 'j ser_value \<Rightarrow> ('e db_error + byte list) list option" where
  "keys_prefix_raw F R d prefix = with_key F prefix (raw_keys_prefix R d)"

definition keys_raw_prefix :: "('j, 'e) formats \<Rightarrow> ('d, 'i) rocks \<Rightarrow> 'd \<Rightarrow> byte list \<Rightarrow> shape \<Rightarrow> ('e db_error + 'j de_value) list option" where
  "keys_raw_prefix F R d prefix ks = typed_keys F ks (raw_keys_prefix R d prefix)"

definition keys_prefix :: "('j, 'e) formats \<Rightarrow> ('d, 'i) rocks \<Rightarrow> 'd \<Rightarrow> 'j ser_value \<Rightarrow> shape \<Rightarrow> ('e db_error + 'j de_value) list option" where
  "keys_prefix F R d prefix ks = typed_keys F ks (keys_prefix_raw F R d prefix)"

text \<open>Scans downwards from the end or from an upper bound\<close>

definition rev_raw_stream :: "('d, 'i) rocks \<Rightarrow> 'd \<Rightarrow> ('e db_error + row) list option" where
  "rev_raw_stream R d = drain (poll_items_rev R) [] (seek_stream R d ScanReverse None)"

definition rev_stream :: "('j, 'e) formats \<Rightarrow> ('d, 'i) rocks \<Rightarrow> 'd \<Rightarrow> shape \<Rightarrow> shape \<Rightarrow> ('e db_error + 'j de_value \<times> 'j de_value) list option" where
  "rev_stream F R d ks vs = typed_items F ks vs (rev_raw_stream R d)"

definition rev_raw_keys :: "('d, 'i) rocks \<Rightarrow> 'd \<Rightarrow> ('e db_error + byte list) list option" where
  "rev_raw_keys R d = drain (poll_keys_rev R) [] (seek_stream R d ScanReverse None)"

definition rev_keys_of :: "('j, 'e) formats \<Rightarrow> ('d, 'i) rocks \<Rightarrow> 'd \<Rightarrow> shape \<Rightarrow> ('e db_error + 'j de_value) list option" where
  "rev_keys_of F R d ks = typed_keys F ks (rev_raw_keys R d)"

definition rev_raw_stream_from :: "('d, 'i) rocks \<Rightarrow> 'd \<Rightarrow> byte list \<Rightarrow> ('e db_error + row) list option" where
  "rev_raw_stream_from R d from = drain (poll_items_rev R) [] (seek_stream R d ScanReverse (Some from))"

definition rev_stream_from_raw :: "('j, 'e) formats \<Rightarrow> ('d, 'i) rocks \<Rightarrow> 'd \<Rightarrow> 'j ser_value \<Rightarrow> ('e db_error + row) list option" where
  "rev_stream_from_raw F R d from = with_key F from (rev_raw_stream_from R d)"

definition rev_stream_raw_from :: "('j, 'e) formats \<Rightarrow> ('d, 'i) rocks \<Rightarrow> 'd \<Rightarrow> byte list \<Rightarrow> shape \<Rightarrow> shape \<Rightarrow> ('e db_error + 'j de_value \<times> 'j de_value) list option" where
  "rev_stream_raw_from F R d from ks vs = typed_items F ks vs (rev_raw_stream_from R d from)"

definition rev_stream_from :: "('j, 'e) formats \<Rightarrow> ('d, 'i) rocks \<Rightarrow> 'd \<Rightarrow> 'j ser_value \<Rightarrow> shape \<Rightarrow> shape \<Rightarrow> ('e db_error + 'j de_value \<times> 'j de_value) list option" where
  "rev_stream_from F R d from ks vs = typed_items F ks vs (rev_stream_from_raw F R d from)"

definition rev_raw_keys_from :: "('d, 'i) rocks \<Rightarrow> 'd \<Rightarrow> byte list \<Rightarrow> ('e db_error + byte list) list option" where
  "rev_raw_keys_from R d from = drain (poll_keys_rev R) [] (seek_stream R d ScanReverse (Some from))"

definition rev_keys_from_raw :: "('j, 'e) formats \<Rightarrow> ('d, 'i) rocks \<Rightarrow> 'd \<Rightarrow> 'j ser_value \<Rightarrow> ('e db_error + byte list) list option" where
  "rev_keys_from_raw F R d from = with_key F from (rev_raw_keys_from R d)"

definition rev_keys_raw_from :: "('j, 'e) formats \<Rightarrow> ('d, 'i) rocks \<Rightarrow> 'd \<Rightarrow> byte list \<Rightarrow> shape \<Rightarrow> ('e db_error + 'j de_value) list option" where
  "rev_keys_raw_from F R d from ks = typed_keys F ks (rev_raw_keys_from R d from)"

definition rev_keys_from :: "('j, 'e) formats \<Rightarrow> ('d, 'i) rocks \<Rightarrow> 'd \<Rightarrow> 'j ser_value \<Rightarrow> shape \<Rightarrow> ('e db_error + 'j de_value) list option" where
  "rev_keys_from F R d from ks = typed_keys F ks (rev_keys_from_raw F R d from)"

text \<open>Scans downwards from a prefix while it matches\<close>

definition rev_raw_stream_prefix :: "('d, 'i) rocks \<Rightarrow> 'd \<Rightarrow> byte list \<Rightarrow> ('e db_error + row) list option" where
  "rev_raw_stream_prefix R d prefix =
     drain (try_take_while (\<lambda>kv. starts_with (fst kv) prefix) (poll_items_rev R)) [] (seek_stream R d ScanReverse (Some prefix), False)"

definition rev_stream_prefix_raw :: "('j, 'e) formats \<Rightarrow> ('d, 'i) rocks \<Rightarrow> 'd \<Rightarrow> 'j ser_value \<Rightarrow> ('e db_error + row) list option" where
  "rev_stream_prefix_raw F R d prefix = with_key F prefix (rev_raw_stream_prefix R d)"

definition rev_stream_raw_prefix :: "('j, 'e) formats \<Rightarrow> ('d, 'i) rocks \<Rightarrow> 'd \<Rightarrow> byte list \<Rightarrow> shape \<Rightarrow> shape \<Rightarrow> ('e db_error + 'j de_value \<times> 'j de_value) list option" where
  "rev_stream_raw_prefix F R d prefix ks vs = typed_items F ks vs (rev_raw_stream_prefix R d prefix)"

definition rev_stream_prefix :: "('j, 'e) formats \<Rightarrow> ('d, 'i) rocks \<Rightarrow> 'd \<Rightarrow> 'j ser_value \<Rightarrow> shape \<Rightarrow> shape \<Rightarrow> ('e db_error + 'j de_value \<times> 'j de_value) list option" where
  "rev_stream_prefix F R d prefix ks vs = typed_items F ks vs (rev_stream_prefix_raw F R d prefix)"

definition rev_raw_keys_prefix :: "('d, 'i) rocks \<Rightarrow> 'd \<Rightarrow> byte list \<Rightarrow> ('e db_error + byte list) list option" where
  "rev_raw_keys_prefix R d prefix =
     drain (try_take_while (\<lambda>k. starts_with k prefix) (poll_keys_rev R)) [] (seek_stream R d ScanReverse (Some prefix), False)"

definition rev_keys_prefix_raw :: "('j, 'e) formats \<Rightarrow> ('d, 'i) rocks \<Rightarrow> 'd \<Rightarrow> 'j ser_value \<Rightarrow> ('e db_error + byte list) list option" where
  "rev_keys_prefix_raw F R d prefix = with_key F prefix (rev_raw_keys_prefix R d)"

definition rev_keys_raw_prefix :: "('j, 'e) formats \<Rightarrow> ('d, 'i) rocks \<Rightarrow> 'd \<Rightarrow> byte list \<Rightarrow> shape \<Rightarrow> ('e db_error + 'j de_value) list option" where
  "rev_keys_raw_prefix F R d prefix ks = typed_keys F ks (rev_raw_keys_prefix R d prefix)"

definition rev_keys_prefix :: "('j, 'e) formats \<Rightarrow> ('d, 'i) rocks \<Rightarrow> 'd \<Rightarrow> 'j ser_value \<Rightarrow> shape \<Rightarrow> ('e db_error + 'j de_value) list option" where
  "rev_keys_prefix F R d prefix ks = typed_keys F ks (rev_keys_prefix_raw F R d prefix)"

section \<open>Counting\<close>

definition count_rows :: "('d, 'i) rocks \<Rightarrow> 'd \<Rightarrow> nat option" where
  "count_rows R d = map_option length (raw_keys R d :: (unit db_error + byte list) list option)"

definition count_from :: "('j, 'e) formats \<Rightarrow> ('d, 'i) rocks \<Rightarrow> 'd \<Rightarrow> 'j ser_value \<Rightarrow> nat option" where
  "count_from F R d from = map_option length (keys_from_raw F R d from)"

definition raw_count_from :: "('d, 'i) rocks \<Rightarrow> 'd \<Rightarrow> byte list \<Rightarrow> nat option" where
  "raw_count_from R d from = map_option length (raw_keys_from R d from :: (unit db_error + byte list) list option)"

definition count_prefix :: "('j, 'e) formats \<Rightarrow> ('d, 'i) rocks \<Rightarrow> 'd \<Rightarrow> 'j ser_value \<Rightarrow> nat option" where
  "count_prefix F R d prefix = map_option length (keys_prefix_raw F R d prefix)"

definition raw_count_prefix :: "('d, 'i) rocks \<Rightarrow> 'd \<Rightarrow> byte list \<Rightarrow> nat option" where
  "raw_count_prefix R d prefix = map_option length (raw_keys_prefix R d prefix :: (unit db_error + byte list) list option)"

section \<open>Point queries\<close>

definition handle_from :: "rocks_error + byte list option \<Rightarrow> 'e db_error + byte list" where
  "handle_from res = rbind (rmap_err map_err res) (\<lambda>v. case v of Some val \<Rightarrow> Inr val | None \<Rightarrow> Inl NotFound)"

text \<open>What the cache answers: not found, the value, unknown, or an error\<close>

definition cached_handle_from :: "rocks_error + byte list option \<Rightarrow> 'e db_error + byte list option" where
  "cached_handle_from res = (case res of
     Inr None \<Rightarrow> Inl NotFound
   | Inr (Some val) \<Rightarrow> Inr (Some val)
   | Inl e \<Rightarrow> if is_incomplete e then Inr None else Inl (map_err e))"

definition get_cached :: "('d, 'i) rocks \<Rightarrow> byte list \<Rightarrow> 'd \<Rightarrow> 'e db_error + byte list option" where
  "get_cached R key d = cached_handle_from (db_get R CacheOnly key d)"

definition get_blocking :: "('d, 'i) rocks \<Rightarrow> byte list \<Rightarrow> 'd \<Rightarrow> 'e db_error + byte list" where
  "get_blocking R key d = handle_from (db_get R AllTiers key d)"

text \<open>The cache is asked first; only what it does not know goes to the pool.\<close>

definition map_get :: "('d, 'i) rocks \<Rightarrow> byte list \<Rightarrow> 'd \<Rightarrow> 'e db_error + byte list" where
  "map_get R key d = (case get_cached R key d of
     Inl e \<Rightarrow> Inl e
   | Inr (Some val) \<Rightarrow> Inr val
   | Inr None \<Rightarrow> get_blocking R key d)"

definition map_exists :: "('d, 'i) rocks \<Rightarrow> byte list \<Rightarrow> 'd \<Rightarrow> 'e db_error + unit" where
  "map_exists R key d = rmap (\<lambda>_. ()) (map_get R key d)"

definition bcontains :: "('j, 'e) formats \<Rightarrow> ('d, 'i) rocks \<Rightarrow> 'j ser_value \<Rightarrow> 'd \<Rightarrow> bool option" where
  "bcontains F R key d = with_key F key (\<lambda>k. Some (is_ok (map_exists R k d :: 'e db_error + unit)))"

definition bqry :: "('j, 'e) formats \<Rightarrow> ('d, 'i) rocks \<Rightarrow> 'j ser_value \<Rightarrow> 'd \<Rightarrow> ('e db_error + byte list) option" where
  "bqry F R key d = with_key F key (\<lambda>k. Some (map_get R k d))"

section \<open>What a stream yields\<close>

text \<open>\<open>plays p s xs\<close>: polled from \<open>s\<close>, the stream yields \<open>xs\<close> and ends.\<close>

fun plays :: "('s, 'x) poll \<Rightarrow> 's \<Rightarrow> 'x list \<Rightarrow> bool" where
  "plays p s [] \<longleftrightarrow> fst (p s) = None"
| "plays p s (x # xs) \<longleftrightarrow> (\<exists>s'. p s = (Some x, s') \<and> plays p s' xs)"

lemma drain_plays: "plays p s xs \<Longrightarrow> drain p ys s = Some (ys @ xs)"
proof (induction xs arbitrary: s ys)
  case Nil
  then show ?case by (subst drain.simps) (auto split: prod.splits)
next
  case (Cons x xs)
  then show ?case by (subst drain.simps) auto
qed

lemma plays_take_while:
  "plays p s (map Inr xs) \<Longrightarrow> plays (try_take_while P p) (s, False) (map Inr (takeWhile P xs))"
proof (induction xs arbitrary: s)
  case Nil
  then show ?case by (auto simp: try_take_while_def split: prod.splits)
next
  case (Cons x xs)
  then obtain s' where "p s = (Some (Inr x), s')" "plays p s' (map Inr xs)" by auto
  then show ?case using Cons.IH [of s'] by (auto simp: try_take_while_def)
qed


section \<open>What RocksDB promises\<close>

text \<open>
  \<open>rows d\<close> are the rows of a table in ascending order of their keys. An iterator over all tiers is a snapshot of the rows
  with a position, or none when it is past either end, and reports no error; iterators and reads that may use only the
  cache can be incomplete.
\<close>

definition pos_at :: "'x list \<Rightarrow> nat \<Rightarrow> nat option" where
  "pos_at xs j = (if j < length xs then Some j else None)"

definition pos_before :: "nat \<Rightarrow> nat option" where
  "pos_before j = (if j = 0 then None else Some (j - 1))"

definition view_ok :: "('d, 'i) rocks \<Rightarrow> ('i \<Rightarrow> (row list \<times> nat option) option) \<Rightarrow> 'i \<Rightarrow> row list \<Rightarrow> nat option \<Rightarrow> bool" where
  "view_ok R view i xs p \<longleftrightarrow>
     (\<forall>k. view (it_seek R k i) = Some (xs, pos_at xs (length (takeWhile (\<lambda>kv. fst kv < k) xs)))) \<and>
     (\<forall>k. view (it_seek_for_prev R k i) = Some (xs, pos_before (length (takeWhile (\<lambda>kv. fst kv \<le> k) xs)))) \<and>
     view (it_seek_to_first R i) = Some (xs, pos_at xs 0) \<and>
     view (it_seek_to_last R i) = Some (xs, pos_before (length xs)) \<and>
     (\<forall>j. p = Some j \<longrightarrow> view (it_next R i) = Some (xs, pos_at xs (Suc j)) \<and> view (it_prev R i) = Some (xs, pos_before j)) \<and>
     it_item R i = map_option (\<lambda>j. xs ! j) p \<and> it_status R i = None"

definition rocks_ok :: "('d, 'i) rocks \<Rightarrow> ('d \<Rightarrow> row list) \<Rightarrow> ('i \<Rightarrow> (row list \<times> nat option) option) \<Rightarrow> bool" where
  "rocks_ok R rows view \<longleftrightarrow>
     (\<forall>d. sorted_wrt (\<lambda>x y. fst x < fst y) (rows d)) \<and>
     (\<forall>d. \<exists>p. view (it_open R AllTiers d) = Some (rows d, p)) \<and>
     (\<forall>i xs p. view i = Some (xs, p) \<longrightarrow> view_ok R view i xs p) \<and>
     (\<forall>k d. db_get R AllTiers k d = Inr (map_of (rows d) k)) \<and>
     (\<forall>k d. db_get R CacheOnly k d = Inr (map_of (rows d) k) \<or> (\<exists>m. db_get R CacheOnly k d = Inl (RkIncomplete, m)))"

lemma rocks_okD:
  assumes "rocks_ok R rows view"
  shows "sorted_wrt (\<lambda>x y. fst x < fst y) (rows d)" "\<exists>p. view (it_open R AllTiers d) = Some (rows d, p)"
    "db_get R AllTiers k d = Inr (map_of (rows d) k)"
    "db_get R CacheOnly k d = Inr (map_of (rows d) k) \<or> (\<exists>m. db_get R CacheOnly k d = Inl (RkIncomplete, m))"
  using assms unfolding rocks_ok_def by blast+

lemma rocks_iterD:
  assumes "rocks_ok R rows view" "view i = Some (xs, p)"
  shows "view (it_seek R k i) = Some (xs, pos_at xs (length (takeWhile (\<lambda>kv. fst kv < k) xs)))"
    "view (it_seek_for_prev R k i) = Some (xs, pos_before (length (takeWhile (\<lambda>kv. fst kv \<le> k) xs)))"
    "view (it_seek_to_first R i) = Some (xs, pos_at xs 0)"
    "view (it_seek_to_last R i) = Some (xs, pos_before (length xs))"
    "p = Some j \<Longrightarrow> view (it_next R i) = Some (xs, pos_at xs (Suc j))"
    "p = Some j \<Longrightarrow> view (it_prev R i) = Some (xs, pos_before j)"
    "it_item R i = map_option (\<lambda>j. xs ! j) p" "it_status R i = None"
proof -
  have "view_ok R view i xs p" using assms unfolding rocks_ok_def by blast
  then show "view (it_seek R k i) = Some (xs, pos_at xs (length (takeWhile (\<lambda>kv. fst kv < k) xs)))"
    "view (it_seek_for_prev R k i) = Some (xs, pos_before (length (takeWhile (\<lambda>kv. fst kv \<le> k) xs)))"
    "view (it_seek_to_first R i) = Some (xs, pos_at xs 0)"
    "view (it_seek_to_last R i) = Some (xs, pos_before (length xs))"
    "p = Some j \<Longrightarrow> view (it_next R i) = Some (xs, pos_at xs (Suc j))"
    "p = Some j \<Longrightarrow> view (it_prev R i) = Some (xs, pos_before j)"
    "it_item R i = map_option (\<lambda>j. xs ! j) p" "it_status R i = None"
    by (simp_all add: view_ok_def)
qed

section \<open>Polling a cursor\<close>

text \<open>All four cursors move and then project what the iterator stands on.\<close>

definition poll_with :: "('i cursor \<Rightarrow> 'i cursor) \<Rightarrow> (row \<Rightarrow> 'x) \<Rightarrow> ('d, 'i) rocks \<Rightarrow> ('i cursor, 'e db_error + 'x) poll" where
  "poll_with move f R c = (let c' = move c in (cur_get R (map_option f (it_item R (cur_inner c'))) c', c'))"

lemma polls_with:
  "poll_items R = poll_with (seek_fwd R) (\<lambda>x. x) R" "poll_items_rev R = poll_with (seek_rev R) (\<lambda>x. x) R"
  "poll_keys R = poll_with (seek_fwd R) fst R" "poll_keys_rev R = poll_with (seek_rev R) fst R"
  by (auto simp: fun_eq_iff poll_items_def poll_items_rev_def poll_keys_def poll_keys_rev_def poll_with_def
      cur_fetch_def cur_fetch_key_def option.map_ident)

text \<open>Where the next poll finds itself: a cursor that was positioned stays for its first poll and moves for the later ones.\<close>

definition next_pos :: "('i \<Rightarrow> (row list \<times> nat option) option) \<Rightarrow> (row list \<Rightarrow> nat \<Rightarrow> nat option) \<Rightarrow> 'i cursor \<Rightarrow> row list \<Rightarrow> nat option \<Rightarrow> bool" where
  "next_pos view step c xs p \<longleftrightarrow>
     cur_init c \<and> cur_seek c \<and> view (cur_inner c) = Some (xs, p) \<or>
     \<not> cur_init c \<and> (\<exists>j. view (cur_inner c) = Some (xs, Some j) \<and> p = step xs j)"

lemma poll_step:
  assumes "rocks_ok R rows view"
    and "move = seek_fwd R \<and> step = (\<lambda>xs j. pos_at xs (Suc j)) \<or> move = seek_rev R \<and> step = (\<lambda>xs j. pos_before j)"
    and "next_pos view step c xs p"
  shows "case p of None \<Rightarrow> fst (poll_with move f R c) = None
    | Some j \<Rightarrow> \<exists>c'. poll_with move f R c = (Some (Inr (f (xs ! j))), c') \<and> next_pos view step c' xs (step xs j)"
proof -
  have v: "view (cur_inner (move c)) = Some (xs, p)" "\<not> cur_init (move c)"
    using assms rocks_iterD [OF assms(1)] by (auto simp: next_pos_def seek_fwd_def seek_rev_def)
  then show ?thesis
    using rocks_iterD(7,8) [OF assms(1) v(1)] by (cases p) (auto simp: poll_with_def Let_def cur_get_def next_pos_def)
qed

lemma plays_up:
  fixes R :: "('d, 'i) rocks" and f :: "row \<Rightarrow> 'x"
  assumes "rocks_ok R rows view" "next_pos view (\<lambda>xs j. pos_at xs (Suc j)) c xs (pos_at xs j)"
  shows "plays (poll_with (seek_fwd R) f R :: ('i cursor, 'e db_error + 'x) poll) c (map Inr (map f (drop j xs)))"
  using assms(2)
proof (induction "length xs - j" arbitrary: c j)
  case 0
  then show ?case using poll_step [OF assms(1) _ 0(2), of "seek_fwd R" f] by (simp add: pos_at_def)
next
  case (Suc n)
  then have lt: "j < length xs" by simp
  then obtain c' where c': "(poll_with (seek_fwd R) f R :: ('i cursor, 'e db_error + 'x) poll) c = (Some (Inr (f (xs ! j))), c')"
      "next_pos view (\<lambda>xs j. pos_at xs (Suc j)) c' xs (pos_at xs (Suc j))"
    using poll_step [OF assms(1) _ Suc(3), of "seek_fwd R" f] by (auto simp: pos_at_def)
  moreover have "drop j xs = xs ! j # drop (Suc j) xs" using lt by (rule Cons_nth_drop_Suc [symmetric])
  moreover have "plays (poll_with (seek_fwd R) f R :: ('i cursor, 'e db_error + 'x) poll) c' (map Inr (map f (drop (Suc j) xs)))"
    using Suc.hyps(1) [OF _ c'(2)] Suc.hyps(2) by simp
  ultimately show ?case by auto
qed

lemma plays_down:
  fixes R :: "('d, 'i) rocks" and f :: "row \<Rightarrow> 'x"
  assumes "rocks_ok R rows view" "next_pos view (\<lambda>xs j. pos_before j) c xs (pos_before j)" "j \<le> length xs"
  shows "plays (poll_with (seek_rev R) f R :: ('i cursor, 'e db_error + 'x) poll) c (map Inr (map f (rev (take j xs))))"
  using assms(2,3)
proof (induction j arbitrary: c)
  case 0
  then show ?case using poll_step [OF assms(1) _ 0(1), of "seek_rev R" f] by (simp add: pos_before_def)
next
  case (Suc j)
  obtain c' where c': "(poll_with (seek_rev R) f R :: ('i cursor, 'e db_error + 'x) poll) c = (Some (Inr (f (xs ! j))), c')"
      "next_pos view (\<lambda>xs j. pos_before j) c' xs (pos_before j)"
    using poll_step [OF assms(1) _ Suc(2), of "seek_rev R" f] by (auto simp: pos_before_def [of "Suc j"])
  moreover have "plays (poll_with (seek_rev R) f R :: ('i cursor, 'e db_error + 'x) poll) c' (map Inr (map f (rev (take j xs))))"
    using Suc.IH [OF c'(2)] Suc.prems(2) by simp
  ultimately show ?case using Suc.prems(2) by (auto simp: take_Suc_conv_app_nth)
qed

text \<open>In ascending rows a bound splits the list.\<close>

lemma sorted_from: "sorted_wrt (\<lambda>x y. fst x < fst y) xs \<Longrightarrow>
    drop (length (takeWhile (\<lambda>kv. fst kv < k) xs)) xs = filter (\<lambda>kv. k \<le> (fst kv :: 'k::linorder)) xs"
proof (induction xs)
  case (Cons x xs)
  show ?case
  proof (cases "fst x < k")
    case False
    then have "filter (\<lambda>kv. k \<le> fst kv) xs = xs" using Cons.prems by (auto intro!: filter_True)
    then show ?thesis using False by simp
  qed (use Cons in auto)
qed simp

lemma sorted_upto: "sorted_wrt (\<lambda>x y. fst x < fst y) xs \<Longrightarrow>
    take (length (takeWhile (\<lambda>kv. fst kv \<le> k) xs)) xs = filter (\<lambda>kv. (fst kv :: 'k::linorder) \<le> k) xs"
proof (induction xs)
  case (Cons x xs)
  show ?case
  proof (cases "fst x \<le> k")
    case False
    then have "filter (\<lambda>kv. fst kv \<le> k) xs = []" using Cons.prems by (auto intro!: filter_False)
    then show ?thesis using False by simp
  qed (use Cons in auto)
qed simp

lemma seek_stream_eq: "seek_stream R d dir from = seek_init R dir from (state_new R AllTiers d)"
  by (simp add: seek_stream_def seek_init_def handle_iter_def Let_def)

lemma stream_starts:
  assumes "rocks_ok R rows view"
  shows "next_pos view st (seek_stream R d ScanForward (Some k)) (rows d)
      (pos_at (rows d) (length (takeWhile (\<lambda>kv. fst kv < k) (rows d))))"
    and "next_pos view st (seek_stream R d ScanReverse (Some k)) (rows d)
      (pos_before (length (takeWhile (\<lambda>kv. fst kv \<le> k) (rows d))))"
    and "next_pos view st (seek_stream R d ScanForward None) (rows d) (pos_at (rows d) 0)"
    and "next_pos view st (seek_stream R d ScanReverse None) (rows d) (pos_before (length (rows d)))"
proof -
  obtain p where "view (it_open R AllTiers d) = Some (rows d, p)" using rocks_okD(2) [OF assms] by blast
  note v = rocks_iterD [OF assms this]
  show "next_pos view st (seek_stream R d ScanForward (Some k)) (rows d)
      (pos_at (rows d) (length (takeWhile (\<lambda>kv. fst kv < k) (rows d))))"
    "next_pos view st (seek_stream R d ScanReverse (Some k)) (rows d)
      (pos_before (length (takeWhile (\<lambda>kv. fst kv \<le> k) (rows d))))"
    "next_pos view st (seek_stream R d ScanForward None) (rows d) (pos_at (rows d) 0)"
    "next_pos view st (seek_stream R d ScanReverse None) (rows d) (pos_before (length (rows d)))"
    using v(1-4) by (simp_all add: seek_stream_eq seek_init_def init_fwd_def init_rev_def state_new_def next_pos_def)
qed

lemma plays_from:
  assumes "rocks_ok R rows view"
  shows "plays (poll_with (seek_fwd R) f R) (seek_stream R d ScanForward (Some k)) (map Inr (map f (filter (\<lambda>kv. k \<le> fst kv) (rows d))))"
    and "plays (poll_with (seek_rev R) f R) (seek_stream R d ScanReverse (Some k)) (map Inr (map f (rev (filter (\<lambda>kv. fst kv \<le> k) (rows d)))))"
    and "plays (poll_with (seek_fwd R) f R) (seek_stream R d ScanForward None) (map Inr (map f (rows d)))"
    and "plays (poll_with (seek_rev R) f R) (seek_stream R d ScanReverse None) (map Inr (map f (rev (rows d))))"
proof -
  note st = stream_starts(1,2) [OF assms, where d = d and k = k] stream_starts(3,4) [OF assms, where d = d] and so = rocks_okD(1) [OF assms, of d]
  show "plays (poll_with (seek_fwd R) f R) (seek_stream R d ScanForward (Some k)) (map Inr (map f (filter (\<lambda>kv. k \<le> fst kv) (rows d))))"
    using plays_up [OF assms st(1), where f = f] unfolding sorted_from [OF so] .
  show "plays (poll_with (seek_rev R) f R) (seek_stream R d ScanReverse (Some k)) (map Inr (map f (rev (filter (\<lambda>kv. fst kv \<le> k) (rows d)))))"
    using plays_down [OF assms st(2) length_takeWhile_le, where f = f] unfolding sorted_upto [OF so] .
  show "plays (poll_with (seek_fwd R) f R) (seek_stream R d ScanForward None) (map Inr (map f (rows d)))"
    using plays_up [OF assms st(3), where f = f] by simp
  show "plays (poll_with (seek_rev R) f R) (seek_stream R d ScanReverse None) (map Inr (map f (rev (rows d))))"
    using plays_down [OF assms st(4), where f = f] by simp
qed


section \<open>What the scans return\<close>

lemmas scan_defs = raw_stream_def rev_raw_stream_def raw_keys_def rev_raw_keys_def raw_stream_from_def rev_raw_stream_from_def
  raw_keys_from_def rev_raw_keys_from_def

lemma scans_from:
  assumes "rocks_ok R rows view"
  shows "raw_stream R d = Some (map Inr (rows d))" "rev_raw_stream R d = Some (map Inr (rev (rows d)))"
    "raw_keys R d = Some (map Inr (map fst (rows d)))" "rev_raw_keys R d = Some (map Inr (map fst (rev (rows d))))"
    "raw_stream_from R d k = Some (map Inr (filter (\<lambda>kv. k \<le> fst kv) (rows d)))"
    "rev_raw_stream_from R d k = Some (map Inr (rev (filter (\<lambda>kv. fst kv \<le> k) (rows d))))"
    "raw_keys_from R d k = Some (map Inr (map fst (filter (\<lambda>kv. k \<le> fst kv) (rows d))))"
    "rev_raw_keys_from R d k = Some (map Inr (map fst (rev (filter (\<lambda>kv. fst kv \<le> k) (rows d)))))"
  unfolding scan_defs polls_with
  by (simp_all add: drain_plays [OF plays_from(1) [OF assms]] drain_plays [OF plays_from(2) [OF assms]]
      drain_plays [OF plays_from(3) [OF assms]] drain_plays [OF plays_from(4) [OF assms]])

text \<open>The keys under a prefix are one block of the rows, and it starts where the scan seeks.\<close>

lemma prefix_block:
  assumes "sorted_wrt (\<lambda>x y. fst x < fst y) xs"
  shows "takeWhile (\<lambda>kv. starts_with (fst kv) p) (filter (\<lambda>kv. p \<le> fst kv) xs) =
    filter (\<lambda>kv. starts_with (fst kv) (p :: 'k::linorder list)) xs"
proof -
  have "takeWhile (\<lambda>kv. starts_with (fst kv) p) (filter (\<lambda>kv. p \<le> fst kv) xs) =
      filter (\<lambda>kv. starts_with (fst kv) p) (filter (\<lambda>kv. p \<le> fst kv) xs)"
  proof (rule takeWhile_block [where R = "\<lambda>x y. fst x < fst y"])
    show "sorted_wrt (\<lambda>x y. fst x < fst y) (filter (\<lambda>kv. p \<le> fst kv) xs)" using assms by (rule sorted_wrt_filter)
    fix x y
    assume "x \<in> set (filter (\<lambda>kv. p \<le> fst kv) xs)" "fst x < fst y" "starts_with (fst y) p"
    then show "starts_with (fst x) p" using starts_with_between [of "fst y" p "fst x"] by simp
  qed
  also have "\<dots> = filter (\<lambda>kv. starts_with (fst kv) p) xs" by (auto intro!: filter_cong dest: starts_with_le)
  finally show ?thesis .
qed

text \<open>Downwards from a prefix only the row with that very key is found: longer keys sort above it.\<close>

lemma prefix_block_down:
  assumes "sorted_wrt (\<lambda>x y. fst x < fst y) xs"
  shows "takeWhile (\<lambda>kv. starts_with (fst kv) p) (rev (filter (\<lambda>kv. fst kv \<le> p) xs)) =
    filter (\<lambda>kv. fst kv = (p :: 'k::linorder list)) xs"
proof -
  have eq: "starts_with (fst kv) p \<longleftrightarrow> fst kv = p" if "fst kv \<le> p" for kv :: "'k list \<times> 'b"
    using that starts_with_le [of "fst kv" p] by (auto simp: starts_with_def)
  have "takeWhile (\<lambda>kv. starts_with (fst kv) p) (rev (filter (\<lambda>kv. fst kv \<le> p) xs)) =
      takeWhile (\<lambda>kv. fst kv = p) (rev (filter (\<lambda>kv. fst kv \<le> p) xs))"
    using eq by (intro takeWhile_cong) auto
  also have "\<dots> = filter (\<lambda>kv. fst kv = p) (rev (filter (\<lambda>kv. fst kv \<le> p) xs))"
    using assms by (intro takeWhile_block [where R = "\<lambda>x y. fst y < fst x"])
      (auto simp: sorted_wrt_rev sorted_wrt_filter)
  also have "\<dots> = rev (filter (\<lambda>kv. fst kv = p) xs)" by (auto simp: rev_filter intro!: filter_cong)
  also have "\<dots> = filter (\<lambda>kv. fst kv = p) xs"
  proof -
    have "length (filter (\<lambda>kv. fst kv = p) xs) \<le> 1"
      using assms
    proof (induction xs)
      case (Cons x xs)
      then have "fst x = p \<Longrightarrow> filter (\<lambda>kv. fst kv = p) xs = []" by (auto intro!: filter_False)
      then show ?case using Cons by auto
    qed simp
    then show ?thesis by (cases "filter (\<lambda>kv. fst kv = p) xs") auto
  qed
  finally show ?thesis .
qed

lemma scans_prefix:
  assumes "rocks_ok R rows view"
  shows "raw_stream_prefix R d p = Some (map Inr (filter (\<lambda>kv. starts_with (fst kv) p) (rows d)))"
    "raw_keys_prefix R d p = Some (map Inr (map fst (filter (\<lambda>kv. starts_with (fst kv) p) (rows d))))"
    "rev_raw_stream_prefix R d p = Some (map Inr (filter (\<lambda>kv. fst kv = p) (rows d)))"
    "rev_raw_keys_prefix R d p = Some (map Inr (map fst (filter (\<lambda>kv. fst kv = p) (rows d))))"
proof -
  note so = rocks_okD(1) [OF assms, of d]
  note up = plays_from(1) [OF assms, where d = d and k = p] and down = plays_from(2) [OF assms, where d = d and k = p]
  have keys: "takeWhile (\<lambda>k. starts_with k p) (map fst xs) = map fst (takeWhile (\<lambda>kv. starts_with (fst kv) p) xs)"
    for xs :: "row list" by (simp add: takeWhile_map comp_def)
  show "raw_stream_prefix R d p = Some (map Inr (filter (\<lambda>kv. starts_with (fst kv) p) (rows d)))"
    using drain_plays [OF plays_take_while [OF up [of "\<lambda>x. x"]], of "\<lambda>kv. starts_with (fst kv) p" "[]"]
    by (simp add: raw_stream_prefix_def polls_with prefix_block [OF so])
  show "rev_raw_stream_prefix R d p = Some (map Inr (filter (\<lambda>kv. fst kv = p) (rows d)))"
    using drain_plays [OF plays_take_while [OF down [of "\<lambda>x. x"]], of "\<lambda>kv. starts_with (fst kv) p" "[]"]
    by (simp add: rev_raw_stream_prefix_def polls_with prefix_block_down [OF so])
  show "raw_keys_prefix R d p = Some (map Inr (map fst (filter (\<lambda>kv. starts_with (fst kv) p) (rows d))))"
    using drain_plays [OF plays_take_while [OF up [of fst]], of "\<lambda>k. starts_with k p" "[]"]
    by (simp add: raw_keys_prefix_def polls_with keys prefix_block [OF so])
  show "rev_raw_keys_prefix R d p = Some (map Inr (map fst (filter (\<lambda>kv. fst kv = p) (rows d))))"
    using drain_plays [OF plays_take_while [OF down [of fst]], of "\<lambda>k. starts_with k p" "[]"]
    by (simp add: rev_raw_keys_prefix_def polls_with keys prefix_block_down [OF so])
qed

lemma map_get_lookup:
  assumes "rocks_ok R rows view"
  shows "map_get R k d = (case map_of (rows d) k of Some v \<Rightarrow> Inr v | None \<Rightarrow> Inl NotFound)"
  using rocks_okD(3,4) [OF assms, of k d]
  by (auto simp: map_get_def get_cached_def get_blocking_def cached_handle_from_def handle_from_def is_incomplete_def split: option.splits)


section \<open>Properties\<close>

text \<open>C34: What reading a table returns. Over a RocksDB that keeps its promises, whether a seek or a read is answered from the
  cache or by the pool, a scan from a key returns exactly the rows from that key on, ascending; a reverse scan exactly the
  rows up to its key, descending; a prefix scan exactly the rows whose keys begin with the prefix, although it stops at
  the first other key; a reverse prefix scan only the row whose key is the prefix; and a point query the value stored
  under its key, or that there is none.
\<close>

theorem table_reads:
  assumes "rocks_ok R rows view"
  shows "raw_stream_from R d k = Some (map Inr (filter (\<lambda>kv. k \<le> fst kv) (rows d))) \<and>
    rev_raw_stream_from R d k = Some (map Inr (rev (filter (\<lambda>kv. fst kv \<le> k) (rows d)))) \<and>
    raw_stream_prefix R d k = Some (map Inr (filter (\<lambda>kv. starts_with (fst kv) k) (rows d))) \<and>
    rev_raw_stream_prefix R d k = Some (map Inr (filter (\<lambda>kv. fst kv = k) (rows d))) \<and>
    map_get R k d = (case map_of (rows d) k of Some v \<Rightarrow> Inr v | None \<Rightarrow> Inl NotFound)"
  by (simp only: scans_from [OF assms] scans_prefix [OF assms] map_get_lookup [OF assms] simp_thms)

text \<open>A table for the examples is a list of insertions; its cache is empty.\<close>

definition sample_rows :: "row list \<Rightarrow> row list" where
  "sample_rows d = foldr (\<lambda>(k, v). btree_insert k v) d []"

definition on_view :: "(row list \<Rightarrow> nat option \<Rightarrow> nat option) \<Rightarrow> (row list \<times> nat option) option \<Rightarrow> (row list \<times> nat option) option" where
  "on_view f i = map_option (\<lambda>(xs, p). (xs, f xs p)) i"

definition sample_rocks :: "(row list, (row list \<times> nat option) option) rocks" where
  "sample_rocks = \<lparr>
     it_open = (\<lambda>t d. case t of AllTiers \<Rightarrow> Some (sample_rows d, None) | CacheOnly \<Rightarrow> None),
     it_seek = (\<lambda>k. on_view (\<lambda>xs p. pos_at xs (length (takeWhile (\<lambda>kv. fst kv < k) xs)))),
     it_seek_for_prev = (\<lambda>k. on_view (\<lambda>xs p. pos_before (length (takeWhile (\<lambda>kv. fst kv \<le> k) xs)))),
     it_seek_to_first = on_view (\<lambda>xs p. pos_at xs 0),
     it_seek_to_last = on_view (\<lambda>xs p. pos_before (length xs)),
     it_next = on_view (\<lambda>xs p. Option.bind p (\<lambda>j. pos_at xs (Suc j))),
     it_prev = on_view (\<lambda>xs p. Option.bind p pos_before),
     it_item = (\<lambda>i. Option.bind i (\<lambda>(xs, p). map_option (\<lambda>j. xs ! j) p)),
     it_status = (\<lambda>i. case i of None \<Rightarrow> Some (RkIncomplete, '''') | Some _ \<Rightarrow> None),
     db_get = (\<lambda>t k d. case t of AllTiers \<Rightarrow> Inr (map_of (sample_rows d) k) | CacheOnly \<Rightarrow> Inl (RkIncomplete, '''')) \<rparr>"

lemma sample_rocks_ok: "rocks_ok sample_rocks sample_rows id"
  using btree_foldr by (auto simp: rocks_ok_def view_ok_def sample_rocks_def on_view_def sample_rows_def btree_def)

theorem table_reads_witness:
  "raw_stream_prefix sample_rocks [([2, 1], [7]), ([1], [8]), ([2], [9]), ([3], [])] [2] =
    Some (map (\<lambda>r. Inr r :: unit db_error + row) [([2], [9]), ([2, 1], [7])])"
  by (simp add: table_reads [OF sample_rocks_ok, THEN conjunct2, THEN conjunct2, THEN conjunct1]
      sample_rows_def btree_insert_def starts_with_def)

text \<open>C33: A typed scan finds the rows it means. In a table whose keys are written tuples of one shape, \<open>keys_prefix\<close> with some
  leading fields and \<open>Interfix\<close> returns exactly the keys that begin with those fields, in key order, each read back as its
  fields, and \<open>count_prefix\<close> their number.
\<close>

theorem typed_prefix_scan:
  assumes "rocks_ok R rows view" "xs \<noteq> []" "length xs < length ss" "list_all2 (conforms F) xs (take (length xs) ss)"
    and "\<forall>kv \<in> set (rows d). tuple_ok F (flds (fst kv)) ss (reads (fst kv)) \<and>
      fst kv = tuple_bytes F (flds (fst kv)) \<and> length (fst kv) < usize_max"
  shows "keys_prefix F R d (VTuple (xs @ [VInterfix])) (STuple ss) =
      Some (map (\<lambda>kv. Inr (RTuple (reads (fst kv)))) (filter (\<lambda>kv. take (length xs) (flds (fst kv)) = xs) (rows d))) \<and>
    count_prefix F R d (VTuple (xs @ [VInterfix])) =
      Some (length (filter (\<lambda>kv. take (length xs) (flds (fst kv)) = xs) (rows d)))"
proof -
  let ?p = "tuple_bytes F (xs @ [VInterfix])" and ?m = "filter (\<lambda>kv. take (length xs) (flds (fst kv)) = xs) (rows d)"
  have p: "serialize F (VTuple (xs @ [VInterfix])) = Some (Inr ?p)"
    using serialize_tuple [of F "xs @ [VInterfix]"] conforms_is_field [OF assms(4)] by simp
  have "starts_with (fst kv) ?p \<longleftrightarrow> take (length xs) (flds (fst kv)) = xs" if "kv \<in> set (rows d)" for kv
  proof -
    have t: "tuple_ok F (flds (fst kv)) ss (reads (fst kv))" "fst kv = tuple_bytes F (flds (fst kv))"
      using assms(5) that by auto
    moreover have "length xs < length (flds (fst kv))" using tuple_ok_fields [OF t(1)] assms(3) by simp
    ultimately show ?thesis using key_prefix_bytes [OF t(1) assms(2) _ assms(4)] by metis
  qed
  then have "filter (\<lambda>kv. starts_with (fst kv) ?p) (rows d) = ?m" by (intro filter_cong) auto
  then have raw: "keys_prefix_raw F R d (VTuple (xs @ [VInterfix])) = Some (map Inr (map fst ?m))"
    by (simp add: keys_prefix_raw_def with_key_def p scans_prefix [OF assms(1)])
  have "result_deserialize_key F (STuple ss) (Inr (fst kv)) = Some (Inr (RTuple (reads (fst kv))))" if "kv \<in> set ?m" for kv
  proof -
    have t: "tuple_ok F (flds (fst kv)) ss (reads (fst kv))" "fst kv = tuple_bytes F (flds (fst kv))" "length (fst kv) < usize_max"
      using assms(5) that by auto
    then have "from_slice F (fst kv) (STuple ss) = Some (Inr (RTuple (reads (fst kv))))"
      using read_tuple [OF t(1)] by (auto simp: from_slice_def)
    then show ?thesis by (simp add: result_deserialize_key_def deserialize_key_def)
  qed
  then have "those (map (result_deserialize_key F (STuple ss)) (map Inr (map fst ?m))) = Some (map (\<lambda>kv. Inr (RTuple (reads (fst kv)))) ?m)"
    using those_map_Some [of ?m "\<lambda>kv. result_deserialize_key F (STuple ss) (Inr (fst kv))" "\<lambda>kv. Inr (RTuple (reads (fst kv)))"]
    by (simp add: comp_def)
  then show ?thesis using raw by (simp add: keys_prefix_def typed_keys_def count_prefix_def)
qed


text \<open>A table with the keys \<open>(a, 1)\<close>, \<open>(ab, 2)\<close> and \<open>(a, 3)\<close>, and the fields of a key\<close>

definition sample_fields :: "byte list \<Rightarrow> byte list ser_value list" where
  "sample_fields k = (if length k = 10 then [VStr (take 1 k), VU64 (the (u64_from_bytes (drop 2 k)))]
     else [VStr (take 2 k), VU64 (the (u64_from_bytes (drop 3 k)))])"

definition sample_reads :: "byte list \<Rightarrow> byte list de_value list" where
  "sample_reads k = (if length k = 10 then [RStr (take 1 k), RU64 (the (u64_from_bytes (drop 2 k)))]
     else [RStr (take 2 k), RU64 (the (u64_from_bytes (drop 3 k)))])"

definition sample_key :: "byte list \<Rightarrow> u64 \<Rightarrow> byte list" where
  "sample_key t n = t @ SEP # u64_to_be n"

lemma sample_key_fields:
  "length t = 1 \<or> length t = 2 \<Longrightarrow> sample_fields (sample_key t n) = [VStr t, VU64 n]"
  "length t = 1 \<or> length t = 2 \<Longrightarrow> sample_reads (sample_key t n) = [RStr t, RU64 n]"
  by (auto simp: sample_fields_def sample_reads_def sample_key_def)

lemma sample_key_ok:
  assumes "length t = 1 \<or> length t = 2" "utf8_ok t"
  shows "tuple_ok plain_formats (sample_fields (sample_key t n)) [SStr, SU64] (sample_reads (sample_key t n)) \<and>
    sample_key t n = tuple_bytes plain_formats (sample_fields (sample_key t n)) \<and> length (sample_key t n) < usize_max"
  unfolding sample_key_fields [OF assms(1)]
proof (intro conjI)
  show "tuple_ok plain_formats [VStr t, VU64 n] [SStr, SU64] [RStr t, RU64 n]"
    using assms(2) by (intro tuple_more tuple_nil) simp_all
qed (use assms in \<open>auto simp: sample_key_def tuple_bytes_def usize_max_def\<close>)

theorem typed_prefix_scan_witness:
  "keys_prefix plain_formats sample_rocks [(sample_key [0x61] 3, []), (sample_key [0x61, 0x62] 2, []), (sample_key [0x61] 1, [])]
     (VTuple [VStr [0x61], VInterfix]) (STuple [SStr, SU64]) =
   Some [Inr (RTuple [RStr [0x61], RU64 1]), Inr (RTuple [RStr [0x61], RU64 3])]"
proof -
  let ?d = "[(sample_key [0x61] 3, []), (sample_key [0x61, 0x62] 2, []), (sample_key [0x61] 1, [])]"
  have rows: "sample_rows ?d = [(sample_key [0x61, 0x62] 2, []), (sample_key [0x61] 1, []), (sample_key [0x61] 3, [])]"
    by (simp add: sample_rows_def btree_insert_def sample_key_def u64_to_be_less SEP_def)
  have ok: "\<forall>kv \<in> set (sample_rows ?d). tuple_ok plain_formats (sample_fields (fst kv)) [SStr, SU64] (sample_reads (fst kv)) \<and>
      fst kv = tuple_bytes plain_formats (sample_fields (fst kv)) \<and> length (fst kv) < usize_max"
    using sample_key_ok [of "[0x61]"] sample_key_ok [of "[0x61, 0x62]"] unfolding rows by (simp add: utf8_lead_def)
  have c: "list_all2 (conforms plain_formats) [VStr [0x61]] (take (length [VStr [0x61] :: byte list ser_value]) [SStr, SU64])"
    by (simp add: conforms_def utf8_lead_def)
  have "[VStr [0x61]] \<noteq> []" "length [VStr [0x61] :: byte list ser_value] < length [SStr, SU64]" by simp_all
  note scan = typed_prefix_scan [OF sample_rocks_ok this c ok, THEN conjunct1]
  show ?thesis using scan unfolding rows by (simp add: sample_key_fields)
qed

end
