(* ===== verification/Db_Txn.thy ===== *)
theory Db_Txn
  imports Db_Watch Db_Cursor
begin

unbundle bit_operations_syntax

text \<open>
  Write transactions of the database: \<^verbatim>\<open>src/database/txn.rs\<close>. A transaction queues operations on tables of one engine and
  commits them in one batch; then the watchers of the written keys are notified, in queue order, and the registered
  follow-ups run. The keys are read back from the serialized batch. RocksDB is an argument: how a batch is serialized and
  what writing and flushing do. A panic is \<open>None\<close>. A follow-up is a function on the state of the rest of the program: the
  closures registered by the sources send on a channel and do not touch the database. The theory shows that the keys read
  back are the keys queued and that a commit wakes the futures that wait for them.
\<close>

section \<open>Reading a batch\<close>

datatype tag = Deletion | Value | Merge | CfDeletion | CfValue | CfMerge

definition tag_of :: "byte \<Rightarrow> tag option" where
  "tag_of b = (if b = 0x0 then Some Deletion
     else if b = 0x1 then Some Value
     else if b = 0x2 then Some Merge
     else if b = 0x4 then Some CfDeletion
     else if b = 0x5 then Some CfValue
     else if b = 0x6 then Some CfMerge
     else None)"

fun take_varint_from :: "nat list \<Rightarrow> u32 \<Rightarrow> byte list \<Rightarrow> (u32 \<times> byte list) option" where
  "take_varint_from [] result data = None"
| "take_varint_from (shift # shifts) result [] = None"
| "take_varint_from (shift # shifts) result (b # rest) =
     (let result' = result OR push_bit shift (ucast (b AND 0x7F))
      in if b AND 0x80 = 0 then Some (result', rest) else take_varint_from shifts result' rest)"

text \<open>The shifts are \<^verbatim>\<open>(0..32).step_by(7)\<close>; none of them is too large for \<^verbatim>\<open>checked_shl\<close>.\<close>

definition take_varint32 :: "byte list \<Rightarrow> (u32 \<times> byte list) option" where
  "take_varint32 data = take_varint_from [0, 7, 14, 21, 28] 0 data"

definition take_varstring :: "byte list \<Rightarrow> (byte list \<times> byte list) option" where
  "take_varstring data = Option.bind (take_varint32 data) (\<lambda>(len, rest).
     if unat len \<le> length rest then Some (take (unat len) rest, drop (unat len) rest) else None)"

definition next_record :: "byte list \<Rightarrow> ((u32 \<times> byte list) \<times> byte list) option" where
  "next_record data = (case data of
     [] \<Rightarrow> None
   | b # rest \<Rightarrow> Option.bind (tag_of b) (\<lambda>t.
       Option.bind (if t \<in> {Value, Deletion, Merge} then Some (0, rest) else take_varint32 rest) (\<lambda>(cf_id, rest).
         Option.bind (take_varstring rest) (\<lambda>(key, rest).
           if t \<in> {Value, CfValue, Merge, CfMerge}
           then map_option (\<lambda>(_, rest). ((cf_id, key), rest)) (take_varstring rest)
           else Some ((cf_id, key), rest)))))"

lemma take_varint_shorter: "take_varint_from shifts result data = Some (n, rest) \<Longrightarrow> length rest < length data"
  by (induction shifts result data rule: take_varint_from.induct) (auto simp: Let_def split: if_splits)

lemma take_varstring_shorter: "take_varstring data = Some (s, rest) \<Longrightarrow> length rest < length data"
  by (auto simp: take_varstring_def take_varint32_def bind_eq_Some_conv split: if_splits dest!: take_varint_shorter)

lemma next_record_shorter: "next_record data = Some (rec, rest) \<Longrightarrow> length rest < length data"
  by (cases data)
    (auto simp: next_record_def bind_eq_Some_conv take_varint32_def split: if_splits dest!: take_varint_shorter take_varstring_shorter)

text \<open>The keys of a batch with their tables; a record that cannot be read is a panic, one of an unknown table is skipped.\<close>

function record_keys :: "byte list \<Rightarrow> (u32 \<times> byte list) list option" where
  "record_keys data = (if data = [] then Some []
     else case next_record data of
       None \<Rightarrow> None
     | Some (r, rest) \<Rightarrow> map_option (\<lambda>rs. r # rs) (record_keys rest))"
  by pat_completeness auto
termination
  by (relation "measure length") (auto dest: next_record_shorter)

declare record_keys.simps [simp del]

definition HEADER :: nat where "HEADER = 12"

definition PER_OP :: nat where "PER_OP = 16"

definition txn_keys :: "(u32 \<Rightarrow> bool) \<Rightarrow> byte list \<Rightarrow> (u32 \<times> byte list) list option" where
  "txn_keys known_cf data = map_option (filter (\<lambda>(cf, key). known_cf cf))
     (record_keys (if HEADER \<le> length data then drop HEADER data else []))"

definition size_hint :: "(byte list \<times> byte list) list \<Rightarrow> nat" where
  "size_hint items = foldl (\<lambda>n (key, val). sat_add (sat_add (sat_add n PER_OP) (length key)) (length val)) HEADER items"

section \<open>Queueing\<close>

datatype batch_op = PutOp u32 "byte list" "byte list" | DeleteOp u32 "byte list" | MergeOp u32 "byte list" "byte list"

record table =
  tb_engine :: nat
  tb_cf :: u32

record 'w txn =
  tx_batch :: "batch_op list"
  tx_engine :: nat
  tx_after :: "('w \<Rightarrow> 'w) list"

definition txn_new :: "nat \<Rightarrow> 'w txn" where
  "txn_new engine = \<lparr> tx_batch = [], tx_engine = engine, tx_after = [] \<rparr>"

definition on_execute :: "('w \<Rightarrow> 'w) \<Rightarrow> 'w txn \<Rightarrow> 'w txn" where
  "on_execute f t = t \<lparr> tx_after := tx_after t @ [f] \<rparr>"

definition assert_map :: "table \<Rightarrow> 'w txn \<Rightarrow> 'r option \<Rightarrow> 'r option" where
  "assert_map m t r = (if tx_engine t = tb_engine m then r else None)"

definition queue :: "batch_op \<Rightarrow> 'w txn \<Rightarrow> 'w txn" where
  "queue opr t = t \<lparr> tx_batch := tx_batch t @ [opr] \<rparr>"

definition txn_insert_raw :: "table \<Rightarrow> byte list \<Rightarrow> byte list \<Rightarrow> 'w txn \<Rightarrow> 'w txn option" where
  "txn_insert_raw m key val t = assert_map m t (Some (queue (PutOp (tb_cf m) key val) t))"

definition txn_put :: "('j, 'e) formats \<Rightarrow> table \<Rightarrow> 'j ser_value \<Rightarrow> 'j ser_value \<Rightarrow> 'w txn \<Rightarrow> 'w txn option" where
  "txn_put F m key val t = assert_map m t
     (with_key F key (\<lambda>k. with_key F val (\<lambda>v. Some (queue (PutOp (tb_cf m) k v) t))))"

definition txn_put_raw :: "('j, 'e) formats \<Rightarrow> table \<Rightarrow> 'j ser_value \<Rightarrow> byte list \<Rightarrow> 'w txn \<Rightarrow> 'w txn option" where
  "txn_put_raw F m key val t = assert_map m t (with_key F key (\<lambda>k. Some (queue (PutOp (tb_cf m) k val) t)))"

definition txn_merge :: "('j, 'e) formats \<Rightarrow> table \<Rightarrow> 'j ser_value \<Rightarrow> byte list \<Rightarrow> 'w txn \<Rightarrow> 'w txn option" where
  "txn_merge F m key operand t = assert_map m t (with_key F key (\<lambda>k. Some (queue (MergeOp (tb_cf m) k operand) t)))"

definition txn_raw_put :: "('j, 'e) formats \<Rightarrow> table \<Rightarrow> byte list \<Rightarrow> 'j ser_value \<Rightarrow> 'w txn \<Rightarrow> 'w txn option" where
  "txn_raw_put F m key val t = assert_map m t (with_key F val (\<lambda>v. Some (queue (PutOp (tb_cf m) key v) t)))"

definition txn_del :: "('j, 'e) formats \<Rightarrow> table \<Rightarrow> 'j ser_value \<Rightarrow> 'w txn \<Rightarrow> 'w txn option" where
  "txn_del F m key t = assert_map m t (with_key F key (\<lambda>k. Some (queue (DeleteOp (tb_cf m) k) t)))"

definition txn_del_raw :: "table \<Rightarrow> byte list \<Rightarrow> 'w txn \<Rightarrow> 'w txn option" where
  "txn_del_raw m key t = assert_map m t (Some (queue (DeleteOp (tb_cf m) key) t))"

definition txn_clear :: "'w txn \<Rightarrow> 'w txn" where
  "txn_clear t = t \<lparr> tx_batch := [] \<rparr>"

fun try_each :: "('x \<Rightarrow> 's \<Rightarrow> 's option) \<Rightarrow> 'x list \<Rightarrow> 's \<Rightarrow> 's option" where
  "try_each f [] s = Some s"
| "try_each f (x # xs) s = Option.bind (f x s) (try_each f xs)"

definition txn_extend :: "(table \<times> byte list \<times> byte list) list \<Rightarrow> 'w txn \<Rightarrow> 'w txn option" where
  "txn_extend items = try_each (\<lambda>(m, key, val). txn_insert_raw m key val) items"

definition txn_extend_del :: "(table \<times> byte list) list \<Rightarrow> 'w txn \<Rightarrow> 'w txn option" where
  "txn_extend_del items = try_each (\<lambda>(m, key). txn_del_raw m key) items"

definition txn_insert :: "table \<Rightarrow> (byte list \<times> byte list) list \<Rightarrow> 'w txn option" where
  "txn_insert m items = try_each (\<lambda>(key, val). txn_insert_raw m key val) items (txn_new (tb_engine m))"

definition txn_insert_each :: "(table \<times> byte list \<times> byte list) list \<Rightarrow> 'w txn option" where
  "txn_insert_each items = (case items of
     [] \<Rightarrow> None
   | (m, key, val) # rest \<Rightarrow> Option.bind (txn_insert_raw m key val (txn_new (tb_engine m))) (txn_extend rest))"

definition txn_insert_each_slice :: "(table \<times> byte list \<times> byte list) list \<Rightarrow> 'w txn option" where
  "txn_insert_each_slice items = (case items of
     [] \<Rightarrow> None
   | (m, key, val) # rest \<Rightarrow> txn_extend items (txn_new (tb_engine m)))"

definition txn_put_each :: "('j, 'e) formats \<Rightarrow> (table \<times> 'j ser_value \<times> 'j ser_value) list \<Rightarrow> 'w txn option" where
  "txn_put_each F items = (case items of
     [] \<Rightarrow> None
   | (m, key, val) # rest \<Rightarrow> try_each (\<lambda>(m, key, val). txn_put F m key val) items (txn_new (tb_engine m)))"


section \<open>Committing\<close>

text \<open>What the engine does with RocksDB: a batch is written at once, serialized, and the write-ahead log is flushed.\<close>

record 'db engine =
  eng_write :: "batch_op list \<Rightarrow> 'db \<Rightarrow> rocks_error + 'db"
  eng_put :: "u32 \<Rightarrow> byte list \<Rightarrow> byte list \<Rightarrow> 'db \<Rightarrow> rocks_error + 'db"
  eng_delete :: "u32 \<Rightarrow> byte list \<Rightarrow> 'db \<Rightarrow> rocks_error + 'db"
  eng_flush :: "'db \<Rightarrow> rocks_error + 'db"
  eng_repr :: "batch_op list \<Rightarrow> byte list"
  eng_known_cf :: "u32 \<Rightarrow> bool"

text \<open>The database, its cork count, the watchers of each table, the channels, and the rest of the program\<close>

record ('db, 'tx, 'h, 'w) world =
  wd_db :: 'db
  wd_corks :: u32
  wd_watchers :: "u32 \<Rightarrow> 'tx watchers"
  wd_channels :: 'h
  wd_rest :: 'w

definition notify_table :: "('tx, 'rx, 'h) channels \<Rightarrow> u32 \<times> byte list \<Rightarrow> ('db, 'tx, 'h, 'w) world \<Rightarrow> ('db, 'tx, 'h, 'w) world" where
  "notify_table C r W = (let (ws, h) = notify C (snd r) (wd_watchers W (fst r)) (wd_channels W)
     in W \<lparr> wd_watchers := (wd_watchers W)(fst r := ws), wd_channels := h \<rparr>)"

definition cork :: "('db, 'tx, 'h, 'w) world \<Rightarrow> ('db, 'tx, 'h, 'w) world" where
  "cork W = W \<lparr> wd_corks := wd_corks W + 1 \<rparr>"

definition uncork :: "('db, 'tx, 'h, 'w) world \<Rightarrow> ('db, 'tx, 'h, 'w) world" where
  "uncork W = W \<lparr> wd_corks := wd_corks W - 1 \<rparr>"

definition corked :: "('db, 'tx, 'h, 'w) world \<Rightarrow> bool" where
  "corked W \<longleftrightarrow> wd_corks W > 0"

text \<open>A write that fails and a flush that fails are panics.\<close>

definition written :: "'db engine \<Rightarrow> rocks_error + 'db \<Rightarrow> ('db, 'tx, 'h, 'w) world \<Rightarrow> ('db, 'tx, 'h, 'w) world option" where
  "written E res W = (case res of
     Inl e \<Rightarrow> None
   | Inr db \<Rightarrow> if corked W then Some (W \<lparr> wd_db := db \<rparr>)
       else (case eng_flush E db of Inl e \<Rightarrow> None | Inr db' \<Rightarrow> Some (W \<lparr> wd_db := db' \<rparr>)))"

definition table_insert :: "'db engine \<Rightarrow> ('tx, 'rx, 'h) channels \<Rightarrow> u32 \<Rightarrow> byte list \<Rightarrow> byte list \<Rightarrow>
    ('db, 'tx, 'h, 'w) world \<Rightarrow> ('db, 'tx, 'h, 'w) world option" where
  "table_insert E C cf key val W = map_option (notify_table C (cf, key)) (written E (eng_put E cf key val (wd_db W)) W)"

definition table_remove :: "'db engine \<Rightarrow> ('tx, 'rx, 'h) channels \<Rightarrow> u32 \<Rightarrow> byte list \<Rightarrow>
    ('db, 'tx, 'h, 'w) world \<Rightarrow> ('db, 'tx, 'h, 'w) world option" where
  "table_remove E C cf key W = map_option (notify_table C (cf, key)) (written E (eng_delete E cf key (wd_db W)) W)"

definition ignore_err :: "('e + 'a) list \<Rightarrow> 'a list" where
  "ignore_err xs = List.map_filter (\<lambda>x. case x of Inl e \<Rightarrow> None | Inr y \<Rightarrow> Some y) xs"

definition bput_raw :: "'db engine \<Rightarrow> ('tx, 'rx, 'h) channels \<Rightarrow> ('j, 'e) formats \<Rightarrow> u32 \<Rightarrow> 'j ser_value \<Rightarrow> byte list \<Rightarrow>
    ('db, 'tx, 'h, 'w) world \<Rightarrow> ('db, 'tx, 'h, 'w) world option" where
  "bput_raw E C F cf key val W = with_key F key (\<lambda>k. table_insert E C cf k val W)"

definition raw_bput :: "'db engine \<Rightarrow> ('tx, 'rx, 'h) channels \<Rightarrow> ('j, 'e) formats \<Rightarrow> u32 \<Rightarrow> byte list \<Rightarrow> 'j ser_value \<Rightarrow>
    ('db, 'tx, 'h, 'w) world \<Rightarrow> ('db, 'tx, 'h, 'w) world option" where
  "raw_bput E C F cf key val W = with_key F val (\<lambda>v. table_insert E C cf key v W)"

definition bput :: "'db engine \<Rightarrow> ('tx, 'rx, 'h) channels \<Rightarrow> ('j, 'e) formats \<Rightarrow> u32 \<Rightarrow> 'j ser_value \<Rightarrow> 'j ser_value \<Rightarrow>
    ('db, 'tx, 'h, 'w) world \<Rightarrow> ('db, 'tx, 'h, 'w) world option" where
  "bput E C F cf key val W = with_key F val (\<lambda>v. bput_raw E C F cf key v W)"

definition bdel :: "'db engine \<Rightarrow> ('tx, 'rx, 'h) channels \<Rightarrow> ('j, 'e) formats \<Rightarrow> u32 \<Rightarrow> 'j ser_value \<Rightarrow>
    ('db, 'tx, 'h, 'w) world \<Rightarrow> ('db, 'tx, 'h, 'w) world option" where
  "bdel E C F cf key W = with_key F key (\<lambda>k. table_remove E C cf k W)"

text \<open>A scan reads the table as it was when the scan began, so its keys do not depend on the removals in between.\<close>

definition del_prefix :: "'db engine \<Rightarrow> ('tx, 'rx, 'h) channels \<Rightarrow> ('j, 'e) formats \<Rightarrow> ('db, 'i) rocks \<Rightarrow> u32 \<Rightarrow> 'j ser_value \<Rightarrow>
    ('db, 'tx, 'h, 'w) world \<Rightarrow> ('db, 'tx, 'h, 'w) world option" where
  "del_prefix E C F R cf prefix W = Option.bind (keys_prefix_raw F R (wd_db W) prefix) (\<lambda>ks.
     try_each (table_remove E C cf) (ignore_err ks) W)"

definition map_clear :: "'db engine \<Rightarrow> ('tx, 'rx, 'h) channels \<Rightarrow> ('db, 'i) rocks \<Rightarrow> u32 \<Rightarrow>
    ('db, 'tx, 'h, 'w) world \<Rightarrow> ('db, 'tx, 'h, 'w) world option" where
  "map_clear E C R cf W = Option.bind (raw_keys R (wd_db W) :: (unit db_error + byte list) list option) (\<lambda>ks.
     try_each (table_remove E C cf) (ignore_err ks) W)"

definition txn_execute :: "'db engine \<Rightarrow> ('tx, 'rx, 'h) channels \<Rightarrow> 'w txn \<Rightarrow>
    ('db, 'tx, 'h, 'w) world \<Rightarrow> ('db, 'tx, 'h, 'w) world option" where
  "txn_execute E C t W = (if tx_batch t = [] then Some W
     else Option.bind (written E (eng_write E (tx_batch t) (wd_db W)) W) (\<lambda>W'.
       map_option (\<lambda>ks. let W'' = fold (notify_table C) ks W'
           in W'' \<lparr> wd_rest := fold (\<lambda>follow_up. follow_up) (tx_after t) (wd_rest W'') \<rparr>)
         (txn_keys (eng_known_cf E) (eng_repr E (tx_batch t)))))"

section \<open>The serialized batch\<close>

text \<open>
  The layout of a batch in RocksDB: a header of twelve bytes, then for each operation a tag, the table unless it is the
  default one, and length-prefixed strings. Lengths and tables are numbers in groups of seven bits, the lowest first.
\<close>

function varint32 :: "u32 \<Rightarrow> byte list" where
  "varint32 n = (if n < 0x80 then [ucast n] else (ucast (n AND 0x7F) OR 0x80) # varint32 (drop_bit 7 n))"
  by pat_completeness auto
termination
proof (relation "measure unat")
  fix n :: u32
  assume "\<not> n < 0x80"
  then have "unat n \<ge> 0x80" by (simp add: word_less_nat_alt)
  moreover have "unat (drop_bit 7 n) = unat n div 128" by (simp add: drop_bit_eq_div unat_div)
  ultimately show "(drop_bit 7 n, n) \<in> measure unat" by simp
qed simp

declare varint32.simps [simp del]

definition varstring :: "byte list \<Rightarrow> byte list" where
  "varstring s = varint32 (word_of_nat (length s)) @ s"

definition tagged :: "byte \<Rightarrow> byte \<Rightarrow> u32 \<Rightarrow> byte list" where
  "tagged plain with_cf cf = (if cf = 0 then [plain] else with_cf # varint32 cf)"

fun op_bytes :: "batch_op \<Rightarrow> byte list" where
  "op_bytes (PutOp cf k v) = tagged 0x1 0x5 cf @ varstring k @ varstring v"
| "op_bytes (DeleteOp cf k) = tagged 0x0 0x4 cf @ varstring k"
| "op_bytes (MergeOp cf k v) = tagged 0x2 0x6 cf @ varstring k @ varstring v"

fun op_key :: "batch_op \<Rightarrow> u32 \<times> byte list" where
  "op_key (PutOp cf k v) = (cf, k)"
| "op_key (DeleteOp cf k) = (cf, k)"
| "op_key (MergeOp cf k v) = (cf, k)"

text \<open>The library refuses strings whose length does not fit into 32 bits.\<close>

fun op_fits :: "batch_op \<Rightarrow> bool" where
  "op_fits (PutOp cf k v) \<longleftrightarrow> length k < 2 ^ 32 \<and> length v < 2 ^ 32"
| "op_fits (DeleteOp cf k) \<longleftrightarrow> length k < 2 ^ 32"
| "op_fits (MergeOp cf k v) \<longleftrightarrow> length k < 2 ^ 32 \<and> length v < 2 ^ 32"

definition repr_ok :: "(batch_op list \<Rightarrow> byte list) \<Rightarrow> bool" where
  "repr_ok repr \<longleftrightarrow> (\<forall>ops. list_all op_fits ops \<longrightarrow> (\<exists>hdr. length hdr = 12 \<and> repr ops = hdr @ concat (map op_bytes ops)))"

section \<open>Reading back what was queued\<close>

lemma low7: "(0x7F :: byte) = mask 7" "(0x7F :: u32) = mask 7"
  by (simp_all add: mask_eq_exp_minus_1)

lemma bit_top: "bit (0x80 :: int) k \<longleftrightarrow> k = 7"
proof -
  have "(0x80 :: int) = push_bit 7 1" by simp
  then show ?thesis by (auto simp only: bit_push_bit_iff bit_1_iff possible_bit_int)
qed

lemma varint_last:
  fixes n :: u32
  assumes "n < 0x80"
  shows "(ucast n :: byte) AND 0x80 = 0" "ucast ((ucast n :: byte) AND 0x7F) = n"
proof -
  have m: "n = take_bit 7 n" using assms by (simp add: take_bit_eq_mod mod_word_less)
  have b: "bit n k \<Longrightarrow> k < 7" for k by (subst (asm) m) (simp add: bit_take_bit_iff)
  show "(ucast n :: byte) AND 0x80 = 0" by (rule bit_word_eqI) (auto simp: bit_simps bit_top dest: b)
  show "ucast ((ucast n :: byte) AND 0x7F) = n" unfolding low7 by (rule bit_word_eqI) (auto simp: bit_simps dest: b)
qed

lemma varint_more:
  fixes n :: u32
  shows "((ucast (n AND 0x7F) :: byte) OR 0x80) AND 0x80 \<noteq> 0"
    "ucast (((ucast (n AND 0x7F) :: byte) OR 0x80) AND 0x7F) = take_bit 7 n"
proof -
  have "bit (((ucast (n AND 0x7F) :: byte) OR 0x80) AND 0x80) 7" unfolding low7 by (simp add: bit_simps bit_top)
  then show "((ucast (n AND 0x7F) :: byte) OR 0x80) AND 0x80 \<noteq> 0" by (metis bit_0_eq bot_apply bot_bool_def)
  show "ucast (((ucast (n AND 0x7F) :: byte) OR 0x80) AND 0x7F) = take_bit 7 n"
    unfolding low7 by (rule bit_word_eqI) (auto simp: bit_simps bit_top)
qed

lemma varint_join:
  fixes n :: u32
  shows "take_bit k n OR push_bit k (drop_bit k n) = n"
    "take_bit k n OR push_bit k (take_bit 7 (drop_bit k n)) = take_bit (k + 7) n"
proof -
  show "take_bit k n OR push_bit k (drop_bit k n) = n"
    by (rule bit_word_eqI) (auto simp: bit_simps, metis le_add_diff_inverse linorder_not_less)
  show "take_bit k n OR push_bit k (take_bit 7 (drop_bit k n)) = take_bit (k + 7) n"
    by (rule bit_word_eqI) (auto simp: bit_simps not_less)
qed

lemma take_varint_steps:
  assumes "i \<le> 4"
  shows "take_varint_from (drop i [0, 7, 14, 21, 28]) (take_bit (7 * i) n) (varint32 (drop_bit (7 * i) n) @ rest) = Some (n, rest)"
  using assms
proof (induction "4 - i" arbitrary: i)
  case 0
  then have i: "i = 4" by simp
  have "unat (drop_bit 28 n) < 0x80" using unat_less_2p [of n] by (simp add: drop_bit_eq_div unat_div)
  then have "drop_bit 28 n < 0x80" by (simp add: word_less_nat_alt)
  then show ?case using varint_last [of "drop_bit 28 n"] varint_join(1) [of 28 n] by (simp add: i varint32.simps)
next
  case (Suc m)
  have shifts: "drop i [0, 7, 14, 21, 28] = 7 * i # drop (Suc i) [0, 7, 14, 21, 28 :: nat]"
  proof -
    have "i = 0 \<or> i = 1 \<or> i = 2 \<or> i = 3" using Suc.hyps(2) by linarith
    then show ?thesis by auto
  qed
  show ?case
  proof (cases "drop_bit (7 * i) n < 0x80")
    case True
    then show ?thesis
      using varint_last [OF True] varint_join(1) [of "7 * i" n] by (simp add: shifts varint32.simps [of "drop_bit (7 * i) n"])
  next
    case False
    have "take_varint_from (drop (Suc i) [0, 7, 14, 21, 28]) (take_bit (7 * Suc i) n) (varint32 (drop_bit (7 * Suc i) n) @ rest) = Some (n, rest)"
      using Suc.hyps(1) [of "Suc i"] Suc.hyps(2) by simp
    then show ?thesis
      using False varint_more [of "drop_bit (7 * i) n"] varint_join(2) [of "7 * i" n]
      by (simp add: shifts varint32.simps [of "drop_bit (7 * i) n"] add.commute)
  qed
qed

lemma take_varint32_varint: "take_varint32 (varint32 n @ rest) = Some (n, rest)"
  using take_varint_steps [of 0 n rest] by (simp add: take_varint32_def)

lemma take_varstring_varstring: "length s < 2 ^ 32 \<Longrightarrow> take_varstring (varstring s @ rest) = Some (s, rest)"
  by (simp add: take_varstring_def varstring_def take_varint32_varint unat_of_nat)

lemma next_record_op: "op_fits opr \<Longrightarrow> next_record (op_bytes opr @ rest) = Some (op_key opr, rest)"
  by (cases opr) (auto simp: next_record_def tagged_def tag_of_def take_varint32_varint take_varstring_varstring)

lemma record_keys_ops: "list_all op_fits ops \<Longrightarrow> record_keys (concat (map op_bytes ops)) = Some (map op_key ops)"
proof (induction ops)
  case (Cons opr ops)
  have "op_bytes opr \<noteq> []" by (cases opr) (auto simp: tagged_def)
  then show ?case using Cons next_record_op [of opr] by (subst record_keys.simps) simp
qed (simp add: record_keys.simps)

lemma txn_keys_repr:
  assumes "repr_ok repr" "list_all op_fits ops"
  shows "txn_keys known_cf (repr ops) = Some (filter (\<lambda>r. known_cf (fst r)) (map op_key ops))"
proof -
  obtain hdr where "length hdr = 12" "repr ops = hdr @ concat (map op_bytes ops)" using assms by (auto simp: repr_ok_def)
  then show ?thesis by (simp add: txn_keys_def HEADER_def record_keys_ops [OF assms(2)] case_prod_beta')
qed


section \<open>Commits and watchers\<close>

text \<open>The invariant of the watchers, table by table; \<open>Ws cf\<close> are the futures that wait on a table.\<close>

definition world_inv :: "('h \<Rightarrow> ('rx \<times> 'tx) set) \<Rightarrow> ('h \<Rightarrow> 'tx set) \<Rightarrow> ('db, 'tx, 'h, 'w) world \<Rightarrow>
    (u32 \<Rightarrow> ('rx \<times> byte list) set) \<Rightarrow> bool" where
  "world_inv live known W Ws \<longleftrightarrow> (\<forall>cf. watch_inv live known (wd_watchers W cf, wd_channels W, Ws cf))"

lemma notify_frame:
  assumes "channels_ok C live changed known" "notify C key ws h = (ws', h')"
  shows "live h' = live h" "known h' = known h" "changed h \<subseteq> changed h'" "set ws' \<subseteq> set ws"
proof -
  obtain closed where c: "send_each C (candidates ws key) h = (closed, h')" "ws' = fold btree_remove closed ws"
    using assms(2) by (auto simp: notify_def split: prod.splits)
  show "live h' = live h" "known h' = known h" "changed h \<subseteq> changed h'" using send_each_spec [OF assms(1) c(1)] by auto
  show "set ws' \<subseteq> set ws" by (auto simp: c(2) fold_btree_remove)
qed

lemma notify_table_step:
  assumes "channels_ok C live changed known" "world_inv live known W Ws"
  shows "world_inv live known (notify_table C r W) Ws"
    and "changed (wd_channels W) \<subseteq> changed (wd_channels (notify_table C r W))"
    and "set (wd_watchers (notify_table C r W) cf) \<subseteq> set (wd_watchers W cf)"
    and "wd_db (notify_table C r W) = wd_db W" "wd_rest (notify_table C r W) = wd_rest W"
    and "(rx, p) \<in> Ws (fst r) \<Longrightarrow> prefix_free (map fst (wd_watchers W (fst r))) \<Longrightarrow> starts_with (snd r) p \<Longrightarrow>
      rx \<in> changed (wd_channels (notify_table C r W))"
proof -
  obtain ws h where n: "notify C (snd r) (wd_watchers W (fst r)) (wd_channels W) = (ws, h)" by fastforce
  note f = notify_frame [OF assms(1) n]
  have W': "notify_table C r W = W \<lparr> wd_watchers := (wd_watchers W)(fst r := ws), wd_channels := h \<rparr>"
    by (simp add: notify_table_def n)
  have inv: "watch_inv live known (wd_watchers W cf, wd_channels W, Ws cf)" for cf using assms(2) by (simp add: world_inv_def)
  have "watch_inv live known (wd_watchers W cf, h, Ws cf)" for cf
    using inv [of cf] f(1,2) by (simp add: watch_inv_def)
  then show "world_inv live known (notify_table C r W) Ws"
    using notify_inv [OF assms(1) inv n] by (simp add: world_inv_def W')
  show "changed (wd_channels W) \<subseteq> changed (wd_channels (notify_table C r W))" using f(3) by (simp add: W')
  show "set (wd_watchers (notify_table C r W) cf) \<subseteq> set (wd_watchers W cf)" using f(4) by (simp add: W')
  show "wd_db (notify_table C r W) = wd_db W" "wd_rest (notify_table C r W) = wd_rest W" by (simp_all add: W')
  show "rx \<in> changed (wd_channels (notify_table C r W))"
    if "(rx, p) \<in> Ws (fst r)" "prefix_free (map fst (wd_watchers W (fst r)))" "starts_with (snd r) p"
  proof -
    have "btree (wd_watchers W (fst r))" using inv by (simp add: watch_inv_def)
    moreover have "registered (wd_watchers W (fst r)) (live (wd_channels W)) (rx, p)" using inv that(1) by (simp add: watch_inv_def)
    then have "p \<in> fst ` set (wd_watchers W (fst r))" by (force simp: registered_def)
    ultimately have "p \<in> fst ` set (candidates (wd_watchers W (fst r)) (snd r))" using candidates_keys(2) that(2,3) by blast
    then show ?thesis using notify_changed [OF assms(1) inv that(1) n] by (simp add: W')
  qed
qed

lemma prefix_free_mono: "prefix_free ps \<Longrightarrow> set qs \<subseteq> set ps \<Longrightarrow> prefix_free qs"
  unfolding prefix_free_def by blast

lemma notify_tables:
  assumes "channels_ok C live changed known" "world_inv live known W Ws"
  shows "world_inv live known (fold (notify_table C) ks W) Ws \<and> wd_db (fold (notify_table C) ks W) = wd_db W \<and>
    wd_rest (fold (notify_table C) ks W) = wd_rest W \<and>
    changed (wd_channels W) \<subseteq> changed (wd_channels (fold (notify_table C) ks W)) \<and>
    (\<forall>r \<in> set ks. \<forall>rx p. (rx, p) \<in> Ws (fst r) \<longrightarrow> prefix_free (map fst (wd_watchers W (fst r))) \<longrightarrow> starts_with (snd r) p \<longrightarrow>
      rx \<in> changed (wd_channels (fold (notify_table C) ks W)))"
  using assms(2)
proof (induction ks arbitrary: W)
  case (Cons r ks)
  let ?W = "notify_table C r W"
  note s = notify_table_step [OF assms(1) Cons.prems]
  have ih: "world_inv live known (fold (notify_table C) ks ?W) Ws" "wd_db (fold (notify_table C) ks ?W) = wd_db ?W"
    "wd_rest (fold (notify_table C) ks ?W) = wd_rest ?W"
    "changed (wd_channels ?W) \<subseteq> changed (wd_channels (fold (notify_table C) ks ?W))"
    "\<forall>r \<in> set ks. \<forall>rx p. (rx, p) \<in> Ws (fst r) \<longrightarrow> prefix_free (map fst (wd_watchers ?W (fst r))) \<longrightarrow> starts_with (snd r) p \<longrightarrow>
      rx \<in> changed (wd_channels (fold (notify_table C) ks ?W))"
    using Cons.IH [OF s(1) [of r]] by auto
  have pf: "prefix_free (map fst (wd_watchers ?W cf))" if "prefix_free (map fst (wd_watchers W cf))" for cf
    using prefix_free_mono [OF that, of "map fst (wd_watchers ?W cf)"] s(3) [of r cf] by auto
  have "rx \<in> changed (wd_channels (fold (notify_table C) ks ?W))"
    if "r' \<in> set (r # ks)" "(rx, p) \<in> Ws (fst r')" "prefix_free (map fst (wd_watchers W (fst r')))" "starts_with (snd r') p" for r' rx p
  proof (cases "r' = r")
    case True
    then show ?thesis using s(6) [of rx p r] that(2-4) ih(4) by auto
  next
    case False
    then show ?thesis using that ih(5) pf [of "fst r'"] by auto
  qed
  then show ?case using ih(1-4) s(2,4,5) [of r] by auto
qed simp

lemma execute_runs:
  assumes "channels_ok C live changed known" "world_inv live known W Ws" "repr_ok (eng_repr E)"
    and "tx_batch t \<noteq> []" "list_all op_fits (tx_batch t)" "eng_write E (tx_batch t) (wd_db W) = Inr db"
    and "if corked W then db' = db else eng_flush E db = Inr db'"
  shows "\<exists>W'. txn_execute E C t W = Some W' \<and> wd_db W' = db' \<and> world_inv live known W' Ws \<and>
    wd_rest W' = fold (\<lambda>follow_up. follow_up) (tx_after t) (wd_rest W) \<and>
    (\<forall>opr \<in> set (tx_batch t). \<forall>rx p. eng_known_cf E (fst (op_key opr)) \<longrightarrow> (rx, p) \<in> Ws (fst (op_key opr)) \<longrightarrow>
      prefix_free (map fst (wd_watchers W (fst (op_key opr)))) \<longrightarrow> starts_with (snd (op_key opr)) p \<longrightarrow>
      rx \<in> changed (wd_channels W'))"
proof -
  let ?ks = "filter (\<lambda>r. eng_known_cf E (fst r)) (map op_key (tx_batch t))"
  let ?W = "W \<lparr> wd_db := db' \<rparr>"
  have "written E (eng_write E (tx_batch t) (wd_db W)) W = Some ?W" using assms(6,7) by (auto simp: written_def)
  moreover have "txn_keys (eng_known_cf E) (eng_repr E (tx_batch t)) = Some ?ks" by (rule txn_keys_repr [OF assms(3,5)])
  ultimately have run: "txn_execute E C t W = Some (let W' = fold (notify_table C) ?ks ?W in
      W' \<lparr> wd_rest := fold (\<lambda>follow_up. follow_up) (tx_after t) (wd_rest W') \<rparr>)"
    using assms(4) by (simp add: txn_execute_def Let_def)
  have "world_inv live known ?W Ws" using assms(2) by (simp add: world_inv_def)
  note n = notify_tables [OF assms(1) this, of ?ks]
  have "rx \<in> changed (wd_channels (fold (notify_table C) ?ks ?W))"
    if "opr \<in> set (tx_batch t)" "eng_known_cf E (fst (op_key opr))" "(rx, p) \<in> Ws (fst (op_key opr))"
      "prefix_free (map fst (wd_watchers W (fst (op_key opr))))" "starts_with (snd (op_key opr)) p" for opr rx p
  proof -
    have "op_key opr \<in> set ?ks" using that(1,2) by simp
    from n [THEN conjunct2, THEN conjunct2, THEN conjunct2, THEN conjunct2, THEN bspec, OF this] show ?thesis using that(3-5) by simp
  qed
  then show ?thesis unfolding run Let_def using n by (auto simp: world_inv_def)
qed

section \<open>Deleting under a prefix\<close>

text \<open>What an engine promises when nothing fails: a deletion takes the row of its key from its table, a flush changes no row.\<close>

definition deletes_ok :: "'db engine \<Rightarrow> (u32 \<Rightarrow> 'db \<Rightarrow> row list) \<Rightarrow> bool" where
  "deletes_ok E rows \<longleftrightarrow>
     (\<forall>cf k db. \<exists>db'. eng_delete E cf k db = Inr db' \<and> rows cf db' = filter (\<lambda>kv. fst kv \<noteq> k) (rows cf db) \<and>
       (\<forall>cf'. cf' \<noteq> cf \<longrightarrow> rows cf' db' = rows cf' db)) \<and>
     (\<forall>db. \<exists>db'. eng_flush E db = Inr db' \<and> (\<forall>cf. rows cf db' = rows cf db))"

lemma ignore_err_oks [simp]: "ignore_err (map Inr xs) = xs"
  by (induction xs) (auto simp: ignore_err_def map_filter_def)

lemma table_remove_ok:
  assumes "deletes_ok E rows" "channels_ok C live changed known" "world_inv live known W Ws"
  shows "\<exists>W'. table_remove E C cf k W = Some W' \<and> world_inv live known W' Ws \<and>
    rows cf (wd_db W') = filter (\<lambda>kv. fst kv \<noteq> k) (rows cf (wd_db W)) \<and> (\<forall>cf'. cf' \<noteq> cf \<longrightarrow> rows cf' (wd_db W') = rows cf' (wd_db W))"
proof -
  obtain db where db: "eng_delete E cf k (wd_db W) = Inr db" "rows cf db = filter (\<lambda>kv. fst kv \<noteq> k) (rows cf (wd_db W))"
    "\<forall>cf'. cf' \<noteq> cf \<longrightarrow> rows cf' db = rows cf' (wd_db W)" using assms(1) unfolding deletes_ok_def by blast
  obtain db' where db': "eng_flush E db = Inr db'" "\<forall>cf. rows cf db' = rows cf db" using assms(1) unfolding deletes_ok_def by blast
  let ?W = "W \<lparr> wd_db := if corked W then db else db' \<rparr>"
  have "written E (eng_delete E cf k (wd_db W)) W = Some ?W" using db(1) db'(1) by (simp add: written_def)
  moreover have "world_inv live known ?W Ws" using assms(3) by (simp add: world_inv_def)
  ultimately show ?thesis
    using notify_table_step(1,4) [OF assms(2), of ?W Ws "(cf, k)"] db(2,3) db'(2) by (auto simp: table_remove_def)
qed

lemma try_each_remove:
  assumes "deletes_ok E rows" "channels_ok C live changed known" "world_inv live known W Ws"
  shows "\<exists>W'. try_each (table_remove E C cf) ks W = Some W' \<and> world_inv live known W' Ws \<and>
    rows cf (wd_db W') = filter (\<lambda>kv. fst kv \<notin> set ks) (rows cf (wd_db W)) \<and> (\<forall>cf'. cf' \<noteq> cf \<longrightarrow> rows cf' (wd_db W') = rows cf' (wd_db W))"
  using assms(3)
proof (induction ks arbitrary: W)
  case (Cons k ks)
  obtain W' where W': "table_remove E C cf k W = Some W'" "world_inv live known W' Ws"
    "rows cf (wd_db W') = filter (\<lambda>kv. fst kv \<noteq> k) (rows cf (wd_db W))" "\<forall>cf'. cf' \<noteq> cf \<longrightarrow> rows cf' (wd_db W') = rows cf' (wd_db W)"
    using table_remove_ok [OF assms(1,2) Cons.prems] by blast
  have "filter (\<lambda>kv. fst kv \<notin> set ks) (rows cf (wd_db W')) = filter (\<lambda>kv. fst kv \<notin> set (k # ks)) (rows cf (wd_db W))"
    unfolding W'(3) filter_filter by (rule filter_cong) auto
  then show ?case using Cons.IH [OF W'(2)] W'(1,4) by auto
qed simp

section \<open>Properties\<close>

text \<open>C36: The keys of a transaction. Read back from the serialized batch, the keys are those of the queued insertions,
  deletions and merges with their tables, in queue order, apart from tables outside the catalog; the reader never panics
  on a batch.
\<close>

theorem batch_keys_are_queued_keys:
  assumes "repr_ok repr" "list_all op_fits ops"
  shows "txn_keys known_cf (repr ops) = Some (filter (\<lambda>r. known_cf (fst r)) (map op_key ops))"
  by (rule txn_keys_repr [OF assms])

definition sample_repr :: "batch_op list \<Rightarrow> byte list" where
  "sample_repr ops = replicate 12 0 @ concat (map op_bytes ops)"

lemma sample_repr_ok: "repr_ok sample_repr"
  by (auto simp: repr_ok_def sample_repr_def intro!: exI [of _ "replicate 12 0"])

theorem batch_keys_are_queued_keys_witness:
  "txn_keys (\<lambda>cf. cf \<noteq> 300) (sample_repr [PutOp 200 [1, 2] [3], DeleteOp 0 [4], MergeOp 300 [5] [6]]) = Some [(200, [1, 2]), (0, [4])]"
  by (simp add: batch_keys_are_queued_keys [OF sample_repr_ok])

text \<open>C35: A commit is seen by those who wait for it. When RocksDB accepts the batch and the flush that is due, \<open>txn_execute\<close>
  returns: the database is the written one, the follow-ups have run in order, the watchers keep their invariant, and every
  future that waits on a table for a prefix of a queued key has been woken, where no watched prefix of the table extends
  another.
\<close>

theorem commit_wakes_waiting:
  assumes "channels_ok C live changed known" "world_inv live known W Ws" "repr_ok (eng_repr E)"
    and "tx_batch t \<noteq> []" "list_all op_fits (tx_batch t)" "eng_write E (tx_batch t) (wd_db W) = Inr db"
    and "if corked W then db' = db else eng_flush E db = Inr db'"
  shows "\<exists>W'. txn_execute E C t W = Some W' \<and> wd_db W' = db' \<and> world_inv live known W' Ws \<and>
    wd_rest W' = fold (\<lambda>follow_up. follow_up) (tx_after t) (wd_rest W) \<and>
    (\<forall>opr \<in> set (tx_batch t). \<forall>rx p. eng_known_cf E (fst (op_key opr)) \<longrightarrow> (rx, p) \<in> Ws (fst (op_key opr)) \<longrightarrow>
      prefix_free (map fst (wd_watchers W (fst (op_key opr)))) \<longrightarrow> starts_with (snd (op_key opr)) p \<longrightarrow>
      rx \<in> changed (wd_channels W'))"
  by (rule execute_runs [OF assms])


text \<open>An engine whose database is the rows written last to each key of each table, and one future that waits for keys that begin with \<open>a\<close>\<close>

definition apply_op :: "batch_op \<Rightarrow> (u32 \<times> byte list \<rightharpoonup> byte list) \<Rightarrow> (u32 \<times> byte list \<rightharpoonup> byte list)" where
  "apply_op opr db = (case opr of
     PutOp cf k v \<Rightarrow> db((cf, k) \<mapsto> v)
   | DeleteOp cf k \<Rightarrow> db((cf, k) := None)
   | MergeOp cf k v \<Rightarrow> db((cf, k) \<mapsto> v))"

definition sample_engine :: "(u32 \<times> byte list \<rightharpoonup> byte list) engine" where
  "sample_engine = \<lparr> eng_write = (\<lambda>ops db. Inr (fold apply_op ops db)), eng_put = (\<lambda>cf k v db. Inr (db((cf, k) \<mapsto> v))),
     eng_delete = (\<lambda>cf k db. Inr (db((cf, k) := None))), eng_flush = Inr, eng_repr = sample_repr, eng_known_cf = (\<lambda>cf. cf < 2) \<rparr>"

definition sample_world :: "(u32 \<times> byte list \<rightharpoonup> byte list, nat, sample_heap, nat) world" where
  "sample_world = \<lparr> wd_db = Map.empty, wd_corks = 0, wd_watchers = (\<lambda>cf. if cf = 1 then [([0x61], 1)] else []),
     wd_channels = ([1], [Some 1], []), wd_rest = 0 \<rparr>"

definition sample_waiting :: "u32 \<Rightarrow> (nat \<times> byte list) set" where
  "sample_waiting cf = (if cf = 1 then {(0, [0x61])} else {})"

definition sample_txn :: "nat txn" where
  "sample_txn = \<lparr> tx_batch = [DeleteOp 0 [0x62], PutOp 1 [0x61, 0x63] [5]], tx_engine = 0, tx_after = [Suc, (*) 4] \<rparr>"

lemma sample_world_inv: "world_inv sample_live sample_known sample_world sample_waiting"
proof -
  have a: "subscribe sample_channels [0x61] [] ([], [], []) = (0, [([0x61], 1)], ([1], [Some 1], []))"
    by (simp add: subscribe_def sample_channels_def btree_insert_def)
  have "watch_reachable sample_channels ([([0x61], 1)], ([1], [Some 1], []), {(0, [0x61])})"
    by (rule more [OF start step_subscribe [OF a]])
  from reachable_inv [OF sample_channels_ok this]
  show ?thesis by (auto simp: world_inv_def sample_world_def sample_waiting_def watch_inv_def btree_def)
qed

lemma sample_commit:
  "tx_batch sample_txn \<noteq> []" "list_all op_fits (tx_batch sample_txn)"
  "eng_write sample_engine (tx_batch sample_txn) (wd_db sample_world) = Inr (fold apply_op (tx_batch sample_txn) (wd_db sample_world))"
  "if corked sample_world then db = db else eng_flush sample_engine db = Inr db"
  by (simp_all add: sample_txn_def sample_engine_def sample_world_def corked_def)

theorem commit_wakes_waiting_witness:
  "\<exists>W'. txn_execute sample_engine sample_channels sample_txn sample_world = Some W' \<and> wd_rest W' = 4 \<and>
    wd_db W' (1, [0x61, 0x63]) = Some [5] \<and> 0 \<in> sample_changed (wd_channels W')"
proof -
  let ?opr = "PutOp 1 [0x61, 0x63] [5]"
  let ?db = "fold apply_op (tx_batch sample_txn) (wd_db sample_world)"
  have "repr_ok (eng_repr sample_engine)" by (simp add: sample_engine_def sample_repr_ok)
  from commit_wakes_waiting [OF sample_channels_ok sample_world_inv this, of sample_txn ?db ?db] sample_commit
  obtain W' where W': "txn_execute sample_engine sample_channels sample_txn sample_world = Some W'" "wd_db W' = ?db"
    "wd_rest W' = fold (\<lambda>follow_up. follow_up) (tx_after sample_txn) (wd_rest sample_world)"
    and woken: "\<forall>opr \<in> set (tx_batch sample_txn). \<forall>rx p. eng_known_cf sample_engine (fst (op_key opr)) \<longrightarrow>
      (rx, p) \<in> sample_waiting (fst (op_key opr)) \<longrightarrow> prefix_free (map fst (wd_watchers sample_world (fst (op_key opr)))) \<longrightarrow>
      starts_with (snd (op_key opr)) p \<longrightarrow> rx \<in> sample_changed (wd_channels W')"
    by blast
  have "?opr \<in> set (tx_batch sample_txn)" by (simp add: sample_txn_def)
  from woken [THEN bspec, OF this, THEN spec [of _ 0], THEN spec [of _ "[0x61]"]]
  have "0 \<in> sample_changed (wd_channels W')"
    by (simp add: sample_engine_def sample_waiting_def sample_world_def prefix_free_def starts_with_def)
  then show ?thesis using W' by (simp add: sample_txn_def sample_world_def apply_op_def)
qed


text \<open>C37: Deleting under a prefix deletes what the prefix means. Over a RocksDB that keeps its promises and does not fail,
  \<open>del_prefix\<close> returns with exactly those rows of the table gone whose keys begin with the written prefix, every other
  table as it was and the watchers in order.
\<close>

theorem del_prefix_exact:
  assumes "rocks_ok R (rows cf) view" "deletes_ok E rows" "channels_ok C live changed known" "world_inv live known W Ws"
    and "serialize F prefix = Some (Inr p)"
  shows "\<exists>W'. del_prefix E C F R cf prefix W = Some W' \<and> world_inv live known W' Ws \<and>
    rows cf (wd_db W') = filter (\<lambda>kv. \<not> starts_with (fst kv) p) (rows cf (wd_db W)) \<and>
    (\<forall>cf'. cf' = cf \<or> rows cf' (wd_db W') = rows cf' (wd_db W))"
proof -
  let ?ks = "map fst (filter (\<lambda>kv. starts_with (fst kv) p) (rows cf (wd_db W)))"
  have "keys_prefix_raw F R (wd_db W) prefix = Some (map Inr ?ks)"
    by (simp add: keys_prefix_raw_def with_key_def assms(5) scans_prefix(2) [OF assms(1)])
  then have "del_prefix E C F R cf prefix W = try_each (table_remove E C cf) ?ks W"
    by (simp del: map_map add: del_prefix_def)
  moreover have "filter (\<lambda>kv. fst kv \<notin> set ?ks) (rows cf (wd_db W)) = filter (\<lambda>kv. \<not> starts_with (fst kv) p) (rows cf (wd_db W))"
    by (rule filter_cong) auto
  ultimately show ?thesis using try_each_remove [OF assms(2-4), of cf ?ks] by auto
qed


text \<open>An engine with one table, whose database is a list of insertions\<close>

definition sample_deletes :: "row list engine" where
  "sample_deletes = \<lparr> eng_write = (\<lambda>ops db. Inr db), eng_put = (\<lambda>cf k v db. Inr (if cf = 1 then (k, v) # db else db)),
     eng_delete = (\<lambda>cf k db. Inr (if cf = 1 then filter (\<lambda>kv. fst kv \<noteq> k) db else db)),
     eng_flush = Inr, eng_repr = sample_repr, eng_known_cf = (\<lambda>cf. cf = 1) \<rparr>"

definition sample_table :: "u32 \<Rightarrow> row list \<Rightarrow> row list" where
  "sample_table cf db = (if cf = 1 then sample_rows db else [])"

lemma sorted_without:
  "sorted_wrt (\<lambda>x y. fst x < fst y) xs \<Longrightarrow> filter (\<lambda>e. fst e < k) xs @ filter (\<lambda>e. k < (fst e :: 'k::linorder)) xs = filter (\<lambda>e. fst e \<noteq> k) xs"
proof (induction xs)
  case (Cons x xs)
  show ?case
  proof (cases "fst x < k")
    case False
    then have "\<forall>e \<in> set xs. k < fst e" using Cons.prems by auto
    then have "filter (\<lambda>e. fst e < k) xs = []" "filter (\<lambda>e. k < fst e) xs = xs" "filter (\<lambda>e. fst e \<noteq> k) xs = xs"
      by (force simp: filter_empty_conv filter_id_conv)+
    then show ?thesis using False by (auto simp: not_less_iff_gr_or_eq)
  qed (use Cons in auto)
qed simp

lemma sample_rows_filter: "sample_rows (filter (\<lambda>kv. fst kv \<noteq> k) db) = filter (\<lambda>kv. fst kv \<noteq> k) (sample_rows db)"
proof (induction db)
  case (Cons kv db)
  have "sorted_wrt (\<lambda>x y. fst x < fst y) (sample_rows db)" using rocks_okD(1) [OF sample_rocks_ok] .
  moreover have "filter (\<lambda>e. fst e < k \<and> fst e \<noteq> k) xs = filter (\<lambda>e. fst e < k) xs"
    "filter (\<lambda>e. k < fst e \<and> fst e \<noteq> k) xs = filter (\<lambda>e. k < fst e) xs" for xs :: "row list"
    by (auto intro!: filter_cong)
  ultimately show ?case using Cons sorted_without [of "sample_rows db" k]
    by (cases kv) (auto simp: sample_rows_def btree_insert_def conj_commute)
qed (simp add: sample_rows_def)

lemma sample_deletes_ok: "deletes_ok sample_deletes sample_table"
  by (auto simp: deletes_ok_def sample_deletes_def sample_table_def sample_rows_filter)

definition sample_store :: "(row list, nat, sample_heap, nat) world" where
  "sample_store = \<lparr> wd_db = [([2, 1], [7]), ([1], [8]), ([2], [9])], wd_corks = 0,
     wd_watchers = (\<lambda>cf. if cf = 1 then [([0x61], 1)] else []), wd_channels = ([1], [Some 1], []), wd_rest = 0 \<rparr>"

theorem del_prefix_exact_witness:
  "\<exists>W'. del_prefix sample_deletes sample_channels plain_formats sample_rocks 1 (VBytes [2]) sample_store = Some W' \<and>
    sample_rows (wd_db W') = [([1], [8])]"
proof -
  have "sample_table 1 = sample_rows" by (simp add: fun_eq_iff sample_table_def)
  then have r: "rocks_ok sample_rocks (sample_table 1) id" by (simp add: sample_rocks_ok)
  have "world_inv sample_live sample_known sample_store sample_waiting"
    using sample_world_inv by (simp add: world_inv_def sample_world_def sample_store_def)
  moreover have "serialize plain_formats (VBytes [2]) = Some (Inr [2])" by (simp add: serialize_def set_sep_def ser_write_def)
  ultimately obtain W' where "del_prefix sample_deletes sample_channels plain_formats sample_rocks 1 (VBytes [2]) sample_store = Some W'"
    "sample_table 1 (wd_db W') = filter (\<lambda>kv. \<not> starts_with (fst kv) [2]) (sample_table 1 (wd_db sample_store))"
    using del_prefix_exact [OF r sample_deletes_ok sample_channels_ok] by blast
  then show ?thesis by (simp add: sample_table_def sample_store_def sample_rows_def btree_insert_def starts_with_def)
qed

end
