(* ===== verification/Counter_Merge.thy ===== *)
theory Counter_Merge
  imports Pdu_Position
begin

text \<open>
  The merge operator of counter tables, \<^verbatim>\<open>src/database/engine/merge.rs\<close>: operands are queued as writes and folded
  into the stored value when RocksDB reads or compacts the row. A row that predates the counter holds the least
  \<^verbatim>\<open>i64\<close> and is left alone by additions. The fold refines a counter over the integers with the states absent, predating
  and counted, as long as the count stays within the range, and does not depend on where RocksDB cuts the operands.
\<close>

section \<open>Operands\<close>

definition COUNTER_SENTINEL :: i64 where
  "COUNTER_SENTINEL = i64_MIN"

datatype CounterOperand = Init | Add i64 | Set i64

definition TAG_INIT :: byte where "TAG_INIT = 0x01"

definition TAG_ADD :: byte where "TAG_ADD = 0x02"

definition TAG_SET :: byte where "TAG_SET = 0x03"

definition operand_to_bytes :: "CounterOperand \<Rightarrow> byte list" where
  "operand_to_bytes opr = (let (t, v) = (case opr of
       Init \<Rightarrow> (TAG_INIT, 0)
     | Add delta \<Rightarrow> (TAG_ADD, delta)
     | Set v \<Rightarrow> (TAG_SET, v))
   in t # u64_to_be v)"

definition operand_from_bytes :: "byte list \<Rightarrow> CounterOperand option" where
  "operand_from_bytes bytes = (case bytes of
     [] \<Rightarrow> None
   | t # rest \<Rightarrow> if length rest \<noteq> 8 then None
       else let v = u64_of_be rest in
         if t = TAG_INIT then Some Init
         else if t = TAG_ADD then Some (Add v)
         else if t = TAG_SET then Some (Set v)
         else None)"

lemma operand_round_trip [simp]: "operand_from_bytes (operand_to_bytes opr) = Some opr"
  by (cases opr) (simp_all add: operand_from_bytes_def operand_to_bytes_def TAG_INIT_def TAG_ADD_def TAG_SET_def be64.dec_enc)

section \<open>The fold\<close>

definition fold_step :: "CounterOperand \<Rightarrow> i64 option \<Rightarrow> i64 option" where
  "fold_step opr state = (case (state, opr) of
     (None, Init) \<Rightarrow> Some 0
   | (Some n, Init) \<Rightarrow> Some n
   | (None, Add _) \<Rightarrow> Some COUNTER_SENTINEL
   | (Some n, Add delta) \<Rightarrow>
       if n = COUNTER_SENTINEL then Some COUNTER_SENTINEL else Some (i64_saturating_add n delta)
   | (_, Set v) \<Rightarrow> Some v)"

definition fold_counter :: "i64 option \<Rightarrow> CounterOperand list \<Rightarrow> i64 option" where
  "fold_counter state operands = fold fold_step operands state"

definition decode_counter :: "byte list \<Rightarrow> i64 option" where
  "decode_counter bytes = (if length bytes = 8 then Some (u64_of_be bytes) else None)"

definition counter_full_merge :: "byte list option \<Rightarrow> byte list list \<Rightarrow> byte list option" where
  "counter_full_merge existing operands =
     map_option u64_to_be (fold_counter (Option.bind existing decode_counter) (List.map_filter operand_from_bytes operands))"

definition counter_partial_merge :: "byte list option \<Rightarrow> byte list list \<Rightarrow> byte list option" where
  "counter_partial_merge existing operands = None"

section \<open>The counter it implements\<close>

datatype abstract_counter = Absent | Predates | Count int

definition count_step :: "CounterOperand \<Rightarrow> abstract_counter \<Rightarrow> abstract_counter" where
  "count_step opr s = (case opr of
     Init \<Rightarrow> if s = Absent then Count 0 else s
   | Add d \<Rightarrow> (case s of Count n \<Rightarrow> Count (n + sint d) | _ \<Rightarrow> Predates)
   | Set v \<Rightarrow> Count (sint v))"

fun count_fits :: "abstract_counter \<Rightarrow> bool" where
  "count_fits (Count n) \<longleftrightarrow> - (2 ^ 63) < n \<and> n < 2 ^ 63"
| "count_fits _ \<longleftrightarrow> True"

definition counter_of :: "i64 option \<Rightarrow> abstract_counter" where
  "counter_of state = (case state of
     None \<Rightarrow> Absent
   | Some n \<Rightarrow> if n = COUNTER_SENTINEL then Predates else Count (sint n))"

definition read_counter :: "byte list option \<Rightarrow> abstract_counter" where
  "read_counter value = counter_of (Option.bind value decode_counter)"

lemma sint_MIN: "sint (i64_MIN :: i64) = - (2 ^ 63)"
  by (simp add: i64_MIN_def)

lemma sint_sum:
  fixes a b :: i64
  assumes "- (2 ^ 63) \<le> sint a + sint b" "sint a + sint b < 2 ^ 63"
  shows "sint (a + b) = sint a + sint b"
  using assms by (simp add: sint_word_ariths signed_take_bit_int_eq_self)

lemma fold_step_refines:
  assumes "count_fits (count_step opr (counter_of state))"
  shows "counter_of (fold_step opr state) = count_step opr (counter_of state)"
proof (cases "\<exists>n d. state = Some n \<and> opr = Add d \<and> n \<noteq> i64_MIN")
  case True
  then obtain n d where nd: "state = Some n" "opr = Add d" "n \<noteq> i64_MIN" by blast
  then have r: "- (2 ^ 63) < sint n + sint d" "sint n + sint d < 2 ^ 63"
    using assms by (simp_all add: counter_of_def COUNTER_SENTINEL_def count_step_def)
  then have "sint (n + d) = sint n + sint d" using sint_sum [of n d] by simp
  moreover from this have "n + d \<noteq> i64_MIN" using r(1) sint_MIN by auto
  ultimately show ?thesis using nd r
    by (simp add: fold_step_def count_step_def counter_of_def COUNTER_SENTINEL_def i64_saturating_add_def i64_checked_add_def)
next
  case False
  then show ?thesis using assms sint_MIN
    by (auto simp: fold_step_def count_step_def counter_of_def COUNTER_SENTINEL_def i64_MIN_def split: option.splits CounterOperand.splits)
qed

lemma fold_counter_refines:
  assumes "\<forall>n \<le> length ops. count_fits (fold count_step (take n ops) (counter_of state))"
  shows "counter_of (fold_counter state ops) = fold count_step ops (counter_of state)"
  using assms
proof (induction ops arbitrary: state)
  case (Cons opr ops)
  have step: "counter_of (fold_step opr state) = count_step opr (counter_of state)"
    using Cons.prems [rule_format, of 1] by (intro fold_step_refines) simp
  have "count_fits (fold count_step (take n ops) (counter_of (fold_step opr state)))" if "n \<le> length ops" for n
    using Cons.prems [rule_format, of "Suc n"] that step by simp
  then show ?case using Cons.IH [of "fold_step opr state"] step by (simp add: fold_counter_def)
qed (simp add: fold_counter_def)

lemma operands_round_trip [simp]: "List.map_filter operand_from_bytes (map operand_to_bytes ops) = ops"
  by (induction ops) (simp_all add: List.map_filter_simps)

lemma decode_stored [simp]: "decode_counter (u64_to_be n) = Some n"
  by (simp add: decode_counter_def be64.dec_enc)

lemma full_merge_of_none:
  "counter_full_merge (map_option u64_to_be state) (map operand_to_bytes ops) = map_option u64_to_be (fold_counter state ops)"
  by (cases state) (simp_all add: counter_full_merge_def)

lemma full_merge_append:
  "counter_full_merge (map_option u64_to_be state) (map operand_to_bytes (xs @ ys)) =
    counter_full_merge (counter_full_merge (map_option u64_to_be state) (map operand_to_bytes xs)) (map operand_to_bytes ys)"
  by (simp only: full_merge_of_none) (simp add: fold_counter_def)

section \<open>Properties\<close>

text \<open>
  A counter row counts. From a row without a value, the operands that were queued are folded to the same stored value
  wherever RocksDB cuts them between a compaction and a later read, and that value is what the counter over the integers
  gives: absent until the first operand, predating after an addition that no creation preceded and until it is set, and
  otherwise the sum, provided that the count stays above the least \<^verbatim>\<open>i64\<close> and within the range.
\<close>

lemma counter_row_counts:
  assumes "\<forall>n \<le> length (xs @ ys). count_fits (fold count_step (take n (xs @ ys)) Absent)"
  shows "read_counter (counter_full_merge (counter_full_merge None (map operand_to_bytes xs)) (map operand_to_bytes ys)) =
      fold count_step (xs @ ys) Absent \<and>
    counter_full_merge (counter_full_merge None (map operand_to_bytes xs)) (map operand_to_bytes ys) =
      counter_full_merge None (map operand_to_bytes (xs @ ys))"
proof -
  have "counter_of (fold_counter None (xs @ ys)) = fold count_step (xs @ ys) Absent"
    using fold_counter_refines [of "xs @ ys" None] assms by (simp add: counter_of_def)
  moreover have "read_counter (map_option u64_to_be st) = counter_of st" for st
    by (cases st) (simp_all add: read_counter_def)
  ultimately show ?thesis using full_merge_append [of None xs ys] full_merge_of_none [of None "xs @ ys"] by simp
qed

lemma counter_row_counts_example:
  "read_counter (counter_full_merge (counter_full_merge None (map operand_to_bytes [Init, Add 2])) (map operand_to_bytes [Add (- 1), Init])) =
    Count 1"
proof -
  have "count_fits (fold count_step (take n [Init, Add 2, Add (- 1), Init]) Absent)" for n
    by (cases n; cases "n - 1"; cases "n - 2"; cases "n - 3") (auto simp: count_step_def take_Cons')
  then show ?thesis
    using counter_row_counts [of "[Init, Add 2]" "[Add (- 1), Init]", THEN conjunct1] by (simp add: count_step_def)
qed

end
