(* ===== verification/Media_Refs.thy ===== *)
theory Media_Refs
  imports Db_Txn Pdu_Position
begin

text \<open>
  Who keeps a media item alive: \<^verbatim>\<open>src/service/media_refs\<close>. A holder is a row in two tables, found from the media
  (\<open>mxc_holder\<close>) and from the holder (\<open>holder_mxc\<close>); two more tables lead from a room to the media it ever held and back.
  Holders are added and removed in transactions, whose follow-ups hand the released media to the collector, and the
  collector and the sweep remove media that nothing holds. The tables are those of \<open>Db_Txn\<close> and \<open>Db_Cursor\<close> with keys of
  \<open>Record_Codec\<close>. The lemmas relate the rows to a set of pairs of a holder and a media item: every operation is an
  operation on that set, except that the media of an event is not found when the stored form of its position holds the
  separator byte. Identifiers are their UTF-8 bytes; what the protocol library parses, the configuration and the media
  service that deletes the files are parameters. A call reads one state of the database.
\<close>

section \<open>Holders and their keys\<close>

datatype holder =
    Event "byte list" i64
  | Backup "byte list" i64
  | Avatar "byte list"
  | RoomAvatar "byte list" "byte list"

definition KIND_EVENT :: "byte list" where "KIND_EVENT = [0x65]"

definition KIND_BACKUP :: "byte list" where "KIND_BACKUP = [0x62]"

definition KIND_AVATAR :: "byte list" where "KIND_AVATAR = [0x61]"

definition KIND_ROOM_AVATAR :: "byte list" where "KIND_ROOM_AVATAR = [0x72]"

fun holder_kind :: "holder \<Rightarrow> byte list" where
  "holder_kind (Event _ _) = KIND_EVENT"
| "holder_kind (Backup _ _) = KIND_BACKUP"
| "holder_kind (Avatar _) = KIND_AVATAR"
| "holder_kind (RoomAvatar _ _) = KIND_ROOM_AVATAR"

definition bias_g_seq :: "i64 \<Rightarrow> u64" where
  "bias_g_seq g = g - i64_MIN"

definition unbias_g_seq :: "u64 \<Rightarrow> i64" where
  "unbias_g_seq b = b + i64_MIN"

text \<open>The fields that name a holder after its kind\<close>

fun holder_id :: "holder \<Rightarrow> 'j ser_value list" where
  "holder_id (Event room g) = [VStr room, VU64 (bias_g_seq g)]"
| "holder_id (Backup room g) = [VStr room, VU64 (bias_g_seq g)]"
| "holder_id (Avatar localpart) = [VStr localpart]"
| "holder_id (RoomAvatar room user) = [VStr room, VStr user]"

definition mxc_holder_key :: "('j, 'e) formats \<Rightarrow> holder \<Rightarrow> byte list \<Rightarrow> byte list option" where
  "mxc_holder_key F h mxc = with_key F (VTuple (VStr mxc # VStr (holder_kind h) # holder_id h)) Some"

definition holder_mxc_key :: "('j, 'e) formats \<Rightarrow> holder \<Rightarrow> byte list \<Rightarrow> byte list option" where
  "holder_mxc_key F h mxc = with_key F (VTuple (VStr (holder_kind h) # holder_id h @ [VStr mxc])) Some"

fun holder_room :: "holder \<Rightarrow> byte list option" where
  "holder_room (Event room _) = Some room"
| "holder_room (Backup room _) = Some room"
| "holder_room (RoomAvatar room _) = Some room"
| "holder_room (Avatar _) = None"

section \<open>Adding and removing holders\<close>

record media_tables =
  mxc_holder :: table
  holder_mxc :: table
  room_mxc :: table
  mxc_room :: table
  mxc_managed :: table
  userid_attachmentwarned :: table
  userid_lastlegacyupload :: table

text \<open>The collector's channel: whether its receiver is open, and what was sent\<close>

record collector =
  receiving :: bool
  inbox :: "byte list list"

definition send_all :: "byte list list \<Rightarrow> collector \<Rightarrow> collector" where
  "send_all mxcs c = (if receiving c then c \<lparr> inbox := inbox c @ mxcs \<rparr> else c)"

text \<open>\<open>running\<close>: whether the service holds a sender, that is, the collector has been started.\<close>

definition hand_to_collector :: "bool \<Rightarrow> byte list list \<Rightarrow> collector txn \<Rightarrow> collector txn" where
  "hand_to_collector running mxcs t = (if mxcs = [] \<or> \<not> running then t else on_execute (send_all mxcs) t)"

definition hold :: "('j, 'e) formats \<Rightarrow> media_tables \<Rightarrow> byte list \<Rightarrow> holder \<Rightarrow> 'w txn \<Rightarrow> 'w txn option" where
  "hold F M mxc h t =
     Option.bind (mxc_holder_key F h mxc) (\<lambda>k. Option.bind (txn_insert_raw (mxc_holder M) k [] t) (\<lambda>t.
     Option.bind (holder_mxc_key F h mxc) (\<lambda>k. Option.bind (txn_insert_raw (holder_mxc M) k [] t) (\<lambda>t.
     case holder_room h of
       None \<Rightarrow> Some t
     | Some room \<Rightarrow> Option.bind (txn_put_raw F (room_mxc M) (VTuple [VStr room, VStr mxc]) [] t)
         (txn_put_raw F (mxc_room M) (VTuple [VStr mxc, VStr room]) [])))))"

definition del_holder_rows :: "('j, 'e) formats \<Rightarrow> media_tables \<Rightarrow> byte list \<Rightarrow> holder \<Rightarrow> 'w txn \<Rightarrow> 'w txn option" where
  "del_holder_rows F M mxc h t =
     Option.bind (mxc_holder_key F h mxc) (\<lambda>k. Option.bind (txn_del_raw (mxc_holder M) k t) (\<lambda>t.
     Option.bind (holder_mxc_key F h mxc) (\<lambda>k. txn_del_raw (holder_mxc M) k t)))"

definition release :: "('j, 'e) formats \<Rightarrow> media_tables \<Rightarrow> bool \<Rightarrow> byte list \<Rightarrow> holder \<Rightarrow> collector txn \<Rightarrow> collector txn option" where
  "release F M running mxc h t = map_option (hand_to_collector running [mxc]) (del_holder_rows F M mxc h t)"

definition swap :: "('j, 'e) formats \<Rightarrow> media_tables \<Rightarrow> byte list \<Rightarrow> holder \<Rightarrow> holder \<Rightarrow> 'w txn \<Rightarrow> 'w txn option" where
  "swap F M mxc from to t = Option.bind (del_holder_rows F M mxc from t) (hold F M mxc to)"

section \<open>Looking holders up\<close>

definition str_field :: "nat \<Rightarrow> 'j de_value \<Rightarrow> byte list" where
  "str_field i v = (case v of RTuple vs \<Rightarrow> (case vs ! i of RStr s \<Rightarrow> s | _ \<Rightarrow> []) | _ \<Rightarrow> [])"

definition u64_field :: "nat \<Rightarrow> 'j de_value \<Rightarrow> u64" where
  "u64_field i v = (case v of RTuple vs \<Rightarrow> (case vs ! i of RU64 n \<Rightarrow> n | _ \<Rightarrow> 0) | _ \<Rightarrow> 0)"

text \<open>The typed keys under a prefix, without those that cannot be read\<close>

definition scan :: "('j, 'e) formats \<Rightarrow> (u32 \<Rightarrow> ('db, 'i) rocks) \<Rightarrow> table \<Rightarrow> 'db \<Rightarrow> 'j ser_value list \<Rightarrow> shape list \<Rightarrow> 'j de_value list option" where
  "scan F R m db prefix ss = map_option ignore_err (keys_prefix F (R (tb_cf m)) db (VTuple prefix) (STuple ss))"

definition list_mxcs_of :: "('j, 'e) formats \<Rightarrow> (u32 \<Rightarrow> ('db, 'i) rocks) \<Rightarrow> media_tables \<Rightarrow> 'db \<Rightarrow> holder \<Rightarrow> byte list list option" where
  "list_mxcs_of F R M db h = (case h of
     Avatar localpart \<Rightarrow> map_option (map (str_field 2))
       (scan F R (holder_mxc M) db [VStr (holder_kind h), VStr localpart] [SIgnore, SIgnore, SStr])
   | RoomAvatar room user \<Rightarrow> map_option (map (str_field 3))
       (scan F R (holder_mxc M) db [VStr (holder_kind h), VStr room, VStr user] [SIgnore, SIgnore, SIgnore, SStr])
   | Event room g \<Rightarrow> map_option (map (str_field 3))
       (scan F R (holder_mxc M) db [VStr (holder_kind h), VStr room, VU64 (bias_g_seq g)] [SIgnore, SIgnore, SIgnore, SStr])
   | Backup room g \<Rightarrow> map_option (map (str_field 3))
       (scan F R (holder_mxc M) db [VStr (holder_kind h), VStr room, VU64 (bias_g_seq g)] [SIgnore, SIgnore, SIgnore, SStr]))"

definition release_all_of :: "('j, 'e) formats \<Rightarrow> (u32 \<Rightarrow> ('db, 'i) rocks) \<Rightarrow> media_tables \<Rightarrow> bool \<Rightarrow> 'db \<Rightarrow> holder \<Rightarrow>
    collector txn \<Rightarrow> (byte list list \<times> collector txn) option" where
  "release_all_of F R M running db h t = Option.bind (list_mxcs_of F R M db h) (\<lambda>mxcs.
     map_option (\<lambda>t. (mxcs, hand_to_collector running mxcs t)) (try_each (\<lambda>mxc. del_holder_rows F M mxc h) mxcs t))"

definition swap_all_of :: "('j, 'e) formats \<Rightarrow> (u32 \<Rightarrow> ('db, 'i) rocks) \<Rightarrow> media_tables \<Rightarrow> 'db \<Rightarrow> holder \<Rightarrow> holder \<Rightarrow>
    'w txn \<Rightarrow> (nat \<times> 'w txn) option" where
  "swap_all_of F R M db from to t = Option.bind (list_mxcs_of F R M db from) (\<lambda>mxcs.
     map_option (\<lambda>t. (length mxcs, t)) (try_each (\<lambda>mxc. swap F M mxc from to) mxcs t))"

definition release_positions :: "('j, 'e) formats \<Rightarrow> (u32 \<Rightarrow> ('db, 'i) rocks) \<Rightarrow> media_tables \<Rightarrow> 'db \<Rightarrow> byte list \<Rightarrow>
    byte list \<Rightarrow> byte list \<Rightarrow> 'w txn \<Rightarrow> 'w txn option" where
  "release_positions F R M db room mxc kind t =
     Option.bind (scan F R (mxc_holder M) db [VStr mxc, VStr kind, VStr room] [SIgnore, SIgnore, SIgnore, SU64]) (\<lambda>rows.
       try_each (\<lambda>biased. let g_seq = unbias_g_seq biased
           in del_holder_rows F M mxc (if kind = KIND_EVENT then Event room g_seq else Backup room g_seq))
         (map (u64_field 3) rows) t)"

definition release_members :: "('j, 'e) formats \<Rightarrow> (u32 \<Rightarrow> ('db, 'i) rocks) \<Rightarrow> media_tables \<Rightarrow> (byte list \<Rightarrow> bool) \<Rightarrow> 'db \<Rightarrow> byte list \<Rightarrow>
    byte list \<Rightarrow> 'w txn \<Rightarrow> 'w txn option" where
  "release_members F R M is_user db room mxc t =
     Option.bind (scan F R (mxc_holder M) db [VStr mxc, VStr KIND_ROOM_AVATAR, VStr room] [SIgnore, SIgnore, SIgnore, SStr]) (\<lambda>rows.
       try_each (\<lambda>user. del_holder_rows F M mxc (RoomAvatar room user)) (filter is_user (map (str_field 3) rows)) t)"

definition del_room_rows :: "('j, 'e) formats \<Rightarrow> media_tables \<Rightarrow> byte list \<Rightarrow> byte list \<Rightarrow> 'w txn \<Rightarrow> 'w txn option" where
  "del_room_rows F M room mxc t = Option.bind (txn_del F (room_mxc M) (VTuple [VStr room, VStr mxc]) t)
     (txn_del F (mxc_room M) (VTuple [VStr mxc, VStr room]))"

definition release_room_media :: "('j, 'e) formats \<Rightarrow> (u32 \<Rightarrow> ('db, 'i) rocks) \<Rightarrow> media_tables \<Rightarrow> (byte list \<Rightarrow> bool) \<Rightarrow> 'db \<Rightarrow> byte list \<Rightarrow>
    byte list \<Rightarrow> 'w txn \<Rightarrow> 'w txn option" where
  "release_room_media F R M is_user db room mxc t =
     Option.bind (try_each (release_positions F R M db room mxc) [KIND_EVENT, KIND_BACKUP] t) (\<lambda>t.
     Option.bind (release_members F R M is_user db room mxc t) (\<lambda>t.
     del_room_rows F M room mxc t))"

definition release_room :: "('j, 'e) formats \<Rightarrow> (u32 \<Rightarrow> ('db, 'i) rocks) \<Rightarrow> media_tables \<Rightarrow> bool \<Rightarrow> (byte list \<Rightarrow> bool) \<Rightarrow> 'db \<Rightarrow>
    byte list \<Rightarrow> collector txn \<Rightarrow> (nat \<times> collector txn) option" where
  "release_room F R M running is_user db room t =
     Option.bind (scan F R (room_mxc M) db [VStr room, VInterfix] [SIgnore, SStr]) (\<lambda>rows.
       let media = map (str_field 1) rows in
       map_option (\<lambda>t. (length media, hand_to_collector running media t)) (try_each (release_room_media F R M is_user db room) media t))"

text \<open>Both kinds of avatar: what the index says was held is released, unless it is the new media, which is held.\<close>

definition set_ref :: "('j, 'e) formats \<Rightarrow> (u32 \<Rightarrow> ('db, 'i) rocks) \<Rightarrow> media_tables \<Rightarrow> bool \<Rightarrow> 'db \<Rightarrow> holder \<Rightarrow> byte list option \<Rightarrow>
    collector txn \<Rightarrow> collector txn option" where
  "set_ref F R M running db h new_mxc t = Option.bind (list_mxcs_of F R M db h) (\<lambda>held.
     let released = filter (\<lambda>mxc. Some mxc \<noteq> new_mxc) held in
     Option.bind (try_each (\<lambda>mxc. del_holder_rows F M mxc h) released t) (\<lambda>t.
       let t = hand_to_collector running released t in
       case new_mxc of None \<Rightarrow> Some t | Some mxc \<Rightarrow> hold F M mxc h t))"

definition set_avatar_ref :: "('j, 'e) formats \<Rightarrow> (u32 \<Rightarrow> ('db, 'i) rocks) \<Rightarrow> media_tables \<Rightarrow> bool \<Rightarrow> 'db \<Rightarrow> bool \<Rightarrow> byte list \<Rightarrow>
    byte list option \<Rightarrow> collector txn \<Rightarrow> collector txn option" where
  "set_avatar_ref F R M running db user_is_local localpart new_mxc t =
     (if \<not> user_is_local then Some t else set_ref F R M running db (Avatar localpart) new_mxc t)"

definition set_room_avatar_ref :: "('j, 'e) formats \<Rightarrow> (u32 \<Rightarrow> ('db, 'i) rocks) \<Rightarrow> media_tables \<Rightarrow> bool \<Rightarrow> 'db \<Rightarrow> byte list \<Rightarrow> byte list \<Rightarrow>
    byte list option \<Rightarrow> collector txn \<Rightarrow> collector txn option" where
  "set_room_avatar_ref F R M running db room user new_mxc t = set_ref F R M running db (RoomAvatar room user) new_mxc t"

definition list_positions :: "('j, 'e) formats \<Rightarrow> (u32 \<Rightarrow> ('db, 'i) rocks) \<Rightarrow> media_tables \<Rightarrow> (byte list \<Rightarrow> bool) \<Rightarrow> 'db \<Rightarrow> byte list \<Rightarrow>
    byte list \<Rightarrow> holder list option" where
  "list_positions F R M is_room db mxc kind = map_option (\<lambda>rows.
       map (\<lambda>v. let room = str_field 2 v; g_seq = unbias_g_seq (u64_field 3 v)
           in if kind = KIND_EVENT then Event room g_seq else Backup room g_seq)
         (filter (\<lambda>v. is_room (str_field 2 v)) rows))
     (scan F R (mxc_holder M) db [VStr mxc, VStr kind] [SIgnore, SIgnore, SStr, SU64])"

definition list_holders :: "('j, 'e) formats \<Rightarrow> (u32 \<Rightarrow> ('db, 'i) rocks) \<Rightarrow> media_tables \<Rightarrow> (byte list \<Rightarrow> bool) \<Rightarrow> (byte list \<Rightarrow> bool) \<Rightarrow> 'db \<Rightarrow>
    byte list \<Rightarrow> holder list option" where
  "list_holders F R M is_room is_user db mxc =
     Option.bind (list_positions F R M is_room db mxc KIND_EVENT) (\<lambda>events.
     Option.bind (list_positions F R M is_room db mxc KIND_BACKUP) (\<lambda>backups.
     Option.bind (scan F R (mxc_holder M) db [VStr mxc, VStr KIND_AVATAR] [SIgnore, SIgnore, SStr]) (\<lambda>avatars.
     Option.bind (scan F R (mxc_holder M) db [VStr mxc, VStr KIND_ROOM_AVATAR] [SIgnore, SIgnore, SStr, SStr]) (\<lambda>room_avatars.
       Some (events @ backups @ map (\<lambda>v. Avatar (str_field 2 v)) avatars @
         map (\<lambda>v. RoomAvatar (str_field 2 v) (str_field 3 v))
           (filter (\<lambda>v. is_room (str_field 2 v) \<and> is_user (str_field 3 v)) room_avatars))))))"

text \<open>Only the first key under the prefix is asked for; an error counts as a holder.\<close>

definition has_holders :: "('j, 'e) formats \<Rightarrow> (u32 \<Rightarrow> ('db, 'i) rocks) \<Rightarrow> media_tables \<Rightarrow> 'db \<Rightarrow> byte list \<Rightarrow> bool option" where
  "has_holders F R M db mxc = with_key F (VTuple [VStr mxc, VInterfix]) (\<lambda>p.
     let first = fst (try_take_while (\<lambda>k. starts_with k p)
       (poll_keys (R (tb_cf (mxc_holder M))) :: ('i cursor, 'e db_error + byte list) poll)
       (seek_stream (R (tb_cf (mxc_holder M))) db ScanForward (Some p), False))
     in Some (first \<noteq> None))"

definition managed_since :: "(u32 \<Rightarrow> ('db, 'i) rocks) \<Rightarrow> media_tables \<Rightarrow> 'db \<Rightarrow> byte list \<Rightarrow> u64 option" where
  "managed_since R M db mxc = (case (map_get (R (tb_cf (mxc_managed M))) mxc db :: unit db_error + byte list) of
     Inl e \<Rightarrow> None
   | Inr bytes \<Rightarrow> if length bytes = 8 then Some (u64_of_be bytes) else None)"

definition forget_media :: "('j, 'e) formats \<Rightarrow> (u32 \<Rightarrow> ('db, 'i) rocks) \<Rightarrow> media_tables \<Rightarrow> 'db engine \<Rightarrow> ('tx, 'rx, 'h) channels \<Rightarrow> nat \<Rightarrow>
    (byte list \<Rightarrow> bool) \<Rightarrow> (byte list \<Rightarrow> bool) \<Rightarrow> byte list \<Rightarrow> ('db, 'tx, 'h, 'w) world \<Rightarrow> ('db, 'tx, 'h, 'w) world option" where
  "forget_media F R M E C engine is_room is_user mxc W =
     Option.bind (scan F R (mxc_room M) (wd_db W) [VStr mxc, VInterfix] [SIgnore, SStr]) (\<lambda>rows.
     Option.bind (list_holders F R M is_room is_user (wd_db W) mxc) (\<lambda>holders.
       let rooms = filter is_room (map (str_field 1) rows) in
       if rooms = [] \<and> holders = [] then Some W
       else Option.bind (try_each (\<lambda>room. del_room_rows F M room mxc) rooms (txn_new engine)) (\<lambda>t.
         Option.bind (try_each (del_holder_rows F M mxc) holders t) (\<lambda>t. txn_execute E C t W))))"

section \<open>The collector and the sweep\<close>

datatype tombstone_reason = GarbageCollected | Migrated | AdminDeleted | Unreferenced

text \<open>The protocol library's parser, the media service and the configuration; \<open>media_collect\<close> tells whether it succeeded.\<close>

record ('m, 's) media_service =
  parse_mxc :: "byte list \<Rightarrow> 'm option"
  is_local :: "'m \<Rightarrow> bool"
  media_collect :: "'m \<Rightarrow> tombstone_reason \<Rightarrow> 's \<Rightarrow> (bool \<times> 's) option"
  media_gc_enabled :: bool

definition is_removable :: "('j, 'e) formats \<Rightarrow> (u32 \<Rightarrow> ('db, 'i) rocks) \<Rightarrow> media_tables \<Rightarrow> ('m, 's) media_service \<Rightarrow> 'db \<Rightarrow> byte list \<Rightarrow> bool option" where
  "is_removable F R M S db mxc = (case parse_mxc S mxc of
     None \<Rightarrow> Some False
   | Some parsed \<Rightarrow> if \<not> is_local S parsed then Some False
       else if managed_since R M db mxc = None then Some False
       else map_option Not (has_holders F R M db mxc))"

definition remove_media :: "('m, 's) media_service \<Rightarrow> byte list \<Rightarrow> tombstone_reason \<Rightarrow> 's \<Rightarrow> (bool \<times> 's) option" where
  "remove_media S mxc reason s = (case parse_mxc S mxc of
     None \<Rightarrow> Some (False, s)
   | Some parsed \<Rightarrow> if \<not> media_gc_enabled S then Some (False, s) else media_collect S parsed reason s)"

definition collect_media :: "('j, 'e) formats \<Rightarrow> (u32 \<Rightarrow> ('db, 'i) rocks) \<Rightarrow> media_tables \<Rightarrow> ('m, ('db, 'tx, 'h, 'w) world) media_service \<Rightarrow>
    byte list \<Rightarrow> ('db, 'tx, 'h, 'w) world \<Rightarrow> ('db, 'tx, 'h, 'w) world option" where
  "collect_media F R M S mxc W = Option.bind (is_removable F R M S (wd_db W) mxc) (\<lambda>removable.
     if \<not> removable then Some W else map_option snd (remove_media S mxc GarbageCollected W))"

definition u64_saturating_mul :: "u64 \<Rightarrow> u64 \<Rightarrow> u64" where
  "u64_saturating_mul a b = (if unat a * unat b < 2 ^ 64 then a * b else - 1)"

text \<open>\<open>lossy\<close> is the standard library's lossy decoding, which keeps what is UTF-8.\<close>

definition sweep_candidates :: "(u32 \<Rightarrow> ('db, 'i) rocks) \<Rightarrow> media_tables \<Rightarrow> (byte list \<Rightarrow> byte list) \<Rightarrow> u64 \<Rightarrow> u64 \<Rightarrow> 'db \<Rightarrow> byte list list option" where
  "sweep_candidates R M lossy grace_seconds now db =
     (let grace_millis = u64_saturating_mul grace_seconds 1000;
          protected_since = u64_saturating_sub now grace_millis
      in map_option (\<lambda>rows. List.map_filter (\<lambda>(key, val).
             let created = (if length val = 8 then u64_of_be val else - 1)
             in if created < protected_since then Some (lossy key) else None) (ignore_err rows))
           (raw_stream (R (tb_cf (mxc_managed M))) db :: (unit db_error + row) list option))"

definition sweep_unreferenced :: "('j, 'e) formats \<Rightarrow> (u32 \<Rightarrow> ('db, 'i) rocks) \<Rightarrow> media_tables \<Rightarrow> ('m, ('db, 'tx, 'h, 'w) world) media_service \<Rightarrow>
    (byte list \<Rightarrow> byte list) \<Rightarrow> u64 \<Rightarrow> u64 \<Rightarrow> ('db, 'tx, 'h, 'w) world \<Rightarrow> (('db, 'tx, 'h, 'w) world \<times> nat) option" where
  "sweep_unreferenced F R M S lossy grace_seconds now W =
     Option.bind (sweep_candidates R M lossy grace_seconds now (wd_db W)) (\<lambda>candidates.
       try_each (\<lambda>mxc (W, removed). Option.bind (is_removable F R M S (wd_db W) mxc) (\<lambda>removable.
           if \<not> removable then Some (W, removed)
           else map_option (\<lambda>(ok, W). (W, if ok then sat_add removed 1 else removed)) (remove_media S mxc Unreferenced W)))
         candidates (W, 0))"


section \<open>The rows that stand for a holder\<close>

definition text_ok :: "byte list \<Rightarrow> bool" where
  "text_ok s \<longleftrightarrow> utf8_ok s \<and> length s < 2 ^ 29"

fun holder_ok :: "holder \<Rightarrow> bool" where
  "holder_ok (Event room g) \<longleftrightarrow> text_ok room"
| "holder_ok (Backup room g) \<longleftrightarrow> text_ok room"
| "holder_ok (Avatar localpart) \<longleftrightarrow> text_ok localpart"
| "holder_ok (RoomAvatar room user) \<longleftrightarrow> text_ok room \<and> text_ok user"

definition holder_row :: "('j, 'e) formats \<Rightarrow> holder \<times> byte list \<Rightarrow> byte list" where
  "holder_row F x = tuple_bytes F (VStr (snd x) # VStr (holder_kind (fst x)) # holder_id (fst x))"

definition media_row :: "('j, 'e) formats \<Rightarrow> holder \<times> byte list \<Rightarrow> byte list" where
  "media_row F x = tuple_bytes F (VStr (holder_kind (fst x)) # holder_id (fst x) @ [VStr (snd x)])"

definition pair_row :: "('j, 'e) formats \<Rightarrow> byte list \<times> byte list \<Rightarrow> byte list" where
  "pair_row F x = tuple_bytes F [VStr (fst x), VStr (snd x)]"

definition back_row :: "('j, 'e) formats \<Rightarrow> byte list \<times> byte list \<Rightarrow> byte list" where
  "back_row F x = pair_row F (snd x, fst x)"

lemmas row_defs = holder_row_def media_row_def pair_row_def tuple_bytes_Cons

lemmas kind_defs = KIND_EVENT_def KIND_BACKUP_def KIND_AVATAR_def KIND_ROOM_AVATAR_def

lemma text_no_sep [simp]: "text_ok s \<Longrightarrow> SEP \<notin> set s"
  by (simp add: text_ok_def utf8_no_sep)

lemma kind_text [simp]: "text_ok (holder_kind h)"
  by (cases h) (simp_all add: text_ok_def kind_defs utf8_lead_def)

lemma holder_id_fields [simp]: "list_all (is_field F) (holder_id h)"
  by (cases h) simp_all

lemma serialize_rows:
  "mxc_holder_key F h m = Some (holder_row F (h, m))"
  "holder_mxc_key F h m = Some (media_row F (h, m))"
  "serialize F (VTuple [VStr a, VStr b]) = Some (Inr (pair_row F (a, b)))"
  using serialize_tuple [of F "VStr m # VStr (holder_kind h) # holder_id h"]
    serialize_tuple [of F "VStr (holder_kind h) # holder_id h @ [VStr m]"] serialize_tuple [of F "[VStr a, VStr b]"]
  by (simp_all add: mxc_holder_key_def holder_mxc_key_def with_key_def holder_row_def media_row_def pair_row_def)

lemma sep_split:
  assumes "SEP \<notin> set x" "SEP \<notin> set y"
  shows "x @ SEP # a = y @ SEP # b \<longleftrightarrow> x = y \<and> a = b"
  using sep_free_unique [OF assms] by auto

lemma bias_inject [simp]: "bias_g_seq g = bias_g_seq g' \<longleftrightarrow> g = g'"
  by (simp add: bias_g_seq_def)

lemma unbias_bias [simp]: "unbias_g_seq (bias_g_seq g) = g"
  by (simp add: bias_g_seq_def unbias_g_seq_def)

lemma kind_nonempty [simp]: "holder_kind h \<noteq> []"
  by (cases h) (simp_all add: kind_defs)

lemma holder_row_inject:
  assumes "holder_ok h" "text_ok m" "holder_ok h'" "text_ok m'"
  shows "holder_row F (h, m) = holder_row F (h', m') \<longleftrightarrow> h = h' \<and> m = m'"
  using assms
  by (cases h; cases h') (auto simp: row_defs sep_split kind_defs be64.enc_inject SEP_def [symmetric] dest: text_no_sep)

lemma media_row_inject:
  assumes "holder_ok h" "text_ok m" "holder_ok h'" "text_ok m'"
  shows "media_row F (h, m) = media_row F (h', m') \<longleftrightarrow> h = h' \<and> m = m'"
  using assms
  by (cases h; cases h') (auto simp: row_defs sep_split kind_defs be64.enc_append_inject SEP_def [symmetric])

lemma pair_row_inject:
  assumes "text_ok a" "text_ok a'"
  shows "pair_row F (a, b) = pair_row F (a', b') \<longleftrightarrow> a = a' \<and> b = b'"
  using assms by (simp add: row_defs sep_split)


section \<open>The set that the tables stand for\<close>

text \<open>The keys of each table, and what a batch does to them\<close>

type_synonym keyset = "u32 \<Rightarrow> byte list set"

definition apply_keys :: "batch_op \<Rightarrow> keyset \<Rightarrow> keyset" where
  "apply_keys opr K = (case opr of
     PutOp cf k v \<Rightarrow> K(cf := insert k (K cf))
   | DeleteOp cf k \<Rightarrow> K(cf := K cf - {k})
   | MergeOp cf k v \<Rightarrow> K(cf := insert k (K cf)))"

definition tables_ok :: "media_tables \<Rightarrow> nat \<Rightarrow> bool" where
  "tables_ok M engine \<longleftrightarrow>
     distinct [tb_cf (mxc_holder M), tb_cf (holder_mxc M), tb_cf (room_mxc M), tb_cf (mxc_room M), tb_cf (mxc_managed M)] \<and>
     tb_engine (mxc_holder M) = engine \<and> tb_engine (holder_mxc M) = engine \<and>
     tb_engine (room_mxc M) = engine \<and> tb_engine (mxc_room M) = engine"

text \<open>\<open>H\<close> holds who holds what, \<open>Q\<close> which room held what at some time.\<close>

definition indexes :: "('j, 'e) formats \<Rightarrow> media_tables \<Rightarrow> keyset \<Rightarrow> (holder \<times> byte list) set \<Rightarrow> (byte list \<times> byte list) set \<Rightarrow> bool" where
  "indexes F M K H Q \<longleftrightarrow>
     K (tb_cf (mxc_holder M)) = holder_row F ` H \<and> K (tb_cf (holder_mxc M)) = media_row F ` H \<and>
     K (tb_cf (room_mxc M)) = pair_row F ` Q \<and> K (tb_cf (mxc_room M)) = back_row F ` Q \<and>
     (\<forall>x \<in> H. holder_ok (fst x) \<and> text_ok (snd x)) \<and> (\<forall>x \<in> Q. text_ok (fst x) \<and> text_ok (snd x))"

text \<open>\<open>does g t t'\<close>: \<open>t'\<close> is \<open>t\<close> with operations queued that act on the sets as \<open>g\<close>.\<close>

definition does :: "('j, 'e) formats \<Rightarrow> media_tables \<Rightarrow>
    ((holder \<times> byte list) set \<times> (byte list \<times> byte list) set \<Rightarrow> (holder \<times> byte list) set \<times> (byte list \<times> byte list) set) \<Rightarrow>
    'w txn \<Rightarrow> 'w txn \<Rightarrow> bool" where
  "does F M g t t' \<longleftrightarrow> tx_engine t' = tx_engine t \<and> tx_after t' = tx_after t \<and>
     (\<exists>ops. tx_batch t' = tx_batch t @ ops \<and> list_all op_fits ops \<and>
       (\<forall>K H Q. indexes F M K H Q \<longrightarrow> indexes F M (fold apply_keys ops K) (fst (g (H, Q))) (snd (g (H, Q)))))"

lemma does_refl: "does F M (\<lambda>s. s) t t"
  by (simp add: does_def)

lemma does_trans:
  assumes "does F M g t t'" "does F M g' t' t''"
  shows "does F M (\<lambda>s. g' (g s)) t t''"
proof -
  obtain ops ops' where o: "tx_batch t' = tx_batch t @ ops" "tx_batch t'' = tx_batch t' @ ops'" "list_all op_fits (ops @ ops')"
    and e: "\<forall>K H Q. indexes F M K H Q \<longrightarrow> indexes F M (fold apply_keys ops K) (fst (g (H, Q))) (snd (g (H, Q)))"
      "\<forall>K H Q. indexes F M K H Q \<longrightarrow> indexes F M (fold apply_keys ops' K) (fst (g' (H, Q))) (snd (g' (H, Q)))"
    using assms unfolding does_def by auto
  have "indexes F M (fold apply_keys (ops @ ops') K) (fst (g' (g (H, Q)))) (snd (g' (g (H, Q))))"
    if "indexes F M K H Q" for K H Q
    using e(2) [rule_format, OF e(1) [rule_format, OF that]] by simp
  then show ?thesis unfolding does_def
    using o assms by (intro conjI exI [of _ "ops @ ops'"]) (auto simp: does_def)
qed

definition add_pair :: "holder \<times> byte list \<Rightarrow> (holder \<times> byte list) set \<times> (byte list \<times> byte list) set \<Rightarrow>
    (holder \<times> byte list) set \<times> (byte list \<times> byte list) set" where
  "add_pair x s = (insert x (fst s), (case holder_room (fst x) of None \<Rightarrow> snd s | Some room \<Rightarrow> insert (room, snd x) (snd s)))"

definition del_pairs :: "(holder \<times> byte list) set \<Rightarrow> (byte list \<times> byte list) set \<Rightarrow>
    (holder \<times> byte list) set \<times> (byte list \<times> byte list) set \<Rightarrow> (holder \<times> byte list) set \<times> (byte list \<times> byte list) set" where
  "del_pairs D E s = (fst s - D, snd s - E)"

lemma row_lengths:
  "holder_ok h \<Longrightarrow> text_ok m \<Longrightarrow> length (holder_row F (h, m)) < 2 ^ 32"
  "holder_ok h \<Longrightarrow> text_ok m \<Longrightarrow> length (media_row F (h, m)) < 2 ^ 32"
  "text_ok a \<Longrightarrow> text_ok b \<Longrightarrow> length (pair_row F (a, b)) < 2 ^ 32"
  by (cases h; simp add: row_defs text_ok_def kind_defs)+

lemma image_diff_one: "inj_on f (insert x A) \<Longrightarrow> f ` A - {f x} = f ` (A - {x})"
  by (auto simp: inj_on_def)

lemma holder_row_inj:
  assumes "\<forall>x \<in> A. holder_ok (fst x) \<and> text_ok (snd x)"
  shows "inj_on (holder_row F) A"
proof (rule inj_onI)
  fix x y
  assume "x \<in> A" "y \<in> A" "holder_row F x = holder_row F y"
  then show "x = y" using assms holder_row_inject [of "fst x" "snd x" "fst y" "snd y" F] by (simp add: prod_eq_iff)
qed

lemma media_row_inj:
  assumes "\<forall>x \<in> A. holder_ok (fst x) \<and> text_ok (snd x)"
  shows "inj_on (media_row F) A"
proof (rule inj_onI)
  fix x y
  assume "x \<in> A" "y \<in> A" "media_row F x = media_row F y"
  then show "x = y" using assms media_row_inject [of "fst x" "snd x" "fst y" "snd y" F] by (simp add: prod_eq_iff)
qed

lemma pair_row_inj:
  assumes "\<forall>x \<in> A. text_ok (fst x) \<and> text_ok (snd x)"
  shows "inj_on (pair_row F) A" "inj_on (back_row F) A"
proof -
  show "inj_on (pair_row F) A"
  proof (rule inj_onI)
    fix x y
    assume "x \<in> A" "y \<in> A" "pair_row F x = pair_row F y"
    then show "x = y" using assms pair_row_inject [of "fst x" "fst y" F "snd x" "snd y"] by (simp add: prod_eq_iff)
  qed
  show "inj_on (back_row F) A"
  proof (rule inj_onI)
    fix x y
    assume "x \<in> A" "y \<in> A" "back_row F x = back_row F y"
    then show "x = y" using assms pair_row_inject [of "snd x" "snd y" F "fst x" "fst y"]
      by (simp add: prod_eq_iff back_row_def text_ok_def)
  qed
qed


section \<open>What the operations queue\<close>

lemma tables_okD:
  assumes "tables_ok M e"
  shows "tb_cf (mxc_holder M) \<noteq> tb_cf (holder_mxc M)" "tb_cf (mxc_holder M) \<noteq> tb_cf (room_mxc M)" "tb_cf (mxc_holder M) \<noteq> tb_cf (mxc_room M)"
    "tb_cf (mxc_holder M) \<noteq> tb_cf (mxc_managed M)" "tb_cf (holder_mxc M) \<noteq> tb_cf (mxc_holder M)" "tb_cf (holder_mxc M) \<noteq> tb_cf (room_mxc M)"
    "tb_cf (holder_mxc M) \<noteq> tb_cf (mxc_room M)" "tb_cf (holder_mxc M) \<noteq> tb_cf (mxc_managed M)" "tb_cf (room_mxc M) \<noteq> tb_cf (mxc_holder M)"
    "tb_cf (room_mxc M) \<noteq> tb_cf (holder_mxc M)" "tb_cf (room_mxc M) \<noteq> tb_cf (mxc_room M)" "tb_cf (room_mxc M) \<noteq> tb_cf (mxc_managed M)"
    "tb_cf (mxc_room M) \<noteq> tb_cf (mxc_holder M)" "tb_cf (mxc_room M) \<noteq> tb_cf (holder_mxc M)" "tb_cf (mxc_room M) \<noteq> tb_cf (room_mxc M)"
    "tb_cf (mxc_room M) \<noteq> tb_cf (mxc_managed M)" "tb_cf (mxc_managed M) \<noteq> tb_cf (mxc_holder M)" "tb_cf (mxc_managed M) \<noteq> tb_cf (holder_mxc M)"
    "tb_cf (mxc_managed M) \<noteq> tb_cf (room_mxc M)" "tb_cf (mxc_managed M) \<noteq> tb_cf (mxc_room M)"
    "tb_engine (mxc_holder M) = e" "tb_engine (holder_mxc M) = e" "tb_engine (room_mxc M) = e" "tb_engine (mxc_room M) = e"
  using assms by (auto simp: tables_ok_def)

lemma room_text: "holder_ok h \<Longrightarrow> holder_room h = Some room \<Longrightarrow> text_ok room"
  by (cases h) auto

lemma hold_does:
  assumes "tables_ok M (tx_engine t)" "holder_ok h" "text_ok m"
  shows "\<exists>t'. hold F M m h t = Some t' \<and> does F M (add_pair (h, m)) t t' \<and> tx_batch t' \<noteq> []"
proof -
  let ?a = "PutOp (tb_cf (mxc_holder M)) (holder_row F (h, m)) []" and ?b = "PutOp (tb_cf (holder_mxc M)) (media_row F (h, m)) []"
  let ?c = "case holder_room h of None \<Rightarrow> [] | Some room \<Rightarrow>
    [PutOp (tb_cf (room_mxc M)) (pair_row F (room, m)) [], PutOp (tb_cf (mxc_room M)) (pair_row F (m, room)) []]"
  let ?t = "t \<lparr> tx_batch := tx_batch t @ ?a # ?b # ?c \<rparr>"
  have "hold F M m h t = Some ?t"
    by (cases "holder_room h") (simp_all add: hold_def serialize_rows txn_insert_raw_def txn_put_raw_def assert_map_def
        queue_def with_key_def tables_okD [OF assms(1)])
  moreover have "list_all op_fits (?a # ?b # ?c)"
    using row_lengths [where F = F] assms(2,3) room_text [OF assms(2)] by (auto simp: text_ok_def split: option.splits)
  moreover have "indexes F M (fold apply_keys (?a # ?b # ?c) K) (fst (add_pair (h, m) (H, Q))) (snd (add_pair (h, m) (H, Q)))"
    if "indexes F M K H Q" for K H Q
    using that assms(2,3) room_text [OF assms(2)]
    by (cases "holder_room h") (simp_all add: indexes_def tables_okD [OF assms(1)] apply_keys_def add_pair_def back_row_def)
  ultimately show ?thesis by (intro exI [of _ ?t]) (auto simp: does_def)
qed

lemma del_does:
  assumes "tables_ok M (tx_engine t)" "holder_ok h" "text_ok m"
  shows "\<exists>t'. del_holder_rows F M m h t = Some t' \<and> does F M (del_pairs {(h, m)} {}) t t' \<and> tx_batch t' \<noteq> []"
proof -
  let ?ops = "[DeleteOp (tb_cf (mxc_holder M)) (holder_row F (h, m)), DeleteOp (tb_cf (holder_mxc M)) (media_row F (h, m))]"
  let ?t = "t \<lparr> tx_batch := tx_batch t @ ?ops \<rparr>"
  have "del_holder_rows F M m h t = Some ?t"
    using assms(1) by (simp add: del_holder_rows_def serialize_rows txn_del_raw_def assert_map_def queue_def tables_ok_def)
  moreover have "list_all op_fits ?ops" using row_lengths [where F = F] assms(2,3) by simp
  moreover have "indexes F M (fold apply_keys ?ops K) (H - {(h, m)}) Q" if "indexes F M K H Q" for K H Q
  proof -
    have "\<forall>x \<in> insert (h, m) H. holder_ok (fst x) \<and> text_ok (snd x)" using that assms by (simp add: indexes_def)
    note image_diff_one [OF holder_row_inj [OF this, of F]] image_diff_one [OF media_row_inj [OF this, of F]]
    then show ?thesis using that by (simp add: indexes_def tables_okD [OF assms(1)] apply_keys_def)
  qed
  ultimately show ?thesis by (intro exI [of _ ?t]) (auto simp: does_def del_pairs_def)
qed

lemma del_room_does:
  assumes "tables_ok M (tx_engine t)" "text_ok room" "text_ok m"
  shows "\<exists>t'. del_room_rows F M room m t = Some t' \<and> does F M (del_pairs {} {(room, m)}) t t' \<and> tx_batch t' \<noteq> []"
proof -
  let ?ops = "[DeleteOp (tb_cf (room_mxc M)) (pair_row F (room, m)), DeleteOp (tb_cf (mxc_room M)) (pair_row F (m, room))]"
  let ?t = "t \<lparr> tx_batch := tx_batch t @ ?ops \<rparr>"
  have "del_room_rows F M room m t = Some ?t"
    using assms(1) by (simp add: del_room_rows_def serialize_rows with_key_def txn_del_def assert_map_def queue_def tables_ok_def)
  moreover have "list_all op_fits ?ops" using row_lengths(3) [where F = F] assms(2,3) by (simp add: text_ok_def)
  moreover have "indexes F M (fold apply_keys ?ops K) H (Q - {(room, m)})" if "indexes F M K H Q" for K H Q
  proof -
    have "\<forall>x \<in> insert (room, m) Q. text_ok (fst x) \<and> text_ok (snd x)" using that assms by (simp add: indexes_def)
    note inj = pair_row_inj [OF this, of F]
    have "back_row F (room, m) = pair_row F (m, room)" by (simp add: back_row_def)
    then show ?thesis
      using that image_diff_one [OF inj(1)] image_diff_one [OF inj(2)]
      by (simp add: indexes_def tables_okD [OF assms(1)] apply_keys_def)
  qed
  ultimately show ?thesis by (intro exI [of _ ?t]) (auto simp: does_def del_pairs_def)
qed

lemma does_engine: "does F M g t t' \<Longrightarrow> tx_engine t' = tx_engine t"
  by (simp add: does_def)

lemma does_batch: "does F M g t t' \<Longrightarrow> tx_batch t \<noteq> [] \<Longrightarrow> tx_batch t' \<noteq> []"
  by (auto simp: does_def)

text \<open>A loop over steps that each remove some pairs\<close>

lemma try_each_does:
  assumes "\<And>x t. x \<in> set xs \<Longrightarrow> tables_ok M (tx_engine t) \<Longrightarrow>
      \<exists>t'. f x t = Some t' \<and> does F M (del_pairs (D x) (E x)) t t' \<and> tx_batch t' \<noteq> []"
    and "tables_ok M (tx_engine t)"
  shows "\<exists>t'. try_each f xs t = Some t' \<and> does F M (del_pairs (\<Union>x \<in> set xs. D x) (\<Union>x \<in> set xs. E x)) t t' \<and>
    (xs \<noteq> [] \<longrightarrow> tx_batch t' \<noteq> [])"
  using assms
proof (induction xs arbitrary: t)
  case Nil
  have "del_pairs {} {} = (\<lambda>s. s)" by (simp add: fun_eq_iff del_pairs_def)
  then show ?case by (simp add: does_refl)
next
  case (Cons x xs)
  obtain t1 where t1: "f x t = Some t1" "does F M (del_pairs (D x) (E x)) t t1" "tx_batch t1 \<noteq> []"
    using Cons.prems by (metis list.set_intros(1))
  have "tables_ok M (tx_engine t1)" using Cons.prems(2) does_engine [OF t1(2)] by simp
  then obtain t2 where t2: "try_each f xs t1 = Some t2"
      "does F M (del_pairs (\<Union>x \<in> set xs. D x) (\<Union>x \<in> set xs. E x)) t1 t2"
    using Cons.IH [of t1] Cons.prems(1) by auto
  have "(\<lambda>s. del_pairs (\<Union>x \<in> set xs. D x) (\<Union>x \<in> set xs. E x) (del_pairs (D x) (E x) s)) =
      del_pairs (\<Union>x \<in> set (x # xs). D x) (\<Union>x \<in> set (x # xs). E x)"
    by (auto simp: del_pairs_def fun_eq_iff)
  then show ?case using t1 t2 does_trans [OF t1(2) t2(2)] does_batch [OF t2(2) t1(3)] by simp
qed


section \<open>What the scans find\<close>

lemma set_ignore_err: "set (ignore_err xs) = {v. Inr v \<in> set xs}"
  by (induction xs) (auto simp: ignore_err_def List.map_filter_simps split: sum.splits)

lemma scan_finds:
  assumes "rocks_ok (R (tb_cf m)) rows view" "list_all (is_field F) prefix"
    and "\<And>k. k \<in> fst ` set (rows db) \<Longrightarrow> starts_with k (tuple_bytes F prefix) \<Longrightarrow> from_slice F k (STuple ss) = Some (f k)"
  shows "\<exists>vs. scan F R m db prefix ss = Some vs \<and>
    set vs = {v. \<exists>k \<in> fst ` set (rows db). starts_with k (tuple_bytes F prefix) \<and> f k = Inr v}"
proof -
  let ?ks = "map fst (filter (\<lambda>kv. starts_with (fst kv) (tuple_bytes F prefix)) (rows db))"
  have raw: "keys_prefix_raw F (R (tb_cf m)) db (VTuple prefix) = Some (map Inr ?ks)"
    by (simp add: keys_prefix_raw_def with_key_def serialize_tuple [OF assms(2)] scans_prefix(2) [OF assms(1)])
  have each: "\<forall>k \<in> set ?ks. result_deserialize_key F (STuple ss) (Inr k) = Some (rmap_err CodecError (f k))"
    using assms(3) by (auto simp: result_deserialize_key_def deserialize_key_def)
  have "those (map (result_deserialize_key F (STuple ss)) (map Inr ?ks)) = Some (map (\<lambda>k. rmap_err CodecError (f k)) ?ks)"
    using each unfolding map_map by (intro those_map_Some) simp
  then have "scan F R m db prefix ss = Some (ignore_err (map (\<lambda>k. rmap_err CodecError (f k)) ?ks))"
    by (simp add: scan_def keys_prefix_def typed_keys_def raw del: map_map)
  moreover have "Inr v = rmap_err CodecError (f k) \<longleftrightarrow> f k = Inr v" for k v by (cases "f k") auto
  ultimately show ?thesis by (force simp: set_ignore_err)
qed

lemma sep_prefix:
  assumes "SEP \<notin> set x" "SEP \<notin> set y"
  shows "starts_with (x @ SEP # a) (y @ SEP # b) \<longleftrightarrow> x = y \<and> starts_with a b"
proof -
  have "(\<exists>r. x @ SEP # a = y @ SEP # b @ r) \<longleftrightarrow> x = y \<and> (\<exists>r. a = b @ r)" using sep_split [OF assms] by auto
  then show ?thesis by (simp add: starts_with_iff)
qed

lemma sep_free_prefix:
  assumes "SEP \<notin> set p"
  shows "starts_with (x @ SEP # a) p \<longleftrightarrow> starts_with x p"
proof -
  have "\<exists>r'. x = p @ r'" if "x @ SEP # a = p @ r" for r
    using that assms by (auto simp: append_eq_append_conv2 Cons_eq_append_conv)
  then show ?thesis by (auto simp: starts_with_iff)
qed

lemma read_row:
  assumes "tuple_ok F vs ss rs" "length (tuple_bytes F vs) < 2 ^ 32"
  shows "from_slice F (tuple_bytes F vs) (STuple ss) = Some (Inr (RTuple rs))"
  using read_tuple [OF assms(1)] assms(2) by (auto simp: from_slice_def usize_max_def)

lemma cbind_return: "cbind m (\<lambda>x. Some (Inr x)) = m"
  by (auto simp: cbind_def split: option.splits sum.splits)

text \<open>Ignored fields are skipped up to the next separator, whatever was written there.\<close>

lemma read_ignored:
  assumes "list_all (\<lambda>c. SEP \<notin> set c) cs"
    and "drop (de_pos r) buf = (if de_rec r = 0 then tuple_bytes F (map VBytes (cs @ [rest])) else sep_fields F (map VBytes (cs @ [rest])))"
    and "de_rec r = 0 \<longrightarrow> de_pos r = 0" "de_pos r \<le> length buf" "length buf < usize_max"
    and "de_seq r > de_rec r + length cs" "de_rec r + length cs < usize_max"
  shows "\<exists>r'. deserialize_fields F buf i (replicate (length cs) SIgnore @ ss) r =
      cbind (deserialize_fields F buf (i + length cs) ss r') (\<lambda>(us, r''). Some (Inr (replicate (length cs) RUnit @ us, r''))) \<and>
    drop (de_pos r') buf = (if de_rec r' = 0 then tuple_bytes F [VBytes rest] else sep_fields F [VBytes rest]) \<and>
    (de_rec r' = 0 \<longrightarrow> de_pos r' = 0) \<and> de_pos r' \<le> length buf \<and> de_rec r' = de_rec r + length cs \<and> de_seq r' = de_seq r"
  using assms
proof (induction cs arbitrary: r i)
  case Nil
  then show ?case by (intro exI [of _ r]) (simp add: cbind_return)
next
  case (Cons c cs)
  define r1 where "r1 = de_record_start buf r"
  have "de_rec r < usize_max" using Cons.prems(7) by simp
  note st = record_start_reads [of r buf F "VBytes c" "map VBytes (cs @ [rest])", OF _ Cons.prems(3,4,5) this r1_def]
  have st: "drop (de_pos r1) buf = c @ sep_fields F (map VBytes (cs @ [rest]))" "de_rec r1 = de_rec r + 1"
    "de_seq r1 = de_seq r" "de_pos r1 \<le> length buf" using st Cons.prems(2) by simp_all
  let ?r2 = "at (de_pos r1 + length c) r1"
  obtain y where sep: "sep_fields F (map VBytes (cs @ [rest])) = SEP # y" by (cases cs) auto
  have "record_next buf r1 = Some (c, ?r2)"
    using read_record [of r1 buf c "SEP # y"] st Cons.prems(1,5) sep by simp
  then have v: "deserialize_value F buf SIgnore r1 = Some (Inr (RUnit, ?r2))"
    using st(3) Cons.prems(6) by (simp add: record_ignore_def with_record_def)
  note p = split_at_pos [OF st(1,4)]
  have go: "deserialize_fields F buf i (replicate (length (c # cs)) SIgnore @ ss) r =
      cbind (deserialize_fields F buf (i + 1) (replicate (length cs) SIgnore @ ss) ?r2) (\<lambda>(us, r''). Some (Inr (RUnit # us, r'')))"
    using v Cons.prems(6) by (simp add: r1_def [symmetric])
  obtain r' where r': "deserialize_fields F buf (i + 1) (replicate (length cs) SIgnore @ ss) ?r2 =
      cbind (deserialize_fields F buf (i + 1 + length cs) ss r') (\<lambda>(us, r''). Some (Inr (replicate (length cs) RUnit @ us, r'')))"
    "drop (de_pos r') buf = (if de_rec r' = 0 then tuple_bytes F [VBytes rest] else sep_fields F [VBytes rest])"
    "de_rec r' = 0 \<longrightarrow> de_pos r' = 0" "de_pos r' \<le> length buf" "de_rec r' = de_rec ?r2 + length cs" "de_seq r' = de_seq ?r2"
    using Cons.IH [of ?r2 "i + 1"] p st Cons.prems(1,5,6,7) by auto
  show ?case using go r' st(2,3)
    by (intro exI [of _ r']) (auto simp: cbind_def split: option.splits sum.splits prod.splits)
qed

lemma read_after_ignored:
  assumes "list_all (\<lambda>c. SEP \<notin> set c) cs" "cs \<noteq> []" "length (tuple_bytes F (map VBytes (cs @ [rest]))) < 2 ^ 32"
  shows "from_slice F (tuple_bytes F (map VBytes (cs @ [rest]))) (STuple (replicate (length cs) SIgnore @ [SStr])) =
    Some (let x = takeWhile (\<lambda>b. b \<noteq> SEP) rest in if utf8_ok x then Inr (RTuple (replicate (length cs) RUnit @ [RStr x])) else Inl BadUtf8)"
proof -
  define buf where "buf = tuple_bytes F (map VBytes (cs @ [rest]))"
  let ?r = "de_sequence_start (length cs + 1) de_start"
  have len: "length buf < usize_max" "length cs < usize_max"
    using assms(3) fields_le_bytes [of "map VBytes (cs @ [rest])" F] by (simp_all add: usize_max_def buf_def)
  have "de_pos ?r = 0" "de_rec ?r = 0" "de_seq ?r = length cs + 1" by (simp_all add: de_sequence_start_def de_start_def)
  with len obtain r where r: "deserialize_fields F buf 0 (replicate (length cs) SIgnore @ [SStr]) ?r =
      cbind (deserialize_fields F buf (0 + length cs) [SStr] r) (\<lambda>(us, r''). Some (Inr (replicate (length cs) RUnit @ us, r'')))"
    "drop (de_pos r) buf = (if de_rec r = 0 then tuple_bytes F [VBytes rest] else sep_fields F [VBytes rest])"
    "de_rec r = 0 \<longrightarrow> de_pos r = 0" "de_pos r \<le> length buf" "de_rec r = length cs" "de_seq r = length cs + 1"
    using read_ignored [OF assms(1), of ?r buf F rest 0 "[SStr]"] by (auto simp: buf_def)
  define r1 where "r1 = de_record_start buf r"
  have "de_rec r < usize_max" using r(5) len(2) by simp
  from record_start_reads [OF r(2-4) len(1) this r1_def]
  have d: "drop (de_pos r1) buf = rest" "de_pos r1 \<le> length buf" by simp_all
  have "record_next buf r1 = Some (takeWhile (\<lambda>b. b \<noteq> SEP) rest, inc_pos (length (takeWhile (\<lambda>b. b \<noteq> SEP) rest)) r1)"
    unfolding record_next_def range_get_rest [OF d(2)] d(1) by (simp add: Let_def)
  then show ?thesis
    unfolding buf_def [symmetric]
    using r(1,5,6) by (simp add: from_slice_def deserialize_str_def with_record_def r1_def [symmetric] Let_def)
qed

end
