(* ===== verification/Media_Holders.thy ===== *)
theory Media_Holders
  imports Media_Refs
begin

text \<open>
  The holders of \<open>Media_Refs\<close> as a set: what \<open>list_mxcs_of\<close> finds, what the tables hold once a transaction is committed,
  and that releasing all media of a holder, or moving them to another one, is an operation on the set unless the stored
  position of the event hides the media.
\<close>

section \<open>Finding the media of a holder\<close>

definition reads_ok :: "(u32 \<Rightarrow> ('db, 'i) rocks) \<Rightarrow> (u32 \<Rightarrow> 'db \<Rightarrow> row list) \<Rightarrow> (u32 \<Rightarrow> 'i \<Rightarrow> (row list \<times> nat option) option) \<Rightarrow> bool" where
  "reads_ok R rows view \<longleftrightarrow> (\<forall>cf. rocks_ok (R cf) (rows cf) (view cf))"

definition keys_at :: "(u32 \<Rightarrow> 'db \<Rightarrow> row list) \<Rightarrow> 'db \<Rightarrow> keyset" where
  "keys_at rows db cf = fst ` set (rows cf db)"

text \<open>A position is hidden when the eight bytes of its stored form hold the separator.\<close>

fun seq_hidden :: "holder \<Rightarrow> bool" where
  "seq_hidden (Event _ g) \<longleftrightarrow> SEP \<in> set (u64_to_be (bias_g_seq g))"
| "seq_hidden (Backup _ g) \<longleftrightarrow> SEP \<in> set (u64_to_be (bias_g_seq g))"
| "seq_hidden _ \<longleftrightarrow> False"

fun of_event :: "holder \<Rightarrow> bool" where
  "of_event (Event _ _) \<longleftrightarrow> True"
| "of_event (Backup _ _) \<longleftrightarrow> True"
| "of_event _ \<longleftrightarrow> False"

lemma starts_with_simps [simp]:
  "starts_with (x @ y) x" "starts_with x []" "starts_with x x" "starts_with (a # x) (b # y) \<longleftrightarrow> a = b \<and> starts_with x y"
  by (auto simp: starts_with_def)

lemma enc_prefix: "starts_with (u64_to_be a @ x) (u64_to_be b) \<longleftrightarrow> a = b"
  using be64.enc_inject [of a b] by (simp add: starts_with_def)

text \<open>Which rows the prefixes of \<open>list_mxcs_of\<close> reach\<close>

lemma event_prefix:
  assumes "holder_ok h" "holder_ok h'" "of_event h" "text_ok m"
  shows "starts_with (media_row F (h', m)) (tuple_bytes F (VStr (holder_kind h) # holder_id h)) \<longleftrightarrow> h' = h"
  using assms
  by (cases h; cases h') (auto simp: row_defs kind_defs sep_prefix enc_prefix SEP_def [symmetric])

lemma avatar_prefix:
  assumes "text_ok p" "holder_ok h'" "text_ok m"
  shows "starts_with (media_row F (h', m)) (tuple_bytes F [VStr KIND_AVATAR, VStr p]) \<longleftrightarrow>
    (\<exists>l. h' = Avatar l \<and> starts_with l p)"
  using assms
  by (cases h') (auto simp: row_defs kind_defs sep_prefix sep_free_prefix SEP_def [symmetric])

lemma room_avatar_prefix:
  assumes "text_ok p" "text_ok room" "holder_ok h'" "text_ok m"
  shows "starts_with (media_row F (h', m)) (tuple_bytes F [VStr KIND_ROOM_AVATAR, VStr room, VStr p]) \<longleftrightarrow>
    (\<exists>u. h' = RoomAvatar room u \<and> starts_with u p)"
  using assms
  by (cases h') (auto simp: row_defs kind_defs sep_prefix sep_free_prefix SEP_def [symmetric])

text \<open>What \<open>list_mxcs_of\<close> reads behind the position: the media, or what follows the separator within the position.\<close>

definition after_sep :: "byte list \<Rightarrow> byte list \<Rightarrow> byte list" where
  "after_sep b m = takeWhile (\<lambda>c. c \<noteq> SEP) (drop (Suc (length (takeWhile (\<lambda>c. c \<noteq> SEP) b))) (b @ SEP # m))"

lemma split_first_sep:
  "b @ SEP # m = takeWhile (\<lambda>c. c \<noteq> SEP) b @ SEP # drop (Suc (length (takeWhile (\<lambda>c. c \<noteq> SEP) b))) (b @ SEP # m)"
  by (induction b) auto

lemma after_sep_media: "SEP \<notin> set b \<Longrightarrow> SEP \<notin> set m \<Longrightarrow> after_sep b m = m"
  by (simp add: after_sep_def takeWhile_sep)

lemma after_sep_short: "SEP \<in> set b \<Longrightarrow> length (after_sep b m) < length b"
proof -
  assume "SEP \<in> set b"
  then obtain b1 b2 where b: "b = b1 @ SEP # b2" "SEP \<notin> set b1" by (meson split_list_first)
  then have "after_sep b m = takeWhile (\<lambda>c. c \<noteq> SEP) (b2 @ SEP # m)" by (simp add: after_sep_def takeWhile_sep)
  moreover have "length (takeWhile (\<lambda>c. c \<noteq> SEP) (b2 @ SEP # m)) \<le> length b2" by (induction b2) auto
  ultimately show ?thesis using b(1) by simp
qed

lemma event_reads:
  assumes "holder_ok h" "text_ok m" "h = Event room g \<or> h = Backup room g"
  shows "from_slice F (media_row F (h, m)) (STuple [SIgnore, SIgnore, SIgnore, SStr]) =
    Some (let x = after_sep (u64_to_be (bias_g_seq g)) m in if utf8_ok x then Inr (RTuple [RUnit, RUnit, RUnit, RStr x]) else Inl BadUtf8)"
proof -
  let ?b = "u64_to_be (bias_g_seq g)"
  define c rest where "c = takeWhile (\<lambda>c. c \<noteq> SEP) ?b" and "rest = drop (Suc (length (takeWhile (\<lambda>c. c \<noteq> SEP) ?b))) (?b @ SEP # m)"
  let ?cs = "[holder_kind h, room, c]"
  have "?b @ SEP # m = c @ SEP # rest" using split_first_sep [of ?b m] by (simp add: c_def rest_def)
  then have row: "media_row F (h, m) = tuple_bytes F (map VBytes (?cs @ [rest]))" using assms(3) by (auto simp: row_defs)
  have "list_all (\<lambda>c. SEP \<notin> set c) ?cs"
    using assms text_no_sep [OF kind_text] by (auto simp: c_def dest: set_takeWhileD)
  moreover have "length (tuple_bytes F (map VBytes (?cs @ [rest]))) < 2 ^ 32"
    using row_lengths(2) [OF assms(1,2), of F] by (simp only: row)
  moreover have "after_sep ?b m = takeWhile (\<lambda>b. b \<noteq> SEP) rest" unfolding after_sep_def rest_def ..
  ultimately show ?thesis using read_after_ignored [of ?cs F rest] by (simp add: row numeral_3_eq_3 Let_def)
qed

lemma in_index:
  assumes "indexes F M K H Q"
  shows "K (tb_cf (mxc_holder M)) = holder_row F ` H" "K (tb_cf (holder_mxc M)) = media_row F ` H"
    "K (tb_cf (room_mxc M)) = pair_row F ` Q" "K (tb_cf (mxc_room M)) = back_row F ` Q"
    "(h, m) \<in> H \<Longrightarrow> holder_ok h \<and> text_ok m" "(r, m) \<in> Q \<Longrightarrow> text_ok r \<and> text_ok m"
  using assms by (auto simp: indexes_def)

lemma list_mxcs_of_event:
  assumes "reads_ok R rows view" "indexes F M (keys_at rows db) H Q" "holder_ok h" "h = Event room g \<or> h = Backup room g"
  shows "\<exists>ms. list_mxcs_of F R M db h = Some ms \<and>
    set ms = {x. \<exists>m. (h, m) \<in> H \<and> x = after_sep (u64_to_be (bias_g_seq g)) m \<and> utf8_ok x}"
proof -
  let ?p = "[VStr (holder_kind h), VStr room, VU64 (bias_g_seq g)]" and ?b = "u64_to_be (bias_g_seq g)"
  let ?ss = "[SIgnore, SIgnore, SIgnore, SStr]"
  have p: "?p = VStr (holder_kind h) # holder_id h" using assms(4) by auto
  have keys: "fst ` set (rows (tb_cf (holder_mxc M)) db) = media_row F ` H"
    using in_index(2) [OF assms(2)] by (simp add: keys_at_def)
  have match: "starts_with (media_row F (h', m)) (tuple_bytes F ?p) \<longleftrightarrow> h' = h" if "(h', m) \<in> H" for h' m
    unfolding p using in_index(5) [OF assms(2) that] assms(3,4) by (intro event_prefix) auto
  let ?f = "\<lambda>k. the (from_slice F k (STuple ?ss))"
  have reads: "from_slice F (media_row F (h, m)) (STuple ?ss) =
      Some (let x = after_sep ?b m in if utf8_ok x then Inr (RTuple [RUnit, RUnit, RUnit, RStr x]) else Inl BadUtf8)"
    if "(h, m) \<in> H" for m using in_index(5) [OF assms(2) that] by (intro event_reads [OF assms(3) _ assms(4)]) simp
  have "\<exists>vs. scan F R (holder_mxc M) db ?p ?ss = Some vs \<and>
      set vs = {v. \<exists>k \<in> fst ` set (rows (tb_cf (holder_mxc M)) db). starts_with k (tuple_bytes F ?p) \<and> ?f k = Inr v}"
  proof (rule scan_finds)
    show "rocks_ok (R (tb_cf (holder_mxc M))) (rows (tb_cf (holder_mxc M))) (view (tb_cf (holder_mxc M)))"
      using assms(1) by (simp add: reads_ok_def)
    show "from_slice F k (STuple ?ss) = Some (?f k)"
      if "k \<in> fst ` set (rows (tb_cf (holder_mxc M)) db)" "starts_with k (tuple_bytes F ?p)" for k
      using that reads match unfolding keys by auto
  qed simp
  then obtain vs where vs: "scan F R (holder_mxc M) db ?p ?ss = Some vs"
    "set vs = {v. \<exists>k \<in> media_row F ` H. starts_with k (tuple_bytes F ?p) \<and> ?f k = Inr v}" unfolding keys by blast
  have "set vs = (\<lambda>m. RTuple [RUnit, RUnit, RUnit, RStr (after_sep ?b m)]) ` {m. (h, m) \<in> H \<and> utf8_ok (after_sep ?b m)}"
    unfolding vs(2) using match reads by (force simp: Let_def split: if_splits)
  moreover have "list_mxcs_of F R M db h = Some (map (str_field 3) vs)"
    using assms(4) vs(1) by (auto simp: list_mxcs_of_def)
  ultimately show ?thesis by (auto simp: image_image str_field_def numeral_3_eq_3)
qed


text \<open>A scan over the rows of a set, whose prefix selects some of them and whose keys all can be read\<close>

lemma index_scan:
  assumes "reads_ok R rows view" "keys_at rows db (tb_cf m) = row ` X" "list_all (is_field F) prefix"
    and "\<And>x. x \<in> X \<Longrightarrow> starts_with (row x) (tuple_bytes F prefix) \<longleftrightarrow> P x"
    and "\<And>x. x \<in> X \<Longrightarrow> P x \<Longrightarrow> from_slice F (row x) (STuple ss) = Some (Inr (g x))"
  shows "\<exists>vs. scan F R m db prefix ss = Some vs \<and> set vs = g ` {x \<in> X. P x}"
proof -
  let ?f = "\<lambda>k. the (from_slice F k (STuple ss))"
  have keys: "fst ` set (rows (tb_cf m) db) = row ` X" using assms(2) by (simp add: keys_at_def)
  have "\<exists>vs. scan F R m db prefix ss = Some vs \<and>
      set vs = {v. \<exists>k \<in> fst ` set (rows (tb_cf m) db). starts_with k (tuple_bytes F prefix) \<and> ?f k = Inr v}"
  proof (rule scan_finds)
    show "rocks_ok (R (tb_cf m)) (rows (tb_cf m)) (view (tb_cf m))" using assms(1) by (simp add: reads_ok_def)
    show "from_slice F k (STuple ss) = Some (?f k)"
      if "k \<in> fst ` set (rows (tb_cf m) db)" "starts_with k (tuple_bytes F prefix)" for k
      using that assms(4,5) unfolding keys by auto
  qed (rule assms(3))
  moreover have "starts_with (row x) (tuple_bytes F prefix) \<and> ?f (row x) = Inr v \<longleftrightarrow> P x \<and> v = g x" if "x \<in> X" for x v
    using assms(4,5) [OF that] by auto
  then have "{v. \<exists>k \<in> row ` X. starts_with k (tuple_bytes F prefix) \<and> ?f k = Inr v} = g ` {x \<in> X. P x}" by blast
  ultimately show ?thesis unfolding keys by simp
qed

lemma read_texts:
  assumes "tuple_ok F vs ss rs" "row = tuple_bytes F vs" "length row < 2 ^ 32"
  shows "from_slice F row (STuple ss) = Some (Inr (RTuple rs))"
  using read_row [OF assms(1)] assms(2,3) by simp

lemma kinds_utf8 [simp]: "utf8_ok KIND_EVENT" "utf8_ok KIND_BACKUP" "utf8_ok KIND_AVATAR" "utf8_ok KIND_ROOM_AVATAR"
  using kind_text [of "Event [] 0"] kind_text [of "Backup [] 0"] kind_text [of "Avatar []"] kind_text [of "RoomAvatar [] []"]
  by (simp_all add: text_ok_def)

lemma text_utf8 [simp]: "text_ok s \<Longrightarrow> utf8_ok s"
  by (simp add: text_ok_def)

lemma media_row_reads:
  assumes "text_ok m"
  shows "text_ok l \<Longrightarrow> from_slice F (media_row F (Avatar l, m)) (STuple [SIgnore, SIgnore, SStr]) = Some (Inr (RTuple [RUnit, RUnit, RStr m]))"
    "text_ok room \<Longrightarrow> text_ok u \<Longrightarrow> from_slice F (media_row F (RoomAvatar room u, m)) (STuple [SIgnore, SIgnore, SIgnore, SStr]) =
      Some (Inr (RTuple [RUnit, RUnit, RUnit, RStr m]))"
proof -
  show "from_slice F (media_row F (Avatar l, m)) (STuple [SIgnore, SIgnore, SStr]) = Some (Inr (RTuple [RUnit, RUnit, RStr m]))"
    if "text_ok l"
    by (rule read_texts [where vs = "[VStr KIND_AVATAR, VStr l, VStr m]"], intro tuple_more tuple_nil)
      (use that assms row_lengths(2) [of "Avatar l" m F] in \<open>simp_all add: media_row_def\<close>)
  show "from_slice F (media_row F (RoomAvatar room u, m)) (STuple [SIgnore, SIgnore, SIgnore, SStr]) =
      Some (Inr (RTuple [RUnit, RUnit, RUnit, RStr m]))" if "text_ok room" "text_ok u"
    by (rule read_texts [where vs = "[VStr KIND_ROOM_AVATAR, VStr room, VStr u, VStr m]"], intro tuple_more tuple_nil)
      (use that assms row_lengths(2) [of "RoomAvatar room u" m F] in \<open>simp_all add: media_row_def\<close>)
qed

lemma list_mxcs_of_avatar:
  assumes "reads_ok R rows view" "indexes F M (keys_at rows db) H Q" "holder_ok h" "\<not> of_event h"
  shows "\<exists>ms. list_mxcs_of F R M db h = Some ms \<and> {m. (h, m) \<in> H} \<subseteq> set ms \<and> set ms \<subseteq> snd ` H"
proof (cases h)
  case (Avatar p)
  let ?P = "\<lambda>x. \<exists>l. fst x = Avatar l \<and> starts_with l p"
  have "\<exists>vs. scan F R (holder_mxc M) db [VStr KIND_AVATAR, VStr p] [SIgnore, SIgnore, SStr] = Some vs \<and>
      set vs = (\<lambda>x. RTuple [RUnit, RUnit, RStr (snd x)]) ` {x \<in> H. ?P x}"
  proof (rule index_scan [OF assms(1) in_index(2) [OF assms(2)]])
    fix x
    assume "x \<in> H"
    then have x: "holder_ok (fst x)" "text_ok (snd x)" using in_index(5) [OF assms(2), of "fst x" "snd x"] by simp_all
    then show "starts_with (media_row F x) (tuple_bytes F [VStr KIND_AVATAR, VStr p]) \<longleftrightarrow> ?P x"
      using avatar_prefix [of p "fst x" "snd x" F] assms(3) Avatar by simp
    show "from_slice F (media_row F x) (STuple [SIgnore, SIgnore, SStr]) = Some (Inr (RTuple [RUnit, RUnit, RStr (snd x)]))" if "?P x"
      using that x media_row_reads(1) [of "snd x" _ F] by (cases x) auto
  qed simp
  then obtain vs where "scan F R (holder_mxc M) db [VStr KIND_AVATAR, VStr p] [SIgnore, SIgnore, SStr] = Some vs"
    "str_field 2 ` set vs = snd ` {x \<in> H. ?P x}" by (auto simp: image_image str_field_def)
  moreover have "{m. (h, m) \<in> H} \<subseteq> snd ` {x \<in> H. ?P x}" using Avatar starts_with_simps(3) by force
  ultimately show ?thesis by (auto simp: list_mxcs_of_def Avatar)
next
  case (RoomAvatar room p)
  let ?P = "\<lambda>x. \<exists>u. fst x = RoomAvatar room u \<and> starts_with u p"
  have "\<exists>vs. scan F R (holder_mxc M) db [VStr KIND_ROOM_AVATAR, VStr room, VStr p] [SIgnore, SIgnore, SIgnore, SStr] = Some vs \<and>
      set vs = (\<lambda>x. RTuple [RUnit, RUnit, RUnit, RStr (snd x)]) ` {x \<in> H. ?P x}"
  proof (rule index_scan [OF assms(1) in_index(2) [OF assms(2)]])
    fix x
    assume "x \<in> H"
    then have x: "holder_ok (fst x)" "text_ok (snd x)" using in_index(5) [OF assms(2), of "fst x" "snd x"] by simp_all
    then show "starts_with (media_row F x) (tuple_bytes F [VStr KIND_ROOM_AVATAR, VStr room, VStr p]) \<longleftrightarrow> ?P x"
      using room_avatar_prefix [of p room "fst x" "snd x" F] assms(3) RoomAvatar by simp
    show "from_slice F (media_row F x) (STuple [SIgnore, SIgnore, SIgnore, SStr]) = Some (Inr (RTuple [RUnit, RUnit, RUnit, RStr (snd x)]))"
      if "?P x" using that x media_row_reads(2) [of "snd x" _ _ F] by (cases x) auto
  qed simp
  then obtain vs where "scan F R (holder_mxc M) db [VStr KIND_ROOM_AVATAR, VStr room, VStr p] [SIgnore, SIgnore, SIgnore, SStr] = Some vs"
    "str_field 3 ` set vs = snd ` {x \<in> H. ?P x}" by (auto simp: image_image str_field_def numeral_3_eq_3)
  moreover have "{m. (h, m) \<in> H} \<subseteq> snd ` {x \<in> H. ?P x}" using RoomAvatar starts_with_simps(3) by force
  ultimately show ?thesis by (auto simp: list_mxcs_of_def RoomAvatar)
qed (use assms(4) in simp_all)

lemma list_mxcs_of_finds:
  assumes "reads_ok R rows view" "indexes F M (keys_at rows db) H Q" "holder_ok h"
  shows "\<exists>ms. list_mxcs_of F R M db h = Some ms \<and> (\<forall>m \<in> set ms. text_ok m) \<and>
    (if seq_hidden h then \<forall>m \<in> set ms. length m < 8
     else {m. (h, m) \<in> H} \<subseteq> set ms \<and> (of_event h \<longrightarrow> set ms = {m. (h, m) \<in> H}))"
proof (cases "of_event h")
  case True
  then obtain room g where h: "h = Event room g \<or> h = Backup room g" by (cases h) auto
  let ?b = "u64_to_be (bias_g_seq g)"
  obtain ms where ms: "list_mxcs_of F R M db h = Some ms"
    "set ms = {x. \<exists>m. (h, m) \<in> H \<and> x = after_sep ?b m \<and> utf8_ok x}"
    using list_mxcs_of_event [OF assms h] by blast
  show ?thesis
  proof (cases "seq_hidden h")
    case True
    then have "length (after_sep ?b m) < 8" for m using after_sep_short [of ?b m] h by auto
    moreover from this have "text_ok (after_sep ?b m)" if "utf8_ok (after_sep ?b m)" for m
      using that by (simp add: text_ok_def less_trans [of _ 8])
    ultimately have "\<forall>x \<in> set ms. length x < 8 \<and> text_ok x" unfolding ms(2) by blast
    then show ?thesis using ms(1) True by auto
  next
    case False
    then have "SEP \<notin> set ?b" using h by auto
    then have "after_sep ?b m = m \<and> text_ok m" if "(h, m) \<in> H" for m
      using in_index(5) [OF assms(2) that] by (simp add: after_sep_media)
    then have "set ms = {m. (h, m) \<in> H}" "\<forall>m \<in> set ms. text_ok m" unfolding ms(2) by (auto simp: text_ok_def)
    then show ?thesis using ms(1) False by auto
  qed
next
  case False
  then obtain ms where "list_mxcs_of F R M db h = Some ms" "{m. (h, m) \<in> H} \<subseteq> set ms" "set ms \<subseteq> snd ` H"
    using list_mxcs_of_avatar [OF assms] by blast
  moreover from this have "\<forall>m \<in> set ms. text_ok m" using in_index(5) [OF assms(2)] by fastforce
  moreover have "\<not> seq_hidden h" using False by (cases h) auto
  ultimately show ?thesis using False by auto
qed


section \<open>Committing\<close>

text \<open>What the engine promises when nothing fails: a batch changes the keys of the tables operation by operation.\<close>

definition writes_ok :: "'db engine \<Rightarrow> (u32 \<Rightarrow> 'db \<Rightarrow> row list) \<Rightarrow> bool" where
  "writes_ok E rows \<longleftrightarrow>
     (\<forall>ops db. \<exists>db'. eng_write E ops db = Inr db' \<and> keys_at rows db' = fold apply_keys ops (keys_at rows db)) \<and>
     (\<forall>db. \<exists>db'. eng_flush E db = Inr db' \<and> keys_at rows db' = keys_at rows db)"

definition media_store_ok where
  "media_store_ok R rows view E C live changed known M engine \<longleftrightarrow>
     reads_ok R rows view \<and> writes_ok E rows \<and> repr_ok (eng_repr E) \<and> channels_ok C live changed known \<and> tables_ok M engine"

text \<open>The state in which \<open>H\<close> holds who holds what and \<open>Q\<close> which room ever held what\<close>

definition media_state where
  "media_state F M rows live known W Ws H Q \<longleftrightarrow> world_inv live known W Ws \<and> indexes F M (keys_at rows (wd_db W)) H Q"

lemma does_new: "does F M g (txn_new e) t \<Longrightarrow> indexes F M K H Q \<Longrightarrow>
    indexes F M (fold apply_keys (tx_batch t) K) (fst (g (H, Q))) (snd (g (H, Q))) \<and> list_all op_fits (tx_batch t)"
  by (auto simp: does_def txn_new_def)

lemma commit_applies:
  assumes "media_store_ok R rows view E C live changed known M e" "media_state F M rows live known W Ws H Q"
    and "does F M g (txn_new e) t0" "tx_batch t = tx_batch t0"
  shows "\<exists>W'. txn_execute E C t W = Some W' \<and> media_state F M rows live known W' Ws (fst (g (H, Q))) (snd (g (H, Q))) \<and>
    wd_rest W' = (if tx_batch t = [] then wd_rest W else fold (\<lambda>f. f) (tx_after t) (wd_rest W))"
proof -
  have inv: "world_inv live known W Ws" and ind: "indexes F M (keys_at rows (wd_db W)) H Q"
    using assms(2) by (simp_all add: media_state_def)
  note d = does_new [OF assms(3) ind]
  show ?thesis
  proof (cases "tx_batch t = []")
    case True
    then show ?thesis using d inv assms(4) by (simp add: txn_execute_def media_state_def)
  next
    case False
    obtain db db' where db: "eng_write E (tx_batch t) (wd_db W) = Inr db" "keys_at rows db = fold apply_keys (tx_batch t) (keys_at rows (wd_db W))"
      "eng_flush E db = Inr db'" "keys_at rows db' = keys_at rows db"
      using assms(1) unfolding media_store_ok_def writes_ok_def by metis
    let ?db = "if corked W then db else db'"
    have ch: "channels_ok C live changed known" "repr_ok (eng_repr E)" using assms(1) by (simp_all add: media_store_ok_def)
    have "if corked W then ?db = db else eng_flush E db = Inr ?db" using db(3) by simp
    from execute_runs [OF ch(1) inv ch(2) False _ db(1) this] d assms(4)
    obtain W' where "txn_execute E C t W = Some W'" "wd_db W' = ?db" "world_inv live known W' Ws"
        "wd_rest W' = fold (\<lambda>f. f) (tx_after t) (wd_rest W)" by auto
    moreover have "keys_at rows ?db = fold apply_keys (tx_batch t) (keys_at rows (wd_db W))" using db(2,4) by simp
    ultimately show ?thesis using d False assms(4) by (simp add: media_state_def)
  qed
qed

lemma tables_new: "media_store_ok R rows view E C live changed known M e \<Longrightarrow> tables_ok M (tx_engine (txn_new e))"
  by (simp add: media_store_ok_def txn_new_def)

lemma hand_batch [simp]: "tx_batch (hand_to_collector running ms t) = tx_batch t"
  by (simp add: hand_to_collector_def on_execute_def)

lemma hand_after: "tx_after t = [] \<Longrightarrow> ms \<noteq> [] \<Longrightarrow> tx_after (hand_to_collector running ms t) = (if running then [send_all ms] else [])"
  by (simp add: hand_to_collector_def on_execute_def)

lemma does_after: "does F M g (txn_new e) t \<Longrightarrow> tx_after t = []"
  by (simp add: does_def txn_new_def)


section \<open>Releasing and moving what a holder holds\<close>

lemma release_listed:
  assumes "tables_ok M (tx_engine t)" "holder_ok h" "\<forall>m \<in> set ms. text_ok m"
  shows "\<exists>t'. try_each (\<lambda>m. del_holder_rows F M m h) ms t = Some t' \<and> does F M (del_pairs ({h} \<times> set ms) {}) t t' \<and>
    (ms \<noteq> [] \<longrightarrow> tx_batch t' \<noteq> [])"
proof -
  have "\<exists>t'. try_each (\<lambda>m. del_holder_rows F M m h) ms t = Some t' \<and>
      does F M (del_pairs (\<Union>m \<in> set ms. {(h, m)}) (\<Union>m \<in> set ms. {})) t t' \<and> (ms \<noteq> [] \<longrightarrow> tx_batch t' \<noteq> [])"
    using assms by (intro try_each_does del_does) auto
  moreover have "(\<Union>m \<in> set ms. {(h, m)}) = {h} \<times> set ms" by auto
  ultimately show ?thesis by simp
qed

lemma swap_does:
  assumes "tables_ok M (tx_engine t)" "holder_ok from" "holder_ok to" "text_ok m"
  shows "\<exists>t'. swap F M m from to t = Some t' \<and> does F M (\<lambda>s. add_pair (to, m) (del_pairs {(from, m)} {} s)) t t' \<and> tx_batch t' \<noteq> []"
proof -
  obtain t1 where t1: "del_holder_rows F M m from t = Some t1" "does F M (del_pairs {(from, m)} {}) t t1"
    using del_does [OF assms(1,2,4)] by blast
  then have "tables_ok M (tx_engine t1)" using assms(1) does_engine [OF t1(2)] by simp
  then obtain t2 where "hold F M m to t1 = Some t2" "does F M (add_pair (to, m)) t1 t2" "tx_batch t2 \<noteq> []"
    using hold_does [OF _ assms(3,4)] by blast
  then show ?thesis using t1 does_trans [OF t1(2)] by (auto simp: swap_def)
qed

lemma swap_listed:
  assumes "tables_ok M (tx_engine t)" "holder_ok from" "holder_ok to" "\<forall>m \<in> set ms. text_ok m"
  shows "\<exists>t'. try_each (\<lambda>m. swap F M m from to) ms t = Some t' \<and>
    does F M (fold (\<lambda>m s. add_pair (to, m) (del_pairs {(from, m)} {} s)) ms) t t'"
  using assms(1,4)
proof (induction ms arbitrary: t)
  case Nil
  then show ?case using does_refl [of F M t] by simp
next
  case (Cons m ms)
  obtain t1 where t1: "swap F M m from to t = Some t1" "does F M (\<lambda>s. add_pair (to, m) (del_pairs {(from, m)} {} s)) t t1"
    using swap_does [OF Cons.prems(1) assms(2,3), of m F] Cons.prems(2) by auto
  then obtain t2 where "try_each (\<lambda>m. swap F M m from to) ms t1 = Some t2"
      "does F M (fold (\<lambda>m s. add_pair (to, m) (del_pairs {(from, m)} {} s)) ms) t1 t2"
    using Cons.IH [of t1] Cons.prems does_engine [OF t1(2)] by auto
  then show ?case using t1 does_trans [OF t1(2)] by (fastforce simp: comp_def)
qed

lemma fold_swap: "from \<noteq> to \<Longrightarrow>
    fst (fold (\<lambda>m s. add_pair (to, m) (del_pairs {(from, m)} {} s)) ms s) = (fst s - {from} \<times> set ms) \<union> {to} \<times> set ms"
  by (induction ms arbitrary: s) (auto simp: add_pair_def del_pairs_def)

lemma short_kept: "\<forall>m \<in> set ms. length m < 8 \<Longrightarrow> {x \<in> H. 8 \<le> length (snd x)} \<subseteq> H - {h} \<times> set ms"
  by auto

lemma release_all_of_commits:
  assumes "media_store_ok R rows view E C live changed known M e" "media_state F M rows live known W Ws H Q" "holder_ok h"
  shows "\<exists>ms t W' H'. release_all_of F R M running (wd_db W) h (txn_new e) = Some (ms, t) \<and> txn_execute E C t W = Some W' \<and>
    media_state F M rows live known W' Ws H' Q \<and> wd_rest W' = (if running \<and> ms \<noteq> [] then send_all ms (wd_rest W) else wd_rest W) \<and>
    (if seq_hidden h then {x \<in> H. 8 \<le> length (snd x)} \<subseteq> H' else H' = {x \<in> H. fst x \<noteq> h} \<and> {m. (h, m) \<in> H} \<subseteq> set ms)"
proof -
  have "reads_ok R rows view" "indexes F M (keys_at rows (wd_db W)) H Q"
    using assms(1,2) by (simp_all add: media_store_ok_def media_state_def)
  from list_mxcs_of_finds [OF this assms(3)]
  obtain ms where ms: "list_mxcs_of F R M (wd_db W) h = Some ms" "\<forall>m \<in> set ms. text_ok m"
    "if seq_hidden h then \<forall>m \<in> set ms. length m < 8 else {m. (h, m) \<in> H} \<subseteq> set ms" by (auto split: if_splits)
  obtain t :: "collector txn" where t: "try_each (\<lambda>m. del_holder_rows F M m h) ms (txn_new e) = Some t"
    "does F M (del_pairs ({h} \<times> set ms) {}) (txn_new e) t" "ms \<noteq> [] \<longrightarrow> tx_batch t \<noteq> []"
    using release_listed [OF tables_new [OF assms(1)] assms(3) ms(2)] by blast
  let ?t = "hand_to_collector running ms t" and ?H = "H - {h} \<times> set ms"
  have "release_all_of F R M running (wd_db W) h (txn_new e) = Some (ms, ?t)" by (simp add: release_all_of_def ms(1) t(1))
  moreover obtain W' where W': "txn_execute E C ?t W = Some W'" "media_state F M rows live known W' Ws ?H Q"
    "wd_rest W' = (if tx_batch t = [] then wd_rest W else fold (\<lambda>f. f) (tx_after ?t) (wd_rest W))"
    using commit_applies [OF assms(1,2) t(2), of ?t] by (auto simp: del_pairs_def)
  moreover have "wd_rest W' = (if running \<and> ms \<noteq> [] then send_all ms (wd_rest W) else wd_rest W)"
    using W'(3) t(3) hand_after [OF does_after [OF t(2)], of ms running] does_after [OF t(2)]
    by (cases "ms = []") (auto simp: hand_to_collector_def)
  moreover have "if seq_hidden h then {x \<in> H. 8 \<le> length (snd x)} \<subseteq> ?H else ?H = {x \<in> H. fst x \<noteq> h} \<and> {m. (h, m) \<in> H} \<subseteq> set ms"
    using ms(3) short_kept [of ms H h] by (auto split: if_splits)
  ultimately show ?thesis by blast
qed

lemma swap_all_of_commits:
  fixes W :: "('db, 'tx, 'h, 'w) world"
  assumes "media_store_ok R rows view E C live changed known M e" "media_state F M rows live known W Ws H Q"
    and "holder_ok from" "holder_ok to" "of_event from" "from \<noteq> to"
  shows "\<exists>n t W' H' Q'. swap_all_of F R M (wd_db W) from to (txn_new e) = Some (n, t) \<and> txn_execute E C t W = Some W' \<and>
    media_state F M rows live known W' Ws H' Q' \<and>
    (if seq_hidden from then {x \<in> H. 8 \<le> length (snd x)} \<subseteq> H'
     else H' = {x \<in> H. fst x \<noteq> from} \<union> {to} \<times> {m. (from, m) \<in> H})"
proof -
  have "reads_ok R rows view" "indexes F M (keys_at rows (wd_db W)) H Q"
    using assms(1,2) by (simp_all add: media_store_ok_def media_state_def)
  from list_mxcs_of_finds [OF this assms(3)]
  obtain ms where ms: "list_mxcs_of F R M (wd_db W) from = Some ms" "\<forall>m \<in> set ms. text_ok m"
    "if seq_hidden from then \<forall>m \<in> set ms. length m < 8
     else {m. (from, m) \<in> H} \<subseteq> set ms \<and> (of_event from \<longrightarrow> set ms = {m. (from, m) \<in> H})" by blast
  let ?g = "fold (\<lambda>m s. add_pair (to, m) (del_pairs {(from, m)} {} s)) ms"
  obtain t :: "'w txn" where t: "try_each (\<lambda>m. swap F M m from to) ms (txn_new e) = Some t" "does F M ?g (txn_new e) t"
    using swap_listed [OF tables_new [OF assms(1)] assms(3,4) ms(2)] by blast
  have "swap_all_of F R M (wd_db W) from to (txn_new e) = Some (length ms, t)" by (simp add: swap_all_of_def ms(1) t(1))
  moreover obtain W' where W': "txn_execute E C t W = Some W'"
    "media_state F M rows live known W' Ws (fst (?g (H, Q))) (snd (?g (H, Q)))"
    using commit_applies [OF assms(1,2) t(2) refl] by blast
  moreover have "fst (?g (H, Q)) = (H - {from} \<times> set ms) \<union> {to} \<times> set ms" by (simp add: fold_swap [OF assms(6)])
  note W'(2) [unfolded this]
  moreover have "if seq_hidden from then {x \<in> H. 8 \<le> length (snd x)} \<subseteq> (H - {from} \<times> set ms) \<union> {to} \<times> set ms
      else (H - {from} \<times> set ms) \<union> {to} \<times> set ms = {x \<in> H. fst x \<noteq> from} \<union> {to} \<times> {m. (from, m) \<in> H}"
  proof (cases "seq_hidden from")
    case True
    then show ?thesis using ms(3) short_kept [of ms H "from"] by (simp add: le_supI1)
  next
    case False
    then have "set ms = {m. (from, m) \<in> H}" using ms(3) assms(5) by simp
    moreover from this have "H - {from} \<times> set ms = {x \<in> H. fst x \<noteq> from}" by auto
    ultimately show ?thesis using False by simp
  qed
  ultimately show ?thesis using W'(1)
    by (intro exI [of _ "length ms"] exI [of _ t] exI [of _ W'] exI [of _ "(H - {from} \<times> set ms) \<union> {to} \<times> set ms"]
        exI [of _ "snd (?g (H, Q))"] conjI)
qed

end
