(* ===== verification/Media_Properties.thy ===== *)
theory Media_Properties
  imports Media_Holders
begin

text \<open>
  What the operations of \<open>Media_Refs\<close> do to the set of holders once their transactions are committed: a release forgets
  a holder, a redaction moves or releases the media of an event, a deleted room loses its holders and no other, and the
  collector and the sweep leave alone whatever is held, unmanaged or of another server.
\<close>

section \<open>Deleting a room\<close>

lemma room_prefix:
  assumes "holder_ok h" "text_ok m" "text_ok m'" "text_ok room" "kind \<in> {KIND_EVENT, KIND_BACKUP, KIND_ROOM_AVATAR}"
  shows "starts_with (holder_row F (h, m')) (tuple_bytes F [VStr m, VStr kind, VStr room]) \<longleftrightarrow>
    m' = m \<and> holder_kind h = kind \<and> (\<exists>r. holder_room h = Some r \<and> starts_with r room)"
  using assms by (cases h) (auto simp: row_defs kind_defs sep_prefix sep_free_prefix SEP_def [symmetric])

text \<open>The last field of the key of a holder, as it is read\<close>

fun id_value :: "holder \<Rightarrow> 'j de_value" where
  "id_value (Event _ g) = RU64 (bias_g_seq g)"
| "id_value (Backup _ g) = RU64 (bias_g_seq g)"
| "id_value (RoomAvatar _ u) = RStr u"
| "id_value (Avatar l) = RStr l"

definition id_shape :: "byte list \<Rightarrow> shape" where
  "id_shape kind = (if kind = KIND_ROOM_AVATAR then SStr else SU64)"

lemma holder_row_reads:
  assumes "holder_ok h" "text_ok m" "holder_room h = Some r"
  shows "from_slice F (holder_row F (h, m)) (STuple [SIgnore, SIgnore, SIgnore, id_shape (holder_kind h)]) =
      Some (Inr (RTuple [RUnit, RUnit, RUnit, id_value h]))"
    "from_slice F (holder_row F (h, m)) (STuple [SIgnore, SIgnore, SStr, id_shape (holder_kind h)]) =
      Some (Inr (RTuple [RUnit, RUnit, RStr r, id_value h]))"
proof -
  have len: "length (holder_row F (h, m)) < 2 ^ 32" by (rule row_lengths(1) [OF assms(1,2)])
  show "from_slice F (holder_row F (h, m)) (STuple [SIgnore, SIgnore, SIgnore, id_shape (holder_kind h)]) =
      Some (Inr (RTuple [RUnit, RUnit, RUnit, id_value h]))"
    by (rule read_texts [where vs = "VStr m # VStr (holder_kind h) # holder_id h"]; (cases h)?)
      (use assms len in \<open>auto intro!: tuple_more tuple_nil simp: holder_row_def id_shape_def kind_defs utf8_lead_def\<close>)
  show "from_slice F (holder_row F (h, m)) (STuple [SIgnore, SIgnore, SStr, id_shape (holder_kind h)]) =
      Some (Inr (RTuple [RUnit, RUnit, RStr r, id_value h]))"
    by (rule read_texts [where vs = "VStr m # VStr (holder_kind h) # holder_id h"]; (cases h)?)
      (use assms len in \<open>auto intro!: tuple_more tuple_nil simp: holder_row_def id_shape_def kind_defs utf8_lead_def\<close>)
qed

definition in_room :: "byte list \<Rightarrow> byte list \<Rightarrow> byte list \<Rightarrow> (holder \<times> byte list) set" where
  "in_room room m kind = {x. snd x = m \<and> holder_kind (fst x) = kind \<and> holder_room (fst x) = Some room}"

lemma room_scan:
  assumes "reads_ok R rows view" "indexes F M (keys_at rows db) H Q" "text_ok room" "text_ok m"
    and "kind \<in> {KIND_EVENT, KIND_BACKUP, KIND_ROOM_AVATAR}"
  shows "\<exists>vs. scan F R (mxc_holder M) db [VStr m, VStr kind, VStr room] [SIgnore, SIgnore, SIgnore, id_shape kind] = Some vs \<and>
    set vs = (\<lambda>x. RTuple [RUnit, RUnit, RUnit, id_value (fst x)]) `
      {x \<in> H. snd x = m \<and> holder_kind (fst x) = kind \<and> (\<exists>r. holder_room (fst x) = Some r \<and> starts_with r room)}"
proof (rule index_scan [OF assms(1) in_index(1) [OF assms(2)]])
  fix x
  assume "x \<in> H"
  then have x: "holder_ok (fst x)" "text_ok (snd x)" using in_index(5) [OF assms(2), of "fst x" "snd x"] by simp_all
  let ?P = "snd x = m \<and> holder_kind (fst x) = kind \<and> (\<exists>r. holder_room (fst x) = Some r \<and> starts_with r room)"
  show "starts_with (holder_row F x) (tuple_bytes F [VStr m, VStr kind, VStr room]) \<longleftrightarrow> ?P"
    using room_prefix [OF x(1) assms(4) x(2) assms(3,5), of F] by simp
  show "from_slice F (holder_row F x) (STuple [SIgnore, SIgnore, SIgnore, id_shape kind]) =
      Some (Inr (RTuple [RUnit, RUnit, RUnit, id_value (fst x)]))" if "?P"
    using that holder_row_reads(1) [OF x, of _ F] by (cases x) auto
qed simp

text \<open>Each step of the loop deletes holders of the room only, among them those of the media and kind it is about.\<close>

lemma release_positions_does:
  assumes "reads_ok R rows view" "indexes F M (keys_at rows db) H Q" "text_ok room" "text_ok m" "kind \<in> {KIND_EVENT, KIND_BACKUP}"
  shows "\<exists>D. H \<inter> in_room room m kind \<subseteq> D \<and> D \<subseteq> in_room room m kind \<and>
    (\<forall>t :: 'w txn. tables_ok M (tx_engine t) \<longrightarrow>
      (\<exists>t'. release_positions F R M db room m kind t = Some t' \<and> does F M (del_pairs D {}) t t'))"
proof -
  define mk where "mk b = (if kind = KIND_EVENT then Event room (unbias_g_seq b) else Backup room (unbias_g_seq b))" for b
  have "id_shape kind = SU64" using assms(5) by (auto simp: id_shape_def kind_defs)
  then obtain vs where vs: "scan F R (mxc_holder M) db [VStr m, VStr kind, VStr room] [SIgnore, SIgnore, SIgnore, SU64] = Some vs"
    "set vs = (\<lambda>x. RTuple [RUnit, RUnit, RUnit, id_value (fst x)]) `
      {x \<in> H. snd x = m \<and> holder_kind (fst x) = kind \<and> (\<exists>r. holder_room (fst x) = Some r \<and> starts_with r room)}"
    using room_scan [OF assms(1-4), of kind] assms(5) by auto
  define bs where "bs = map (u64_field 3) vs"
  define D where "D = (\<Union>b \<in> set bs. {(mk b, m)})"
  have ok: "holder_ok (mk b)" "holder_kind (mk b) = kind" "holder_room (mk b) = Some room" for b
    using assms(3,5) by (auto simp: mk_def)
  have "\<exists>t'. release_positions F R M db room m kind t = Some t' \<and> does F M (del_pairs D {}) t t'" if "tables_ok M (tx_engine t)" for t :: "'w txn"
  proof -
    have "release_positions F R M db room m kind t = try_each (\<lambda>b. del_holder_rows F M m (mk b)) bs t"
      by (simp add: release_positions_def vs(1) bs_def mk_def Let_def)
    moreover have "\<exists>t'. try_each (\<lambda>b. del_holder_rows F M m (mk b)) bs t = Some t' \<and>
        does F M (del_pairs (\<Union>b \<in> set bs. {(mk b, m)}) (\<Union>b \<in> set bs. {})) t t' \<and> (bs \<noteq> [] \<longrightarrow> tx_batch t' \<noteq> [])"
      using that ok(1) assms(4) by (intro try_each_does del_does)
    ultimately show ?thesis by (auto simp: D_def)
  qed
  moreover have "D \<subseteq> in_room room m kind" using ok by (auto simp: D_def in_room_def)
  moreover have "x \<in> D" if xs: "x \<in> H" "x \<in> in_room room m kind" for x
  proof -
    obtain h where x: "x = (h, m)" "holder_kind h = kind" "holder_room h = Some room" using xs(2) by (cases x) (auto simp: in_room_def)
    then obtain g where h: "h = mk (bias_g_seq g)" "h = Event room g \<or> h = Backup room g"
      using assms(5) by (cases h) (auto simp: mk_def kind_defs)
    have "RTuple [RUnit, RUnit, RUnit, id_value h] \<in> set vs"
      unfolding vs(2) using xs(1) x by (intro image_eqI [of _ _ x]) auto
    from imageI [OF this, of "u64_field 3"] have "bias_g_seq g \<in> set bs"
      using h(2) by (auto simp: bs_def u64_field_def [of _ "RTuple _"] numeral_3_eq_3)
    then show ?thesis using x(1) h(1) by (auto simp: D_def)
  qed
  ultimately show ?thesis by (intro exI [of _ D]) auto
qed

lemma release_members_does:
  assumes "reads_ok R rows view" "indexes F M (keys_at rows db) H Q" "text_ok room" "text_ok m"
    and "\<forall>u m. (RoomAvatar room u, m) \<in> H \<longrightarrow> is_user u"
  shows "\<exists>D. H \<inter> in_room room m KIND_ROOM_AVATAR \<subseteq> D \<and> D \<subseteq> in_room room m KIND_ROOM_AVATAR \<and>
    (\<forall>t :: 'w txn. tables_ok M (tx_engine t) \<longrightarrow>
      (\<exists>t'. release_members F R M is_user db room m t = Some t' \<and> does F M (del_pairs D {}) t t'))"
proof -
  obtain vs where vs: "scan F R (mxc_holder M) db [VStr m, VStr KIND_ROOM_AVATAR, VStr room] [SIgnore, SIgnore, SIgnore, SStr] = Some vs"
    "set vs = (\<lambda>x. RTuple [RUnit, RUnit, RUnit, id_value (fst x)]) ` {x \<in> H. snd x = m \<and> holder_kind (fst x) = KIND_ROOM_AVATAR \<and>
      (\<exists>r. holder_room (fst x) = Some r \<and> starts_with r room)}"
    using room_scan [OF assms(1-4), of KIND_ROOM_AVATAR] by (auto simp: id_shape_def)
  define us where "us = filter is_user (map (str_field 3) vs)"
  define D where "D = (\<Union>u \<in> set us. {(RoomAvatar room u, m)})"
  have users: "text_ok (str_field 3 v)" if v: "v \<in> set vs" for v
  proof -
    obtain h where h: "(h, m) \<in> H" "holder_kind h = KIND_ROOM_AVATAR" "v = RTuple [RUnit, RUnit, RUnit, id_value h]"
      using v unfolding vs(2) by auto
    then show ?thesis using in_index(5) [OF assms(2) h(1)] by (cases h) (auto simp: str_field_def numeral_3_eq_3 kind_defs)
  qed
  have "\<exists>t'. release_members F R M is_user db room m t = Some t' \<and> does F M (del_pairs D {}) t t'" if "tables_ok M (tx_engine t)" for t :: "'w txn"
  proof -
    have "holder_ok (RoomAvatar room u)" if "u \<in> set us" for u using that users assms(3) by (auto simp: us_def)
    then have "\<exists>t'. try_each (\<lambda>u. del_holder_rows F M m (RoomAvatar room u)) us t = Some t' \<and>
        does F M (del_pairs (\<Union>u \<in> set us. {(RoomAvatar room u, m)}) (\<Union>u \<in> set us. {})) t t' \<and> (us \<noteq> [] \<longrightarrow> tx_batch t' \<noteq> [])"
      using that assms(4) by (intro try_each_does del_does)
    then show ?thesis by (auto simp: release_members_def vs(1) us_def D_def)
  qed
  moreover have "D \<subseteq> in_room room m KIND_ROOM_AVATAR" by (auto simp: in_room_def D_def)
  moreover have "x \<in> D" if xs: "x \<in> H" "x \<in> in_room room m KIND_ROOM_AVATAR" for x
  proof -
    obtain u where x: "x = (RoomAvatar room u, m)"
      using xs(2) by (cases x; cases "fst x") (auto simp: in_room_def kind_defs)
    have "RTuple [RUnit, RUnit, RUnit, RStr u] \<in> set vs"
      unfolding vs(2) using xs(1) x by (intro image_eqI [of _ _ x]) auto
    from imageI [OF this, of "str_field 3"] have "u \<in> set us"
      using assms(5) [rule_format, of u m] xs(1) x by (simp add: str_field_def [of _ "RTuple _"] numeral_3_eq_3 us_def)
    then show ?thesis using x by (auto simp: D_def)
  qed
  ultimately show ?thesis by (intro exI [of _ D]) auto
qed

lemma room_kinds: "holder_room h = Some room \<Longrightarrow> holder_kind h \<in> {KIND_EVENT, KIND_BACKUP, KIND_ROOM_AVATAR}"
  by (cases h) auto

lemma del_pairs_twice: "(\<lambda>s. del_pairs D' E' (del_pairs D E s)) = del_pairs (D \<union> D') (E \<union> E')"
  by (auto simp: del_pairs_def fun_eq_iff)

lemma does_twice: "does F M (del_pairs D E) t t' \<Longrightarrow> does F M (del_pairs D' E') t' t'' \<Longrightarrow> does F M (del_pairs (D \<union> D') (E \<union> E')) t t''"
  using does_trans [of F M "del_pairs D E" t t' "del_pairs D' E'" t''] by (simp add: del_pairs_twice)

lemma release_room_media_does:
  assumes "reads_ok R rows view" "indexes F M (keys_at rows db) H Q" "text_ok room" "text_ok m"
    and "\<forall>u m. (RoomAvatar room u, m) \<in> H \<longrightarrow> is_user u"
  shows "\<exists>D. {x \<in> H. snd x = m \<and> holder_room (fst x) = Some room} \<subseteq> D \<and> D \<subseteq> {x. holder_room (fst x) = Some room} \<and>
    (\<forall>t :: 'w txn. tables_ok M (tx_engine t) \<longrightarrow>
      (\<exists>t'. release_room_media F R M is_user db room m t = Some t' \<and> does F M (del_pairs D {(room, m)}) t t' \<and> tx_batch t' \<noteq> []))"
proof -
  obtain De where De: "H \<inter> in_room room m KIND_EVENT \<subseteq> De" "De \<subseteq> in_room room m KIND_EVENT"
    "\<forall>t :: 'w txn. tables_ok M (tx_engine t) \<longrightarrow> (\<exists>t'. release_positions F R M db room m KIND_EVENT t = Some t' \<and> does F M (del_pairs De {}) t t')"
    using release_positions_does [OF assms(1-4) insertI1] by (elim exE conjE)
  obtain Db where Db: "H \<inter> in_room room m KIND_BACKUP \<subseteq> Db" "Db \<subseteq> in_room room m KIND_BACKUP"
    "\<forall>t :: 'w txn. tables_ok M (tx_engine t) \<longrightarrow> (\<exists>t'. release_positions F R M db room m KIND_BACKUP t = Some t' \<and> does F M (del_pairs Db {}) t t')"
    using release_positions_does [OF assms(1-4) insertI2 [OF singletonI]] by (elim exE conjE)
  obtain Dr where Dr: "H \<inter> in_room room m KIND_ROOM_AVATAR \<subseteq> Dr" "Dr \<subseteq> in_room room m KIND_ROOM_AVATAR"
    "\<forall>t :: 'w txn. tables_ok M (tx_engine t) \<longrightarrow> (\<exists>t'. release_members F R M is_user db room m t = Some t' \<and> does F M (del_pairs Dr {}) t t')"
    using release_members_does [OF assms] by (elim exE conjE)
  define D where "D = De \<union> Db \<union> Dr"
  have run: "\<exists>t'. release_room_media F R M is_user db room m t = Some t' \<and> does F M (del_pairs D {(room, m)}) t t' \<and> tx_batch t' \<noteq> []"
    if ok: "tables_ok M (tx_engine t)" for t :: "'w txn"
  proof -
    obtain t1 where t1: "release_positions F R M db room m KIND_EVENT t = Some t1" "does F M (del_pairs De {}) t t1"
      using De(3) [rule_format, OF ok] by (elim exE conjE)
    have ok1: "tables_ok M (tx_engine t1)" using ok does_engine [OF t1(2)] by simp
    obtain t2 where t2: "release_positions F R M db room m KIND_BACKUP t1 = Some t2" "does F M (del_pairs Db {}) t1 t2"
      using Db(3) [rule_format, OF ok1] by (elim exE conjE)
    have ok2: "tables_ok M (tx_engine t2)" using ok1 does_engine [OF t2(2)] by simp
    obtain t3 where t3: "release_members F R M is_user db room m t2 = Some t3" "does F M (del_pairs Dr {}) t2 t3"
      using Dr(3) [rule_format, OF ok2] by (elim exE conjE)
    have ok3: "tables_ok M (tx_engine t3)" using ok2 does_engine [OF t3(2)] by simp
    obtain t4 where t4: "del_room_rows F M room m t3 = Some t4" "does F M (del_pairs {} {(room, m)}) t3 t4" "tx_batch t4 \<noteq> []"
      using del_room_does [OF ok3 assms(3,4), of F] by (elim exE conjE)
    have "does F M (del_pairs (De \<union> Db \<union> Dr \<union> {}) ({} \<union> {} \<union> {} \<union> {(room, m)})) t t4"
      by (rule does_twice [OF does_twice [OF does_twice [OF t1(2) t2(2)] t3(2)] t4(2)])
    then show ?thesis using t1(1) t2(1) t3(1) t4(1,3) by (simp add: release_room_media_def D_def)
  qed
  have "{x \<in> H. snd x = m \<and> holder_room (fst x) = Some room} \<subseteq> D"
  proof (rule subsetI)
    fix x
    assume "x \<in> {x \<in> H. snd x = m \<and> holder_room (fst x) = Some room}"
    then have x: "x \<in> H \<inter> in_room room m (holder_kind (fst x))" "holder_room (fst x) = Some room" by (simp_all add: in_room_def)
    from room_kinds [OF x(2)] consider "holder_kind (fst x) = KIND_EVENT" | "holder_kind (fst x) = KIND_BACKUP" | "holder_kind (fst x) = KIND_ROOM_AVATAR"
      by blast
    then show "x \<in> D"
      by cases (use x(1) subsetD [OF De(1), of x] subsetD [OF Db(1), of x] subsetD [OF Dr(1), of x] in \<open>simp_all add: D_def\<close>)
  qed
  moreover have "D \<subseteq> {x. holder_room (fst x) = Some room}"
    unfolding D_def using De(2) Db(2) Dr(2) by (simp add: in_room_def subset_iff)
  ultimately show ?thesis using run by (intro exI [of _ D] conjI allI impI)
qed


text \<open>Whatever a room holds is in the index of the room, which is where a deletion looks.\<close>

definition room_indexed :: "(holder \<times> byte list) set \<Rightarrow> (byte list \<times> byte list) set \<Rightarrow> bool" where
  "room_indexed H Q \<longleftrightarrow> (\<forall>x \<in> H. \<forall>r. holder_room (fst x) = Some r \<longrightarrow> (r, snd x) \<in> Q)"

lemma room_indexed_ops:
  "room_indexed H Q \<Longrightarrow> room_indexed (fst (add_pair x (H, Q))) (snd (add_pair x (H, Q)))"
  "room_indexed H Q \<Longrightarrow> room_indexed (H - D) Q"
  by (auto simp: room_indexed_def add_pair_def split: option.splits)

lemma room_media:
  assumes "reads_ok R rows view" "indexes F M (keys_at rows db) H Q" "text_ok room"
  shows "\<exists>vs. scan F R (room_mxc M) db [VStr room, VInterfix] [SIgnore, SStr] = Some vs \<and>
    set (map (str_field 1) vs) = {m. (room, m) \<in> Q}"
proof -
  have "\<exists>vs. scan F R (room_mxc M) db [VStr room, VInterfix] [SIgnore, SStr] = Some vs \<and>
      set vs = (\<lambda>x. RTuple [RUnit, RStr (snd x)]) ` {x \<in> Q. fst x = room}"
  proof (rule index_scan [OF assms(1) in_index(3) [OF assms(2)]])
    fix x
    assume "x \<in> Q"
    then have x: "text_ok (fst x)" "text_ok (snd x)" using in_index(6) [OF assms(2), of "fst x" "snd x"] by simp_all
    show "starts_with (pair_row F x) (tuple_bytes F [VStr room, VInterfix]) \<longleftrightarrow> fst x = room"
      using x(1) assms(3) by (simp add: row_defs sep_prefix)
    show "from_slice F (pair_row F x) (STuple [SIgnore, SStr]) = Some (Inr (RTuple [RUnit, RStr (snd x)]))"
      by (rule read_texts [where vs = "[VStr (fst x), VStr (snd x)]"], intro tuple_more tuple_nil)
        (use x row_lengths(3) [of "fst x" "snd x" F] in \<open>simp_all add: pair_row_def\<close>)
  qed simp
  then obtain vs where vs: "scan F R (room_mxc M) db [VStr room, VInterfix] [SIgnore, SStr] = Some vs"
    "set vs = (\<lambda>x. RTuple [RUnit, RStr (snd x)]) ` {x \<in> Q. fst x = room}" by blast
  have "str_field 1 ` set vs = snd ` {x \<in> Q. fst x = room}" unfolding vs(2) by (simp add: image_image str_field_def)
  moreover have "snd ` {x \<in> Q. fst x = room} = {m. (room, m) \<in> Q}" by (auto intro: image_eqI [of _ snd "(room, _)"])
  ultimately have "set (map (str_field 1) vs) = {m. (room, m) \<in> Q}" by simp
  with vs(1) show ?thesis by (intro exI conjI)
qed

lemma release_room_commits:
  assumes "media_store_ok R rows view E C live changed known M e" "media_state F M rows live known W Ws H Q" "text_ok room"
    and "\<forall>u m. (RoomAvatar room u, m) \<in> H \<longrightarrow> is_user u" "room_indexed H Q"
  shows "\<exists>n t W'. release_room F R M running is_user (wd_db W) room (txn_new e) = Some (n, t) \<and> txn_execute E C t W = Some W' \<and>
    media_state F M rows live known W' Ws {x \<in> H. holder_room (fst x) \<noteq> Some room} {x \<in> Q. fst x \<noteq> room}"
proof -
  have ok: "reads_ok R rows view" "indexes F M (keys_at rows (wd_db W)) H Q"
    using assms(1,2) by (simp_all add: media_store_ok_def media_state_def)
  obtain vs where vs: "scan F R (room_mxc M) (wd_db W) [VStr room, VInterfix] [SIgnore, SStr] = Some vs"
    "set (map (str_field 1) vs) = {m. (room, m) \<in> Q}" using room_media [OF ok assms(3)] by (elim exE conjE)
  define ms where "ms = map (str_field 1) vs"
  have msQ: "set ms = {m. (room, m) \<in> Q}" unfolding ms_def by (rule vs(2))
  have txt_ok: "text_ok m" if "m \<in> set ms" for m using that in_index(6) [OF ok(2), of room m] by (simp add: msQ)
  have "\<forall>m \<in> set ms. \<exists>D. {x \<in> H. snd x = m \<and> holder_room (fst x) = Some room} \<subseteq> D \<and> D \<subseteq> {x. holder_room (fst x) = Some room} \<and>
    (\<forall>t :: collector txn. tables_ok M (tx_engine t) \<longrightarrow>
      (\<exists>t'. release_room_media F R M is_user (wd_db W) room m t = Some t' \<and> does F M (del_pairs D {(room, m)}) t t' \<and> tx_batch t' \<noteq> []))"
    using release_room_media_does [OF ok assms(3) txt_ok assms(4)] by (rule ballI)
  from bchoice [OF this] obtain D where D:
    "\<forall>m \<in> set ms. {x \<in> H. snd x = m \<and> holder_room (fst x) = Some room} \<subseteq> D m \<and> D m \<subseteq> {x. holder_room (fst x) = Some room} \<and>
    (\<forall>t :: collector txn. tables_ok M (tx_engine t) \<longrightarrow>
      (\<exists>t'. release_room_media F R M is_user (wd_db W) room m t = Some t' \<and> does F M (del_pairs (D m) {(room, m)}) t t' \<and> tx_batch t' \<noteq> []))"
    by (elim exE)
  have "\<exists>t'. try_each (release_room_media F R M is_user (wd_db W) room) ms (txn_new e) = Some (t' :: collector txn) \<and>
      does F M (del_pairs (\<Union>m \<in> set ms. D m) (\<Union>m \<in> set ms. {(room, m)})) (txn_new e) t' \<and> (ms \<noteq> [] \<longrightarrow> tx_batch t' \<noteq> [])"
    by (rule try_each_does) (use D tables_new [OF assms(1)] in simp_all)
  then obtain t :: "collector txn" where t: "try_each (release_room_media F R M is_user (wd_db W) room) ms (txn_new e) = Some t"
    "does F M (del_pairs (\<Union>m \<in> set ms. D m) (\<Union>m \<in> set ms. {(room, m)})) (txn_new e) t" by (elim exE conjE)
  have "release_room F R M running is_user (wd_db W) room (txn_new e) = Some (length ms, hand_to_collector running ms t)"
    using t(1) by (simp add: release_room_def vs(1) ms_def Let_def)
  moreover obtain W' where W': "txn_execute E C (hand_to_collector running ms t) W = Some W'"
    "media_state F M rows live known W' Ws (H - (\<Union>m \<in> set ms. D m)) (Q - (\<Union>m \<in> set ms. {(room, m)}))"
    using commit_applies [OF assms(1,2) t(2) hand_batch, of running ms] unfolding del_pairs_def fst_conv snd_conv by (elim exE conjE)
  moreover have H: "H - (\<Union>m \<in> set ms. D m) = {x \<in> H. holder_room (fst x) \<noteq> Some room}"
  proof -
    have Dm: "x \<in> D m \<Longrightarrow> holder_room (fst x) = Some room" "x \<in> H \<Longrightarrow> snd x = m \<Longrightarrow> holder_room (fst x) = Some room \<Longrightarrow> x \<in> D m"
      if "m \<in> set ms" for x m
      using D [THEN bspec, OF that, THEN conjunct1] D [THEN bspec, OF that, THEN conjunct2, THEN conjunct1] by blast+
    have "x \<in> (\<Union>m \<in> set ms. D m)" if "x \<in> H" "holder_room (fst x) = Some room" for x
    proof -
      have "snd x \<in> set ms" using assms(5) that by (simp add: room_indexed_def msQ)
      then show ?thesis using Dm(2) [of "snd x" x] that by blast
    qed
    then show ?thesis using Dm(1) by blast
  qed
  moreover have Q: "Q - (\<Union>m \<in> set ms. {(room, m)}) = {x \<in> Q. fst x \<noteq> room}" unfolding msQ by auto
  ultimately show ?thesis using W'(1) W'(2) [unfolded H Q] by (intro exI conjI)
qed


section \<open>The collector's decision\<close>

lemma first_polled: "plays p s (map Inr xs) \<Longrightarrow> fst (p s) = None \<longleftrightarrow> xs = []"
  by (cases xs) auto

lemma has_holders_iff:
  fixes F :: "('j, 'e) formats"
  assumes "reads_ok R rows view" "indexes F M (keys_at rows db) H Q" "text_ok m"
  shows "has_holders F R M db m = Some (\<exists>h. (h, m) \<in> H)"
proof -
  let ?cf = "tb_cf (mxc_holder M)" and ?p = "tuple_bytes F [VStr m, VInterfix]"
  have r: "rocks_ok (R ?cf) (rows ?cf) (view ?cf)" using assms(1) by (simp add: reads_ok_def)
  let ?hits = "filter (\<lambda>k. starts_with k ?p) (map fst (rows ?cf db))"
  let ?c = "(seek_stream (R ?cf) db ScanForward (Some ?p), False)"
  have "takeWhile (\<lambda>k. starts_with k ?p) (map fst (filter (\<lambda>kv. ?p \<le> fst kv) (rows ?cf db))) = ?hits"
    using prefix_block [OF rocks_okD(1) [OF r], of ?p db] by (simp add: takeWhile_map filter_map comp_def)
  moreover note plays_take_while [OF plays_from(1) [OF r, where d = db and k = ?p and f = fst], of "\<lambda>k. starts_with k ?p"]
  ultimately have "plays (try_take_while (\<lambda>k. starts_with k ?p) (poll_keys (R ?cf) :: (_, 'e db_error + byte list) poll)) ?c (map Inr ?hits)"
    unfolding polls_with by (simp only:)
  note first = first_polled [OF this]
  have "?hits = [] \<longleftrightarrow> (\<forall>k \<in> keys_at rows db ?cf. \<not> starts_with k ?p)" by (auto simp: filter_empty_conv keys_at_def)
  also have "\<dots> \<longleftrightarrow> (\<forall>x \<in> H. snd x \<noteq> m)"
  proof -
    have "starts_with (holder_row F x) ?p \<longleftrightarrow> snd x = m" if "x \<in> H" for x
      using in_index(5) [OF assms(2), of "fst x" "snd x"] that assms(3) by (simp add: row_defs sep_prefix)
    then show ?thesis unfolding in_index(1) [OF assms(2)] by simp
  qed
  finally have "?hits = [] \<longleftrightarrow> \<not> (\<exists>h. (h, m) \<in> H)" by auto
  moreover have "serialize F (VTuple [VStr m, VInterfix]) = Some (Inr ?p)" by (rule serialize_tuple) simp
  ultimately show ?thesis using first by (simp add: has_holders_def with_key_def del: not_None_eq)
qed

definition removable :: "(u32 \<Rightarrow> 'db \<Rightarrow> row list) \<Rightarrow> media_tables \<Rightarrow> ('m, 's) media_service \<Rightarrow> 'db \<Rightarrow> (holder \<times> byte list) set \<Rightarrow> byte list \<Rightarrow> bool" where
  "removable rows M S db H m \<longleftrightarrow> (\<exists>parsed. parse_mxc S m = Some parsed \<and> is_local S parsed) \<and>
     (\<exists>v. map_of (rows (tb_cf (mxc_managed M)) db) m = Some v \<and> length v = 8) \<and> \<not> (\<exists>h. (h, m) \<in> H)"

lemma is_removable_iff:
  assumes "reads_ok R rows view" "indexes F M (keys_at rows db) H Q" "text_ok m"
  shows "is_removable F R M S db m = Some (removable rows M S db H m)"
proof -
  have r: "rocks_ok (R (tb_cf (mxc_managed M))) (rows (tb_cf (mxc_managed M))) (view (tb_cf (mxc_managed M)))"
    using assms(1) by (simp add: reads_ok_def)
  show ?thesis
    by (auto simp: is_removable_def removable_def has_holders_iff [OF assms] managed_since_def map_get_lookup [OF r] split: option.splits)
qed


text \<open>The sweep looks at managed media that is older than the protection period; the saturating arithmetic is exact here.\<close>

lemma protected_since:
  fixes created now grace :: u64
  shows "created < u64_saturating_sub now (u64_saturating_mul grace 1000) \<longleftrightarrow> unat created + unat grace * 1000 < unat now"
proof (cases "unat grace * 1000 < 2 ^ 64")
  case True
  have "unat (grace * 1000) = unat grace * 1000" using True by (simp add: unat_word_ariths)
  then show ?thesis using True
    by (auto simp: u64_saturating_sub_def u64_checked_sub_def u64_saturating_mul_def word_less_nat_alt word_le_nat_alt unat_sub)
next
  case False
  have n: "now \<le> - 1" "unat now < 2 ^ 64" using unat_less_2p [of now] by simp_all
  have "u64_saturating_sub now (- 1) = 0"
    using n(1) antisym [of now "- 1"] by (auto simp: u64_saturating_sub_def u64_checked_sub_def)
  then show ?thesis using False n(2) by (simp add: u64_saturating_mul_def)
qed

lemma set_map_filter: "set (List.map_filter f xs) = {c. \<exists>x. x \<in> set xs \<and> f x = Some c}"
  by (induction xs) (auto simp: List.map_filter_simps split: option.splits)

lemma sweep_candidates_exact:
  assumes "reads_ok R rows view"
  shows "\<exists>cs. sweep_candidates R M lossy grace now db = Some cs \<and>
    set cs = {lossy k |k v. (k, v) \<in> set (rows (tb_cf (mxc_managed M)) db) \<and> length v = 8 \<and>
      unat (u64_of_be v) + unat grace * 1000 < unat now}"
proof -
  let ?cf = "tb_cf (mxc_managed M)"
  have r: "rocks_ok (R ?cf) (rows ?cf) (view ?cf)" using assms by (simp add: reads_ok_def)
  let ?f = "\<lambda>(k, v). let created = (if length v = 8 then u64_of_be v else - 1)
    in if created < u64_saturating_sub now (u64_saturating_mul grace 1000) then Some (lossy k) else None"
  have f: "?f (k, v) = Some c \<longleftrightarrow> c = lossy k \<and> length v = 8 \<and> unat (u64_of_be v) + unat grace * 1000 < unat now" for k v c
    using word_order.extremum_strict [of "u64_saturating_sub now (u64_saturating_mul grace 1000)"] by (auto simp: Let_def protected_since)
  have "sweep_candidates R M lossy grace now db = Some (List.map_filter ?f (rows ?cf db))"
    by (simp add: sweep_candidates_def scans_from(1) [OF r] Let_def)
  moreover have "set (List.map_filter ?f (rows ?cf db)) = {lossy k |k v. (k, v) \<in> set (rows ?cf db) \<and> length v = 8 \<and>
      unat (u64_of_be v) + unat grace * 1000 < unat now}"
    unfolding set_map_filter split_paired_Ex f by blast
  ultimately show ?thesis by (intro exI conjI)
qed


section \<open>Properties\<close>

text \<open>C40: What a redaction releases. Once the transaction of \<open>release_all_of\<close> is committed, the holder is gone from every
  media it held, no other holder has changed, and every media it held has been handed to the running collector. This is
  so unless the stored form of the position of an event holds the separator byte: then no holder of a media whose URI has
  eight bytes or more is removed, because the reader of the index takes the bytes behind that byte for the media.
\<close>

theorem release_all_of_exact:
  assumes "media_store_ok R rows view E C live changed known M e" "media_state F M rows live known W Ws H Q" "holder_ok h"
  shows "\<exists>ms t W' H'. release_all_of F R M running (wd_db W) h (txn_new e) = Some (ms, t) \<and> txn_execute E C t W = Some W' \<and>
    media_state F M rows live known W' Ws H' Q \<and> wd_rest W' = (if running \<and> ms \<noteq> [] then send_all ms (wd_rest W) else wd_rest W) \<and>
    (if seq_hidden h then {x \<in> H. 8 \<le> length (snd x)} \<subseteq> H' else H' = {x \<in> H. fst x \<noteq> h} \<and> {m. (h, m) \<in> H} \<subseteq> set ms)"
  by (rule release_all_of_commits [OF assms])

text \<open>An engine of tables that are lists of insertions\<close>

type_synonym sample_db = "u32 \<Rightarrow> row list"

definition table_op :: "batch_op \<Rightarrow> sample_db \<Rightarrow> sample_db" where
  "table_op opr db = (case opr of
     PutOp cf k v \<Rightarrow> db(cf := (k, v) # db cf)
   | DeleteOp cf k \<Rightarrow> db(cf := filter (\<lambda>kv. fst kv \<noteq> k) (db cf))
   | MergeOp cf k v \<Rightarrow> db(cf := (k, v) # db cf))"

definition tables_engine :: "sample_db engine" where
  "tables_engine = \<lparr> eng_write = (\<lambda>ops db. Inr (fold table_op ops db)), eng_put = (\<lambda>cf k v db. Inr (table_op (PutOp cf k v) db)),
     eng_delete = (\<lambda>cf k db. Inr (table_op (DeleteOp cf k) db)), eng_flush = Inr, eng_repr = sample_repr, eng_known_cf = (\<lambda>cf. cf < 7) \<rparr>"

definition tables_rocks :: "u32 \<Rightarrow> (sample_db, (row list \<times> nat option) option) rocks" where
  "tables_rocks cf = \<lparr>
     it_open = (\<lambda>t db. it_open sample_rocks t (db cf)), it_seek = it_seek sample_rocks,
     it_seek_for_prev = it_seek_for_prev sample_rocks, it_seek_to_first = it_seek_to_first sample_rocks,
     it_seek_to_last = it_seek_to_last sample_rocks, it_next = it_next sample_rocks, it_prev = it_prev sample_rocks,
     it_item = it_item sample_rocks, it_status = it_status sample_rocks, db_get = (\<lambda>t k db. db_get sample_rocks t k (db cf)) \<rparr>"

definition tables_rows :: "u32 \<Rightarrow> sample_db \<Rightarrow> row list" where
  "tables_rows cf db = sample_rows (db cf)"

definition sample_tables :: media_tables where
  "sample_tables = \<lparr> mxc_holder = \<lparr> tb_engine = 0, tb_cf = 0 \<rparr>, holder_mxc = \<lparr> tb_engine = 0, tb_cf = 1 \<rparr>,
     room_mxc = \<lparr> tb_engine = 0, tb_cf = 2 \<rparr>, mxc_room = \<lparr> tb_engine = 0, tb_cf = 3 \<rparr>, mxc_managed = \<lparr> tb_engine = 0, tb_cf = 4 \<rparr>,
     userid_attachmentwarned = \<lparr> tb_engine = 0, tb_cf = 5 \<rparr>, userid_lastlegacyupload = \<lparr> tb_engine = 0, tb_cf = 6 \<rparr> \<rparr>"

lemma tables_rocks_ok: "rocks_ok (tables_rocks cf) (tables_rows cf) id"
proof -
  have "view_ok (tables_rocks cf) id i xs p = view_ok sample_rocks id i xs p" for i xs p
    by (simp add: view_ok_def tables_rocks_def)
  then show ?thesis
    using sample_rocks_ok unfolding rocks_ok_def tables_rows_def by (simp add: tables_rocks_def)
qed

lemma sample_keys: "fst ` set (sample_rows xs) = fst ` set xs"
proof (induction xs)
  case (Cons kv xs)
  have "fst ` set (btree_insert k v m) = insert k (fst ` set m)" for k v and m :: "row list"
    by (force simp: btree_insert_def not_less_iff_gr_or_eq)
  then show ?case using Cons by (cases kv) (simp add: sample_rows_def)
qed (simp add: sample_rows_def)

lemma tables_engine_ok: "writes_ok tables_engine tables_rows"
proof -
  have at: "keys_at tables_rows db = (\<lambda>cf. fst ` set (db cf))" for db by (simp add: fun_eq_iff keys_at_def tables_rows_def sample_keys)
  have "keys_at tables_rows (table_op opr db) = apply_keys opr (keys_at tables_rows db)" for opr db
    by (cases opr) (auto simp: at table_op_def apply_keys_def fun_eq_iff)
  then have "keys_at tables_rows (fold table_op ops db) = fold apply_keys ops (keys_at tables_rows db)" for ops db
    by (induction ops arbitrary: db) simp_all
  then show ?thesis by (simp add: writes_ok_def tables_engine_def)
qed

lemma sample_tables_ok: "media_store_ok tables_rocks tables_rows (\<lambda>_. id) tables_engine sample_channels sample_live sample_changed sample_known sample_tables 0"
  using tables_rocks_ok tables_engine_ok sample_repr_ok sample_channels_ok
  by (simp add: media_store_ok_def reads_ok_def tables_engine_def tables_ok_def sample_tables_def)


text \<open>A world in which the pairs of a list hold, nothing is watched and the collector runs\<close>

definition room_pairs :: "(holder \<times> byte list) list \<Rightarrow> (byte list \<times> byte list) list" where
  "room_pairs xs = List.map_filter (\<lambda>x. map_option (\<lambda>r. (r, snd x)) (holder_room (fst x))) xs"

definition holding :: "(holder \<times> byte list) list \<Rightarrow> (sample_db, nat, sample_heap, collector) world" where
  "holding xs = \<lparr> wd_db = (\<lambda>cf. if cf = 0 then map (\<lambda>x. (holder_row plain_formats x, [])) xs
       else if cf = 1 then map (\<lambda>x. (media_row plain_formats x, [])) xs
       else if cf = 2 then map (\<lambda>q. (pair_row plain_formats q, [])) (room_pairs xs)
       else if cf = 3 then map (\<lambda>q. (back_row plain_formats q, [])) (room_pairs xs)
       else if cf = 4 then map (\<lambda>x. (snd x, u64_to_be 0)) xs else []),
     wd_corks = 0, wd_watchers = (\<lambda>_. []), wd_channels = ([], [], []), wd_rest = \<lparr> receiving = True, inbox = [] \<rparr> \<rparr>"

lemma room_pairs_set: "set (room_pairs xs) = {(r, snd x) |r x. x \<in> set xs \<and> holder_room (fst x) = Some r}"
  by (auto simp: room_pairs_def set_map_filter)

lemma holding_state:
  assumes "\<forall>x \<in> set xs. holder_ok (fst x) \<and> text_ok (snd x)"
  shows "media_state plain_formats sample_tables tables_rows sample_live sample_known (holding xs) (\<lambda>_. {}) (set xs) (set (room_pairs xs))"
    "room_indexed (set xs) (set (room_pairs xs))"
proof -
  have at: "keys_at tables_rows db cf = fst ` set (db cf)" for db cf by (simp add: keys_at_def tables_rows_def sample_keys)
  have "text_ok (fst q) \<and> text_ok (snd q)" if "q \<in> set (room_pairs xs)" for q
    using that assms room_text unfolding room_pairs_set by auto
  then have "indexes plain_formats sample_tables (keys_at tables_rows (wd_db (holding xs))) (set xs) (set (room_pairs xs))"
    using assms by (simp add: indexes_def at holding_def sample_tables_def image_image)
  moreover have "world_inv sample_live sample_known (holding xs) (\<lambda>_. {})"
    by (simp add: world_inv_def watch_inv_def holding_def btree_def)
  ultimately show "media_state plain_formats sample_tables tables_rows sample_live sample_known (holding xs) (\<lambda>_. {}) (set xs) (set (room_pairs xs))"
    by (simp add: media_state_def)
  show "room_indexed (set xs) (set (room_pairs xs))" by (auto simp: room_indexed_def room_pairs_set)
qed

text \<open>The media \<open>mxc://s/abc\<close> and the rooms \<open>!r\<close> and \<open>!r2\<close>\<close>

definition sample_mxc :: "byte list" where
  "sample_mxc = [0x6D, 0x78, 0x63, 0x3A, 0x2F, 0x2F, 0x73, 0x2F, 0x61, 0x62, 0x63]"

definition sample_room :: "byte list" where "sample_room = [0x21, 0x72]"

definition other_room :: "byte list" where "other_room = [0x21, 0x72, 0x32]"

lemma sample_texts [simp]: "text_ok sample_mxc" "text_ok sample_room" "text_ok other_room"
  by (simp_all add: text_ok_def sample_mxc_def sample_room_def other_room_def utf8_lead_def)

lemma last_byte: "u64_to_be w = be_bytes 7 (unat w div 256) @ [word_of_nat (unat w)]"
  using be_bytes.simps(2) [of 7 "unat w"] by (simp add: u64_to_be_def)

text \<open>After the release of the event at position 255 its media is still held.\<close>

theorem release_all_of_exact_witness:
  "\<exists>ms t W'. release_all_of plain_formats tables_rocks sample_tables True (wd_db (holding [(Event sample_room 255, sample_mxc)]))
      (Event sample_room 255) (txn_new 0) = Some (ms, t) \<and>
    txn_execute tables_engine sample_channels t (holding [(Event sample_room 255, sample_mxc)]) = Some W' \<and>
    holder_row plain_formats (Event sample_room 255, sample_mxc) \<in> keys_at tables_rows (wd_db W') 0"
proof -
  let ?x = "(Event sample_room 255, sample_mxc)"
  have ok: "\<forall>x \<in> set [?x]. holder_ok (fst x) \<and> text_ok (snd x)" by simp
  have hidden: "seq_hidden (Event sample_room 255)" by (simp add: last_byte bias_g_seq_def i64_MIN_def SEP_def)
  have "holder_ok (Event sample_room 255)" by simp
  from release_all_of_exact [OF sample_tables_ok holding_state(1) [OF ok] this, of True]
  obtain ms t W' H' where "release_all_of plain_formats tables_rocks sample_tables True (wd_db (holding [?x])) (Event sample_room 255) (txn_new 0) = Some (ms, t)"
    "txn_execute tables_engine sample_channels t (holding [?x]) = Some W'"
    "media_state plain_formats sample_tables tables_rows sample_live sample_known W' (\<lambda>_. {}) H' (set (room_pairs [?x]))"
    "{x \<in> set [?x]. 8 \<le> length (snd x)} \<subseteq> H'" using hidden by auto
  moreover have "?x \<in> H'" using calculation(4) by (auto simp: sample_mxc_def)
  ultimately show ?thesis by (auto simp: media_state_def indexes_def sample_tables_def)
qed


text \<open>
  What deleting a room releases. Where the index of rooms covers what rooms hold and the per-room avatars name users,
  the committed transaction of \<open>release_room\<close> leaves exactly the holders that are not of the room, also for rooms whose
  identifier begins with that of the deleted one, and the index keeps covering what rooms hold.
\<close>

lemma release_room_exact:
  assumes "media_store_ok R rows view E C live changed known M e" "media_state F M rows live known W Ws H Q" "text_ok room"
    and "\<forall>u m. (RoomAvatar room u, m) \<in> H \<longrightarrow> is_user u" "room_indexed H Q"
  shows "\<exists>n t W'. release_room F R M running is_user (wd_db W) room (txn_new e) = Some (n, t) \<and> txn_execute E C t W = Some W' \<and>
    media_state F M rows live known W' Ws {x \<in> H. holder_room (fst x) \<noteq> Some room} {x \<in> Q. fst x \<noteq> room} \<and>
    room_indexed {x \<in> H. holder_room (fst x) \<noteq> Some room} {x \<in> Q. fst x \<noteq> room}"
proof -
  have "room_indexed {x \<in> H. holder_room (fst x) \<noteq> Some room} {x \<in> Q. fst x \<noteq> room}"
    using assms(5) by (auto simp: room_indexed_def)
  then show ?thesis using release_room_commits [OF assms, of running] by (elim exE conjE) (intro exI conjI)
qed

lemma release_room_exact_example:
  "\<exists>n t W'. release_room plain_formats tables_rocks sample_tables True (\<lambda>u. True)
      (wd_db (holding [(Event sample_room 255, sample_mxc), (Event other_room 1, sample_mxc)])) sample_room (txn_new 0) = Some (n, t) \<and>
    txn_execute tables_engine sample_channels t (holding [(Event sample_room 255, sample_mxc), (Event other_room 1, sample_mxc)]) = Some W' \<and>
    keys_at tables_rows (wd_db W') 0 = {holder_row plain_formats (Event other_room 1, sample_mxc)}"
proof -
  let ?xs = "[(Event sample_room 255, sample_mxc), (Event other_room 1, sample_mxc)]"
  have ok: "\<forall>x \<in> set ?xs. holder_ok (fst x) \<and> text_ok (snd x)" by simp
  have "\<forall>u m. (RoomAvatar sample_room u, m) \<in> set ?xs \<longrightarrow> True" by simp
  from release_room_exact [OF sample_tables_ok holding_state(1) [OF ok] sample_texts(2) this holding_state(2) [OF ok], of True]
  obtain n t W' where r: "release_room plain_formats tables_rocks sample_tables True (\<lambda>u. True) (wd_db (holding ?xs)) sample_room (txn_new 0) = Some (n, t)"
    "txn_execute tables_engine sample_channels t (holding ?xs) = Some W'"
    "media_state plain_formats sample_tables tables_rows sample_live sample_known W' (\<lambda>_. {})
      {x \<in> set ?xs. holder_room (fst x) \<noteq> Some sample_room} {x \<in> set (room_pairs ?xs). fst x \<noteq> sample_room}"
    by (elim exE conjE)
  have "{x \<in> set ?xs. holder_room (fst x) \<noteq> Some sample_room} = {(Event other_room 1, sample_mxc)}"
    by (auto simp: sample_room_def other_room_def)
  then have "keys_at tables_rows (wd_db W') 0 = {holder_row plain_formats (Event other_room 1, sample_mxc)}"
    using r(3) by (simp add: media_state_def indexes_def sample_tables_def)
  with r(1,2) show ?thesis by (intro exI conjI)
qed

text \<open>
  What the collector and the sweep may remove. The collector asks the media service to remove a media exactly if its
  URI is one of this server, the media has a creation time and nothing holds it, and otherwise changes nothing. The sweep
  considers exactly the managed media that was created longer ago than the protection period, whatever the clock and the
  period are.
\<close>

lemma collector_spares_held:
  assumes "media_store_ok R rows view E C live changed known M e" "media_state F M rows live known W Ws H Q" "text_ok m"
  shows "collect_media F R M S m W =
      (if removable rows M S (wd_db W) H m then map_option snd (remove_media S m GarbageCollected W) else Some W) \<and>
    (\<exists>cs. sweep_candidates R M lossy grace now (wd_db W) = Some cs \<and>
      set cs = {lossy k |k v. (k, v) \<in> set (rows (tb_cf (mxc_managed M)) (wd_db W)) \<and> length v = 8 \<and>
        unat (u64_of_be v) + unat grace * 1000 < unat now})"
proof -
  have ok: "reads_ok R rows view" "indexes F M (keys_at rows (wd_db W)) H Q"
    using assms(1,2) by (simp_all add: media_store_ok_def media_state_def)
  show ?thesis
    using sweep_candidates_exact [OF ok(1), of M lossy grace now "wd_db W"]
    by (simp add: collect_media_def is_removable_iff [OF ok assms(3)])
qed

text \<open>A held media and a service that would remove anything\<close>

lemma collector_spares_held_example:
  "collect_media plain_formats tables_rocks sample_tables
      \<lparr> parse_mxc = Some, is_local = (\<lambda>_. True), media_collect = (\<lambda>_ _ W. Some (True, holding [])), media_gc_enabled = True \<rparr>
      sample_mxc (holding [(Avatar [0x61], sample_mxc)]) = Some (holding [(Avatar [0x61], sample_mxc)])"
proof -
  let ?S = "\<lparr> parse_mxc = Some, is_local = (\<lambda>_. True), media_collect = (\<lambda>_ _ W. Some (True, holding [])), media_gc_enabled = True \<rparr>"
  have ok: "\<forall>x \<in> set [(Avatar [0x61], sample_mxc)]. holder_ok (fst x) \<and> text_ok (snd x)"
    by (simp add: text_ok_def [of "[0x61]"] utf8_lead_def)
  have "\<not> removable tables_rows sample_tables ?S (wd_db (holding [(Avatar [0x61], sample_mxc)])) (set [(Avatar [0x61], sample_mxc)]) sample_mxc"
    by (auto simp: removable_def)
  then show ?thesis
    using collector_spares_held [OF sample_tables_ok holding_state(1) [OF ok] sample_texts(1), THEN conjunct1, of ?S] by simp
qed

end
