(* ===== verification/Spec2Isabelle.thy ===== *)
theory Spec2Isabelle
  imports Prelude Codec Auth_Properties Topo_Sort Conflicts Power_Sort Mainline Mainline_Order Iterative_Auth Resolve Resolve_Properties
    Wbf_Vocab Wbf_Events Two_Phase_Counter Pdu_Position Pdu_Seq State_Compressor Record_Codec Db_Watch Db_Cursor Db_Txn
    Counter_Merge Media_Refs Media_Holders Media_Properties
begin

text \<open>
  A verification library for the parts of the homeserver that decide what a room's state is and where its events are
  found. Paths are those of the crates under \<^verbatim>\<open>src/\<close>.

  \<^bold>\<open>The program.\<close> A room is a graph of signed events. An event that arrives is checked against the authorization rules
  of the room version; when the graph forks, state resolution computes one state from the states of the forks; the
  state is saved in layers of differences under short numbers; the event gets a position from a server-wide counter and
  is stored under a key that orders the room's timeline; clients read timelines over a binary pack protocol. Tables are
  written in transactions that wake those who wait for their keys; media stays as long as something holds it.

  \<^bold>\<open>Conventions.\<close> \<^verbatim>\<open>Result\<close> is a sum with the error on the left, composed by \<open>rbind\<close>, \<open>rmapM\<close> and \<open>rfoldM\<close>; code that may
  also panic or not end has the type \<open>('e, 'a) comp\<close>, an option of a result composed by \<open>cbind\<close>. Hash maps and ordered
  maps are association lists, \<^verbatim>\<open>BTreeSet\<close>s are finite sets, tables of the database are maps. Integers are words where
  bits or wrap-around matter (packs, keys, counts) and natural numbers with the checks of the code written out elsewhere
  (\<open>checked_add\<close>, \<open>sat_add\<close>, bound \<open>usize_max\<close>). What the code leaves to the scheduler (the order in which futures
  finish, the iteration order of a hash map) is an argument \<open>schedule\<close>, and the theorems hold for all of them. Libraries
  are arguments: the deserializers and the order of event types of ruma are the record \<open>ruma\<close>; CRC-32C, JSON parsing, the
  SHA-256 digest, the LRU cache, the join of two futures, watch channels and RocksDB (iterators, point reads, batches) are
  function arguments with named hypotheses.

  \<^bold>\<open>Theories and sources.\<close>

  \<^item> \<open>Prelude\<close>, \<open>Ordered\<close>, \<open>Codec\<close>: results, checked integers, association lists; comparison, sorting and binary search of
    the standard library; big-endian integers and byte slices (\<^verbatim>\<open>core/utils/bytes.rs\<close>) with the interface of a
    fixed-width codec.
  \<^item> \<open>Errors\<close>: \<^verbatim>\<open>core/error\<close>. \<open>Room_Events\<close>: event views, \<^verbatim>\<open>service/rooms/state_res/events\<close>.
  \<^item> \<open>Auth_Types\<close>, \<open>Room_Member\<close>, \<open>Event_Auth\<close>: \<^verbatim>\<open>state_res/fetch_state.rs\<close> and \<^verbatim>\<open>state_res/event_auth\<close>, one definition per
    rule function. \<open>Auth_Properties\<close> has the exact conditions of acceptance and the safety theorems.
  \<^item> \<open>Topo_Sort\<close>: \<^verbatim>\<open>state_res/topological_sort.rs\<close>, Kahn's algorithm over a heap, equal to the least order of its
    specification.
  \<^item> \<open>Conflicts\<close>, \<open>Power_Sort\<close>, \<open>Mainline\<close>, \<open>Iterative_Auth\<close>, \<open>Resolve\<close>: the files of \<^verbatim>\<open>state_res/resolve\<close> and
    \<^verbatim>\<open>resolve.rs\<close>, in the order of the algorithm. \<open>Mainline_Order\<close> states the mainline order of the specification, the
    relation \<open>auth_run\<close> of \<open>Iterative_Auth\<close> the checks against the state built so far, and \<open>resolution_steps\<close> of \<open>Resolve\<close>
    the whole algorithm, without the code's maps, streams and schedules.
  \<^item> \<open>Subgraph_Walk\<close>, \<open>Subgraph_Stops\<close>, \<open>Conflicted_Subgraph\<close>, \<open>Subgraph_Sim\<close>, \<open>Subgraph_Refines\<close>, \<open>Subgraph_Driver\<close>:
    \<^verbatim>\<open>resolve/conflicted_subgraph.rs\<close>, a concurrent depth-first search with parked walkers, and the abstract search it
    refines. \<open>Resolve_Properties\<close> has the theorems on the composition.
  \<^item> \<open>State_Compressor\<close>: \<^verbatim>\<open>service/rooms/state_compressor/mod.rs\<close> and the creation of state numbers in
    \<^verbatim>\<open>service/rooms/short/mod.rs\<close>.
  \<^item> \<open>Two_Phase_Counter\<close>: \<^verbatim>\<open>core/utils/two_phase_counter.rs\<close> as a state machine.
  \<^item> \<open>Pdu_Position\<close>, \<open>Pdu_Seq\<close>: \<^verbatim>\<open>core/matrix/pdu/count.rs\<close>, \<^verbatim>\<open>id.rs\<close>, \<^verbatim>\<open>raw_id.rs\<close>, \<^verbatim>\<open>seq.rs\<close> and the scans of
    \<^verbatim>\<open>service/rooms/timeline\<close>.
  \<^item> \<open>Wbf_Pack\<close>, \<open>Wbf_Vocab\<close>, \<open>Wbf_Events\<close>: \<^verbatim>\<open>core/wbf\<close>, the pack format, its ids and codes, and its event lists.
  \<^item> \<open>Record_Codec\<close>: \<^verbatim>\<open>database/ser.rs\<close> and \<^verbatim>\<open>database/de.rs\<close>, keys and values as bytes. \<open>Db_Watch\<close>, \<open>Db_Cursor\<close>,
    \<open>Db_Txn\<close>: watchers, scans and point queries, and transactions (\<^verbatim>\<open>database/map\<close>, \<^verbatim>\<open>database/stream\<close>,
    \<^verbatim>\<open>database/txn.rs\<close>). \<open>Counter_Merge\<close>: the merge operator of counter tables, \<^verbatim>\<open>database/engine/merge.rs\<close>.
  \<^item> \<open>Media_Refs\<close>: \<^verbatim>\<open>service/media_refs\<close>, who holds which media, and the collector. \<open>Media_Holders\<close> and \<open>Media_Properties\<close>
    relate its tables to a set of pairs of a holder and a media item.

  \<^bold>\<open>What is shown.\<close>

  \<^item> Resolution: it returns for every schedule; the result depends on the forks only as a set and on no schedule; it is the
    state the algorithm of the specification builds, with each event judged against the state built so far, and what the
    forks agree on put back at the end; the full conflicted set is that of the specification; the power and mainline
    sorts return the events of their specification in its order.
  \<^item> Authorization: the exact conditions under which power levels events, kicks, bans, the lifting of bans, joins and the
    rules without state are accepted; banned users do not join, third-party invites are signed.
  \<^item> State storage: a saved state loads as itself in at most four layers, other states are untouched, errors change
    nothing. The hash is the digest of the joined entries, assumed only not to collide on the states held.
  \<^item> Counter: the number given to readers is final, never moves back, and reaches the last number drawn.
  \<^item> Timeline: keys round-trip and order as counts do; a scan returns exactly what lies beyond its position, except at the
    positions next to zero, where it is shown to go wrong.
  \<^item> Packs: builder and decoder are inverse, decoding never panics and accepts exactly the packs, damage to the
    length, header, meta or data is reported as what it is, ids and event lists round-trip, pack cuts and windows keep their caps.
  \<^item> Database: tuples round-trip and prefixes find exactly the keys that begin with them; scans, point queries and
    deletions under a prefix return or remove exactly the rows asked for; a commit wakes those who wait for its keys, and
    a future that waits stays registered; counter rows count, wherever the operands are cut.
  \<^item> Media: releasing a holder or a room removes exactly its rows, the collector spares whatever is held, and an event whose
    stored position contains the separator byte is shown to keep its media.

  \<^bold>\<open>Termination, fuel and bounds.\<close> No definition has fuel. Loops are structural or have a measure; the search for
  auth chains, the mainline walk, the concurrent search and the load of layers may run forever on bad data and are partial
  functions into option, so not returning is \<open>None\<close>, and the theorems show that they return. A \<^verbatim>\<open>usize\<close> is taken to have 64
  bits.

  \<^bold>\<open>Not modelled.\<close> The services that fetch, verify and store events (federation, sending, membership, the event handler),
  the request handlers, the opening and options of RocksDB, media files, users, configuration and start-up: their behaviour is effects of
  network, files and libraries, and what the modelled parts rely on from them enters as arguments and hypotheses. Tracing,
  metrics and debug assertions are left out; the debug assertions of the counter are proved. Poisoned locks are not
  modelled. Cryptography is an argument wherever it is called.
\<close>

end
